(* ===== verification/OS_Prelude.thy ===== *)
theory OS_Prelude
  imports Main "HOL-Library.Word"
begin

text \<open>
  Shared vocabulary of the OS/161 development: the error numbers of
  \<^verbatim>\<open>kern/errno.h\<close>, the outcome type of a kernel routine (it returns, it panics, or it
  waits for another thread), machine-word abbreviations and the list lemmas that the
  component theories use.
\<close>

named_theorems kstep \<open>unfolding of one kernel routine into its branches\<close>
named_theorems kinv \<open>preservation lemmas of the component invariants\<close>

type_synonym u8 = "8 word"
type_synonym u32 = "32 word"
type_synonym u64 = "64 word"

section \<open>Error numbers (kern/errno.h)\<close>

datatype (plugins only: code size) errno =
    ENOSYS | ENOMEM | EAGAIN | EINTR | EFAULT | ENAMETOOLONG | EINVAL
  | EPERM | EACCES | EMPROC | ENPROC | ENOEXEC | E2BIG | ESRCH
  | ECHILD | ENOTDIR | EISDIR | ENOENT | ELOOP | ENOTEMPTY | EEXIST
  | EMLINK | EXDEV | ENODEV | ENXIO | EBUSY | EMFILE | ENFILE
  | EBADF | EIOCTL | EIO | ESPIPE | EPIPE | EROFS | ENOSPC
  | EDQUOT | EFBIG | EFTYPE | EDOM | ERANGE | EILSEQ | ENOTSOCK
  | EISSOCK | EISCONN | ENOTCONN | ESHUTDOWN | EPFNOSUPPORT | ESOCKTNOSUPPORT | EPROTONOSUPPORT
  | EPROTOTYPE | EAFNOSUPPORT | ENOPROTOOPT | EADDRINUSE | EADDRNOTAVAIL | ENETDOWN | ENETUNREACH
  | EHOSTDOWN | EHOSTUNREACH | ECONNREFUSED | ETIMEDOUT | ECONNRESET | EMSGSIZE | ENOTSUP

primrec errno_code :: "errno \<Rightarrow> nat" where
  "errno_code ENOSYS = 1"
| "errno_code ENOMEM = 3"
| "errno_code EAGAIN = 4"
| "errno_code EINTR = 5"
| "errno_code EFAULT = 6"
| "errno_code ENAMETOOLONG = 7"
| "errno_code EINVAL = 8"
| "errno_code EPERM = 9"
| "errno_code EACCES = 10"
| "errno_code EMPROC = 11"
| "errno_code ENPROC = 12"
| "errno_code ENOEXEC = 13"
| "errno_code E2BIG = 14"
| "errno_code ESRCH = 15"
| "errno_code ECHILD = 16"
| "errno_code ENOTDIR = 17"
| "errno_code EISDIR = 18"
| "errno_code ENOENT = 19"
| "errno_code ELOOP = 20"
| "errno_code ENOTEMPTY = 21"
| "errno_code EEXIST = 22"
| "errno_code EMLINK = 23"
| "errno_code EXDEV = 24"
| "errno_code ENODEV = 25"
| "errno_code ENXIO = 26"
| "errno_code EBUSY = 27"
| "errno_code EMFILE = 28"
| "errno_code ENFILE = 29"
| "errno_code EBADF = 30"
| "errno_code EIOCTL = 31"
| "errno_code EIO = 32"
| "errno_code ESPIPE = 33"
| "errno_code EPIPE = 34"
| "errno_code EROFS = 35"
| "errno_code ENOSPC = 36"
| "errno_code EDQUOT = 37"
| "errno_code EFBIG = 38"
| "errno_code EFTYPE = 39"
| "errno_code EDOM = 40"
| "errno_code ERANGE = 41"
| "errno_code EILSEQ = 42"
| "errno_code ENOTSOCK = 43"
| "errno_code EISSOCK = 44"
| "errno_code EISCONN = 45"
| "errno_code ENOTCONN = 46"
| "errno_code ESHUTDOWN = 47"
| "errno_code EPFNOSUPPORT = 48"
| "errno_code ESOCKTNOSUPPORT = 49"
| "errno_code EPROTONOSUPPORT = 50"
| "errno_code EPROTOTYPE = 51"
| "errno_code EAFNOSUPPORT = 52"
| "errno_code ENOPROTOOPT = 53"
| "errno_code EADDRINUSE = 54"
| "errno_code EADDRNOTAVAIL = 55"
| "errno_code ENETDOWN = 56"
| "errno_code ENETUNREACH = 57"
| "errno_code EHOSTDOWN = 58"
| "errno_code EHOSTUNREACH = 59"
| "errno_code ECONNREFUSED = 60"
| "errno_code ETIMEDOUT = 61"
| "errno_code ECONNRESET = 62"
| "errno_code EMSGSIZE = 63"
| "errno_code ENOTSUP = 64"

text \<open>The inverse table, used to order the error numbers by their code.\<close>

definition errno_of :: "nat \<Rightarrow> errno option" where
  "errno_of = map_of [
    (1, ENOSYS), (3, ENOMEM), (4, EAGAIN), (5, EINTR), (6, EFAULT),
    (7, ENAMETOOLONG), (8, EINVAL), (9, EPERM), (10, EACCES), (11, EMPROC),
    (12, ENPROC), (13, ENOEXEC), (14, E2BIG), (15, ESRCH), (16, ECHILD),
    (17, ENOTDIR), (18, EISDIR), (19, ENOENT), (20, ELOOP), (21, ENOTEMPTY),
    (22, EEXIST), (23, EMLINK), (24, EXDEV), (25, ENODEV), (26, ENXIO),
    (27, EBUSY), (28, EMFILE), (29, ENFILE), (30, EBADF), (31, EIOCTL),
    (32, EIO), (33, ESPIPE), (34, EPIPE), (35, EROFS), (36, ENOSPC),
    (37, EDQUOT), (38, EFBIG), (39, EFTYPE), (40, EDOM), (41, ERANGE),
    (42, EILSEQ), (43, ENOTSOCK), (44, EISSOCK), (45, EISCONN), (46, ENOTCONN),
    (47, ESHUTDOWN), (48, EPFNOSUPPORT), (49, ESOCKTNOSUPPORT), (50, EPROTONOSUPPORT), (51, EPROTOTYPE),
    (52, EAFNOSUPPORT), (53, ENOPROTOOPT), (54, EADDRINUSE), (55, EADDRNOTAVAIL), (56, ENETDOWN),
    (57, ENETUNREACH), (58, EHOSTDOWN), (59, EHOSTUNREACH), (60, ECONNREFUSED), (61, ETIMEDOUT),
    (62, ECONNRESET), (63, EMSGSIZE), (64, ENOTSUP)]"

lemma errno_of_code [simp]: "errno_of (errno_code e) = Some e"
  by (cases e) (simp_all add: errno_of_def)

lemma errno_code_inject [simp]: "errno_code a = errno_code b \<longleftrightarrow> a = b"
  by (metis errno_of_code option.inject)

lemma errno_code_pos [simp]: "0 < errno_code e"
  by (cases e) simp_all

lemma errno_code_bound: "errno_code e \<le> 64"
  by (cases e) simp_all

instantiation errno :: linorder
begin

definition less_eq_errno :: "errno \<Rightarrow> errno \<Rightarrow> bool" where
  "less_eq_errno a b \<longleftrightarrow> errno_code a \<le> errno_code b"

definition less_errno :: "errno \<Rightarrow> errno \<Rightarrow> bool" where
  "less_errno a b \<longleftrightarrow> errno_code a < errno_code b"

instance
  by standard (auto simp: less_eq_errno_def less_errno_def)

end

section \<open>Outcomes of kernel code\<close>

text \<open>
  A kernel routine either finishes with a value, panics (an explicit \<^verbatim>\<open>panic\<close>, a failed
  \<^verbatim>\<open>KASSERT\<close>, a dereference of a null or freed pointer), or waits for something that only
  another thread or processor can provide.
\<close>

datatype 'a outcome = Done 'a | Panic | Block

text \<open>The value of a C routine that returns 0 or an error number.\<close>

type_synonym 'a cres = "errno + 'a"

primrec bindo :: "'a outcome \<Rightarrow> ('a \<Rightarrow> 'b outcome) \<Rightarrow> 'b outcome" where
  "bindo (Done x) f = f x"
| "bindo Panic f = Panic"
| "bindo Block f = Block"

lemma bindo_Done_iff [simp]: "bindo m f = Done y \<longleftrightarrow> (\<exists>x. m = Done x \<and> f x = Done y)"
  by (cases m) auto

lemma bindo_assoc: "bindo (bindo m f) g = bindo m (\<lambda>x. bindo (f x) g)"
  by (cases m) auto

lemma bindo_cong [fundef_cong]:
  "m = m' \<Longrightarrow> (\<And>x. m' = Done x \<Longrightarrow> f x = f' x) \<Longrightarrow> bindo m f = bindo m' f'"
  by (cases m') auto

lemma cres_unit_ok [simp]: "(\<forall>e. r \<noteq> Inl e) \<longleftrightarrow> r = Inr ()" for r :: "unit cres"
  by (cases r) auto

section \<open>The memory supply\<close>

text \<open>
  Whether an allocation succeeds is an input of the model: a list with the answers of the
  successive \<^verbatim>\<open>kmalloc\<close> calls, \<open>True\<close> for a block and \<open>False\<close> for \<^verbatim>\<open>NULL\<close>. Past the end
  of the list every call succeeds.
\<close>

type_synonym memsupply = "bool list"

fun kmalloc :: "memsupply \<Rightarrow> bool \<times> memsupply" where
  "kmalloc [] = (True, [])"
| "kmalloc (b # bs) = (b, bs)"

section \<open>Unsigned counters\<close>

lemma unat_inc: "(x :: 'a :: len word) + 1 \<noteq> 0 \<Longrightarrow> unat (x + 1) = Suc (unat x)"
  using unatSuc [of x] by (simp add: add.commute)

lemma unat_dec: "(x :: 'a :: len word) \<noteq> 0 \<Longrightarrow> unat x = Suc (unat (x - 1))"
  using unat_minus_one [of x] by (simp add: unat_gt_0)

section \<open>Lists used as C arrays\<close>

lemma nth_list_update_if:
  "i < length xs \<Longrightarrow> xs[i := v] ! j = (if i = j then v else xs ! j)"
  by (auto simp: nth_list_update)

lemma filter_update_count:
  assumes "i < length xs"
  shows "length (filter P (xs[i := v])) + (if P (xs ! i) then 1 else 0)
       = length (filter P xs) + (if P v then 1 else 0)"
  using assms
proof (induction xs arbitrary: i)
  case Nil
  then show ?case by simp
next
  case (Cons x xs)
  then show ?case by (cases i) auto
qed

end
