(* ===== verification/LibString.thy ===== *)
theory LibString
  imports OS_Prelude
begin

text \<open>
  The string and memory functions that kernel and user programs share
  (\<^verbatim>\<open>common/libc/string\<close>, \<^verbatim>\<open>common/libc/stdlib/atoi.c\<close>), over a flat byte memory.

  A pointer is the number of a byte; the regions that occur are assumed not to wrap around the
  top of memory, as the comment in \<^verbatim>\<open>memmove.c\<close> does.  Loops that run until a null byte are
  partial functions, \<^term>\<open>None\<close> when they never meet one; \<open>cstr m p s\<close> says that \<open>p\<close> points to the
  null-terminated string \<open>s\<close>.
\<close>

type_synonym bytes = "u8 list"
type_synonym bytemem = "nat \<Rightarrow> u8"

section \<open>Copying and filling\<close>

text \<open>\<open>copy_up k n\<close>: \<open>n\<close> units of \<open>k\<close> bytes, each read before it is written, in ascending order.\<close>

definition copy_unit :: "nat \<Rightarrow> nat \<Rightarrow> nat \<Rightarrow> nat \<Rightarrow> bytemem \<Rightarrow> bytemem" where
  "copy_unit k dst src i m = (\<lambda>a. if dst + k * i \<le> a \<and> a < dst + k * i + k
     then m (src + (a - dst)) else m a)"

primrec copy_up :: "nat \<Rightarrow> nat \<Rightarrow> nat \<Rightarrow> nat \<Rightarrow> bytemem \<Rightarrow> bytemem" where
  "copy_up k dst src 0 m = m"
| "copy_up k dst src (Suc i) m = copy_unit k dst src i (copy_up k dst src i m)"

primrec copy_down :: "nat \<Rightarrow> nat \<Rightarrow> nat \<Rightarrow> nat \<Rightarrow> bytemem \<Rightarrow> bytemem" where
  "copy_down k dst src 0 m = m"
| "copy_down k dst src (Suc i) m = copy_down k dst src i (copy_unit k dst src i m)"

definition word_aligned :: "nat \<Rightarrow> nat \<Rightarrow> nat \<Rightarrow> bool" where
  "word_aligned dst src len \<longleftrightarrow> dst mod 4 = 0 \<and> src mod 4 = 0 \<and> len mod 4 = 0"

definition memcpy :: "nat \<Rightarrow> nat \<Rightarrow> nat \<Rightarrow> bytemem \<Rightarrow> bytemem" where
  "memcpy dst src len m =
     (if word_aligned dst src len then copy_up 4 dst src (len div 4) m
      else copy_up 1 dst src len m)"

definition memmove :: "nat \<Rightarrow> nat \<Rightarrow> nat \<Rightarrow> bytemem \<Rightarrow> bytemem" where
  "memmove dst src len m =
     (if dst < src then memcpy dst src len m
      else if word_aligned dst src len then copy_down 4 dst src (len div 4) m
      else copy_down 1 dst src len m)"

primrec fill_up :: "nat \<Rightarrow> u8 \<Rightarrow> nat \<Rightarrow> nat \<Rightarrow> bytemem \<Rightarrow> bytemem" where
  "fill_up k ch p 0 m = m"
| "fill_up k ch p (Suc i) m = (\<lambda>a. if p + k * i \<le> a \<and> a < p + k * i + k then ch else fill_up k ch p i m a)"

definition memset :: "nat \<Rightarrow> u8 \<Rightarrow> nat \<Rightarrow> bytemem \<Rightarrow> bytemem" where
  "memset ptr ch len m = fill_up 1 ch ptr len m"

definition bzero :: "nat \<Rightarrow> nat \<Rightarrow> bytemem \<Rightarrow> bytemem" where
  "bzero block len m =
     (if block mod 4 = 0 \<and> len mod 4 = 0 then fill_up 4 0 block (len div 4) m
      else fill_up 1 0 block len m)"

section \<open>Strings\<close>

partial_function (option) strlen_from :: "bytemem \<Rightarrow> nat \<Rightarrow> nat \<Rightarrow> nat option" where
  "strlen_from m str ret = (if m (str + ret) \<noteq> 0 then strlen_from m str (ret + 1) else Some ret)"

definition strlen :: "bytemem \<Rightarrow> nat \<Rightarrow> nat option" where
  "strlen m str = strlen_from m str 0"

partial_function (option) strcpy_from :: "nat \<Rightarrow> nat \<Rightarrow> nat \<Rightarrow> bytemem \<Rightarrow> bytemem option" where
  "strcpy_from dest src i m =
     (if m (src + i) \<noteq> 0 then strcpy_from dest src (i + 1) (m(dest + i := m (src + i)))
      else Some (m(dest + i := 0)))"

definition strcpy :: "nat \<Rightarrow> nat \<Rightarrow> bytemem \<Rightarrow> bytemem option" where
  "strcpy dest src m = strcpy_from dest src 0 m"

definition strcat :: "nat \<Rightarrow> nat \<Rightarrow> bytemem \<Rightarrow> bytemem option" where
  "strcat dest src m = (case strlen m dest of None \<Rightarrow> None | Some offset \<Rightarrow> strcpy (dest + offset) src m)"

partial_function (option) strchr :: "bytemem \<Rightarrow> nat \<Rightarrow> u8 \<Rightarrow> nat option option" where
  "strchr m s ch =
     (if m s \<noteq> 0 then (if m s = ch then Some (Some s) else strchr m (s + 1) ch)
      else Some (if m s = ch then Some s else None))"

primrec strrchr_below :: "bytemem \<Rightarrow> nat \<Rightarrow> u8 \<Rightarrow> nat \<Rightarrow> nat option" where
  "strrchr_below m s ch 0 = None"
| "strrchr_below m s ch (Suc i) = (if m (s + i) = ch then Some (s + i) else strrchr_below m s ch i)"

definition strrchr :: "bytemem \<Rightarrow> nat \<Rightarrow> u8 \<Rightarrow> nat option option" where
  "strrchr m s ch = (case strlen m s of None \<Rightarrow> None | Some n \<Rightarrow> Some (strrchr_below m s ch (n + 1)))"

partial_function (option) strcmp_from :: "bytemem \<Rightarrow> nat \<Rightarrow> nat \<Rightarrow> nat \<Rightarrow> int option" where
  "strcmp_from m a b i =
     (if m (a + i) \<noteq> 0 \<and> m (a + i) = m (b + i) then strcmp_from m a b (i + 1)
      else Some (if m (a + i) > m (b + i) then 1 else if m (a + i) = m (b + i) then 0 else -1))"

definition strcmp :: "bytemem \<Rightarrow> nat \<Rightarrow> nat \<Rightarrow> int option" where
  "strcmp m a b = strcmp_from m a b 0"

text \<open>
  \<^verbatim>\<open>strtok_r\<close>: \<open>ctx\<close> is the saved pointer, \<^term>\<open>None\<close> the null pointer; the result is the word, the
  new saved pointer and the memory, in which the word has been terminated.
\<close>

partial_function (option) skip_seps :: "bytemem \<Rightarrow> nat \<Rightarrow> nat \<Rightarrow> nat option" where
  "skip_seps m seps head =
     (if m head = 0 then Some head
      else case strchr m seps (m head) of None \<Rightarrow> None
        | Some r \<Rightarrow> if r \<noteq> None then skip_seps m seps (head + 1) else Some head)"

partial_function (option) skip_word :: "bytemem \<Rightarrow> nat \<Rightarrow> nat \<Rightarrow> nat option" where
  "skip_word m seps tail =
     (if m tail = 0 then Some tail
      else case strchr m seps (m tail) of None \<Rightarrow> None
        | Some r \<Rightarrow> if r = None then skip_word m seps (tail + 1) else Some tail)"

definition strtok_r :: "nat option \<Rightarrow> nat \<Rightarrow> nat option \<Rightarrow> bytemem \<Rightarrow> (nat option \<times> nat option \<times> bytemem) option" where
  "strtok_r string seps ctx m =
     (case (if string \<noteq> None then string else ctx) of
        None \<Rightarrow> Some (None, None, m)
      | Some head \<Rightarrow>
          (case skip_seps m seps head of None \<Rightarrow> None
           | Some head \<Rightarrow>
               if m head = 0 then Some (None, None, m)
               else (case skip_word m seps head of None \<Rightarrow> None
                 | Some tail \<Rightarrow>
                     if m tail = 0 then Some (Some head, None, m)
                     else Some (Some head, Some (tail + 1), m(tail := 0)))))"

section \<open>Numbers\<close>

definition digit_index :: "u8 \<Rightarrow> nat option" where
  "digit_index c = (if 48 \<le> c \<and> c \<le> 57 then Some (unat (c - 48)) else None)"

partial_function (option) atoi_spaces :: "bytemem \<Rightarrow> nat \<Rightarrow> nat option" where
  "atoi_spaces m s = (if m s = 32 \<or> m s = 9 then atoi_spaces m (s + 1) else Some s)"

partial_function (option) atoi_digits :: "bytemem \<Rightarrow> nat \<Rightarrow> u32 \<Rightarrow> u32 option" where
  "atoi_digits m s val =
     (if m s = 0 then Some val
      else case digit_index (m s) of None \<Rightarrow> Some val
        | Some digit \<Rightarrow> atoi_digits m (s + 1) (val * 10 + of_nat digit))"

definition atoi :: "bytemem \<Rightarrow> nat \<Rightarrow> int option" where
  "atoi m s = (case atoi_spaces m s of None \<Rightarrow> None
     | Some s \<Rightarrow>
         let neg = (m s = 45); s = (if m s = 45 \<or> m s = 43 then s + 1 else s) in
         (case atoi_digits m s 0 of None \<Rightarrow> None
          | Some val \<Rightarrow> Some (sint (if neg then - val else val))))"

section \<open>What copying and filling do\<close>

lemma copy_up_moves:
  assumes "dst \<le> src \<or> src + k * n \<le> dst"
  shows "copy_up k dst src n m = (\<lambda>a. if dst \<le> a \<and> a < dst + k * n then m (src + (a - dst)) else m a)"
  using assms
proof (induction n)
  case (Suc n)
  show ?case
  proof
    fix a
    have "src + (a - dst) < dst \<or> dst + k * n \<le> src + (a - dst)"
      if "dst + k * n \<le> a" "a < dst + k * n + k"
      using that Suc.prems by auto
    then show "copy_up k dst src (Suc n) m a =
      (if dst \<le> a \<and> a < dst + k * Suc n then m (src + (a - dst)) else m a)"
      using Suc by (auto simp: copy_unit_def)
  qed
qed (auto simp: fun_eq_iff)

lemma copy_down_moves:
  assumes "src \<le> dst"
  shows "copy_down k dst src n m = (\<lambda>a. if dst \<le> a \<and> a < dst + k * n then m (src + (a - dst)) else m a)"
proof (induction n arbitrary: m)
  case (Suc n)
  show ?case
  proof
    fix a
    have "src + (a - dst) < dst + k * n" if "dst \<le> a" "a < dst + k * n"
      using that assms by auto
    then show "copy_down k dst src (Suc n) m a =
      (if dst \<le> a \<and> a < dst + k * Suc n then m (src + (a - dst)) else m a)"
      by (auto simp: Suc copy_unit_def)
  qed
qed (auto simp: fun_eq_iff)

lemma fill_up_fills:
  "fill_up k ch p n m = (\<lambda>a. if p \<le> a \<and> a < p + k * n then ch else m a)"
  by (induction n) (auto simp: fun_eq_iff)

lemma memcpy_moves:
  assumes "dst \<le> src \<or> src + len \<le> dst"
  shows "memcpy dst src len m = (\<lambda>a. if dst \<le> a \<and> a < dst + len then m (src + (a - dst)) else m a)"
proof (cases "word_aligned dst src len")
  case True
  then have "4 * (len div 4) = len" by (auto simp: word_aligned_def)
  then show ?thesis using True assms by (simp add: memcpy_def copy_up_moves)
next
  case False
  then show ?thesis using assms by (simp add: memcpy_def copy_up_moves)
qed

lemma memset_fills: "memset p ch len m = (\<lambda>a. if p \<le> a \<and> a < p + len then ch else m a)"
  by (simp add: memset_def fill_up_fills)

lemma bzero_fills: "bzero p len m = (\<lambda>a. if p \<le> a \<and> a < p + len then 0 else m a)"
proof (cases "p mod 4 = 0 \<and> len mod 4 = 0")
  case True
  then have "4 * (len div 4) = len" by auto
  then show ?thesis using True by (simp add: bzero_def fill_up_fills)
qed (auto simp: bzero_def fill_up_fills)

text \<open>
  C25. \<^verbatim>\<open>memmove\<close> copies correctly however the two regions overlap, whether it goes by words or by
  bytes and upwards or downwards: afterwards the destination holds the bytes that the source
  held before, and no other byte has changed.
\<close>

theorem memmove_moves:
  "memmove dst src len m = (\<lambda>a. if dst \<le> a \<and> a < dst + len then m (src + (a - dst)) else m a)"
proof (cases "dst < src")
  case True
  then show ?thesis by (simp add: memmove_def memcpy_moves)
next
  case False
  show ?thesis
  proof (cases "word_aligned dst src len")
    case True
    then have "4 * (len div 4) = len" by (auto simp: word_aligned_def)
    then show ?thesis using True False by (simp add: memmove_def copy_down_moves)
  next
    case unaligned: False
    then show ?thesis using False by (simp add: memmove_def copy_down_moves)
  qed
qed

section \<open>Null-terminated strings\<close>

primrec cstr :: "bytemem \<Rightarrow> nat \<Rightarrow> bytes \<Rightarrow> bool" where
  "cstr m p [] \<longleftrightarrow> m p = 0"
| "cstr m p (c # s) \<longleftrightarrow> m p = c \<and> c \<noteq> 0 \<and> cstr m (p + 1) s"

lemma cstr_cong: "(\<And>a. p \<le> a \<Longrightarrow> a \<le> p + length s \<Longrightarrow> m' a = m a) \<Longrightarrow> cstr m' p s = cstr m p s"
  by (induction s arbitrary: p) auto

lemma cstr_end: "cstr m p s \<Longrightarrow> m (p + length s) = 0"
proof (induction s arbitrary: p)
  case (Cons c s)
  then show ?case using Cons.IH [of "p + 1"] by simp
qed simp

lemma cstr_nth: "cstr m p s \<Longrightarrow> i < length s \<Longrightarrow> m (p + i) = s ! i \<and> s ! i \<noteq> 0"
proof (induction s arbitrary: p i)
  case (Cons c s)
  then show ?case using Cons.IH [of "p + 1" "i - 1"] by (cases i) auto
qed simp

lemma cstr_append: "cstr m p (s @ t) \<longleftrightarrow> (\<forall>i<length s. m (p + i) = s ! i \<and> s ! i \<noteq> 0) \<and> cstr m (p + length s) t"
proof (induction s arbitrary: p)
  case (Cons c s)
  then show ?case by (auto simp: less_Suc_eq_0_disj)
qed simp

lemma cstr_unique: "cstr m p s \<Longrightarrow> cstr m p t \<Longrightarrow> s = t"
proof (induction s arbitrary: p t)
  case Nil
  then show ?case by (cases t) auto
next
  case (Cons c s)
  then show ?case by (cases t) auto
qed

lemma strlen_from_cstr: "cstr m (p + n) s \<Longrightarrow> strlen_from m p n = Some (n + length s)"
proof (induction s arbitrary: n)
  case Nil
  then show ?case by (subst strlen_from.simps) simp
next
  case (Cons c s)
  then show ?case using Cons.IH [of "n + 1"] by (subst strlen_from.simps) simp
qed

lemma strlen_cstr: "cstr m p s \<Longrightarrow> strlen m p = Some (length s)"
  using strlen_from_cstr [of m p 0 s] by (simp add: strlen_def)

lemma strcpy_from_cstr:
  assumes "cstr m (src + i) s" "dest + i + length s < src + i \<or> src + i + length s < dest + i"
  shows "strcpy_from dest src i m = Some (\<lambda>a. if dest + i \<le> a \<and> a < dest + i + length s then s ! (a - (dest + i))
    else if a = dest + i + length s then 0 else m a)"
  using assms
proof (induction s arbitrary: i m)
  case Nil
  then show ?case by (subst strcpy_from.simps) (auto simp: fun_eq_iff)
next
  case (Cons c s)
  let ?m = "m(dest + i := c)"
  have "cstr ?m (src + (i + 1)) s = cstr m (src + (i + 1)) s"
    by (rule cstr_cong) (use Cons.prems(2) in auto)
  then have "cstr ?m (src + (i + 1)) s" using Cons.prems(1) by simp
  then have "strcpy_from dest src (i + 1) ?m = Some (\<lambda>a. if dest + (i + 1) \<le> a \<and>
      a < dest + (i + 1) + length s then s ! (a - (dest + (i + 1)))
      else if a = dest + (i + 1) + length s then 0 else ?m a)"
    by (rule Cons.IH) (use Cons.prems(2) in auto)
  then show ?case
    using Cons.prems by (subst strcpy_from.simps) (auto simp: fun_eq_iff nth_Cons')
qed

lemma strchr_cstr:
  assumes "cstr m p s" "c \<noteq> 0"
  shows "strchr m p c = Some (if c \<in> set s then Some (p + length (takeWhile (\<lambda>x. x \<noteq> c) s)) else None)"
  using assms
proof (induction s arbitrary: p)
  case Nil
  then show ?case by (subst strchr.simps) simp
next
  case (Cons x s)
  then show ?case using Cons.IH [of "p + 1"] by (subst strchr.simps) auto
qed

lemma strrchr_below_spec:
  "strrchr_below m s ch n = (if \<exists>i<n. m (s + i) = ch then Some (s + Max {i. i < n \<and> m (s + i) = ch}) else None)"
proof (induction n)
  case (Suc n)
  show ?case
  proof (cases "m (s + n) = ch")
    case True
    have "Max {i. i < Suc n \<and> m (s + i) = ch} = n"
      by (rule Max_eqI) (use True in auto)
    then show ?thesis using True by auto
  next
    case False
    then have "{i. i < Suc n \<and> m (s + i) = ch} = {i. i < n \<and> m (s + i) = ch}"
      by (auto simp: less_Suc_eq)
    then show ?thesis using Suc False by (auto simp: less_Suc_eq)
  qed
qed simp

lemma strcmp_from_cstr:
  assumes "cstr m (a + i) s" "cstr m (b + i) t"
  shows "strcmp_from m a b i = Some (if s = t then 0 else if (s, t) \<in> lexord {(x, y). x < y} then -1 else 1)"
  using assms
proof (induction s arbitrary: i t)
  case Nil
  then show ?case by (subst strcmp_from.simps) (cases t; auto simp: word_gt_0)
next
  case (Cons c s)
  show ?case
  proof (cases t)
    case Nil
    then show ?thesis using Cons.prems by (subst strcmp_from.simps) (auto simp: word_gt_0)
  next
    case (Cons d u)
    show ?thesis
    proof (cases "c = d")
      case True
      then show ?thesis
        using Cons.IH [of "i + 1" u] Cons.prems Cons by (subst strcmp_from.simps) (auto simp: add.assoc)
    next
      case False
      then show ?thesis
        using Cons.prems Cons by (subst strcmp_from.simps) auto
    qed
  qed
qed

lemma strcmp_cstr:
  "cstr m a s \<Longrightarrow> cstr m b t \<Longrightarrow>
    strcmp m a b = Some (if s = t then 0 else if (s, t) \<in> lexord {(x, y). x < y} then -1 else 1)"
  using strcmp_from_cstr [of m a 0 s b t] by (simp add: strcmp_def)

section \<open>Splitting a string into words\<close>

function split_words :: "u8 set \<Rightarrow> bytes \<Rightarrow> bytes list" where
  "split_words S s = (let r = dropWhile (\<lambda>c. c \<in> S) s in
     if r = [] then [] else takeWhile (\<lambda>c. c \<notin> S) r # split_words S (tl (dropWhile (\<lambda>c. c \<notin> S) r)))"
  by pat_completeness auto
termination
proof (relation "measure (\<lambda>(S, s). length s)")
  fix S :: "u8 set" and s r :: bytes
  assume r: "r = dropWhile (\<lambda>c. c \<in> S) s" "r \<noteq> []"
  have "length (tl (dropWhile (\<lambda>c. c \<notin> S) r)) < length r"
    using r(2) length_dropWhile_le [of "\<lambda>c. c \<notin> S" r] by (cases r) auto
  also have "\<dots> \<le> length s" unfolding r(1) by (rule length_dropWhile_le)
  finally show "((S, tl (dropWhile (\<lambda>c. c \<notin> S) r)), (S, s)) \<in> measure (\<lambda>(S, s). length s)" by simp
qed simp

declare split_words.simps [simp del]

text \<open>The loop with which a caller takes all the words, at most \<open>n\<close> of them.\<close>

primrec strtok_all :: "nat \<Rightarrow> nat option \<Rightarrow> nat \<Rightarrow> nat option \<Rightarrow> bytemem \<Rightarrow> (nat list \<times> bytemem) option" where
  "strtok_all 0 string seps ctx m = Some ([], m)"
| "strtok_all (Suc n) string seps ctx m = (case strtok_r string seps ctx m of
     None \<Rightarrow> None
   | Some (w, ctx, m) \<Rightarrow> (case w of None \<Rightarrow> Some ([], m)
       | Some head \<Rightarrow> (case strtok_all n None seps ctx m of None \<Rightarrow> None
           | Some (ws, m) \<Rightarrow> Some (head # ws, m))))"

lemma skip_seps_cstr:
  assumes "cstr m p s" "cstr m q S"
  shows "skip_seps m q p = Some (p + length (takeWhile (\<lambda>c. c \<in> set S) s))"
  using assms(1)
proof (induction s arbitrary: p)
  case Nil
  then show ?case by (subst skip_seps.simps) simp
next
  case (Cons c s)
  then show ?case
    using Cons.IH [of "p + 1"] strchr_cstr [OF assms(2), of c] by (subst skip_seps.simps) auto
qed

lemma skip_word_cstr:
  assumes "cstr m p s" "cstr m q S"
  shows "skip_word m q p = Some (p + length (takeWhile (\<lambda>c. c \<notin> set S) s))"
  using assms(1)
proof (induction s arbitrary: p)
  case Nil
  then show ?case by (subst skip_word.simps) simp
next
  case (Cons c s)
  then show ?case
    using Cons.IH [of "p + 1"] strchr_cstr [OF assms(2), of c] by (subst skip_word.simps) auto
qed

lemma cstr_dropWhile:
  "cstr m p s \<Longrightarrow> cstr m (p + length (takeWhile P s)) (dropWhile P s)"
  using cstr_append [of m p "takeWhile P s" "dropWhile P s"] by simp

lemma cstr_cut:
  assumes "cstr m p (w @ t)"
  shows "cstr (m(p + length w := 0)) p w"
proof -
  have "cstr (m(p + length w := 0)) p (w @ [])"
    unfolding cstr_append using assms unfolding cstr_append by auto
  then show ?thesis by simp
qed

lemma strtok_r_cstr:
  assumes s: "cstr m p s" and S: "cstr m q S" and p: "(if string \<noteq> None then string else ctx) = Some p"
    and r: "r = dropWhile (\<lambda>c. c \<in> set S) s" and w: "w = takeWhile (\<lambda>c. c \<notin> set S) r"
    and h: "h = p + length (takeWhile (\<lambda>c. c \<in> set S) s)"
  shows "strtok_r string q ctx m = Some (if r = [] then (None, None, m)
    else if w = r then (Some h, None, m) else (Some h, Some (h + length w + 1), m(h + length w := 0)))"
proof -
  have hr: "cstr m h r" using cstr_dropWhile [OF s] by (simp add: h r)
  have mh: "m h = 0 \<longleftrightarrow> r = []" using hr by (cases r) auto
  have wr: "m (h + length w) = 0 \<longleftrightarrow> w = r"
  proof -
    have "cstr m (h + length w) (dropWhile (\<lambda>c. c \<notin> set S) r)"
      using cstr_dropWhile [OF hr, of "\<lambda>c. c \<notin> set S"] by (simp add: w)
    then have "m (h + length w) = 0 \<longleftrightarrow> dropWhile (\<lambda>c. c \<notin> set S) r = []"
      by (cases "dropWhile (\<lambda>c. c \<notin> set S) r") auto
    also have "\<dots> \<longleftrightarrow> w = r" by (auto simp: w takeWhile_eq_all_conv)
    finally show ?thesis .
  qed
  show ?thesis
    unfolding strtok_r_def p option.case skip_seps_cstr [OF s S] h [symmetric] skip_word_cstr [OF hr S]
      w [symmetric] using mh wr by simp
qed

lemma strtok_all_None: "strtok_all n None q None m = Some ([], m)"
  by (cases n) (simp_all add: strtok_r_def)

lemma strtok_all_words:
  assumes "cstr m p s" "cstr m q S" "q + length S < p \<or> p + length s < q"
    and "(if string \<noteq> None then string else ctx) = Some p" "length (split_words (set S) s) \<le> n"
  shows "\<exists>ps m'. strtok_all n string q ctx m = Some (ps, m') \<and>
    list_all2 (cstr m') ps (split_words (set S) s) \<and> (\<forall>x\<in>set ps. p \<le> x) \<and>
    (\<forall>a. a < p \<or> p + length s < a \<longrightarrow> m' a = m a)"
  using assms
proof (induction "set S" s arbitrary: m p string ctx n rule: split_words.induct)
  case (1 s)
  define r where "r = dropWhile (\<lambda>c. c \<in> set S) s"
  define w where "w = takeWhile (\<lambda>c. c \<notin> set S) r"
  define h where "h = p + length (takeWhile (\<lambda>c. c \<in> set S) s)"
  note tok = strtok_r_cstr [OF "1.prems"(1,2,4) r_def w_def h_def]
  note words = split_words.simps [of "set S" s, folded r_def, unfolded Let_def, folded w_def]
  have hr: "cstr m h r" using cstr_dropWhile [OF "1.prems"(1)] by (simp add: h_def r_def)
  show ?case
  proof (cases "r = []")
    case True
    then have "split_words (set S) s = []" using words by simp
    then show ?thesis using tok True by (cases n) auto
  next
    case False
    then obtain k where n: "n = Suc k" using "1.prems"(5) words by (cases n) auto
    show ?thesis
    proof (cases "w = r")
      case True
      then have e: "dropWhile (\<lambda>c. c \<notin> set S) r = []" by (simp add: w_def takeWhile_eq_all_conv)
      have "split_words (set S) s = [r]"
        unfolding words e using False True by (simp add: split_words.simps [of _ "[]"])
      then show ?thesis
        using tok False True hr n by (auto simp: strtok_all_None h_def)
    next
      case wr: False
      obtain c t where t: "dropWhile (\<lambda>c. c \<notin> set S) r = c # t"
        using wr by (cases "dropWhile (\<lambda>c. c \<notin> set S) r") (auto simp: w_def takeWhile_eq_all_conv)
      have rt: "r = w @ c # t" using takeWhile_dropWhile_id [of "\<lambda>c. c \<notin> set S" r] t by (simp add: w_def)
      have st: "length s = length (takeWhile (\<lambda>c. c \<in> set S) s) + length r"
        using takeWhile_dropWhile_id [of "\<lambda>c. c \<in> set S" s]
        by (metis length_append r_def)
      let ?p = "h + length w + 1" and ?m = "m(h + length w := 0)"
      have tp: "cstr m ?p t" using hr unfolding rt cstr_append by simp
      have "cstr ?m ?p t = cstr m ?p t" by (rule cstr_cong) auto
      moreover have "cstr ?m q S = cstr m q S"
        by (rule cstr_cong) (use "1.prems"(3) st rt in \<open>auto simp: h_def\<close>)
      moreover have "q + length S < ?p \<or> ?p + length t < q"
        using "1.prems"(3) st rt by (auto simp: h_def)
      moreover have len: "length (split_words (set S) t) \<le> k"
        using "1.prems"(5) words False t n by simp
      ultimately obtain ps m' where ps: "strtok_all k None q (Some ?p) ?m = Some (ps, m')"
        "list_all2 (cstr m') ps (split_words (set S) t)" "\<forall>x\<in>set ps. ?p \<le> x"
        "\<forall>a. a < ?p \<or> ?p + length t < a \<longrightarrow> m' a = ?m a"
        using "1.hyps" [OF r_def False, of ?m ?p None "Some ?p" k] tp "1.prems"(2) t
        by auto
      have "cstr m' h w = cstr ?m h w" by (rule cstr_cong) (use ps(4) in auto)
      then have "cstr m' h w" using cstr_cut [of m h w "c # t"] hr rt by simp
      moreover have "split_words (set S) s = w # split_words (set S) t" using words False t by simp
      moreover have "\<forall>a. a < p \<or> p + length s < a \<longrightarrow> m' a = m a"
        using ps(4) st rt by (auto simp: h_def)
      moreover have "\<forall>x\<in>set (h # ps). p \<le> x" using ps(3) by (auto simp: h_def)
      moreover have "strtok_all n string q ctx m = Some (h # ps, m')"
        using tok False wr ps(1) n by simp
      ultimately show ?thesis using ps(2) by auto
    qed
  qed
qed

text \<open>
  C24. Taking words with \<^verbatim>\<open>strtok_r\<close> until it returns the null pointer yields exactly the words of
  the string: the maximal runs of characters that are not separators, in their order, each as a
  null-terminated string inside the old one.  Separators at the ends and in rows are skipped,
  the calls return, and no byte outside the string is written.
\<close>

theorem strtok_splits_words:
  assumes "cstr m p s" "cstr m q S" "q + length S < p \<or> p + length s < q"
    and "length (split_words (set S) s) \<le> n"
  shows "\<exists>ps m'. strtok_all n (Some p) q None m = Some (ps, m') \<and>
    list_all2 (cstr m') ps (split_words (set S) s) \<and>
    (\<forall>a. a < p \<or> p + length s < a \<longrightarrow> m' a = m a)"
  using strtok_all_words [OF assms(1-3) _ assms(4), of "Some p" None] by auto

definition mem_of :: "bytes \<Rightarrow> bytemem" where
  "mem_of bs = (\<lambda>a. if a < length bs then bs ! a else 0)"

theorem strtok_splits_words_witness:
  "\<exists>ps m'. strtok_all 3 (Some 3) 0 None (mem_of [32, 9, 0, 32, 108, 115, 9, 32, 45, 108, 32, 0]) = Some (ps, m') \<and>
    list_all2 (cstr m') ps [[108, 115], [45, 108]]"
proof -
  let ?m = "mem_of [32, 9, 0, 32, 108, 115, 9, 32, 45, 108, 32, 0]" and ?s = "[32, 108, 115, 9, 32, 45, 108, 32]"
  have w: "split_words (set [32, 9]) ?s = [[108, 115], [45, 108]]" by code_simp
  have "cstr ?m 3 ?s" "cstr ?m 0 [32, 9]" by (simp_all add: mem_of_def)
  then show ?thesis using strtok_splits_words [of ?m 3 ?s 0 "[32, 9]" 3] unfolding w by auto
qed

text \<open>The words really are the maximal runs.\<close>

lemma split_words_props:
  "x \<in> set (split_words S s) \<Longrightarrow> x \<noteq> [] \<and> set x \<inter> S = {}"
proof (induction S s rule: split_words.induct)
  case (1 S s)
  define r where "r = dropWhile (\<lambda>c. c \<in> S) s"
  note words = split_words.simps [of S s, folded r_def, unfolded Let_def]
  have r: "r \<noteq> []" using "1.prems" unfolding words by (auto split: if_splits)
  then have "x = takeWhile (\<lambda>c. c \<notin> S) r \<or> x \<in> set (split_words S (tl (dropWhile (\<lambda>c. c \<notin> S) r)))"
    using "1.prems" unfolding words by simp
  moreover have "takeWhile (\<lambda>c. c \<notin> S) r \<noteq> []"
    using r hd_dropWhile [of "\<lambda>c. c \<in> S" s] by (cases r) (auto simp: r_def)
  ultimately show ?case
    using "1.IH" [OF r_def r] by (auto dest: set_takeWhileD)
qed

lemma split_words_concat: "concat (split_words S s) = filter (\<lambda>c. c \<notin> S) s"
proof (induction S s rule: split_words.induct)
  case (1 S s)
  define r where "r = dropWhile (\<lambda>c. c \<in> S) s"
  note words = split_words.simps [of S s, folded r_def, unfolded Let_def]
  have drop: "filter (\<lambda>c. c \<notin> S) (dropWhile (\<lambda>c. c \<in> S) t) = filter (\<lambda>c. c \<notin> S) t" for t
    by (induction t) auto
  have word: "takeWhile (\<lambda>c. c \<notin> S) t @ filter (\<lambda>c. c \<notin> S) (tl (dropWhile (\<lambda>c. c \<notin> S) t)) =
    filter (\<lambda>c. c \<notin> S) t" for t
    by (induction t) auto
  show ?case
  proof (cases "r = []")
    case True
    then show ?thesis unfolding words using drop [of s] by (simp add: r_def)
  next
    case False
    then show ?thesis
      unfolding words using "1.IH" [OF r_def False] drop [of s, folded r_def] word [of r] by simp
  qed
qed

end
