(* ===== verification/LibPrintf.thy ===== *)
theory LibPrintf
  imports LibString
begin

text \<open>
  Formatted output, shared by kernel and user programs (\<^verbatim>\<open>common/libc/printf\<close>).

  The state of \<^verbatim>\<open>__printf.c\<close> is a record; where the text goes is a parameter \<open>send\<close>, as in the
  source, with \<open>pf_data\<close> as its client data.  The variable arguments are a list: a word for every
  type of 32 bits (\<^verbatim>\<open>int\<close>, \<^verbatim>\<open>long\<close>, \<^verbatim>\<open>size_t\<close> and pointers on this machine), a double word for \<^verbatim>\<open>long long\<close>, and
  a string or the null pointer for \<^verbatim>\<open>char *\<close>.  Taking an argument of the wrong kind, or one that is
  not there, is undefined in C and \<^term>\<open>Panic\<close> here, as is a failed assertion or a store outside the
  number buffer.  \<open>junk\<close> is what that buffer holds before it is written.  \<open>wrap32\<close> is the wrap-around of \<^verbatim>\<open>int\<close>.
\<close>

section \<open>The state\<close>

datatype parg = AInt u32 | ALong u64 | AStr "bytes option"

datatype pfsize = INTSZ | LONGSZ | LLONGSZ | SIZETSZ

record 'c pf =
  pf_data :: 'c
  pf_ap :: "parg list"
  pf_charcount :: int
  pf_in_pct :: bool
  pf_size :: pfsize
  pf_num :: u64
  pf_sign :: bool
  pf_spacing :: int
  pf_rightspc :: bool
  pf_fillchar :: u8
  pf_base :: nat
  pf_baseprefix :: bool
  pf_altformat :: bool

definition wrap32 :: "int \<Rightarrow> int" where
  "wrap32 i = (i + 2 ^ 31) mod 2 ^ 32 - 2 ^ 31"

definition pf_print :: "('c \<Rightarrow> bytes \<Rightarrow> 'c) \<Rightarrow> bytes \<Rightarrow> 'c pf \<Rightarrow> 'c pf" where
  "pf_print send txt pf = pf\<lparr>pf_data := send (pf_data pf) txt,
     pf_charcount := wrap32 (pf_charcount pf + int (length txt))\<rparr>"

definition pf_endfield :: "'c pf \<Rightarrow> 'c pf" where
  "pf_endfield pf = pf\<lparr>pf_in_pct := False, pf_size := INTSZ, pf_num := 0, pf_sign := False,
     pf_spacing := 0, pf_rightspc := False, pf_fillchar := 32, pf_base := 0,
     pf_baseprefix := False, pf_altformat := False\<rparr>"

section \<open>Modifiers and arguments\<close>

text \<open>Character codes: \<open>#\<close> 35, \<open>-\<close> 45, \<open>0\<close> 48, \<open>9\<close> 57, \<open>c\<close> 99, \<open>d\<close> 100, \<open>l\<close> 108, \<open>o\<close> 111, \<open>p\<close> 112,
  \<open>s\<close> 115, \<open>u\<close> 117, \<open>x\<close> 120, \<open>z\<close> 122, \<open>%\<close> 37.\<close>

definition pf_modifier :: "u8 \<Rightarrow> 'c pf \<Rightarrow> 'c pf outcome" where
  "pf_modifier ch pf =
     (if ch = 35 then Done (pf\<lparr>pf_altformat := True\<rparr>)
      else if ch = 45 then Done (pf\<lparr>pf_rightspc := True\<rparr>)
      else if ch = 108 then Done (pf\<lparr>pf_size := (if pf_size pf = LONGSZ then LLONGSZ else LONGSZ)\<rparr>)
      else if ch = 122 then Done (pf\<lparr>pf_size := SIZETSZ\<rparr>)
      else if ch = 48 then
        (if pf_spacing pf > 0 then Done (pf\<lparr>pf_spacing := wrap32 (pf_spacing pf * 10)\<rparr>)
         else Done (pf\<lparr>pf_fillchar := 48\<rparr>))
      else if \<not> (48 < ch \<and> ch \<le> 57) then Panic
      else Done (pf\<lparr>pf_spacing := wrap32 (wrap32 (pf_spacing pf * 10) + int (unat (ch - 48)))\<rparr>))"

definition va_int :: "'c pf \<Rightarrow> ('c pf \<times> u32) outcome" where
  "va_int pf = (case pf_ap pf of AInt w # ap \<Rightarrow> Done (pf\<lparr>pf_ap := ap\<rparr>, w) | _ \<Rightarrow> Panic)"

definition va_llong :: "'c pf \<Rightarrow> ('c pf \<times> u64) outcome" where
  "va_llong pf = (case pf_ap pf of ALong w # ap \<Rightarrow> Done (pf\<lparr>pf_ap := ap\<rparr>, w) | _ \<Rightarrow> Panic)"

definition va_str :: "'c pf \<Rightarrow> ('c pf \<times> bytes option) outcome" where
  "va_str pf = (case pf_ap pf of AStr s # ap \<Rightarrow> Done (pf\<lparr>pf_ap := ap\<rparr>, s) | _ \<Rightarrow> Panic)"

definition pf_getnum :: "u8 \<Rightarrow> 'c pf \<Rightarrow> 'c pf outcome" where
  "pf_getnum ch pf =
     (if ch = 112 then bindo (va_int pf) (\<lambda>(pf, w). Done (pf\<lparr>pf_num := ucast w\<rparr>))
      else if ch = 100 then
        bindo (case pf_size pf of
                 LLONGSZ \<Rightarrow> bindo (va_llong pf) (\<lambda>(pf, w). Done (pf, sint w))
               | _ \<Rightarrow> bindo (va_int pf) (\<lambda>(pf, w). Done (pf, sint w)))
          (\<lambda>(pf, signednum).
             if signednum < 0 then Done (pf\<lparr>pf_sign := True, pf_num := of_int (- signednum)\<rparr>)
             else Done (pf\<lparr>pf_num := of_int signednum\<rparr>))
      else
        (case pf_size pf of
           LLONGSZ \<Rightarrow> bindo (va_llong pf) (\<lambda>(pf, w). Done (pf\<lparr>pf_num := w\<rparr>))
         | _ \<Rightarrow> bindo (va_int pf) (\<lambda>(pf, w). Done (pf\<lparr>pf_num := ucast w\<rparr>))))"

definition pf_setbase :: "u8 \<Rightarrow> 'c pf \<Rightarrow> 'c pf" where
  "pf_setbase ch pf =
     (let pf = (if ch = 100 \<or> ch = 117 then pf\<lparr>pf_base := 10\<rparr>
                else if ch = 120 \<or> ch = 112 then pf\<lparr>pf_base := 16\<rparr>
                else if ch = 111 then pf\<lparr>pf_base := 8\<rparr> else pf) in
      if pf_altformat pf \<or> ch = 112 then pf\<lparr>pf_baseprefix := True\<rparr> else pf)"

section \<open>Printing a field\<close>

primrec pf_fill :: "('c \<Rightarrow> bytes \<Rightarrow> 'c) \<Rightarrow> nat \<Rightarrow> 'c pf \<Rightarrow> 'c pf" where
  "pf_fill send 0 pf = pf"
| "pf_fill send (Suc n) pf = pf_fill send n (pf_print send [pf_fillchar pf] pf)"

definition pf_printstuff :: "('c \<Rightarrow> bytes \<Rightarrow> 'c) \<Rightarrow> bytes \<Rightarrow> bytes \<Rightarrow> bytes \<Rightarrow> 'c pf \<Rightarrow> 'c pf" where
  "pf_printstuff send prefix prefix2 stuff pf =
     (let len = wrap32 (int (length prefix) + int (length prefix2) + int (length stuff));
          spc = (if pf_spacing pf > len then wrap32 (pf_spacing pf - len) else 0);
          pf = (if spc > 0 \<and> \<not> pf_rightspc pf \<and> pf_fillchar pf \<noteq> 48 then pf_fill send (nat spc) pf else pf);
          pf = pf_print send prefix pf;
          pf = pf_print send prefix2 pf;
          pf = (if spc > 0 \<and> \<not> pf_rightspc pf \<and> pf_fillchar pf = 48 then pf_fill send (nat spc) pf else pf);
          pf = pf_print send stuff pf
      in if spc > 0 \<and> pf_rightspc pf then pf_fill send (nat spc) pf else pf)"

abbreviation NUMBER_BUF_SIZE :: nat where "NUMBER_BUF_SIZE \<equiv> 23"

definition pf_digit :: "nat \<Rightarrow> u8" where
  "pf_digit d = (if d < 10 then 48 + of_nat d else 87 + of_nat d)"

text \<open>The digit loop: \<open>x\<close> is the index of the slot to write next, \<^verbatim>\<open>-1\<close> being in front of the buffer.\<close>

function num_loop :: "nat \<Rightarrow> u64 \<Rightarrow> int \<Rightarrow> bytes \<Rightarrow> (int \<times> bytes) outcome" where
  "num_loop base xnum x buf =
     (if base = 0 \<or> x < 0 \<or> int (length buf) \<le> x then Panic
      else let buf = buf[nat x := pf_digit (unat xnum mod base)]; x = x - 1;
               xnum = of_nat (unat xnum div base) in
        if xnum > 0 then num_loop base xnum x buf else Done (x, buf))"
  by pat_completeness auto
termination
  by (relation "measure (\<lambda>(base, xnum, x, buf). nat (x + 1))") auto

declare num_loop.simps [simp del]

definition pf_printnum :: "('c \<Rightarrow> bytes \<Rightarrow> 'c) \<Rightarrow> (nat \<Rightarrow> u8) \<Rightarrow> 'c pf \<Rightarrow> 'c pf outcome" where
  "pf_printnum send junk pf =
     bindo (num_loop (pf_base pf) (pf_num pf) (int NUMBER_BUF_SIZE - 2)
         ((map junk [0..<NUMBER_BUF_SIZE])[NUMBER_BUF_SIZE - 1 := 0]))
       (\<lambda>(x, buf). let x = x + 1; text = takeWhile (\<lambda>c. c \<noteq> 0) (drop (nat x) buf);
          bprefix = (if pf_baseprefix pf \<and> pf_base pf = 16 then [48, 120]
                     else if pf_baseprefix pf \<and> pf_base pf = 8 then [48] else []);
          sprefix = (if pf_sign pf then [45] else [])
        in Done (pf_printstuff send sprefix bprefix text pf))"

section \<open>The format\<close>

definition is_modifier :: "u8 \<Rightarrow> bool" where
  "is_modifier ch \<longleftrightarrow> ch = 35 \<or> ch = 45 \<or> ch = 108 \<or> ch = 122 \<or> (48 \<le> ch \<and> ch \<le> 57)"

definition is_inttype :: "u8 \<Rightarrow> bool" where
  "is_inttype ch \<longleftrightarrow> ch = 100 \<or> ch = 111 \<or> ch = 117 \<or> ch = 112 \<or> ch = 120"

definition pf_send :: "('c \<Rightarrow> bytes \<Rightarrow> 'c) \<Rightarrow> (nat \<Rightarrow> u8) \<Rightarrow> u8 \<Rightarrow> 'c pf \<Rightarrow> 'c pf outcome" where
  "pf_send send junk ch pf =
     (if ch = 0 then Panic
      else if \<not> pf_in_pct pf \<and> ch \<noteq> 37 then Done (pf_print send [ch] pf)
      else if \<not> pf_in_pct pf then Done (pf\<lparr>pf_in_pct := True\<rparr>)
      else if is_modifier ch then pf_modifier ch pf
      else if is_inttype ch then
        bindo (pf_getnum ch pf) (\<lambda>pf. bindo (pf_printnum send junk (pf_setbase ch pf)) (\<lambda>pf. Done (pf_endfield pf)))
      else if ch = 115 then
        bindo (va_str pf) (\<lambda>(pf, s). Done (pf_endfield
          (pf_printstuff send [] [] (case s of None \<Rightarrow> [40, 110, 117, 108, 108, 41] | Some s \<Rightarrow> s) pf)))
      else
        bindo (if ch = 99 then bindo (va_int pf) (\<lambda>(pf, w). Done (pf, ucast w)) else Done (pf, ch))
          (\<lambda>(pf, x). Done (pf_endfield (pf_printstuff send [] [] (takeWhile (\<lambda>c. c \<noteq> 0) [x]) pf))))"

primrec pf_format :: "('c \<Rightarrow> bytes \<Rightarrow> 'c) \<Rightarrow> (nat \<Rightarrow> u8) \<Rightarrow> bytes \<Rightarrow> 'c pf \<Rightarrow> 'c pf outcome" where
  "pf_format send junk [] pf = Done pf"
| "pf_format send junk (ch # fmt) pf = bindo (pf_send send junk ch pf) (pf_format send junk fmt)"

definition pf_start :: "'c \<Rightarrow> parg list \<Rightarrow> 'c pf" where
  "pf_start data ap = \<lparr>pf_data = data, pf_ap = ap, pf_charcount = 0, pf_in_pct = False, pf_size = INTSZ,
     pf_num = 0, pf_sign = False, pf_spacing = 0, pf_rightspc = False, pf_fillchar = 32, pf_base = 0,
     pf_baseprefix = False, pf_altformat = False\<rparr>"

definition vprintf :: "('c \<Rightarrow> bytes \<Rightarrow> 'c) \<Rightarrow> (nat \<Rightarrow> u8) \<Rightarrow> 'c \<Rightarrow> bytes \<Rightarrow> parg list \<Rightarrow> ('c \<times> int) outcome" where
  "vprintf send junk data fmt ap =
     bindo (pf_format send junk fmt (pf_start data ap)) (\<lambda>pf. Done (pf_data pf, pf_charcount pf))"

section \<open>snprintf\<close>

record snp =
  snp_buf :: bytes
  snp_buflen :: nat
  snp_bufpos :: nat

primrec snprintf_send :: "snp \<Rightarrow> bytes \<Rightarrow> snp" where
  "snprintf_send snp [] = snp"
| "snprintf_send snp (c # cs) =
     snprintf_send (if snp_bufpos snp < snp_buflen snp
       then snp\<lparr>snp_buf := (snp_buf snp)[snp_bufpos snp := c], snp_bufpos := snp_bufpos snp + 1\<rparr>
       else snp) cs"

definition vsnprintf :: "(nat \<Rightarrow> u8) \<Rightarrow> bytes \<Rightarrow> nat \<Rightarrow> bytes \<Rightarrow> parg list \<Rightarrow> (bytes \<times> int) outcome" where
  "vsnprintf junk buf len fmt ap =
     bindo (vprintf snprintf_send junk \<lparr>snp_buf = buf, snp_buflen = (if len = 0 then 0 else len - 1),
         snp_bufpos = 0\<rparr> fmt ap)
       (\<lambda>(snp, chars). Done (if len > 0 then (snp_buf snp)[snp_bufpos snp := 0] else snp_buf snp, chars))"

section \<open>The text of a number\<close>

fun digits_of :: "nat \<Rightarrow> nat \<Rightarrow> bytes" where
  "digits_of b n = (if b < 2 \<or> n < b then [pf_digit n] else digits_of b (n div b) @ [pf_digit (n mod b)])"

declare digits_of.simps [simp del]

lemma digits_of_length: "2 \<le> b \<Longrightarrow> 0 < k \<Longrightarrow> n < b ^ k \<Longrightarrow> length (digits_of b n) \<le> k"
proof (induction k arbitrary: n)
  case (Suc k)
  show ?case
  proof (cases "n < b")
    case True
    then show ?thesis by (simp add: digits_of.simps)
  next
    case False
    then have "0 < k" using Suc.prems by (cases k) auto
    moreover have "n div b < b ^ k"
      using Suc.prems by (simp add: less_mult_imp_div_less mult.commute)
    ultimately show ?thesis
      using Suc.IH [of "n div b"] Suc.prems(1) False by (subst digits_of.simps) simp
  qed
qed simp

lemma pf_digit_nz: "d < 16 \<Longrightarrow> pf_digit d \<noteq> 0"
proof -
  assume d: "d < 16"
  have "unat (pf_digit d) = (if d < 10 then 48 + d else 87 + d)"
    using d by (simp add: pf_digit_def unat_word_ariths unat_of_nat)
  then show ?thesis by (metis add_is_0 unat_0 zero_neq_numeral)
qed

lemma digits_of_nz: "2 \<le> b \<Longrightarrow> b \<le> 16 \<Longrightarrow> 0 \<notin> set (digits_of b n)"
proof (induction b n rule: digits_of.induct)
  case (1 b n)
  have "n mod b < 16" using 1 mod_less_divisor [of b n] by linarith
  then have "0 \<noteq> pf_digit (n mod b)" using pf_digit_nz by metis
  moreover have "n < b \<Longrightarrow> 0 \<noteq> pf_digit n" using 1 pf_digit_nz [of n] by fastforce
  ultimately show ?case
    using 1 by (subst digits_of.simps) auto
qed

lemma num_loop_digits:
  assumes "2 \<le> b" "int (length (digits_of b (unat w))) \<le> x + 1" "x < int (length buf)"
  shows "num_loop b w x buf = Done (x - int (length (digits_of b (unat w))),
    take (nat (x + 1) - length (digits_of b (unat w))) buf @ digits_of b (unat w) @ drop (nat (x + 1)) buf)"
  using assms
proof (induction "unat w" arbitrary: w x buf rule: less_induct)
  case less
  define n where "n = unat w"
  define buf1 where "buf1 = buf[nat x := pf_digit (n mod b)]"
  define w1 where "w1 = (of_nat (n div b) :: u64)"
  have len: "length (digits_of b n) > 0" by (subst digits_of.simps) simp
  have x0: "0 \<le> x" "x < int (length buf)" using less.prems len unfolding n_def by linarith+
  have w1: "unat w1 = n div b"
    unfolding w1_def n_def by (metis div_le_dividend le_unat_uoi)
  have step: "num_loop b w x buf = (if w1 > 0 then num_loop b w1 (x - 1) buf1 else Done (x - 1, buf1))"
    by (subst num_loop.simps) (use x0 assms(1) in \<open>simp add: Let_def n_def buf1_def w1_def\<close>)
  have nx: "nat (x + 1) = Suc (nat x)" using x0(1) by simp
  have b1: "buf1 = take (nat x) buf @ pf_digit (n mod b) # drop (Suc (nat x)) buf"
    using x0 by (simp add: buf1_def upd_conv_take_nth_drop)
  show ?case
  proof (cases "n < b")
    case True
    then have "w1 = 0" using w1 by (simp add: unat_eq_0)
    moreover have "digits_of b n = [pf_digit n]" using True by (subst digits_of.simps) simp
    ultimately show ?thesis
      using step True b1 nx by (simp add: n_def [symmetric])
  next
    case False
    then have pos: "w1 > 0"
      using w1 less.prems(1) by (simp add: word_less_nat_alt div_greater_zero_iff)
    have d: "digits_of b n = digits_of b (n div b) @ [pf_digit (n mod b)]"
      using False less.prems(1) by (subst digits_of.simps) simp
    have "num_loop b w1 (x - 1) buf1 = Done (x - 1 - int (length (digits_of b (n div b))),
      take (nat x - length (digits_of b (n div b))) buf1 @ digits_of b (n div b) @ drop (nat x) buf1)"
      using less.hyps [of w1 "x - 1" buf1] less.prems w1 d False x0 nx b1
      by (simp add: n_def [symmetric])
    moreover have "drop (nat x) buf1 = pf_digit (n mod b) # drop (Suc (nat x)) buf"
      using x0 by (simp add: b1)
    moreover have "take (nat x - k) buf1 = take (nat x - k) buf" for k
      using x0 by (simp add: b1)
    ultimately show ?thesis
      using step pos d nx by (simp add: n_def [symmetric])
  qed
qed

lemma number_fits:
  assumes "b = 8 \<or> b = 10 \<or> b = 16"
  shows "length (digits_of b (unat (w :: u64))) \<le> NUMBER_BUF_SIZE - 1"
proof (rule digits_of_length)
  have "unat w < 2 ^ 64" using unsigned_less [of w, where ?'a = nat] by simp
  moreover have "(2 :: nat) ^ 64 \<le> 8 ^ 22" "(2 :: nat) ^ 64 \<le> 10 ^ 22" "(2 :: nat) ^ 64 \<le> 16 ^ 22" by simp_all
  ultimately show "unat w < b ^ (NUMBER_BUF_SIZE - 1)" using assms by auto
qed (use assms in auto)

lemma pf_printnum_text:
  assumes b: "pf_base pf = 8 \<or> pf_base pf = 10 \<or> pf_base pf = 16"
  shows "pf_printnum send junk pf = Done (pf_printstuff send (if pf_sign pf then [45] else [])
    (if pf_baseprefix pf \<and> pf_base pf = 16 then [48, 120] else if pf_baseprefix pf \<and> pf_base pf = 8 then [48] else [])
    (digits_of (pf_base pf) (unat (pf_num pf))) pf)"
proof -
  define ds where "ds = digits_of (pf_base pf) (unat (pf_num pf))"
  define buf where "buf = (map junk [0..<NUMBER_BUF_SIZE])[NUMBER_BUF_SIZE - 1 := 0]"
  have lb: "length buf = NUMBER_BUF_SIZE" by (simp add: buf_def)
  have d22: "drop 22 buf = [0]"
    using lb by (intro nth_equalityI) (simp_all add: buf_def)
  have len: "length ds \<le> 22" using number_fits [OF b, of "pf_num pf"] by (simp add: ds_def)
  have nz: "\<forall>c\<in>set ds. c \<noteq> 0" using digits_of_nz [of "pf_base pf" "unat (pf_num pf)"] b unfolding ds_def by auto
  have loop: "num_loop (pf_base pf) (pf_num pf) 21 buf =
    Done (21 - int (length ds), take (22 - length ds) buf @ ds @ [0])"
    using num_loop_digits [of "pf_base pf" "pf_num pf" 21 buf] b len lb d22
    by (auto simp: ds_def [symmetric])
  have n: "nat (22 - int (length ds)) = 22 - length ds" using len by simp
  have "takeWhile (\<lambda>c. c \<noteq> 0) (drop (22 - length ds) (take (22 - length ds) buf @ ds @ [0])) = ds"
    using lb len nz by (simp add: takeWhile_append2)
  then show ?thesis
    unfolding pf_printnum_def buf_def [symmetric] ds_def [symmetric] Let_def
    using loop n by (simp split del: if_split)
qed

section \<open>Where the text goes\<close>

definition agree :: "('a \<Rightarrow> 'b \<Rightarrow> bool) \<Rightarrow> 'a outcome \<Rightarrow> 'b outcome \<Rightarrow> bool" where
  "agree R a b \<longleftrightarrow> (case b of Done y \<Rightarrow> \<exists>x. a = Done x \<and> R x y | Panic \<Rightarrow> a = Panic | Block \<Rightarrow> a = Block)"

lemma agree_Done [simp]: "agree R (Done x) (Done y) = R x y"
  by (simp add: agree_def)

lemma agree_Panic [simp]: "agree R Panic Panic"
  by (simp add: agree_def)

lemma agree_bindo:
  assumes "agree R a b" "\<And>x y. R x y \<Longrightarrow> agree S (f x) (g y)"
  shows "agree S (bindo a f) (bindo b g)"
proof (cases b)
  case (Done y)
  then obtain x where "a = Done x" "R x y" using assms(1) by (auto simp: agree_def)
  then show ?thesis using assms(2) Done by simp
qed (use assms(1) in \<open>simp_all add: agree_def\<close>)

lemma agree_if:
  "(B \<Longrightarrow> agree R a c) \<Longrightarrow> (\<not> B \<Longrightarrow> agree R b e) \<Longrightarrow> agree R (if B then a else b) (if B then c else e)"
  by simp

text \<open>Two runs of the formatter that differ in the client data only: \<open>p\<close> has sent what \<open>q\<close> has stored.\<close>

definition tracks :: "('c \<Rightarrow> bytes \<Rightarrow> 'c) \<Rightarrow> 'c \<Rightarrow> 'c pf \<Rightarrow> bytes pf \<Rightarrow> bool" where
  "tracks send d p q \<longleftrightarrow> pf_data p = send d (pf_data q) \<and> pf_ap p = pf_ap q \<and> pf_charcount p = pf_charcount q \<and>
     pf_in_pct p = pf_in_pct q \<and> pf_size p = pf_size q \<and> pf_num p = pf_num q \<and> pf_sign p = pf_sign q \<and>
     pf_spacing p = pf_spacing q \<and> pf_rightspc p = pf_rightspc q \<and> pf_fillchar p = pf_fillchar q \<and>
     pf_base p = pf_base q \<and> pf_baseprefix p = pf_baseprefix q \<and> pf_altformat p = pf_altformat q"

lemma tracks_quiet:
  assumes "tracks send d p q"
  shows "agree (tracks send d) (pf_modifier ch p) (pf_modifier ch q)"
    "agree (tracks send d) (pf_getnum ch p) (pf_getnum ch q)"
    "tracks send d (pf_setbase ch p) (pf_setbase ch q)"
    "tracks send d (pf_endfield p) (pf_endfield q)"
    "agree (\<lambda>(p, w) (q, v). tracks send d p q \<and> w = v) (va_int p) (va_int q)"
    "agree (\<lambda>(p, w) (q, v). tracks send d p q \<and> w = v) (va_str p) (va_str q)"
  using assms
  by (auto simp: tracks_def pf_modifier_def pf_getnum_def pf_setbase_def pf_endfield_def Let_def va_int_def va_str_def
      va_llong_def agree_def split: list.splits parg.splits pfsize.splits)

text \<open>
  A sink takes text piece by piece, and only the whole text matters.  The contract lets every
  fact about the text be proved once, for the sink that appends to a list.
\<close>

locale sink =
  fixes send :: "'c \<Rightarrow> bytes \<Rightarrow> 'c"
  assumes send_Nil: "send d [] = d"
    and send_append: "send d (a @ b) = send (send d a) b"
begin

lemma tracks_print: "tracks send d p q \<Longrightarrow> tracks send d (pf_print send t p) (pf_print (@) t q)"
  by (simp add: tracks_def pf_print_def send_append)

lemma tracks_fill: "tracks send d p q \<Longrightarrow> tracks send d (pf_fill send n p) (pf_fill (@) n q)"
proof (induction n arbitrary: p q)
  case (Suc n)
  have "pf_fillchar p = pf_fillchar q" using Suc.prems by (simp add: tracks_def)
  then show ?case using Suc.IH [OF tracks_print [OF Suc.prems]] by simp
qed simp

lemma tracks_if:
  "tracks send d p q \<Longrightarrow> (B = C) \<Longrightarrow>
    tracks send d (if B then pf_fill send n p else p) (if C then pf_fill (@) n q else q)"
  using tracks_fill by simp

lemma tracks_printstuff:
  assumes t: "tracks send d p q"
  shows "tracks send d (pf_printstuff send a b c p) (pf_printstuff (@) a b c q)"
proof -
  define len where "len = wrap32 (int (length a) + int (length b) + int (length c))"
  define spc where "spc = (if pf_spacing q > len then wrap32 (pf_spacing q - len) else 0)"
  define p1 where "p1 = (if spc > 0 \<and> \<not> pf_rightspc p \<and> pf_fillchar p \<noteq> 48 then pf_fill send (nat spc) p else p)"
  define q1 where "q1 = (if spc > 0 \<and> \<not> pf_rightspc q \<and> pf_fillchar q \<noteq> 48 then pf_fill (@) (nat spc) q else q)"
  define p2 where "p2 = pf_print send b (pf_print send a p1)"
  define q2 where "q2 = pf_print (@) b (pf_print (@) a q1)"
  define p3 where "p3 = pf_print send c (if spc > 0 \<and> \<not> pf_rightspc p2 \<and> pf_fillchar p2 = 48 then pf_fill send (nat spc) p2 else p2)"
  define q3 where "q3 = pf_print (@) c (if spc > 0 \<and> \<not> pf_rightspc q2 \<and> pf_fillchar q2 = 48 then pf_fill (@) (nat spc) q2 else q2)"
  have "tracks send d p1 q1"
    unfolding p1_def q1_def by (rule tracks_if [OF t]) (use t in \<open>simp add: tracks_def\<close>)
  then have t2: "tracks send d p2 q2" unfolding p2_def q2_def by (intro tracks_print)
  have t3: "tracks send d p3 q3"
    unfolding p3_def q3_def by (rule tracks_print, rule tracks_if [OF t2]) (use t2 in \<open>simp add: tracks_def\<close>)
  have sp: "pf_spacing p = pf_spacing q" using t by (simp add: tracks_def)
  have "tracks send d (if spc > 0 \<and> pf_rightspc p3 then pf_fill send (nat spc) p3 else p3)
    (if spc > 0 \<and> pf_rightspc q3 then pf_fill (@) (nat spc) q3 else q3)"
    by (rule tracks_if [OF t3]) (use t3 in \<open>simp add: tracks_def\<close>)
  then show ?thesis
    unfolding pf_printstuff_def Let_def sp len_def [symmetric] spc_def [symmetric] p1_def [symmetric] q1_def [symmetric]
      p2_def [symmetric] q2_def [symmetric] p3_def [symmetric] q3_def [symmetric] .
qed

lemma tracks_printnum:
  assumes "tracks send d p q"
  shows "agree (tracks send d) (pf_printnum send junk p) (pf_printnum (@) junk q)"
  unfolding pf_printnum_def
proof (rule agree_bindo [where R = "(=)"])
  show "agree (=) (num_loop (pf_base p) (pf_num p) (int NUMBER_BUF_SIZE - 2) ((map junk [0..<NUMBER_BUF_SIZE])[NUMBER_BUF_SIZE - 1 := 0]))
    (num_loop (pf_base q) (pf_num q) (int NUMBER_BUF_SIZE - 2) ((map junk [0..<NUMBER_BUF_SIZE])[NUMBER_BUF_SIZE - 1 := 0]))"
    using assms by (simp add: tracks_def agree_def split: outcome.split)
qed (use assms tracks_printstuff [OF assms] in \<open>auto simp: Let_def tracks_def split: prod.splits\<close>)

lemma tracks_send:
  assumes "tracks send d p q"
  shows "agree (tracks send d) (pf_send send junk ch p) (pf_send (@) junk ch q)"
proof -
  have pct: "pf_in_pct p = pf_in_pct q" using assms by (simp add: tracks_def)
  have start: "tracks send d (p\<lparr>pf_in_pct := True\<rparr>) (q\<lparr>pf_in_pct := True\<rparr>)"
    using assms by (simp add: tracks_def)
  have num: "agree (tracks send d)
     (bindo (pf_getnum ch p) (\<lambda>pf. bindo (pf_printnum send junk (pf_setbase ch pf)) (\<lambda>pf. Done (pf_endfield pf))))
     (bindo (pf_getnum ch q) (\<lambda>pf. bindo (pf_printnum (@) junk (pf_setbase ch pf)) (\<lambda>pf. Done (pf_endfield pf))))"
    by (intro agree_bindo [OF tracks_quiet(2) [OF assms]] agree_bindo [OF tracks_printnum [OF tracks_quiet(3)]])
      (auto intro: tracks_quiet(4))
  have field: "tracks send d (pf_endfield (pf_printstuff send a b c p')) (pf_endfield (pf_printstuff (@) a b c q'))"
    if "tracks send d p' q'" for a b c p' q'
    by (intro tracks_quiet(4) tracks_printstuff that)
  have str: "agree (tracks send d)
     (bindo (va_str p) (\<lambda>(pf, s). Done (pf_endfield (pf_printstuff send [] [] (f s) pf))))
     (bindo (va_str q) (\<lambda>(pf, s). Done (pf_endfield (pf_printstuff (@) [] [] (f s) pf))))" for f
    by (rule agree_bindo [OF tracks_quiet(6) [OF assms]]) (auto intro: field)
  have chr: "agree (\<lambda>(p, w) (q, v). tracks send d p q \<and> w = v)
      (if ch = 99 then bindo (va_int p) (\<lambda>(pf, w). Done (pf, ucast w)) else Done (p, ch))
      (if ch = 99 then bindo (va_int q) (\<lambda>(pf, w). Done (pf, ucast w)) else Done (q, ch))"
    using agree_bindo [OF tracks_quiet(5) [OF assms], of "\<lambda>(p, w) (q, v). tracks send d p q \<and> w = v"
        "\<lambda>(pf, w). Done (pf, ucast w)" "\<lambda>(pf, w). Done (pf, ucast w)"] assms by auto
  have other: "agree (tracks send d)
     (bindo (if ch = 99 then bindo (va_int p) (\<lambda>(pf, w). Done (pf, ucast w)) else Done (p, ch))
       (\<lambda>(pf, x). Done (pf_endfield (pf_printstuff send [] [] (f x) pf))))
     (bindo (if ch = 99 then bindo (va_int q) (\<lambda>(pf, w). Done (pf, ucast w)) else Done (q, ch))
       (\<lambda>(pf, x). Done (pf_endfield (pf_printstuff (@) [] [] (f x) pf))))" for f
    by (rule agree_bindo [OF chr]) (auto intro: field)
  show ?thesis
    unfolding pf_send_def pct
    by (intro agree_if; (rule agree_Panic num str other tracks_quiet(1) [OF assms] | simp add: tracks_print [OF assms] start))
qed

lemma tracks_format:
  "tracks send d p q \<Longrightarrow> agree (tracks send d) (pf_format send junk fmt p) (pf_format (@) junk fmt q)"
  by (induction fmt arbitrary: p q) (auto intro: agree_bindo tracks_send)

lemma vprintf_send:
  "vprintf send junk d fmt ap = bindo (vprintf (@) junk [] fmt ap) (\<lambda>(out, n). Done (send d out, n))"
proof -
  have "tracks send d (pf_start d ap) (pf_start [] ap)" by (simp add: tracks_def pf_start_def send_Nil)
  then have "agree (tracks send d) (pf_format send junk fmt (pf_start d ap)) (pf_format (@) junk fmt (pf_start [] ap))"
    by (rule tracks_format)
  then show ?thesis
    by (cases "pf_format (@) junk fmt (pf_start [] ap)") (auto simp: agree_def vprintf_def tracks_def)
qed

end

lemma snprintf_send_append: "snprintf_send d (a @ b) = snprintf_send (snprintf_send d a) b"
  by (induction a arbitrary: d) auto

interpretation snp: sink snprintf_send
  by unfold_locales (simp_all add: snprintf_send_append)

section \<open>Arguments of the right kinds\<close>

datatype akind = KInt | KLong | KStr

primrec kind_of :: "parg \<Rightarrow> akind" where
  "kind_of (AInt w) = KInt"
| "kind_of (ALong w) = KLong"
| "kind_of (AStr s) = KStr"

text \<open>The kinds of the arguments that a format asks for, in order.\<close>

fun wants :: "bool \<Rightarrow> pfsize \<Rightarrow> bytes \<Rightarrow> akind list" where
  "wants in_pct sz [] = []"
| "wants in_pct sz (c # fmt) =
     (if \<not> in_pct then wants (c = 37) sz fmt
      else if is_modifier c then
        wants True (if c = 108 then (if sz = LONGSZ then LLONGSZ else LONGSZ) else if c = 122 then SIZETSZ else sz) fmt
      else if is_inttype c then (if sz = LLONGSZ \<and> c \<noteq> 112 then KLong else KInt) # wants False INTSZ fmt
      else if c = 115 then KStr # wants False INTSZ fmt
      else if c = 99 then KInt # wants False INTSZ fmt
      else wants False INTSZ fmt)"

definition typed :: "bytes pf \<Rightarrow> bytes \<Rightarrow> bool" where
  "typed pf fmt \<longleftrightarrow> (\<exists>rest. map kind_of (pf_ap pf) = wants (pf_in_pct pf) (pf_size pf) fmt @ rest) \<and>
     (\<not> pf_in_pct pf \<longrightarrow> pf_size pf = INTSZ) \<and> pf_charcount pf = wrap32 (int (length (pf_data pf)))"

lemma wrap32_wrap32: "wrap32 (wrap32 a + b) = wrap32 (a + b)"
  unfolding wrap32_def by (simp add: mod_simps algebra_simps)

lemma pf_print_count:
  "pf_charcount pf = wrap32 (int (length (pf_data pf))) \<Longrightarrow>
    pf_charcount (pf_print (@) t pf) = wrap32 (int (length (pf_data (pf_print (@) t pf))))"
  by (simp add: pf_print_def wrap32_wrap32)

definition same_ctl :: "'c pf \<Rightarrow> 'c pf \<Rightarrow> bool" where
  "same_ctl p q \<longleftrightarrow> pf_ap p = pf_ap q \<and> pf_in_pct p = pf_in_pct q \<and> pf_size p = pf_size q \<and> pf_fillchar p = pf_fillchar q"

lemma pf_fill_typed:
  "pf_charcount pf = wrap32 (int (length (pf_data pf))) \<Longrightarrow>
    same_ctl (pf_fill (@) n pf) pf \<and>
    pf_charcount (pf_fill (@) n pf) = wrap32 (int (length (pf_data (pf_fill (@) n pf))))"
proof (induction n arbitrary: pf)
  case (Suc n)
  then show ?case
    using Suc.IH [OF pf_print_count [OF Suc.prems, of "[pf_fillchar pf]"]]
    by (auto simp: same_ctl_def pf_print_def)
qed (simp add: same_ctl_def)

lemma pf_printstuff_typed:
  assumes "pf_charcount pf = wrap32 (int (length (pf_data pf)))"
  shows "same_ctl (pf_printstuff (@) a b c pf) pf \<and>
    pf_charcount (pf_printstuff (@) a b c pf) = wrap32 (int (length (pf_data (pf_printstuff (@) a b c pf))))"
proof -
  have print: "same_ctl (pf_print (@) t p) p \<and>
      pf_charcount (pf_print (@) t p) = wrap32 (int (length (pf_data (pf_print (@) t p))))"
    if "pf_charcount p = wrap32 (int (length (pf_data p)))" for t and p :: "bytes pf"
    using pf_print_count [OF that] by (simp add: same_ctl_def pf_print_def)
  have fill: "same_ctl (if B then pf_fill (@) n p else p) p \<and>
      pf_charcount (if B then pf_fill (@) n p else p) = wrap32 (int (length (pf_data (if B then pf_fill (@) n p else p))))"
    if "pf_charcount p = wrap32 (int (length (pf_data p)))" for B n and p :: "bytes pf"
    using pf_fill_typed [OF that] that by (simp add: same_ctl_def)
  have trans: "same_ctl x y \<Longrightarrow> same_ctl y z \<Longrightarrow> same_ctl x z" for x y z :: "bytes pf"
    by (simp add: same_ctl_def)
  show ?thesis
    unfolding pf_printstuff_def Let_def
    by (meson assms fill print trans)
qed

lemma typed_field:
  assumes "pf_charcount pf = wrap32 (int (length (pf_data pf)))"
    "map kind_of (pf_ap pf) = wants False INTSZ fmt @ rest"
  shows "typed (pf_endfield (pf_printstuff (@) a b c pf)) fmt"
  using pf_printstuff_typed [OF assms(1), of a b c] assms(2)
  by (auto simp: typed_def pf_endfield_def same_ctl_def)

lemma getnum_typed:
  assumes "is_inttype ch" "map kind_of (pf_ap pf) = (if pf_size pf = LLONGSZ \<and> ch \<noteq> 112 then KLong else KInt) # ks"
  shows "\<exists>pf'. pf_getnum ch pf = Done pf' \<and> map kind_of (pf_ap pf') = ks \<and>
    pf_data pf' = pf_data pf \<and> pf_charcount pf' = pf_charcount pf"
proof -
  obtain a ap where ap: "pf_ap pf = a # ap" "kind_of a = (if pf_size pf = LLONGSZ \<and> ch \<noteq> 112 then KLong else KInt)"
    "map kind_of ap = ks"
    using assms(2) by auto
  then show ?thesis
    by (cases a; cases "pf_size pf")
      (auto simp: pf_getnum_def va_int_def va_llong_def split: if_splits)
qed

lemma typed_send:
  assumes t: "typed pf (c # fmt)" and c: "c \<noteq> 0"
  shows "\<exists>pf'. pf_send (@) junk c pf = Done pf' \<and> typed pf' fmt"
proof -
  obtain rest where ks: "map kind_of (pf_ap pf) = wants (pf_in_pct pf) (pf_size pf) (c # fmt) @ rest"
    using t by (auto simp: typed_def)
  have cc: "pf_charcount pf = wrap32 (int (length (pf_data pf)))" using t by (simp add: typed_def)
  have sz: "\<not> pf_in_pct pf \<Longrightarrow> pf_size pf = INTSZ" using t by (simp add: typed_def)
  consider "\<not> pf_in_pct pf" | "pf_in_pct pf" "is_modifier c"
    | "pf_in_pct pf" "\<not> is_modifier c" "is_inttype c"
    | "pf_in_pct pf" "\<not> is_modifier c" "\<not> is_inttype c" "c = 115"
    | "pf_in_pct pf" "\<not> is_modifier c" "\<not> is_inttype c" "c \<noteq> 115" "c = 99"
    | "pf_in_pct pf" "\<not> is_modifier c" "\<not> is_inttype c" "c \<noteq> 115" "c \<noteq> 99" by blast
  then show ?thesis
  proof cases
    case 1
    then show ?thesis
      using ks cc sz c pf_print_count [OF cc, of "[c]"]
      by (auto simp: pf_send_def typed_def pf_print_def)
  next
    case 2
    have "c = 35 \<or> c = 45 \<or> c = 108 \<or> c = 122 \<or> (48 \<le> c \<and> c \<le> 57)" using 2 by (simp add: is_modifier_def)
    moreover have "48 < c" if "48 \<le> c" "c \<noteq> 48" using that by (simp add: order.not_eq_order_implies_strict)
    ultimately show ?thesis
      using 2 ks cc c by (auto simp: pf_send_def pf_modifier_def typed_def)
  next
    case 3
    then obtain p1 where p1: "pf_getnum c pf = Done p1" "map kind_of (pf_ap p1) = wants False INTSZ fmt @ rest"
      "pf_data p1 = pf_data pf" "pf_charcount p1 = pf_charcount pf"
      using getnum_typed [of c pf "wants False INTSZ fmt @ rest"] ks by auto
    have b: "pf_base (pf_setbase c p1) = 8 \<or> pf_base (pf_setbase c p1) = 10 \<or> pf_base (pf_setbase c p1) = 16"
      using 3 by (auto simp: is_inttype_def pf_setbase_def Let_def)
    have "pf_charcount (pf_setbase c p1) = wrap32 (int (length (pf_data (pf_setbase c p1))))"
      "map kind_of (pf_ap (pf_setbase c p1)) = wants False INTSZ fmt @ rest"
      using p1 cc by (simp_all add: pf_setbase_def Let_def)
    from typed_field [OF this] show ?thesis
      using 3 p1(1) c by (simp add: pf_send_def pf_printnum_text [OF b])
  next
    case 4
    then obtain s ap where ap: "pf_ap pf = AStr s # ap" "map kind_of ap = wants False INTSZ fmt @ rest"
      using ks by (cases "pf_ap pf"; cases "hd (pf_ap pf)") auto
    then show ?thesis
      using 4 typed_field [of "pf\<lparr>pf_ap := ap\<rparr>" fmt rest "[]" "[]"] cc by (simp add: pf_send_def va_str_def)
  next
    case 5
    then obtain w ap where ap: "pf_ap pf = AInt w # ap" "map kind_of ap = wants False INTSZ fmt @ rest"
      using ks by (cases "pf_ap pf"; cases "hd (pf_ap pf)") auto
    then show ?thesis
      using 5 typed_field [of "pf\<lparr>pf_ap := ap\<rparr>" fmt rest "[]" "[]"] cc by (simp add: pf_send_def va_int_def)
  next
    case 6
    then show ?thesis
      using ks typed_field [OF cc, of fmt rest "[]" "[]"] c by (simp add: pf_send_def)
  qed
qed

lemma typed_format:
  "typed pf fmt \<Longrightarrow> 0 \<notin> set fmt \<Longrightarrow> \<exists>pf'. pf_format (@) junk fmt pf = Done pf' \<and> typed pf' []"
proof (induction fmt arbitrary: pf)
  case (Cons c fmt)
  then have "c \<noteq> 0" by auto
  then obtain p1 where "pf_send (@) junk c pf = Done p1" "typed p1 fmt" using typed_send Cons.prems(1) by blast
  then show ?case using Cons by simp
qed simp

text \<open>
  C21. Formatted output is safe and counts right.  Whatever the format, once the arguments are of
  the kinds that its conversions ask for (and there may be more of them), \<^verbatim>\<open>printf\<close> returns: it
  never takes an argument that is not there, its assertion on modifiers holds, and the text of a
  number, octal \<^verbatim>\<open>long long\<close> included, never leaves its buffer of 23 bytes.  The number returned is
  the length of the text sent, as an \<^verbatim>\<open>int\<close>.
\<close>

theorem vprintf_type_safe:
  assumes "map kind_of ap = wants False INTSZ fmt @ rest" "0 \<notin> set fmt"
  shows "\<exists>out. vprintf (@) junk [] fmt ap = Done (out, wrap32 (int (length out)))"
proof -
  have "typed (pf_start [] ap) fmt" using assms(1) by (simp add: typed_def pf_start_def wrap32_def)
  then obtain p where "pf_format (@) junk fmt (pf_start [] ap) = Done p" "typed p []"
    using typed_format assms(2) by blast
  then show ?thesis by (simp add: vprintf_def typed_def)
qed

theorem vprintf_type_safe_witness:
  "\<exists>out. vprintf (@) (\<lambda>i. 7) [] [37, 35, 108, 108, 111, 32, 37, 45, 53, 115]
     [ALong (- 1), AStr None] = Done (out, wrap32 (int (length out)))"
proof (rule vprintf_type_safe [where rest = "[]"])
  show "map kind_of [ALong (- 1), AStr None] = wants False INTSZ [37, 35, 108, 108, 111, 32, 37, 45, 53, 115] @ []"
    by (simp add: is_modifier_def is_inttype_def)
qed simp

section \<open>snprintf stays in its buffer\<close>

lemma snprintf_send_text:
  assumes "snp_bufpos d \<le> snp_buflen d" "snp_buflen d \<le> length (snp_buf d)"
  shows "snprintf_send d t = d\<lparr>snp_buf := take (snp_bufpos d) (snp_buf d) @ take (snp_buflen d - snp_bufpos d) t @
      drop (snp_bufpos d + min (length t) (snp_buflen d - snp_bufpos d)) (snp_buf d),
    snp_bufpos := snp_bufpos d + min (length t) (snp_buflen d - snp_bufpos d)\<rparr>"
  using assms
proof (induction t arbitrary: d)
  case (Cons c t)
  show ?case
  proof (cases "snp_bufpos d < snp_buflen d")
    case True
    then obtain k where k: "snp_buflen d - snp_bufpos d = Suc k" by (cases "snp_buflen d - snp_bufpos d") auto
    let ?d = "d\<lparr>snp_buf := (snp_buf d)[snp_bufpos d := c], snp_bufpos := snp_bufpos d + 1\<rparr>"
    have up: "(snp_buf d)[snp_bufpos d := c] = take (snp_bufpos d) (snp_buf d) @ c # drop (Suc (snp_bufpos d)) (snp_buf d)"
      using True Cons.prems(2) by (simp add: upd_conv_take_nth_drop)
    have l: "length (take (snp_bufpos d) (snp_buf d)) = snp_bufpos d" using True Cons.prems(2) by simp
    have "snp_buflen d - Suc (snp_bufpos d) = k" using k by simp
    then have "snprintf_send ?d t = ?d\<lparr>snp_buf := take (Suc (snp_bufpos d)) ((snp_buf d)[snp_bufpos d := c]) @ take k t @
        drop (Suc (snp_bufpos d) + min (length t) k) ((snp_buf d)[snp_bufpos d := c]),
      snp_bufpos := Suc (snp_bufpos d) + min (length t) k\<rparr>"
      using Cons.IH [of ?d] Cons.prems True by simp
    moreover have "take (Suc (snp_bufpos d)) ((snp_buf d)[snp_bufpos d := c]) = take (snp_bufpos d) (snp_buf d) @ [c]"
      "drop (Suc (snp_bufpos d) + j) ((snp_buf d)[snp_bufpos d := c]) = drop (Suc (snp_bufpos d) + j) (snp_buf d)" for j
      using True Cons.prems(2) by (simp_all add: take_Suc_conv_app_nth)
    ultimately show ?thesis using True k by simp
  next
    case False
    then have "snprintf_send d (c # t) = snprintf_send d t" by simp
    then show ?thesis using Cons False by simp
  qed
qed simp

lemma snprintf_exact:
  assumes "len \<le> length buf" "vprintf (@) junk [] fmt ap = Done (out, n)"
  shows "vsnprintf junk buf len fmt ap = Done (if len = 0 then buf
    else take (len - 1) out @ 0 # drop (Suc (min (length out) (len - 1))) buf, n)"
proof -
  define L where "L = (if len = 0 then 0 else len - 1)"
  let ?d = "\<lparr>snp_buf = buf, snp_buflen = L, snp_bufpos = 0\<rparr>"
  have L: "L \<le> length buf" using assms(1) by (auto simp: L_def)
  have v: "vprintf snprintf_send junk ?d fmt ap = Done (snprintf_send ?d out, n)"
    using snp.vprintf_send [of junk ?d fmt ap] assms(2) by simp
  have t: "snprintf_send ?d out = \<lparr>snp_buf = take L out @ drop (min (length out) L) buf, snp_buflen = L,
      snp_bufpos = min (length out) L\<rparr>"
    using snprintf_send_text [of ?d out] L by simp
  show ?thesis
  proof (cases "len = 0")
    case True
    then show ?thesis using v t by (simp add: vsnprintf_def L_def)
  next
    case False
    define k where "k = min (length out) L"
    have "k < length buf" "length (take L out) = k" using assms(1) False by (simp_all add: k_def L_def min.commute)
    then have "(take L out @ drop k buf)[k := 0] = take L out @ 0 # drop (Suc k) buf"
      by (simp add: list_update_append Cons_nth_drop_Suc [symmetric])
    moreover have "len - 1 = L" using False by (simp add: L_def)
    ultimately show ?thesis
      using v t False unfolding vsnprintf_def L_def [symmetric] by (simp add: k_def)
  qed
qed



section \<open>Printing and reading back a number\<close>

lemma digit_index_digit: "d < 10 \<Longrightarrow> digit_index (pf_digit d) = Some d"
proof -
  assume d: "d < 10"
  then have u: "unat (pf_digit d) = 48 + d"
    by (simp add: pf_digit_def unat_word_ariths unat_of_nat)
  have "pf_digit d - 48 = of_nat d" using d by (simp add: pf_digit_def)
  then have "unat (pf_digit d - 48) = d" using d by (simp add: unat_of_nat)
  then show ?thesis using u d by (simp add: digit_index_def word_le_nat_alt)
qed

definition digits_value :: "u32 \<Rightarrow> nat list \<Rightarrow> u32" where
  "digits_value v ds = foldl (\<lambda>v d. v * 10 + of_nat d) v ds"

lemma atoi_digits_value:
  assumes "cstr m p (map pf_digit ds)" "\<forall>d\<in>set ds. d < 10"
  shows "atoi_digits m p v = Some (digits_value v ds)"
  using assms
proof (induction ds arbitrary: p v)
  case Nil
  then show ?case by (subst atoi_digits.simps) (simp add: digits_value_def)
next
  case (Cons d ds)
  then show ?case
    using Cons.IH [of "p + 1" "v * 10 + of_nat d"] digit_index_digit [of d]
    by (subst atoi_digits.simps) (simp add: digits_value_def)
qed

lemma digits_of_decimal:
  "\<exists>ds. digits_of 10 n = map pf_digit ds \<and> (\<forall>d\<in>set ds. d < 10) \<and> ds \<noteq> [] \<and> digits_value 0 ds = of_nat n"
proof (induction n rule: less_induct)
  case (less n)
  show ?case
  proof (cases "n < 10")
    case True
    then show ?thesis
      by (intro exI [of _ "[n]"]) (simp add: digits_of.simps digits_value_def)
  next
    case False
    then obtain ds where ds: "digits_of 10 (n div 10) = map pf_digit ds" "\<forall>d\<in>set ds. d < 10"
      "digits_value 0 ds = of_nat (n div 10)"
      using less.IH [of "n div 10"] by auto
    have "digits_of 10 n = map pf_digit (ds @ [n mod 10])"
      using False ds(1) by (subst digits_of.simps) simp
    moreover have "(of_nat (n div 10) * 10 + of_nat (n mod 10) :: u32) = of_nat (n div 10 * 10 + n mod 10)"
      by (simp only: of_nat_add of_nat_mult of_nat_numeral)
    ultimately show ?thesis
      using ds(2,3) by (intro exI [of _ "ds @ [n mod 10]"]) (simp add: digits_value_def)
  qed
qed

lemma unat_of_int_small:
  assumes "0 \<le> k" "k < 2 ^ 64"
  shows "unat (of_int k :: u64) = nat k"
proof -
  have "(of_int k :: u64) = of_nat (nat k)" using assms(1) by simp
  moreover have "nat k < 2 ^ 64" using assms by (simp add: nat_less_iff)
  ultimately show ?thesis by (simp add: unat_of_nat)
qed

lemma wrap32_small: "0 \<le> i \<Longrightarrow> i < 2 ^ 31 \<Longrightarrow> wrap32 i = i"
  by (simp add: wrap32_def)

lemma pf_printstuff_plain:
  assumes "pf_spacing pf = 0" "length a + length b + length c < 2 ^ 31"
  shows "pf_printstuff send a b c pf = pf_print send c (pf_print send b (pf_print send a pf))"
proof -
  have "wrap32 (int (length a) + int (length b) + int (length c)) = int (length a) + int (length b) + int (length c)"
    by (rule wrap32_small) (use assms(2) in auto)
  then show ?thesis using assms(1) by (simp add: pf_printstuff_def Let_def)
qed

lemma decimal_length: "length (digits_of 10 (nat \<bar>sint (w :: u32)\<bar>)) \<le> 10"
proof (rule digits_of_length)
  have "- (2 ^ 31) \<le> sint w" "sint w < 2 ^ 31" using sint_range_size [of w] by (simp_all add: word_size)
  then show "nat \<bar>sint w\<bar> < 10 ^ 10" by (simp add: nat_less_iff abs_if)
qed simp_all

lemma vprintf_decimal:
  "vprintf (@) junk [] [37, 100] [AInt w] =
     (let t = (if sint w < 0 then [45] else []) @ digits_of 10 (nat \<bar>sint w\<bar>) in Done (t, int (length t)))"
proof -
  have r: "- (2 ^ 31) \<le> sint w" "sint w < 2 ^ 31" using sint_range_size [of w] by (simp_all add: word_size)
  define v where "v = (if sint w < 0 then of_int (- sint w) else of_int (sint w) :: u64)"
  have v: "unat v = nat \<bar>sint w\<bar>"
    unfolding v_def using unat_of_int_small [of "sint w"] unat_of_int_small [of "- sint w"] r by simp
  define p1 where "p1 = (pf_start ([] :: bytes) [AInt w])\<lparr>pf_in_pct := True\<rparr>"
  define p2 where "p2 = p1\<lparr>pf_ap := [], pf_sign := (sint w < 0), pf_num := v\<rparr>"
  have s1: "pf_send (@) junk 37 (pf_start [] [AInt w]) = Done p1"
    by (simp add: pf_send_def p1_def pf_start_def)
  have g: "pf_getnum 100 p1 = Done p2"
    by (simp add: pf_getnum_def p1_def p2_def pf_start_def va_int_def v_def)
  let ?p = "p2\<lparr>pf_base := 10\<rparr>" and ?s = "if sint w < 0 then [45] else [] :: bytes" and ?d = "digits_of 10 (nat \<bar>sint w\<bar>)"
  have b: "pf_setbase 100 p2 = ?p" by (simp add: pf_setbase_def p2_def p1_def pf_start_def)
  have len: "length ?s + length ([] :: bytes) + length ?d < 2 ^ 31" using decimal_length [of w] by auto
  have "pf_printnum (@) junk ?p = Done (pf_printstuff (@) ?s [] ?d ?p)"
    using pf_printnum_text [of ?p "(@)" junk] v by (simp add: p2_def p1_def pf_start_def)
  also have "\<dots> = Done (pf_print (@) ?d (pf_print (@) [] (pf_print (@) ?s ?p)))"
    using pf_printstuff_plain [of ?p ?s "[]" ?d "(@)"] len by (simp add: p2_def p1_def pf_start_def)
  finally have n: "pf_printnum (@) junk ?p = Done (pf_print (@) ?d (pf_print (@) [] (pf_print (@) ?s ?p)))" .
  have s2: "pf_send (@) junk 100 p1 = Done (pf_endfield (pf_print (@) ?d (pf_print (@) [] (pf_print (@) ?s ?p))))"
    using g b n by (simp add: pf_send_def p1_def is_modifier_def is_inttype_def)
  have "wrap32 (int (length ?s)) = int (length ?s)" "wrap32 (int (length ?s) + int (length ?d)) = int (length ?s) + int (length ?d)"
    using len by (auto intro!: wrap32_small)
  then show ?thesis
    using s1 s2 by (simp add: vprintf_def pf_endfield_def pf_print_def p2_def p1_def pf_start_def Let_def)
qed

lemma atoi_decimal:
  assumes "cstr m p ((if sint w < 0 then [45] else []) @ digits_of 10 (nat \<bar>sint w\<bar>))"
  shows "atoi m p = Some (sint (w :: u32))"
proof -
  obtain ds where ds: "digits_of 10 (nat \<bar>sint w\<bar>) = map pf_digit ds" "\<forall>d\<in>set ds. d < 10" "ds \<noteq> []"
    "digits_value 0 ds = of_nat (nat \<bar>sint w\<bar>)"
    using digits_of_decimal by blast
  show ?thesis
  proof (cases "sint w < 0")
    case True
    then have c: "m p = 45" "cstr m (p + 1) (map pf_digit ds)" using assms ds(1) by simp_all
    have "(- of_nat (nat \<bar>sint w\<bar>) :: u32) = w" using True by simp
    moreover have "atoi_spaces m p = Some p" by (subst atoi_spaces.simps) (simp add: c(1))
    ultimately show ?thesis
      using c atoi_digits_value [OF c(2) ds(2), of 0] ds(4) by (simp add: atoi_def Let_def)
  next
    case False
    then have c: "cstr m p (map pf_digit ds)" using assms ds(1) by simp
    obtain d es where d: "ds = d # es" using ds(3) by (cases ds) auto
    then have md: "m p = pf_digit d" "d < 10" using c ds(2) by simp_all
    have "unat (m p) = 48 + d" using md by (simp add: pf_digit_def unat_word_ariths unat_of_nat)
    then have ne: "m p \<noteq> 32" "m p \<noteq> 9" "m p \<noteq> 45" "m p \<noteq> 43" using md(2) by auto
    have "(of_nat (nat \<bar>sint w\<bar>) :: u32) = w" using False by simp
    moreover have "atoi_spaces m p = Some p" by (subst atoi_spaces.simps) (simp add: ne)
    ultimately show ?thesis
      using ne atoi_digits_value [OF c ds(2), of 0] ds(4) by (simp add: atoi_def Let_def)
  qed
qed

lemma cstr_mem_of: "0 \<notin> set t \<Longrightarrow> cstr (mem_of (t @ 0 # r)) 0 t"
proof -
  assume "0 \<notin> set t"
  then have "\<forall>i<length t. t ! i \<noteq> 0" using nth_mem by fastforce
  then have "cstr (mem_of (t @ 0 # r)) 0 (t @ [])" unfolding cstr_append by (simp add: mem_of_def nth_append)
  then show ?thesis by simp
qed

text \<open>
  C23. What \<^verbatim>\<open>snprintf\<close> prints with \<^verbatim>\<open>%d\<close>, \<^verbatim>\<open>atoi\<close> reads back: for every \<^verbatim>\<open>int\<close>, the smallest one
  included, and every buffer of 12 bytes or more, with whatever was in it, the number comes back.
\<close>

theorem snprintf_atoi_roundtrip:
  assumes "12 \<le> len" "len \<le> length buf"
  shows "\<exists>buf' n. vsnprintf junk buf len [37, 100] [AInt w] = Done (buf', n) \<and> length buf' = length buf \<and>
    atoi (mem_of buf') 0 = Some (sint w)"
proof -
  define t where "t = (if sint w < 0 then [45] else []) @ digits_of 10 (nat \<bar>sint w\<bar>)"
  have len: "length t \<le> 11" using decimal_length [of w] by (auto simp: t_def)
  have nz: "0 \<notin> set t" using digits_of_nz [of 10 "nat \<bar>sint w\<bar>"] by (simp add: t_def)
  have "vsnprintf junk buf len [37, 100] [AInt w] =
    Done (t @ 0 # drop (Suc (length t)) buf, int (length t))"
    using snprintf_exact [OF assms(2) vprintf_decimal [of junk w, folded t_def, unfolded Let_def]] len assms(1)
    by (simp add: min_def)
  then show ?thesis
    using atoi_decimal [of "mem_of (t @ 0 # drop (Suc (length t)) buf)" 0 w] cstr_mem_of [OF nz] len assms
    by (simp add: t_def [symmetric])
qed

theorem snprintf_atoi_roundtrip_witness:
  "\<exists>buf' n. vsnprintf (\<lambda>i. 0) (replicate 12 85) 12 [37, 100] [AInt 0x80000000] = Done (buf', n) \<and>
    atoi (mem_of buf') 0 = Some (- 2147483648)"
  using snprintf_atoi_roundtrip [of 12 "replicate 12 85" "\<lambda>i. 0" "0x80000000"] by auto

end
