(* ===== verification/ThreadList.thy ===== *)
theory ThreadList
  imports OS_Prelude
begin

text \<open>
  The intrusive doubly linked thread lists of \<^verbatim>\<open>kern/thread/threadlist.c\<close>: run queues, wait
  channels, zombie lists and the local lists of the migration code are all of this type.

  A node is named by its owner: the \<^verbatim>\<open>t_listnode\<close> of a thread, or the head or tail sentinel of a
  list.  The operations read and write the pointers in the order of the source; following a
  null pointer is a kernel fault, \<^term>\<open>Panic\<close>.  \<open>rep\<close> relates a heap to the thread lists it
  represents, for all lists at once, so that every law also says that the other lists keep
  their content.  The locale \<open>thread_lists\<close> holds what the users of the lists rely on.
\<close>

section \<open>Nodes and lists (include/threadlist.h)\<close>

datatype nodeptr = ThreadNode nat | HeadNode nat | TailNode nat

record threadlistnode =
  tln_prev :: "nodeptr option"
  tln_next :: "nodeptr option"
  tln_self :: "nat option"

record threadlists =
  tl_node :: "nodeptr \<Rightarrow> threadlistnode"
  tl_count :: "nat \<Rightarrow> u32"

definition upd_node ::
  "nodeptr option \<Rightarrow> (threadlistnode \<Rightarrow> threadlistnode) \<Rightarrow> threadlists \<Rightarrow> threadlists outcome" where
  "upd_node p f h = (case p of None \<Rightarrow> Panic
     | Some n \<Rightarrow> Done (h\<lparr>tl_node := (tl_node h)(n := f (tl_node h n))\<rparr>))"

definition upd_count :: "nat \<Rightarrow> (u32 \<Rightarrow> u32) \<Rightarrow> threadlists \<Rightarrow> threadlists" where
  "upd_count l f h = h\<lparr>tl_count := (tl_count h)(l := f (tl_count h l))\<rparr>"

definition threadlistnode_init :: "nat \<Rightarrow> threadlists \<Rightarrow> threadlists" where
  "threadlistnode_init t h = h\<lparr>tl_node := (tl_node h)(ThreadNode t :=
     \<lparr>tln_prev = None, tln_next = None, tln_self = Some t\<rparr>)\<rparr>"

definition threadlistnode_cleanup :: "nat \<Rightarrow> threadlists \<Rightarrow> threadlists outcome" where
  "threadlistnode_cleanup t h = (let n = tl_node h (ThreadNode t) in
     if tln_next n \<noteq> None then Panic
     else if tln_prev n \<noteq> None then Panic
     else if tln_self n = None then Panic
     else Done h)"

definition threadlist_init :: "nat \<Rightarrow> threadlists \<Rightarrow> threadlists" where
  "threadlist_init l h = h\<lparr>tl_node := (tl_node h)
       (HeadNode l := \<lparr>tln_prev = None, tln_next = Some (TailNode l), tln_self = None\<rparr>,
        TailNode l := \<lparr>tln_prev = Some (HeadNode l), tln_next = None, tln_self = None\<rparr>),
     tl_count := (tl_count h)(l := 0)\<rparr>"

definition threadlist_isempty :: "nat \<Rightarrow> threadlists \<Rightarrow> bool" where
  "threadlist_isempty l h = (tl_count h l = 0)"

definition threadlist_cleanup :: "nat \<Rightarrow> threadlists \<Rightarrow> threadlists outcome" where
  "threadlist_cleanup l h =
     (if \<not> threadlist_isempty l h then Panic
      else if tl_count h l \<noteq> 0 then Panic
      else Done h)"

section \<open>Insertion and removal of nodes\<close>

definition threadlist_insertafternode :: "nodeptr \<Rightarrow> nat \<Rightarrow> threadlists \<Rightarrow> threadlists outcome" where
  "threadlist_insertafternode onlist t h = (let addee = ThreadNode t in
     bindo (upd_node (Some addee) (\<lambda>n. n\<lparr>tln_prev := Some onlist\<rparr>) h) (\<lambda>h.
     bindo (upd_node (Some addee) (\<lambda>n. n\<lparr>tln_next := tln_next (tl_node h onlist)\<rparr>) h) (\<lambda>h.
     bindo (upd_node (tln_prev (tl_node h addee)) (\<lambda>n. n\<lparr>tln_next := Some addee\<rparr>) h) (\<lambda>h.
     upd_node (tln_next (tl_node h addee)) (\<lambda>n. n\<lparr>tln_prev := Some addee\<rparr>) h))))"

definition threadlist_insertbeforenode :: "nat \<Rightarrow> nodeptr \<Rightarrow> threadlists \<Rightarrow> threadlists outcome" where
  "threadlist_insertbeforenode t onlist h = (let addee = ThreadNode t in
     bindo (upd_node (Some addee) (\<lambda>n. n\<lparr>tln_prev := tln_prev (tl_node h onlist)\<rparr>) h) (\<lambda>h.
     bindo (upd_node (Some addee) (\<lambda>n. n\<lparr>tln_next := Some onlist\<rparr>) h) (\<lambda>h.
     bindo (upd_node (tln_prev (tl_node h addee)) (\<lambda>n. n\<lparr>tln_next := Some addee\<rparr>) h) (\<lambda>h.
     upd_node (tln_next (tl_node h addee)) (\<lambda>n. n\<lparr>tln_prev := Some addee\<rparr>) h))))"

definition threadlist_removenode :: "nodeptr \<Rightarrow> threadlists \<Rightarrow> threadlists outcome" where
  "threadlist_removenode p h =
     bindo (upd_node (tln_prev (tl_node h p)) (\<lambda>n. n\<lparr>tln_next := tln_next (tl_node h p)\<rparr>) h) (\<lambda>h.
     bindo (upd_node (tln_next (tl_node h p)) (\<lambda>n. n\<lparr>tln_prev := tln_prev (tl_node h p)\<rparr>) h) (\<lambda>h.
     bindo (upd_node (Some p) (\<lambda>n. n\<lparr>tln_prev := None\<rparr>) h) (\<lambda>h.
     upd_node (Some p) (\<lambda>n. n\<lparr>tln_next := None\<rparr>) h)))"

section \<open>The public operations\<close>

definition threadlist_addhead :: "nat \<Rightarrow> nat \<Rightarrow> threadlists \<Rightarrow> threadlists outcome" where
  "threadlist_addhead l t h =
     bindo (threadlist_insertafternode (HeadNode l) t h) (\<lambda>h. Done (upd_count l (\<lambda>c. c + 1) h))"

definition threadlist_addtail :: "nat \<Rightarrow> nat \<Rightarrow> threadlists \<Rightarrow> threadlists outcome" where
  "threadlist_addtail l t h =
     bindo (threadlist_insertbeforenode t (TailNode l) h) (\<lambda>h. Done (upd_count l (\<lambda>c. c + 1) h))"

definition threadlist_remhead :: "nat \<Rightarrow> threadlists \<Rightarrow> (threadlists \<times> nat option) outcome" where
  "threadlist_remhead l h = (case tln_next (tl_node h (HeadNode l)) of
     None \<Rightarrow> Panic
   | Some tln \<Rightarrow>
       if tln_next (tl_node h tln) = None then Done (h, None)
       else bindo (threadlist_removenode tln h) (\<lambda>h.
         let h = upd_count l (\<lambda>c. c - 1) h in Done (h, tln_self (tl_node h tln))))"

definition threadlist_remtail :: "nat \<Rightarrow> threadlists \<Rightarrow> (threadlists \<times> nat option) outcome" where
  "threadlist_remtail l h = (case tln_prev (tl_node h (TailNode l)) of
     None \<Rightarrow> Panic
   | Some tln \<Rightarrow>
       if tln_prev (tl_node h tln) = None then Done (h, None)
       else bindo (threadlist_removenode tln h) (\<lambda>h.
         let h = upd_count l (\<lambda>c. c - 1) h in Done (h, tln_self (tl_node h tln))))"

definition threadlist_insertafter :: "nat \<Rightarrow> nat \<Rightarrow> nat \<Rightarrow> threadlists \<Rightarrow> threadlists outcome" where
  "threadlist_insertafter l onlist addee h =
     bindo (threadlist_insertafternode (ThreadNode onlist) addee h) (\<lambda>h.
     Done (upd_count l (\<lambda>c. c + 1) h))"

definition threadlist_insertbefore :: "nat \<Rightarrow> nat \<Rightarrow> nat \<Rightarrow> threadlists \<Rightarrow> threadlists outcome" where
  "threadlist_insertbefore l addee onlist h =
     bindo (threadlist_insertbeforenode addee (ThreadNode onlist) h) (\<lambda>h.
     Done (upd_count l (\<lambda>c. c + 1) h))"

definition threadlist_remove :: "nat \<Rightarrow> nat \<Rightarrow> threadlists \<Rightarrow> threadlists outcome" where
  "threadlist_remove l t h =
     bindo (threadlist_removenode (ThreadNode t) h) (\<lambda>h. Done (upd_count l (\<lambda>c. c - 1) h))"

section \<open>Chains of linked nodes\<close>

fun linked :: "threadlists \<Rightarrow> nodeptr list \<Rightarrow> bool" where
  "linked h (a # b # r) = (tln_next (tl_node h a) = Some b \<and> tln_prev (tl_node h b) = Some a \<and>
     linked h (b # r))"
| "linked h r = True"

definition splice_in :: "nodeptr \<Rightarrow> nat \<Rightarrow> nodeptr \<Rightarrow> threadlists \<Rightarrow> threadlists" where
  "splice_in a t b h = h\<lparr>tl_node := (tl_node h)
     (ThreadNode t := (tl_node h (ThreadNode t))\<lparr>tln_prev := Some a, tln_next := Some b\<rparr>,
      a := (tl_node h a)\<lparr>tln_next := Some (ThreadNode t)\<rparr>,
      b := (tl_node h b)\<lparr>tln_prev := Some (ThreadNode t)\<rparr>)\<rparr>"

definition splice_out :: "nodeptr \<Rightarrow> nat \<Rightarrow> nodeptr \<Rightarrow> threadlists \<Rightarrow> threadlists" where
  "splice_out a t b h = h\<lparr>tl_node := (tl_node h)
     (ThreadNode t := (tl_node h (ThreadNode t))\<lparr>tln_prev := None, tln_next := None\<rparr>,
      a := (tl_node h a)\<lparr>tln_next := Some b\<rparr>,
      b := (tl_node h b)\<lparr>tln_prev := Some a\<rparr>)\<rparr>"

lemma linked_append: "linked h (xs @ a # ys) \<longleftrightarrow> linked h (xs @ [a]) \<and> linked h (a # ys)"
proof (induction xs)
  case (Cons x xs)
  then show ?case by (cases xs) auto
qed simp

lemma linked_frame:
  assumes "linked h ns"
    and "\<And>n. n \<in> set (butlast ns) \<Longrightarrow> tln_next (tl_node h' n) = tln_next (tl_node h n)"
    and "\<And>n. n \<in> set (tl ns) \<Longrightarrow> tln_prev (tl_node h' n) = tln_prev (tl_node h n)"
  shows "linked h' ns"
  using assms
proof (induction h ns rule: linked.induct)
  case (1 h a b r)
  then show ?case by (cases r) auto
qed simp_all

lemma linked_count [simp]: "linked (h\<lparr>tl_count := c\<rparr>) ns = linked h ns"
  by (rule iffI; erule linked_frame; simp)

lemma insertafternode_splice:
  assumes "tln_next (tl_node h a) = Some b" "a \<noteq> ThreadNode t" "b \<noteq> ThreadNode t" "a \<noteq> b"
  shows "threadlist_insertafternode a t h = Done (splice_in a t b h)"
  using assms
  by (auto simp: threadlist_insertafternode_def upd_node_def splice_in_def Let_def fun_upd_twist
      intro!: threadlists.equality ext)

lemma insertbeforenode_splice:
  assumes "tln_prev (tl_node h b) = Some a" "a \<noteq> ThreadNode t" "b \<noteq> ThreadNode t" "a \<noteq> b"
  shows "threadlist_insertbeforenode t b h = Done (splice_in a t b h)"
  using assms
  by (auto simp: threadlist_insertbeforenode_def upd_node_def splice_in_def Let_def fun_upd_twist
      intro!: threadlists.equality ext)

lemma removenode_splice:
  assumes "tln_prev (tl_node h (ThreadNode t)) = Some a" "tln_next (tl_node h (ThreadNode t)) = Some b"
    and "a \<noteq> ThreadNode t" "b \<noteq> ThreadNode t" "a \<noteq> b"
  shows "threadlist_removenode (ThreadNode t) h = Done (splice_out a t b h)"
  using assms
  by (auto simp: threadlist_removenode_def upd_node_def splice_out_def Let_def fun_upd_twist
      intro!: threadlists.equality ext)

lemma splice_in_frame:
  "n \<noteq> a \<Longrightarrow> n \<noteq> ThreadNode t \<Longrightarrow> tln_next (tl_node (splice_in a t b h) n) = tln_next (tl_node h n)"
  "n \<noteq> b \<Longrightarrow> n \<noteq> ThreadNode t \<Longrightarrow> tln_prev (tl_node (splice_in a t b h) n) = tln_prev (tl_node h n)"
  "tln_self (tl_node (splice_in a t b h) n) = tln_self (tl_node h n)"
  "tl_count (splice_in a t b h) = tl_count h"
  by (simp_all add: splice_in_def)

lemma splice_out_frame:
  "n \<noteq> a \<Longrightarrow> n \<noteq> ThreadNode t \<Longrightarrow> tln_next (tl_node (splice_out a t b h) n) = tln_next (tl_node h n)"
  "n \<noteq> b \<Longrightarrow> n \<noteq> ThreadNode t \<Longrightarrow> tln_prev (tl_node (splice_out a t b h) n) = tln_prev (tl_node h n)"
  "tln_self (tl_node (splice_out a t b h) n) = tln_self (tl_node h n)"
  "tl_count (splice_out a t b h) = tl_count h"
  by (simp_all add: splice_out_def)

text \<open>A change at the joint of two chains that leaves both chains' inner pointers alone.\<close>

lemma linked_joint:
  assumes "linked h (ps @ a # ms @ b # qs)" "distinct (ps @ a # ms @ b # qs)"
    and "\<And>n. n \<in> set ps \<union> set (b # qs) \<Longrightarrow> tln_next (tl_node h' n) = tln_next (tl_node h n)"
    and "\<And>n. n \<in> set (ps @ [a]) \<union> set qs \<Longrightarrow> tln_prev (tl_node h' n) = tln_prev (tl_node h n)"
  shows "linked h' (ps @ [a])" "linked h' (b # qs)"
proof -
  have "linked h (a # ms @ b # qs)" and l: "linked h (ps @ [a])"
    using assms(1) linked_append [of h ps a "ms @ b # qs"] by simp_all
  then have r: "linked h (b # qs)"
    using linked_append [of h "a # ms" b qs] by simp
  have "n \<in> set ps \<union> {a}" if "n \<in> set (tl (ps @ [a]))" for n
    using list.set_sel(2) [of "ps @ [a]" n] that by auto
  then show "linked h' (ps @ [a])"
    by (intro linked_frame [OF l]) (use assms(3,4) in auto)
  show "linked h' (b # qs)"
    by (rule linked_frame [OF r])
      (use assms(3) in_set_butlastD [of _ "b # qs"] in blast, use assms(4) in simp)
qed

lemma linked_splice_in:
  assumes "linked h (ps @ a # b # qs)" "distinct (ps @ a # b # qs)"
    "ThreadNode t \<notin> set (ps @ a # b # qs)"
  shows "linked (splice_in a t b h) (ps @ a # ThreadNode t # b # qs)"
proof -
  let ?h = "splice_in a t b h"
  have "linked ?h (ps @ [a])" "linked ?h (b # qs)"
    by (rule linked_joint [of h ps a "[]" b qs ?h]; use assms in \<open>auto intro!: splice_in_frame(1,2)\<close>)+
  then show ?thesis
    using assms linked_append [of ?h ps a "ThreadNode t # b # qs"] by (simp add: splice_in_def)
qed

lemma linked_splice_out:
  assumes "linked h (ps @ a # ThreadNode t # b # qs)" "distinct (ps @ a # ThreadNode t # b # qs)"
  shows "linked (splice_out a t b h) (ps @ a # b # qs)"
proof -
  let ?h = "splice_out a t b h"
  have "linked ?h (ps @ [a])" "linked ?h (b # qs)"
    by (rule linked_joint [of h ps a "[ThreadNode t]" b qs ?h];
        use assms in \<open>auto intro!: splice_out_frame(1,2)\<close>)+
  then show ?thesis
    using assms linked_append [of ?h ps a "b # qs"] by (simp add: splice_out_def)
qed

section \<open>The lists a heap represents\<close>

definition nodes :: "nat \<Rightarrow> nat list \<Rightarrow> nodeptr list" where
  "nodes l xs = HeadNode l # map ThreadNode xs @ [TailNode l]"

definition list_at :: "threadlists \<Rightarrow> nat \<Rightarrow> nat list \<Rightarrow> bool" where
  "list_at h l xs \<longleftrightarrow> linked h (nodes l xs) \<and>
     tln_prev (tl_node h (HeadNode l)) = None \<and> tln_next (tl_node h (TailNode l)) = None \<and>
     tl_count h l = of_nat (length xs)"

text \<open>
  \<open>rep U L M h\<close>: the nodes of the threads in \<open>U\<close> and the lists in \<open>L\<close> are initialised, list
  \<open>l\<close> holds the threads \<open>M l\<close>, no thread is on two lists, and a thread on no list has null links.
\<close>

definition rep :: "nat set \<Rightarrow> nat set \<Rightarrow> (nat \<Rightarrow> nat list) \<Rightarrow> threadlists \<Rightarrow> bool" where
  "rep U L M h \<longleftrightarrow> (\<forall>l\<in>L. list_at h l (M l) \<and> distinct (M l) \<and> set (M l) \<subseteq> U) \<and>
     (\<forall>l\<in>L. \<forall>m\<in>L. l \<noteq> m \<longrightarrow> set (M l) \<inter> set (M m) = {}) \<and>
     (\<forall>t\<in>U. tln_self (tl_node h (ThreadNode t)) = Some t) \<and>
     (\<forall>t\<in>U. (\<forall>l\<in>L. t \<notin> set (M l)) \<longrightarrow>
        tln_prev (tl_node h (ThreadNode t)) = None \<and> tln_next (tl_node h (ThreadNode t)) = None)"

definition before :: "nat \<Rightarrow> nat list \<Rightarrow> nodeptr" where
  "before l xs = last (HeadNode l # map ThreadNode xs)"

definition after :: "nat \<Rightarrow> nat list \<Rightarrow> nodeptr" where
  "after l ys = hd (map ThreadNode ys @ [TailNode l])"

lemma before_simps [simp]: "before l [] = HeadNode l" "before l (xs @ [x]) = ThreadNode x"
  by (simp_all add: before_def)

lemma after_simps [simp]: "after l [] = TailNode l" "after l (y # ys) = ThreadNode y"
  by (simp_all add: after_def)

lemma before_cases [simp]:
  "before l xs \<noteq> TailNode m" "t \<notin> set xs \<Longrightarrow> before l xs \<noteq> ThreadNode t"
  by (cases xs rule: rev_cases; auto)+

lemma after_cases [simp]:
  "after l ys \<noteq> HeadNode m" "t \<notin> set ys \<Longrightarrow> after l ys \<noteq> ThreadNode t"
  by (cases ys; auto)+

lemma nodes_joint:
  obtains ps qs where "nodes l (xs @ ys) = ps @ before l xs # after l ys # qs"
    and "nodes l (xs @ t # ys) = ps @ before l xs # ThreadNode t # after l ys # qs"
proof
  show "nodes l (xs @ ys) = butlast (HeadNode l # map ThreadNode xs) @
      before l xs # after l ys # tl (map ThreadNode ys @ [TailNode l])"
    by (cases xs rule: rev_cases; cases ys) (simp_all add: nodes_def butlast_append)
  show "nodes l (xs @ t # ys) = butlast (HeadNode l # map ThreadNode xs) @
      before l xs # ThreadNode t # after l ys # tl (map ThreadNode ys @ [TailNode l])"
    by (cases xs rule: rev_cases; cases ys) (simp_all add: nodes_def butlast_append)
qed

lemma distinct_nodes [simp]: "distinct (nodes l xs) \<longleftrightarrow> distinct xs"
  by (auto simp: nodes_def distinct_map inj_on_def)

lemma in_nodes [simp]:
  "ThreadNode t \<in> set (nodes l xs) \<longleftrightarrow> t \<in> set xs"
  "HeadNode m \<in> set (nodes l xs) \<longleftrightarrow> m = l"
  "TailNode m \<in> set (nodes l xs) \<longleftrightarrow> m = l"
  by (auto simp: nodes_def)

lemma disjoint_nodes:
  "l \<noteq> m \<Longrightarrow> set xs \<inter> set ys = {} \<Longrightarrow> set (nodes l xs) \<inter> set (nodes m ys) = {}"
  by (auto simp: nodes_def)

lemma ends_in_nodes: "before l xs \<in> set (nodes l (xs @ ys))" "after l ys \<in> set (nodes l (xs @ ys))"
  by (cases xs rule: rev_cases; cases ys; simp add: nodes_def)+

lemma in_tl_nodes: "n \<in> set (tl (nodes l xs)) \<Longrightarrow> n \<in> set (nodes l xs)"
  by (simp add: nodes_def)

lemma list_at_frame:
  assumes "list_at h l xs" "tl_count h' l = tl_count h l"
    and "\<And>n. n \<in> set (nodes l xs) \<Longrightarrow> tln_next (tl_node h' n) = tln_next (tl_node h n)"
    and "\<And>n. n \<in> set (nodes l xs) \<Longrightarrow> tln_prev (tl_node h' n) = tln_prev (tl_node h n)"
  shows "list_at h' l xs"
  using assms unfolding list_at_def
  by (auto intro!: linked_frame [of h _ h'] dest: in_set_butlastD in_tl_nodes)

lemma repD:
  assumes "rep U L M h"
  shows "l \<in> L \<Longrightarrow> list_at h l (M l)" "l \<in> L \<Longrightarrow> distinct (M l)" "l \<in> L \<Longrightarrow> set (M l) \<subseteq> U"
    "l \<in> L \<Longrightarrow> m \<in> L \<Longrightarrow> l \<noteq> m \<Longrightarrow> set (M l) \<inter> set (M m) = {}"
    "t \<in> U \<Longrightarrow> tln_self (tl_node h (ThreadNode t)) = Some t"
    "t \<in> U \<Longrightarrow> \<forall>l\<in>L. t \<notin> set (M l) \<Longrightarrow> tln_prev (tl_node h (ThreadNode t)) = None"
    "t \<in> U \<Longrightarrow> \<forall>l\<in>L. t \<notin> set (M l) \<Longrightarrow> tln_next (tl_node h (ThreadNode t)) = None"
  using assms by (simp_all add: rep_def)

lemma rep_ends:
  assumes "rep U L M h" "l \<in> L" "M l = xs @ ys"
  shows "tln_next (tl_node h (before l xs)) = Some (after l ys)"
    "tln_prev (tl_node h (after l ys)) = Some (before l xs)" "before l xs \<noteq> after l ys"
proof -
  obtain ps qs where n: "nodes l (xs @ ys) = ps @ before l xs # after l ys # qs"
    by (rule nodes_joint)
  have "linked h (before l xs # after l ys # qs)"
    using repD(1) [OF assms(1,2)] assms(3) n linked_append [of h ps "before l xs" "after l ys # qs"]
    by (simp add: list_at_def)
  then show "tln_next (tl_node h (before l xs)) = Some (after l ys)"
    "tln_prev (tl_node h (after l ys)) = Some (before l xs)" by simp_all
  show "before l xs \<noteq> after l ys"
    using repD(2) [OF assms(1,2)] assms(3) n distinct_nodes [of l "xs @ ys"] by auto
qed

text \<open>A change of one list, and of the node of one thread that is on no other list.\<close>

lemma rep_update:
  assumes r: "rep U L M h" and l: "l \<in> L" and t: "t \<in> U" "\<And>k. k \<in> L \<Longrightarrow> k \<noteq> l \<Longrightarrow> t \<notin> set (M k)"
    and at: "list_at h' l zs" "distinct zs" and null: "t \<notin> set zs \<Longrightarrow>
      tln_prev (tl_node h' (ThreadNode t)) = None \<and> tln_next (tl_node h' (ThreadNode t)) = None"
    and zs: "insert t (set zs) = insert t (set (M l))"
    and frame: "\<And>n. n \<notin> set (nodes l (M l)) \<Longrightarrow> n \<noteq> ThreadNode t \<Longrightarrow> tl_node h' n = tl_node h n"
      "\<And>n. tln_self (tl_node h' n) = tln_self (tl_node h n)"
      "\<And>k. k \<noteq> l \<Longrightarrow> tl_count h' k = tl_count h k"
  shows "rep U L (M(l := zs)) h'"
proof -
  have same: "tl_node h' n = tl_node h n" if "n \<in> set (nodes k (M k))" "k \<in> L" "k \<noteq> l" for n k
  proof (rule frame(1))
    show "n \<notin> set (nodes l (M l))"
      using disjoint_nodes [OF that(3) repD(4) [OF r that(2) l that(3)]] that(1) by blast
    show "n \<noteq> ThreadNode t"
      using t(2) [OF that(2,3)] that(1) by auto
  qed
  have other: "list_at h' k (M k)" if "k \<in> L" "k \<noteq> l" for k
    by (rule list_at_frame [OF repD(1) [OF r that(1)]]) (simp_all add: frame(3) same that)
  have free: "tln_prev (tl_node h' (ThreadNode u)) = None \<and> tln_next (tl_node h' (ThreadNode u)) = None"
    if u: "u \<in> U" "u \<notin> set zs" "\<forall>k\<in>L. k \<noteq> l \<longrightarrow> u \<notin> set (M k)" for u
  proof (cases "u = t")
    case False
    then have "u \<notin> set (M l)" using zs u(2) by auto
    then have "\<forall>k\<in>L. u \<notin> set (M k)" using u(3) by metis
    then show ?thesis
      using False \<open>u \<notin> set (M l)\<close> frame(1) [of "ThreadNode u"] repD(6,7) [OF r u(1)] by simp
  qed (use null u(2) in simp)
  have zs': "set zs \<subseteq> insert t (set (M l))" using zs by blast
  have sub1: "set zs \<subseteq> U" using zs' t(1) repD(3) [OF r l] by blast
  have sub2: "set zs \<inter> set (M k) = {}" if "k \<in> L" "k \<noteq> l" for k
    using zs' t(2) [OF that] repD(4) [OF r l that(1)] that(2) by blast
  show ?thesis
    unfolding rep_def
  proof (intro conjI ballI impI)
    fix k assume "k \<in> L"
    then show "list_at h' k ((M(l := zs)) k)" "distinct ((M(l := zs)) k)" "set ((M(l := zs)) k) \<subseteq> U"
      using at other sub1 repD(2,3) [OF r] by (cases "k = l"; simp)+
  next
    fix k m assume "k \<in> L" "m \<in> L" "k \<noteq> m"
    then show "set ((M(l := zs)) k) \<inter> set ((M(l := zs)) m) = {}"
      using sub2 repD(4) [OF r] by (cases "k = l"; cases "m = l") auto
  next
    fix u assume "u \<in> U"
    then show "tln_self (tl_node h' (ThreadNode u)) = Some u"
      using frame(2) repD(5) [OF r] by simp
    assume "\<forall>k\<in>L. u \<notin> set ((M(l := zs)) k)"
    then have "u \<notin> set zs" "\<forall>k\<in>L. k \<noteq> l \<longrightarrow> u \<notin> set (M k)"
      using l by (auto split: if_splits)
    then show "tln_prev (tl_node h' (ThreadNode u)) = None" "tln_next (tl_node h' (ThreadNode u)) = None"
      using free [OF \<open>u \<in> U\<close>] by simp_all
  qed
qed

lemma splice_in_ends:
  assumes "list_at h l (xs @ ys)" "distinct (xs @ ys)" "t \<notin> set (xs @ ys)"
  shows "list_at (upd_count l (\<lambda>c. c + 1) (splice_in (before l xs) t (after l ys) h)) l (xs @ t # ys)"
proof -
  obtain ps qs where n: "nodes l (xs @ ys) = ps @ before l xs # after l ys # qs"
    and n': "nodes l (xs @ t # ys) = ps @ before l xs # ThreadNode t # after l ys # qs"
    by (rule nodes_joint)
  let ?h = "splice_in (before l xs) t (after l ys) h"
  have "linked ?h (nodes l (xs @ t # ys))"
    unfolding n' by (rule linked_splice_in)
      (use assms n distinct_nodes [of l "xs @ ys"] in_nodes(1) [of t l "xs @ ys"] in
        \<open>simp_all add: list_at_def\<close>)
  then show ?thesis
    using assms(1) before_cases(1) [of l xs l, symmetric] after_cases(1) [of l ys l, symmetric] by (simp add: list_at_def upd_count_def splice_in_frame)
qed

lemma splice_out_ends:
  assumes "list_at h l (xs @ t # ys)" "distinct (xs @ t # ys)"
  shows "list_at (upd_count l (\<lambda>c. c - 1) (splice_out (before l xs) t (after l ys) h)) l (xs @ ys)"
proof -
  obtain ps qs where n: "nodes l (xs @ ys) = ps @ before l xs # after l ys # qs"
    and n': "nodes l (xs @ t # ys) = ps @ before l xs # ThreadNode t # after l ys # qs"
    by (rule nodes_joint)
  let ?h = "splice_out (before l xs) t (after l ys) h"
  have "linked ?h (nodes l (xs @ ys))"
    unfolding n by (rule linked_splice_out)
      (use assms n' distinct_nodes [of l "xs @ t # ys"] in \<open>simp_all add: list_at_def\<close>)
  then show ?thesis
    using assms(1) before_cases(1) [of l xs l, symmetric] after_cases(1) [of l ys l, symmetric] by (simp add: list_at_def upd_count_def splice_out_frame)
qed

lemma rep_splice_in:
  assumes r: "rep U L M h" and l: "l \<in> L" and m: "M l = xs @ ys"
    and t: "t \<in> U" "\<forall>l\<in>L. t \<notin> set (M l)"
  shows "rep U L (M(l := xs @ t # ys))
    (upd_count l (\<lambda>c. c + 1) (splice_in (before l xs) t (after l ys) h))"
proof (rule rep_update [OF r l t(1)])
  have tn: "t \<notin> set (xs @ ys)" using t l m by metis
  then show "list_at (upd_count l (\<lambda>c. c + 1) (splice_in (before l xs) t (after l ys) h)) l (xs @ t # ys)"
    using splice_in_ends [of h l xs ys t] repD(1,2) [OF r l] m by simp
  show "distinct (xs @ t # ys)"
    using repD(2) [OF r l] m tn by simp
  fix n assume "n \<notin> set (nodes l (M l))" "n \<noteq> ThreadNode t"
  then show "tl_node (upd_count l (\<lambda>c. c + 1) (splice_in (before l xs) t (after l ys) h)) n = tl_node h n"
    using ends_in_nodes(1) [of l xs ys] ends_in_nodes(2) [of l ys xs] m
    by (auto simp: upd_count_def splice_in_def)
qed (use t m in \<open>auto simp: upd_count_def splice_in_frame\<close>)

lemma rep_splice_out:
  assumes r: "rep U L M h" and l: "l \<in> L" and m: "M l = xs @ t # ys"
  shows "rep U L (M(l := xs @ ys))
    (upd_count l (\<lambda>c. c - 1) (splice_out (before l xs) t (after l ys) h))"
proof (rule rep_update [OF r l])
  show "t \<in> U" using repD(3) [OF r l] m by simp
  show "t \<notin> set (M k)" if "k \<in> L" "k \<noteq> l" for k
    using repD(4) [OF r l that(1)] that(2) m by auto
  show "list_at (upd_count l (\<lambda>c. c - 1) (splice_out (before l xs) t (after l ys) h)) l (xs @ ys)"
    using splice_out_ends [of h l xs t ys] repD(1,2) [OF r l] m by simp
  show "distinct (xs @ ys)"
    using repD(2) [OF r l] m by simp
  have "before l xs \<noteq> ThreadNode t" "after l ys \<noteq> ThreadNode t"
    using repD(2) [OF r l] m by simp_all
  then show "tln_prev (tl_node (upd_count l (\<lambda>c. c - 1) (splice_out (before l xs) t (after l ys) h)) (ThreadNode t)) = None \<and>
    tln_next (tl_node (upd_count l (\<lambda>c. c - 1) (splice_out (before l xs) t (after l ys) h)) (ThreadNode t)) = None"
    by (simp add: upd_count_def splice_out_def)
  fix n assume "n \<notin> set (nodes l (M l))" "n \<noteq> ThreadNode t"
  then show "tl_node (upd_count l (\<lambda>c. c - 1) (splice_out (before l xs) t (after l ys) h)) n = tl_node h n"
    using ends_in_nodes(1) [of l xs "t # ys"] ends_in_nodes(2) [of l ys "xs @ [t]"] m
    by (auto simp: upd_count_def splice_out_def)
qed (use m in \<open>auto simp: upd_count_def splice_out_frame\<close>)

section \<open>The contract of the thread lists\<close>

text \<open>
  The two loops of \<^verbatim>\<open>thread.c\<close> that move threads between lists: \<^verbatim>\<open>wchan_wakeall\<close> (and the end of
  \<^verbatim>\<open>thread_consider_migration\<close>) drains one list into another, and the migration code takes a
  number of threads off the tail of the run queue.  The first loop ends when its source is
  empty; \<open>n\<close> bounds its rounds.
\<close>

primrec drain_list ::
  "(nat \<Rightarrow> 'h \<Rightarrow> ('h \<times> nat option) outcome) \<Rightarrow> (nat \<Rightarrow> nat \<Rightarrow> 'h \<Rightarrow> 'h outcome) \<Rightarrow>
    nat \<Rightarrow> nat \<Rightarrow> nat \<Rightarrow> 'h \<Rightarrow> 'h outcome" where
  "drain_list remh addt 0 src dst h = Block"
| "drain_list remh addt (Suc n) src dst h = bindo (remh src h) (\<lambda>(h, r). case r of
     None \<Rightarrow> Done h
   | Some t \<Rightarrow> bindo (addt dst t h) (drain_list remh addt n src dst))"

primrec take_victims ::
  "(nat \<Rightarrow> 'h \<Rightarrow> ('h \<times> nat option) outcome) \<Rightarrow> (nat \<Rightarrow> nat \<Rightarrow> 'h \<Rightarrow> 'h outcome) \<Rightarrow>
    nat \<Rightarrow> nat \<Rightarrow> nat \<Rightarrow> 'h \<Rightarrow> 'h outcome" where
  "take_victims remt addh 0 src dst h = Done h"
| "take_victims remt addh (Suc n) src dst h = bindo (remt src h) (\<lambda>(h, r). case r of
     None \<Rightarrow> Panic
   | Some t \<Rightarrow> bindo (addh dst t h) (take_victims remt addh n src dst))"

text \<open>
  What the scheduler and the wait channels rely on: each operation returns, does to the named
  list what its name says, and leaves every other list alone.
\<close>

locale thread_lists =
  fixes repr :: "nat set \<Rightarrow> nat set \<Rightarrow> (nat \<Rightarrow> nat list) \<Rightarrow> 'h \<Rightarrow> bool"
    and addhead addtail :: "nat \<Rightarrow> nat \<Rightarrow> 'h \<Rightarrow> 'h outcome"
    and remhead remtail :: "nat \<Rightarrow> 'h \<Rightarrow> ('h \<times> nat option) outcome"
  assumes addhead: "repr U L M h \<Longrightarrow> l \<in> L \<Longrightarrow> t \<in> U \<Longrightarrow> \<forall>l\<in>L. t \<notin> set (M l) \<Longrightarrow>
      \<exists>h'. addhead l t h = Done h' \<and> repr U L (M(l := t # M l)) h'"
    and addtail: "repr U L M h \<Longrightarrow> l \<in> L \<Longrightarrow> t \<in> U \<Longrightarrow> \<forall>l\<in>L. t \<notin> set (M l) \<Longrightarrow>
      \<exists>h'. addtail l t h = Done h' \<and> repr U L (M(l := M l @ [t])) h'"
    and remhead_Nil: "repr U L M h \<Longrightarrow> l \<in> L \<Longrightarrow> M l = [] \<Longrightarrow> remhead l h = Done (h, None)"
    and remhead_Cons: "repr U L M h \<Longrightarrow> l \<in> L \<Longrightarrow> M l = t # ts \<Longrightarrow>
      \<exists>h'. remhead l h = Done (h', Some t) \<and> repr U L (M(l := ts)) h'"
    and remtail_Nil: "repr U L M h \<Longrightarrow> l \<in> L \<Longrightarrow> M l = [] \<Longrightarrow> remtail l h = Done (h, None)"
    and remtail_snoc: "repr U L M h \<Longrightarrow> l \<in> L \<Longrightarrow> M l = ts @ [t] \<Longrightarrow>
      \<exists>h'. remtail l h = Done (h', Some t) \<and> repr U L (M(l := ts)) h'"
    and repr_sub: "repr U L M h \<Longrightarrow> l \<in> L \<Longrightarrow> set (M l) \<subseteq> U"
    and repr_distinct: "repr U L M h \<Longrightarrow> l \<in> L \<Longrightarrow> distinct (M l)"
    and repr_disjoint: "repr U L M h \<Longrightarrow> l \<in> L \<Longrightarrow> m \<in> L \<Longrightarrow> l \<noteq> m \<Longrightarrow> set (M l) \<inter> set (M m) = {}"
begin

lemma moved_free:
  assumes "repr U L M h" "l \<in> L" "t \<in> set (M l)" "set ts \<subseteq> set (M l) - {t}"
  shows "t \<in> U" "\<forall>k\<in>L. t \<notin> set ((M(l := ts)) k)"
  using repr_sub [OF assms(1,2)] repr_disjoint [OF assms(1,2)] assms(3,4) by auto

lemma drain_list_moves:
  assumes "repr U L M h" "src \<in> L" "dst \<in> L" "src \<noteq> dst" "length (M src) < n"
  shows "\<exists>h'. drain_list remhead addtail n src dst h = Done h' \<and>
    repr U L (M(src := [], dst := M dst @ M src)) h'"
  using assms
proof (induction n arbitrary: M h)
  case (Suc n)
  show ?case
  proof (cases "M src")
    case Nil
    then have e: "M(src := [], dst := M dst @ M src) = M" by auto
    show ?thesis unfolding e using Suc.prems(1) remhead_Nil [OF Suc.prems(1,2) Nil] by simp
  next
    case (Cons t ts)
    have d: "set ts \<subseteq> set (M src) - {t}"
      using repr_distinct [OF Suc.prems(1,2)] Cons by auto
    obtain h1 where h1: "remhead src h = Done (h1, Some t)" "repr U L (M(src := ts)) h1"
      using remhead_Cons [OF Suc.prems(1,2) Cons] by auto
    have t: "t \<in> U" "\<forall>k\<in>L. t \<notin> set ((M(src := ts)) k)"
      using moved_free [OF Suc.prems(1,2) _ d] Cons by auto
    obtain h2 where h2: "addtail dst t h1 = Done h2" "repr U L (M(src := ts, dst := M dst @ [t])) h2"
      using addtail [OF h1(2) Suc.prems(3) t(1)] t(2) Suc.prems(4) by auto
    let ?M = "M(src := ts, dst := M dst @ [t])"
    have e: "?M(src := [], dst := ?M dst @ ?M src) = M(src := [], dst := M dst @ M src)"
      using Suc.prems(4) Cons by (auto intro!: ext)
    have n: "length (?M src) < n" using Suc.prems(4,5) Cons by simp
    obtain h' where "drain_list remhead addtail n src dst h2 = Done h'"
      "repr U L (M(src := [], dst := M dst @ M src)) h'"
      using Suc.IH [OF h2(2) Suc.prems(2-4) n] unfolding e by blast
    then show ?thesis
      using h1(1) h2(1) by (intro exI [of _ h']) (simp only: drain_list.simps bindo.simps prod.case option.case)
  qed
qed simp

lemma take_victims_takes:
  assumes "repr U L M h" "src \<in> L" "dst \<in> L" "src \<noteq> dst" "M src = xs @ ys"
  shows "\<exists>h'. take_victims remtail addhead (length ys) src dst h = Done h' \<and>
    repr U L (M(src := xs, dst := ys @ M dst)) h'"
  using assms
proof (induction ys arbitrary: M h rule: rev_induct)
  case Nil
  then have e: "M(src := xs, dst := [] @ M dst) = M" by auto
  show ?case unfolding e using Nil by simp
next
  case (snoc t ys)
  have e: "M src = (xs @ ys) @ [t]" using snoc.prems(5) by simp
  have d: "set (xs @ ys) \<subseteq> set (M src) - {t}"
    using repr_distinct [OF snoc.prems(1,2)] e by auto
  obtain h1 where h1: "remtail src h = Done (h1, Some t)" "repr U L (M(src := xs @ ys)) h1"
    using remtail_snoc [OF snoc.prems(1,2) e] by auto
  have t: "t \<in> U" "\<forall>k\<in>L. t \<notin> set ((M(src := xs @ ys)) k)"
    using moved_free [OF snoc.prems(1,2) _ d] e by auto
  obtain h2 where h2: "addhead dst t h1 = Done h2" "repr U L (M(src := xs @ ys, dst := t # M dst)) h2"
    using addhead [OF h1(2) snoc.prems(3) t(1)] t(2) snoc.prems(4) by auto
  let ?M = "M(src := xs @ ys, dst := t # M dst)"
  have e: "?M(src := xs, dst := ys @ ?M dst) = M(src := xs, dst := (ys @ [t]) @ M dst)"
    using snoc.prems(4) by (auto intro!: ext)
  have m: "?M src = xs @ ys" using snoc.prems(4) by simp
  obtain h' where "take_victims remtail addhead (length ys) src dst h2 = Done h'"
    "repr U L (M(src := xs, dst := (ys @ [t]) @ M dst)) h'"
    using snoc.IH [OF h2(2) snoc.prems(2-4) m] unfolding e by blast
  then show ?case
    using h1(1) h2(1) by (intro exI [of _ h'])
      (simp only: length_append_singleton take_victims.simps bindo.simps prod.case option.case)
qed

end

lemma threadlist_add_at:
  assumes r: "rep U L M h" and l: "l \<in> L" and m: "M l = xs @ ys"
    and t: "t \<in> U" "\<forall>l\<in>L. t \<notin> set (M l)"
  shows "threadlist_insertafternode (before l xs) t h = Done (splice_in (before l xs) t (after l ys) h)"
    and "threadlist_insertbeforenode t (after l ys) h = Done (splice_in (before l xs) t (after l ys) h)"
proof -
  have "t \<notin> set (xs @ ys)" using t(2) l m by metis
  then have ne: "before l xs \<noteq> ThreadNode t" "after l ys \<noteq> ThreadNode t" by simp_all
  note ends = rep_ends [OF r l m]
  show "threadlist_insertafternode (before l xs) t h = Done (splice_in (before l xs) t (after l ys) h)"
    by (simp add: insertafternode_splice [OF ends(1) ne ends(3)])
  show "threadlist_insertbeforenode t (after l ys) h = Done (splice_in (before l xs) t (after l ys) h)"
    by (simp add: insertbeforenode_splice [OF ends(2) ne ends(3)])
qed

lemma rep_links:
  assumes r: "rep U L M h" and l: "l \<in> L" and m: "M l = xs @ t # ys"
  shows "tln_prev (tl_node h (ThreadNode t)) = Some (before l xs)"
    "tln_next (tl_node h (ThreadNode t)) = Some (after l ys)"
    "threadlist_removenode (ThreadNode t) h = Done (splice_out (before l xs) t (after l ys) h)"
    "tln_self (tl_node (splice_out (before l xs) t (after l ys) h) (ThreadNode t)) = Some t"
proof -
  show p: "tln_prev (tl_node h (ThreadNode t)) = Some (before l xs)"
    using rep_ends(2) [OF r l, of xs "t # ys"] m by simp
  show n: "tln_next (tl_node h (ThreadNode t)) = Some (after l ys)"
    using rep_ends(1) [OF r l, of "xs @ [t]" ys] m by simp
  have d: "distinct (xs @ t # ys)" using repD(2) [OF r l] m by simp
  then have "before l xs \<noteq> after l ys"
    by (cases xs rule: rev_cases; cases ys; auto)
  then show "threadlist_removenode (ThreadNode t) h = Done (splice_out (before l xs) t (after l ys) h)"
    using removenode_splice [OF p n] d by simp
  show "tln_self (tl_node (splice_out (before l xs) t (after l ys) h) (ThreadNode t)) = Some t"
    using repD(5) [OF r, of t] repD(3) [OF r l] m by (simp add: splice_out_frame)
qed

lemma threadlist_addhead_rep:
  assumes "rep U L M h" "l \<in> L" "t \<in> U" "\<forall>l\<in>L. t \<notin> set (M l)"
  shows "\<exists>h'. threadlist_addhead l t h = Done h' \<and> rep U L (M(l := t # M l)) h'"
  using threadlist_add_at(1) [of U L M h l "[]" "M l" t] rep_splice_in [of U L M h l "[]" "M l" t] assms
  by (simp add: threadlist_addhead_def)

lemma threadlist_addtail_rep:
  assumes "rep U L M h" "l \<in> L" "t \<in> U" "\<forall>l\<in>L. t \<notin> set (M l)"
  shows "\<exists>h'. threadlist_addtail l t h = Done h' \<and> rep U L (M(l := M l @ [t])) h'"
  using threadlist_add_at(2) [of U L M h l "M l" "[]" t] rep_splice_in [of U L M h l "M l" "[]" t] assms
  by (simp add: threadlist_addtail_def)

lemma threadlist_insertafter_rep:
  assumes "rep U L M h" "l \<in> L" "t \<in> U" "\<forall>l\<in>L. t \<notin> set (M l)" "M l = xs @ u # ys"
  shows "\<exists>h'. threadlist_insertafter l u t h = Done h' \<and> rep U L (M(l := xs @ u # t # ys)) h'"
  using threadlist_add_at(1) [of U L M h l "xs @ [u]" ys t] rep_splice_in [of U L M h l "xs @ [u]" ys t] assms
  by (simp add: threadlist_insertafter_def)

lemma threadlist_insertbefore_rep:
  assumes "rep U L M h" "l \<in> L" "t \<in> U" "\<forall>l\<in>L. t \<notin> set (M l)" "M l = xs @ u # ys"
  shows "\<exists>h'. threadlist_insertbefore l t u h = Done h' \<and> rep U L (M(l := xs @ t # u # ys)) h'"
  using threadlist_add_at(2) [of U L M h l xs "u # ys" t] rep_splice_in [of U L M h l xs "u # ys" t] assms
  by (simp add: threadlist_insertbefore_def)

lemma threadlist_remove_rep:
  assumes "rep U L M h" "l \<in> L" "M l = xs @ t # ys"
  shows "\<exists>h'. threadlist_remove l t h = Done h' \<and> rep U L (M(l := xs @ ys)) h'"
  using rep_splice_out [OF assms] rep_links(3) [OF assms] by (simp add: threadlist_remove_def)

lemma threadlist_remhead_rep:
  assumes "rep U L M h" "l \<in> L"
  shows "\<exists>h'. threadlist_remhead l h = Done (h', case M l of [] \<Rightarrow> None | t # ts \<Rightarrow> Some t) \<and>
    rep U L (M(l := tl (M l))) h'"
proof (cases "M l")
  case Nil
  then have "threadlist_remhead l h = Done (h, None)"
    using rep_ends(1) [OF assms, of "[]" "[]"] repD(1) [OF assms]
    by (simp add: threadlist_remhead_def list_at_def)
  moreover have "M(l := tl (M l)) = M" using Nil by auto
  ultimately show ?thesis using assms(1) Nil by simp
next
  case (Cons t ts)
  then show ?thesis
    using rep_ends(1) [OF assms, of "[]" "t # ts"] rep_links [OF assms, of "[]" t ts]
      rep_splice_out [OF assms, of "[]" t ts]
    by (simp add: threadlist_remhead_def upd_count_def)
qed

lemma threadlist_remtail_rep:
  assumes "rep U L M h" "l \<in> L"
  shows "\<exists>h'. threadlist_remtail l h = Done (h', if M l = [] then None else Some (last (M l))) \<and>
    rep U L (M(l := butlast (M l))) h'"
proof (cases "M l" rule: rev_cases)
  case Nil
  then have "threadlist_remtail l h = Done (h, None)"
    using rep_ends(2) [OF assms, of "[]" "[]"] repD(1) [OF assms]
    by (simp add: threadlist_remtail_def list_at_def)
  moreover have "M(l := butlast (M l)) = M" using Nil by auto
  ultimately show ?thesis using assms(1) Nil by simp
next
  case (snoc ts t)
  then show ?thesis
    using rep_ends(2) [OF assms, of "ts @ [t]" "[]"] rep_links [OF assms, of ts t "[]"]
      rep_splice_out [OF assms, of ts t "[]"]
    by (simp add: threadlist_remtail_def upd_count_def)
qed

interpretation tl: thread_lists rep threadlist_addhead threadlist_addtail
  threadlist_remhead threadlist_remtail
proof
  fix U L :: "nat set" and M :: "nat \<Rightarrow> nat list" and h l m and t :: nat and ts :: "nat list"
  assume r: "rep U L M h" and l: "l \<in> L"
  show "threadlist_remhead l h = Done (h, None)" if "M l = []"
    using rep_ends(1) [OF r l, of "[]" "[]"] repD(1) [OF r l] that
    by (simp add: threadlist_remhead_def list_at_def)
  show "threadlist_remtail l h = Done (h, None)" if "M l = []"
    using rep_ends(2) [OF r l, of "[]" "[]"] repD(1) [OF r l] that
    by (simp add: threadlist_remtail_def list_at_def)
  show "\<exists>h'. threadlist_remhead l h = Done (h', Some t) \<and> rep U L (M(l := ts)) h'" if "M l = t # ts"
    using threadlist_remhead_rep [OF r l] that by simp
  show "\<exists>h'. threadlist_remtail l h = Done (h', Some t) \<and> rep U L (M(l := ts)) h'" if "M l = ts @ [t]"
    using threadlist_remtail_rep [OF r l] that by simp
qed (simp_all add: threadlist_addhead_rep threadlist_addtail_rep repD(2-4))

section \<open>Sequences of list operations\<close>

text \<open>
  Any sequence of calls, initialisations and clean-ups included, against its effect on plain
  lists.  \<open>tl_spec\<close> is \<^term>\<open>None\<close> where a caller breaks the rules: a thread put on a list while
  it is on one, a neighbour or a removed thread that is not on the list, a list cleaned up
  before it is empty.
\<close>

datatype tl_op = NodeInit nat | NodeCleanup nat | ListInit nat | ListCleanup nat
  | AddHead nat nat | AddTail nat nat | RemHead nat | RemTail nat
  | InsertAfter nat nat nat | InsertBefore nat nat nat | RemoveThread nat nat

type_synonym tl_state = "nat set \<times> nat set \<times> (nat \<Rightarrow> nat list)"

definition quiet :: "threadlists outcome \<Rightarrow> (threadlists \<times> nat option) outcome" where
  "quiet r = bindo r (\<lambda>h. Done (h, None))"

fun tl_exec :: "tl_op \<Rightarrow> threadlists \<Rightarrow> (threadlists \<times> nat option) outcome" where
  "tl_exec (NodeInit t) h = Done (threadlistnode_init t h, None)"
| "tl_exec (NodeCleanup t) h = quiet (threadlistnode_cleanup t h)"
| "tl_exec (ListInit l) h = Done (threadlist_init l h, None)"
| "tl_exec (ListCleanup l) h = quiet (threadlist_cleanup l h)"
| "tl_exec (AddHead l t) h = quiet (threadlist_addhead l t h)"
| "tl_exec (AddTail l t) h = quiet (threadlist_addtail l t h)"
| "tl_exec (RemHead l) h = threadlist_remhead l h"
| "tl_exec (RemTail l) h = threadlist_remtail l h"
| "tl_exec (InsertAfter l u t) h = quiet (threadlist_insertafter l u t h)"
| "tl_exec (InsertBefore l t u) h = quiet (threadlist_insertbefore l t u h)"
| "tl_exec (RemoveThread l t) h = quiet (threadlist_remove l t h)"

fun insert_after :: "nat \<Rightarrow> nat \<Rightarrow> nat list \<Rightarrow> nat list" where
  "insert_after u t [] = []"
| "insert_after u t (x # xs) = (if x = u then x # t # xs else x # insert_after u t xs)"

fun insert_before :: "nat \<Rightarrow> nat \<Rightarrow> nat list \<Rightarrow> nat list" where
  "insert_before t u [] = []"
| "insert_before t u (x # xs) = (if x = u then t # x # xs else x # insert_before t u xs)"

definition unlisted :: "tl_state \<Rightarrow> nat \<Rightarrow> bool" where
  "unlisted = (\<lambda>(U, L, M) t. t \<in> U \<and> (\<forall>l\<in>L. t \<notin> set (M l)))"

fun tl_spec :: "tl_op \<Rightarrow> tl_state \<Rightarrow> (tl_state \<times> nat option) option" where
  "tl_spec (NodeInit t) (U, L, M) =
     (if t \<in> U then None else Some ((insert t U, L, M), None))"
| "tl_spec (NodeCleanup t) (U, L, M) =
     (if unlisted (U, L, M) t then Some ((U - {t}, L, M), None) else None)"
| "tl_spec (ListInit l) (U, L, M) =
     (if l \<in> L then None else Some ((U, insert l L, M(l := [])), None))"
| "tl_spec (ListCleanup l) (U, L, M) =
     (if l \<in> L \<and> M l = [] then Some ((U, L - {l}, M), None) else None)"
| "tl_spec (AddHead l t) (U, L, M) =
     (if l \<in> L \<and> unlisted (U, L, M) t then Some ((U, L, M(l := t # M l)), None) else None)"
| "tl_spec (AddTail l t) (U, L, M) =
     (if l \<in> L \<and> unlisted (U, L, M) t then Some ((U, L, M(l := M l @ [t])), None) else None)"
| "tl_spec (RemHead l) (U, L, M) =
     (if l \<in> L then Some ((U, L, M(l := tl (M l))), if M l = [] then None else Some (hd (M l)))
      else None)"
| "tl_spec (RemTail l) (U, L, M) =
     (if l \<in> L then Some ((U, L, M(l := butlast (M l))), if M l = [] then None else Some (last (M l)))
      else None)"
| "tl_spec (InsertAfter l u t) (U, L, M) =
     (if l \<in> L \<and> unlisted (U, L, M) t \<and> u \<in> set (M l)
      then Some ((U, L, M(l := insert_after u t (M l))), None) else None)"
| "tl_spec (InsertBefore l t u) (U, L, M) =
     (if l \<in> L \<and> unlisted (U, L, M) t \<and> u \<in> set (M l)
      then Some ((U, L, M(l := insert_before t u (M l))), None) else None)"
| "tl_spec (RemoveThread l t) (U, L, M) =
     (if l \<in> L \<and> t \<in> set (M l) then Some ((U, L, M(l := remove1 t (M l))), None) else None)"

fun tl_run :: "tl_op list \<Rightarrow> threadlists \<Rightarrow> (threadlists \<times> nat option list) outcome" where
  "tl_run [] h = Done (h, [])"
| "tl_run (c # cs) h = bindo (tl_exec c h) (\<lambda>(h, r).
     bindo (tl_run cs h) (\<lambda>(h, rs). Done (h, r # rs)))"

fun tl_spec_run :: "tl_op list \<Rightarrow> tl_state \<Rightarrow> (tl_state \<times> nat option list) option" where
  "tl_spec_run [] s = Some (s, [])"
| "tl_spec_run (c # cs) s = (case tl_spec c s of None \<Rightarrow> None
   | Some (s, r) \<Rightarrow> (case tl_spec_run cs s of None \<Rightarrow> None | Some (s, rs) \<Rightarrow> Some (s, r # rs)))"

definition represents :: "threadlists \<Rightarrow> tl_state \<Rightarrow> bool" where
  "represents h = (\<lambda>(U, L, M). rep U L M h)"

lemma insert_after_at: "u \<notin> set xs \<Longrightarrow> insert_after u t (xs @ u # ys) = xs @ u # t # ys"
  by (induction xs) auto

lemma insert_before_at: "u \<notin> set xs \<Longrightarrow> insert_before t u (xs @ u # ys) = xs @ t # u # ys"
  by (induction xs) auto

lemma rep_node_init:
  assumes r: "rep U L M h" and t: "t \<notin> U"
  shows "rep (insert t U) L M (threadlistnode_init t h)"
proof -
  have "list_at (threadlistnode_init t h) l (M l)" if "l \<in> L" for l
    by (rule list_at_frame [OF repD(1) [OF r that]])
      (use repD(3) [OF r that] t in \<open>auto simp: threadlistnode_init_def\<close>)
  then show ?thesis
    using r t by (auto simp: rep_def threadlistnode_init_def)
qed

lemma rep_list_init:
  assumes r: "rep U L M h" and l: "l \<notin> L"
  shows "rep U (insert l L) (M(l := [])) (threadlist_init l h)"
proof -
  have "list_at (threadlist_init l h) k (M k)" if "k \<in> L" for k
    by (rule list_at_frame [OF repD(1) [OF r that]])
      (use l that in \<open>auto simp: threadlist_init_def\<close>)
  moreover have "list_at (threadlist_init l h) l []"
    by (simp add: list_at_def nodes_def threadlist_init_def)
  ultimately show ?thesis
    using r l unfolding rep_def by (auto simp: threadlist_init_def)
qed

lemma rep_node_cleanup:
  assumes "rep U L M h" "unlisted (U, L, M) t"
  shows "threadlistnode_cleanup t h = Done h \<and> rep (U - {t}) L M h"
  using assms by (auto simp: unlisted_def threadlistnode_cleanup_def rep_def)

lemma rep_list_cleanup:
  assumes "rep U L M h" "l \<in> L" "M l = []"
  shows "threadlist_cleanup l h = Done h \<and> rep U (L - {l}) M h"
proof -
  have "tl_count h l = 0"
    using repD(1) [OF assms(1,2)] assms(3) by (simp add: list_at_def)
  moreover have "(\<forall>k\<in>L - {l}. t \<notin> set (M k)) \<longleftrightarrow> (\<forall>k\<in>L. t \<notin> set (M k))" for t
    using assms(3) by (metis DiffI empty_iff empty_set singletonD DiffD1)
  then have "rep U (L - {l}) M h"
    using assms(1) unfolding rep_def by simp
  ultimately show ?thesis
    by (simp add: threadlist_cleanup_def threadlist_isempty_def)
qed

lemma quiet_ex:
  "\<exists>h'. c = Done h' \<and> P h' \<Longrightarrow> \<exists>h'. quiet c = Done (h', None) \<and> P h'"
  by (auto simp: quiet_def)

lemma tl_exec_refines:
  assumes "represents h s" "tl_spec c s = Some (s', r)"
  shows "\<exists>h'. tl_exec c h = Done (h', r) \<and> represents h' s'"
proof -
  obtain U L M where s: "s = (U, L, M)" by (cases s)
  have rep: "rep U L M h" using assms(1) s by (simp add: represents_def)
  note spec = assms(2) [unfolded s]
  show ?thesis
  proof (cases c)
    case (NodeInit t)
    then show ?thesis using spec rep_node_init [OF rep] by (auto simp: represents_def split: if_splits)
  next
    case (NodeCleanup t)
    then show ?thesis using spec rep_node_cleanup [OF rep, of t]
      by (auto simp: represents_def quiet_def split: if_splits)
  next
    case (ListInit l)
    then show ?thesis using spec rep_list_init [OF rep] by (auto simp: represents_def split: if_splits)
  next
    case (ListCleanup l)
    then show ?thesis using spec rep_list_cleanup [OF rep, of l]
      by (auto simp: represents_def quiet_def split: if_splits)
  next
    case (AddHead l t)
    then show ?thesis using spec threadlist_addhead_rep [OF rep, of l t]
      by (auto simp: represents_def unlisted_def intro!: quiet_ex split: if_splits)
  next
    case (AddTail l t)
    then show ?thesis using spec threadlist_addtail_rep [OF rep, of l t]
      by (auto simp: represents_def unlisted_def intro!: quiet_ex split: if_splits)
  next
    case (RemHead l)
    then show ?thesis using spec threadlist_remhead_rep [OF rep, of l]
      by (auto simp: represents_def neq_Nil_conv split: if_splits list.splits)
  next
    case (RemTail l)
    then show ?thesis using spec threadlist_remtail_rep [OF rep, of l]
      by (auto simp: represents_def split: if_splits)
  next
    case (InsertAfter l u t)
    then have l: "l \<in> L" "t \<in> U" "\<forall>l\<in>L. t \<notin> set (M l)" "u \<in> set (M l)"
      and s': "s' = (U, L, M(l := insert_after u t (M l)))" "r = None"
      using spec by (auto simp: unlisted_def split: if_splits)
    obtain xs ys where "M l = xs @ u # ys" "u \<notin> set xs"
      using split_list_first [OF l(4)] by blast
    then show ?thesis
      using threadlist_insertafter_rep [OF rep l(1-3)] InsertAfter
      by (auto simp: represents_def s' insert_after_at intro!: quiet_ex)
  next
    case (InsertBefore l t u)
    then have l: "l \<in> L" "t \<in> U" "\<forall>l\<in>L. t \<notin> set (M l)" "u \<in> set (M l)"
      and s': "s' = (U, L, M(l := insert_before t u (M l)))" "r = None"
      using spec by (auto simp: unlisted_def split: if_splits)
    obtain xs ys where "M l = xs @ u # ys" "u \<notin> set xs"
      using split_list_first [OF l(4)] by blast
    then show ?thesis
      using threadlist_insertbefore_rep [OF rep l(1-3)] InsertBefore
      by (auto simp: represents_def s' insert_before_at intro!: quiet_ex)
  next
    case (RemoveThread l t)
    then have l: "l \<in> L" "t \<in> set (M l)" and s': "s' = (U, L, M(l := remove1 t (M l)))" "r = None"
      using spec by (auto split: if_splits)
    obtain xs ys where "M l = xs @ t # ys" "t \<notin> set xs"
      using split_list_first [OF l(2)] by blast
    then show ?thesis
      using threadlist_remove_rep [OF rep l(1)] RemoveThread
      by (auto simp: represents_def s' remove1_append intro!: quiet_ex)
  qed
qed

lemma tl_run_refines:
  "represents h s \<Longrightarrow> tl_spec_run cs s = Some (s', rs) \<Longrightarrow>
    \<exists>h'. tl_run cs h = Done (h', rs) \<and> represents h' s'"
proof (induction cs arbitrary: h s rs)
  case (Cons c cs)
  obtain s1 r rs1 where s1: "tl_spec c s = Some (s1, r)" "tl_spec_run cs s1 = Some (s', rs1)" "rs = r # rs1"
    using Cons.prems(2) by (auto split: option.splits)
  obtain h1 where "tl_exec c h = Done (h1, r)" "represents h1 s1"
    using tl_exec_refines [OF Cons.prems(1) s1(1)] by blast
  then show ?case using Cons.IH [OF _ s1(2)] s1(3) by fastforce
qed simp

text \<open>
  C19. The doubly linked thread lists implement lists.  From memory in any state, take any
  sequence of calls: nodes and lists are initialised and cleaned up, threads are added at
  either end or beside another thread, and taken from either end or from the middle.  As long
  as no caller puts a thread on a list while it is on one, names a neighbour that is not there,
  or cleans up a list that still holds threads, every call returns, each removal yields exactly
  the thread that plain lists would yield (nothing when the list is empty), and at the end the
  links, the back links and the counters of all the lists describe exactly those lists.
\<close>

theorem threadlists_implement_lists:
  assumes "tl_spec_run ops ({}, {}, M) = Some ((U, L, M'), rs)"
  shows "\<exists>h'. tl_run ops h = Done (h', rs) \<and> rep U L M' h'"
  using tl_run_refines [of h "({}, {}, M)" ops "(U, L, M')" rs] assms
  by (simp add: represents_def rep_def)

theorem threadlists_implement_lists_witness:
  "\<exists>h'. tl_run [NodeInit 1, NodeInit 2, NodeInit 3, ListInit 0, AddTail 0 1, AddHead 0 2,
      InsertAfter 0 2 3, RemTail 0, RemoveThread 0 3, RemHead 0, RemHead 0, ListCleanup 0]
      \<lparr>tl_node = (\<lambda>n. \<lparr>tln_prev = Some n, tln_next = None, tln_self = None\<rparr>), tl_count = (\<lambda>l. 7)\<rparr>
    = Done (h', [None, None, None, None, None, None, None, Some 1, None, Some 2, None, None]) \<and>
      rep {1, 2, 3} {} (\<lambda>l. []) h'"
proof (rule threadlists_implement_lists [of _ "\<lambda>l. []"])
  have e: "(\<lambda>l. [])(0 := []) = (\<lambda>l. [])" by auto
  show "tl_spec_run [NodeInit 1, NodeInit 2, NodeInit 3, ListInit 0, AddTail 0 1, AddHead 0 2,
      InsertAfter 0 2 3, RemTail 0, RemoveThread 0 3, RemHead 0, RemHead 0, ListCleanup 0]
      ({}, {}, \<lambda>l. []) = Some (({1, 2, 3}, {}, \<lambda>l. []),
      [None, None, None, None, None, None, None, Some 1, None, Some 2, None, None])"
    by (auto simp: unlisted_def e)
qed

text \<open>
  Draining a list appends all its threads, in their order, to the other list; taking \<open>n\<close> victims
  moves the last \<open>n\<close> threads of the run queue, in their order, to the front of the other list.
\<close>

lemma threadlist_drain:
  assumes "rep U L M h" "src \<in> L" "dst \<in> L" "src \<noteq> dst" "length (M src) < n"
  shows "\<exists>h'. drain_list threadlist_remhead threadlist_addtail n src dst h = Done h' \<and>
    rep U L (M(src := [], dst := M dst @ M src)) h'"
  by (rule tl.drain_list_moves [OF assms])

lemma threadlist_take_victims:
  assumes "rep U L M h" "src \<in> L" "dst \<in> L" "src \<noteq> dst" "M src = xs @ ys"
  shows "\<exists>h'. take_victims threadlist_remtail threadlist_addhead (length ys) src dst h = Done h' \<and>
    rep U L (M(src := xs, dst := ys @ M dst)) h'"
  by (rule tl.take_victims_takes [OF assms])

end
