(* ===== verification/Sched.thy ===== *)
theory Sched
  imports ThreadList
begin

unbundle bit_operations_syntax

text \<open>
  The scheduler of \<^verbatim>\<open>kern/thread/thread.c\<close> and \<^verbatim>\<open>kern/thread/clock.c\<close>: context switches, run queues,
  wake-ups, the idle loop, interprocessor interrupts, the timer and the migration of threads
  between processors.

  Each definition is a section of code that the run queue lock, a wait channel's lock or
  disabled interrupts make atomic.  Where a routine gives up its lock on the way, its local
  variables are part of the state: \<open>c_mig\<close> holds those of \<^verbatim>\<open>thread_consider_migration\<close> between two
  lock sections, \<open>c_hand\<close> the threads that \<^verbatim>\<open>wchan_wakeone\<close> or \<^verbatim>\<open>wchan_wakeall\<close> has taken off a
  channel and not yet made runnable, and \<open>c_waiting\<close> says that the processor is inside
  \<^verbatim>\<open>cpu_idle\<close>.  The thread lists are plain lists here; theory \<^verbatim>\<open>ThreadList\<close> shows that the linked
  lists behave as such.
\<close>

section \<open>Threads, processors and channels\<close>

datatype threadstate = S_RUN | S_READY | S_SLEEP | S_ZOMBIE

record sthread =
  t_wchan_name :: "string option"
  t_state :: threadstate
  t_cpu :: nat

datatype mig = NotMigrating
  | Counting nat nat nat
  | Taking nat nat
  | Giving nat nat nat "nat list"
  | Returning "nat list"
  | Migrated

record scpu =
  c_curthread :: nat
  c_zombies :: "nat list"
  c_hardclocks :: u32
  c_isidle :: bool
  c_runqueue :: "nat list"
  c_ipi_pending :: u32
  c_numshootdown :: nat
  c_halted :: bool
  c_waiting :: bool
  c_hand :: "nat list"
  c_mig :: mig

record sched =
  s_thread :: "nat \<Rightarrow> sthread option"
  s_ncpu :: nat
  s_cpu :: "nat \<Rightarrow> scpu"
  s_wc_name :: "nat \<Rightarrow> string"
  s_wc_threads :: "nat \<Rightarrow> nat list"

definition upd_cpu :: "nat \<Rightarrow> (scpu \<Rightarrow> scpu) \<Rightarrow> sched \<Rightarrow> sched" where
  "upd_cpu c f s = s\<lparr>s_cpu := (s_cpu s)(c := f (s_cpu s c))\<rparr>"

definition upd_thread :: "nat \<Rightarrow> (sthread \<Rightarrow> sthread) \<Rightarrow> sched \<Rightarrow> sched outcome" where
  "upd_thread t f s = (case s_thread s t of None \<Rightarrow> Panic
     | Some th \<Rightarrow> Done (s\<lparr>s_thread := (s_thread s)(t \<mapsto> f th)\<rparr>))"

text \<open>
  \<^verbatim>\<open>cpu_create\<close> gives a new processor its first thread.  It is the thread that runs there, but its
  state stays \<^verbatim>\<open>S_READY\<close>, as \<^verbatim>\<open>thread_create\<close> set it, until it has been switched out and in again.
\<close>

definition thread_create_on :: "nat \<Rightarrow> sthread" where
  "thread_create_on c = \<lparr>t_wchan_name = Some ''NEW'', t_state = S_READY, t_cpu = c\<rparr>"

definition cpu_create :: "nat \<Rightarrow> sched \<Rightarrow> sched" where
  "cpu_create t s = (let c = s_ncpu s in s\<lparr>s_ncpu := c + 1,
     s_cpu := (s_cpu s)(c := \<lparr>c_curthread = t, c_zombies = [], c_hardclocks = 0, c_isidle = False,
       c_runqueue = [], c_ipi_pending = 0, c_numshootdown = 0, c_halted = False, c_waiting = False,
       c_hand = [], c_mig = NotMigrating\<rparr>),
     s_thread := (s_thread s)(t \<mapsto> thread_create_on c)\<rparr>)"

section \<open>Interprocessor interrupts\<close>

abbreviation IPI_PANIC :: nat where "IPI_PANIC \<equiv> 0"
abbreviation IPI_OFFLINE :: nat where "IPI_OFFLINE \<equiv> 1"
abbreviation IPI_UNIDLE :: nat where "IPI_UNIDLE \<equiv> 2"
abbreviation IPI_TLBSHOOTDOWN :: nat where "IPI_TLBSHOOTDOWN \<equiv> 3"
abbreviation TLBSHOOTDOWN_MAX :: nat where "TLBSHOOTDOWN_MAX \<equiv> 16"

definition ipi_send :: "nat \<Rightarrow> nat \<Rightarrow> sched \<Rightarrow> sched outcome" where
  "ipi_send target code s =
     (if \<not> code < 32 then Panic
      else Done (upd_cpu target (\<lambda>x. x\<lparr>c_ipi_pending := c_ipi_pending x OR push_bit code 1\<rparr>) s))"

primrec ipi_broadcast_upto :: "nat \<Rightarrow> nat \<Rightarrow> nat \<Rightarrow> sched \<Rightarrow> sched outcome" where
  "ipi_broadcast_upto cur code 0 s = Done s"
| "ipi_broadcast_upto cur code (Suc i) s = bindo (ipi_broadcast_upto cur code i s) (\<lambda>s.
     if i \<noteq> cur then ipi_send i code s else Done s)"

definition ipi_broadcast :: "nat \<Rightarrow> nat \<Rightarrow> sched \<Rightarrow> sched outcome" where
  "ipi_broadcast cur code s = ipi_broadcast_upto cur code (s_ncpu s) s"

definition ipi_tlbshootdown :: "nat \<Rightarrow> sched \<Rightarrow> sched outcome" where
  "ipi_tlbshootdown target s = (let n = c_numshootdown (s_cpu s target) in
     if n = TLBSHOOTDOWN_MAX then Panic
     else Done (upd_cpu target (\<lambda>x. x\<lparr>c_numshootdown := n + 1,
       c_ipi_pending := c_ipi_pending x OR push_bit IPI_TLBSHOOTDOWN 1\<rparr>) s))"

text \<open>
  The virtual memory system of this kernel panics on a shootdown request (\<^verbatim>\<open>vm_tlbshootdown\<close> of
  \<^verbatim>\<open>dumbvm.c\<close>); nothing in it sends one.
\<close>

definition interprocessor_interrupt :: "nat \<Rightarrow> sched \<Rightarrow> sched outcome" where
  "interprocessor_interrupt cur s = (let bits = c_ipi_pending (s_cpu s cur) in
     if bits AND push_bit IPI_PANIC 1 \<noteq> 0 then Done (upd_cpu cur (\<lambda>x. x\<lparr>c_halted := True\<rparr>) s)
     else if bits AND push_bit IPI_OFFLINE 1 \<noteq> 0 then Done (upd_cpu cur (\<lambda>x. x\<lparr>c_halted := True\<rparr>) s)
     else if bits AND push_bit IPI_TLBSHOOTDOWN 1 \<noteq> 0 \<and> c_numshootdown (s_cpu s cur) > 0 then Panic
     else Done (upd_cpu cur (\<lambda>x. x\<lparr>c_ipi_pending := 0\<rparr>) s))"

section \<open>Context switches\<close>

definition thread_make_runnable :: "nat \<Rightarrow> nat \<Rightarrow> sched \<Rightarrow> sched outcome" where
  "thread_make_runnable cur target s = (case s_thread s target of None \<Rightarrow> Panic | Some th \<Rightarrow>
     let targetcpu = t_cpu th;
       s = s\<lparr>s_thread := (s_thread s)(target \<mapsto> th\<lparr>t_state := S_READY\<rparr>)\<rparr>;
       s = upd_cpu targetcpu (\<lambda>x. x\<lparr>c_runqueue := c_runqueue x @ [target]\<rparr>) s
     in if c_isidle (s_cpu s targetcpu) \<and> targetcpu \<noteq> cur then ipi_send targetcpu IPI_UNIDLE s
        else Done s)"

definition destroy_zombie :: "nat \<Rightarrow> nat \<Rightarrow> sched \<Rightarrow> sched outcome" where
  "destroy_zombie cur z s = (case s_thread s z of None \<Rightarrow> Panic | Some th \<Rightarrow>
     if z = c_curthread (s_cpu s cur) then Panic
     else if t_state th = S_RUN then Panic
     else Done (s\<lparr>s_thread := (s_thread s)(z := None)\<rparr>))"

fun exorcise_loop :: "nat \<Rightarrow> nat list \<Rightarrow> sched \<Rightarrow> sched outcome" where
  "exorcise_loop cur [] s = Done s"
| "exorcise_loop cur (z # zs) s =
     (let s = upd_cpu cur (\<lambda>x. x\<lparr>c_zombies := zs\<rparr>) s in
      if z = c_curthread (s_cpu s cur) then Panic
      else case s_thread s z of None \<Rightarrow> Panic | Some th \<Rightarrow>
        if t_state th \<noteq> S_ZOMBIE then Panic
        else bindo (destroy_zombie cur z s) (exorcise_loop cur zs))"

definition exorcise :: "nat \<Rightarrow> sched \<Rightarrow> sched outcome" where
  "exorcise cur s = exorcise_loop cur (c_zombies (s_cpu s cur)) s"

text \<open>
  The part of \<^verbatim>\<open>thread_switch\<close> after \<^verbatim>\<open>switchframe_switch\<close>, which \<^verbatim>\<open>thread_startup\<close> repeats for a new
  thread: it runs in the thread that was switched to.
\<close>

definition switched_in :: "nat \<Rightarrow> sched \<Rightarrow> sched outcome" where
  "switched_in cur s =
     bindo (upd_thread (c_curthread (s_cpu s cur))
       (\<lambda>th. th\<lparr>t_wchan_name := None, t_state := S_RUN\<rparr>) s) (exorcise cur)"

text \<open>One round of the loop that looks for the next thread: take it, or wait in \<^verbatim>\<open>cpu_idle\<close>.\<close>

definition pick_next :: "nat \<Rightarrow> sched \<Rightarrow> sched outcome" where
  "pick_next cur s = (case c_runqueue (s_cpu s cur) of
     [] \<Rightarrow> Done (upd_cpu cur (\<lambda>x. x\<lparr>c_waiting := True\<rparr>) s)
   | next # q \<Rightarrow> switched_in cur (upd_cpu cur (\<lambda>x. x\<lparr>c_runqueue := q, c_isidle := False,
       c_curthread := next\<rparr>) s))"

definition put_away :: "nat \<Rightarrow> threadstate \<Rightarrow> nat \<Rightarrow> nat \<Rightarrow> sched \<Rightarrow> sched outcome" where
  "put_away cur newstate wc t s = (case newstate of
     S_RUN \<Rightarrow> Panic
   | S_READY \<Rightarrow> thread_make_runnable cur t s
   | S_SLEEP \<Rightarrow> bindo (upd_thread t (\<lambda>th. th\<lparr>t_wchan_name := Some (s_wc_name s wc)\<rparr>) s) (\<lambda>s.
       Done (s\<lparr>s_wc_threads := (s_wc_threads s)(wc := s_wc_threads s wc @ [t])\<rparr>))
   | S_ZOMBIE \<Rightarrow> bindo (upd_thread t (\<lambda>th. th\<lparr>t_wchan_name := Some ''ZOMBIE''\<rparr>) s) (\<lambda>s.
       Done (upd_cpu cur (\<lambda>x. x\<lparr>c_zombies := c_zombies x @ [t]\<rparr>) s)))"

definition thread_switch :: "nat \<Rightarrow> threadstate \<Rightarrow> nat \<Rightarrow> sched \<Rightarrow> sched outcome" where
  "thread_switch cur newstate wc s = (let t = c_curthread (s_cpu s cur) in
     if c_isidle (s_cpu s cur) then Done s
     else if newstate = S_READY \<and> c_runqueue (s_cpu s cur) = [] then Done s
     else bindo (put_away cur newstate wc t s) (\<lambda>s.
       bindo (upd_thread t (\<lambda>th. th\<lparr>t_state := newstate\<rparr>) s) (\<lambda>s.
       pick_next cur (upd_cpu cur (\<lambda>x. x\<lparr>c_isidle := True\<rparr>) s))))"

definition thread_yield :: "nat \<Rightarrow> sched \<Rightarrow> sched outcome" where
  "thread_yield cur s = thread_switch cur S_READY 0 s"

section \<open>New threads and wake-ups\<close>

text \<open>The end of \<^verbatim>\<open>thread_fork\<close>: the new thread goes to the creator's processor.\<close>

definition fork_runnable :: "nat \<Rightarrow> nat \<Rightarrow> sched \<Rightarrow> sched outcome" where
  "fork_runnable cur t s = (case s_thread s (c_curthread (s_cpu s cur)) of None \<Rightarrow> Panic | Some th \<Rightarrow>
     thread_make_runnable cur t (s\<lparr>s_thread := (s_thread s)(t \<mapsto> thread_create_on (t_cpu th))\<rparr>))"

definition wake_grab_one :: "nat \<Rightarrow> nat \<Rightarrow> sched \<Rightarrow> sched" where
  "wake_grab_one cur wc s = (case s_wc_threads s wc of [] \<Rightarrow> s
     | t # ts \<Rightarrow> upd_cpu cur (\<lambda>x. x\<lparr>c_hand := [t]\<rparr>) (s\<lparr>s_wc_threads := (s_wc_threads s)(wc := ts)\<rparr>))"

definition wake_grab_all :: "nat \<Rightarrow> nat \<Rightarrow> sched \<Rightarrow> sched" where
  "wake_grab_all cur wc s = upd_cpu cur (\<lambda>x. x\<lparr>c_hand := s_wc_threads s wc\<rparr>)
     (s\<lparr>s_wc_threads := (s_wc_threads s)(wc := [])\<rparr>)"

definition wake_next :: "nat \<Rightarrow> sched \<Rightarrow> sched outcome" where
  "wake_next cur s = (case c_hand (s_cpu s cur) of [] \<Rightarrow> Done s
     | t # ts \<Rightarrow> thread_make_runnable cur t (upd_cpu cur (\<lambda>x. x\<lparr>c_hand := ts\<rparr>) s))"

section \<open>The timer and migration\<close>

abbreviation MIGRATE_HARDCLOCKS :: u32 where "MIGRATE_HARDCLOCKS \<equiv> 16"

definition set_mig :: "nat \<Rightarrow> mig \<Rightarrow> sched \<Rightarrow> sched" where
  "set_mig cur m s = upd_cpu cur (\<lambda>x. x\<lparr>c_mig := m\<rparr>) s"

text \<open>\<^verbatim>\<open>hardclock\<close> up to the migration; \<^verbatim>\<open>schedule\<close> is empty and \<^verbatim>\<open>thread_yield\<close> comes last.\<close>

definition hardclock :: "nat \<Rightarrow> sched \<Rightarrow> sched outcome" where
  "hardclock cur s =
     (let s = upd_cpu cur (\<lambda>x. x\<lparr>c_hardclocks := c_hardclocks x + 1\<rparr>) s in
      if c_hardclocks (s_cpu s cur) mod MIGRATE_HARDCLOCKS = 0 then Done (set_mig cur (Counting 0 0 0) s)
      else thread_yield cur s)"

fun grab_victims :: "nat \<Rightarrow> nat list \<Rightarrow> nat list \<Rightarrow> (nat list \<times> nat list) outcome" where
  "grab_victims 0 q victims = Done (q, victims)"
| "grab_victims (Suc n) q victims =
     (if q = [] then Panic else grab_victims n (butlast q) (last q # victims))"

fun give_victims :: "nat \<Rightarrow> nat \<Rightarrow> nat \<Rightarrow> nat \<Rightarrow> nat list \<Rightarrow> sched \<Rightarrow> (nat \<times> nat list \<times> sched) outcome" where
  "give_victims cur c one_share 0 victims s = Done (0, victims, s)"
| "give_victims cur c one_share (Suc to_send) victims s =
     (if \<not> length (c_runqueue (s_cpu s c)) < one_share then Done (Suc to_send, victims, s)
      else case victims of [] \<Rightarrow> Panic
      | t # victims \<Rightarrow>
          if t = c_curthread (s_cpu s cur) then give_victims cur c one_share to_send (victims @ [t]) s
          else bindo (upd_thread t (\<lambda>th. th\<lparr>t_cpu := c\<rparr>) s) (\<lambda>s.
            let s = upd_cpu c (\<lambda>x. x\<lparr>c_runqueue := c_runqueue x @ [t]\<rparr>) s in
            bindo (if c_isidle (s_cpu s c) then ipi_send c IPI_UNIDLE s else Done s)
              (give_victims cur c one_share to_send victims)))"

definition migration_section :: "nat \<Rightarrow> sched \<Rightarrow> sched outcome" where
  "migration_section cur s = (case c_mig (s_cpu s cur) of
     NotMigrating \<Rightarrow> Done s
   | Counting i my_count total_count \<Rightarrow>
       if i < s_ncpu s
       then (let n = length (c_runqueue (s_cpu s i)) in
         Done (set_mig cur (Counting (i + 1) (if i = cur then n else my_count) (total_count + n)) s))
       else (let one_share = (total_count + s_ncpu s - 1) div s_ncpu s in
         if my_count < one_share then Done (set_mig cur Migrated s)
         else Done (set_mig cur (Taking one_share (my_count - one_share)) s))
   | Taking one_share to_send \<Rightarrow>
       bindo (grab_victims to_send (c_runqueue (s_cpu s cur)) []) (\<lambda>(q, victims).
         Done (set_mig cur (Giving 0 one_share to_send victims)
           (upd_cpu cur (\<lambda>x. x\<lparr>c_runqueue := q\<rparr>) s)))
   | Giving i one_share to_send victims \<Rightarrow>
       if \<not> (i < s_ncpu s \<and> to_send > 0) then Done (set_mig cur (Returning victims) s)
       else if i = cur then Done (set_mig cur (Giving (i + 1) one_share to_send victims) s)
       else bindo (give_victims cur i one_share to_send victims s) (\<lambda>(to_send, victims, s).
         Done (set_mig cur (Giving (i + 1) one_share to_send victims) s))
   | Returning victims \<Rightarrow>
       Done (set_mig cur Migrated (upd_cpu cur (\<lambda>x. x\<lparr>c_runqueue := c_runqueue x @ victims\<rparr>) s))
   | Migrated \<Rightarrow> thread_yield cur (set_mig cur NotMigrating s))"

end
