(* ===== verification/Sched_Laws.thy ===== *)
theory Sched_Laws
  imports Sched
begin

unbundle bit_operations_syntax

text \<open>
  The scheduler on any number of processors.  \<open>sched_do\<close> is one atomic section on one processor,
  \<open>can_do\<close> says when that processor may enter it, and \<open>sched_step\<close> lets the processors
  interleave freely.  The invariant says where every thread is: running, on one run queue, on
  one wait channel, taken by a waker or by the migration code, or dead and not yet freed, and
  in one of these places only.
\<close>

section \<open>Steps\<close>

datatype sched_op = Fork nat nat | Yield nat | Sleep nat nat | Exit nat
  | WakeOne nat nat | WakeAll nat nat | WakeNext nat
  | Tick nat | Migrate nat | Interrupt nat | Ipi nat | Unidle nat | Shutdown nat

fun sched_do :: "sched_op \<Rightarrow> sched \<Rightarrow> sched outcome" where
  "sched_do (Fork c t) s = fork_runnable c t s"
| "sched_do (Yield c) s = thread_yield c s"
| "sched_do (Sleep c w) s = thread_switch c S_SLEEP w s"
| "sched_do (Exit c) s = thread_switch c S_ZOMBIE 0 s"
| "sched_do (WakeOne c w) s = Done (wake_grab_one c w s)"
| "sched_do (WakeAll c w) s = Done (wake_grab_all c w s)"
| "sched_do (WakeNext c) s = wake_next c s"
| "sched_do (Tick c) s = hardclock c s"
| "sched_do (Migrate c) s = migration_section c s"
| "sched_do (Interrupt c) s = Done (upd_cpu c (\<lambda>x. x\<lparr>c_waiting := False\<rparr>) s)"
| "sched_do (Ipi c) s = interprocessor_interrupt c (upd_cpu c (\<lambda>x. x\<lparr>c_waiting := False\<rparr>) s)"
| "sched_do (Unidle c) s = pick_next c s"
| "sched_do (Shutdown c) s = ipi_broadcast c IPI_OFFLINE s"

definition alive :: "sched \<Rightarrow> nat \<Rightarrow> bool" where
  "alive s c \<longleftrightarrow> c < s_ncpu s \<and> \<not> c_halted (s_cpu s c)"

definition at_ease :: "sched \<Rightarrow> nat \<Rightarrow> bool" where
  "at_ease s c \<longleftrightarrow> alive s c \<and> c_hand (s_cpu s c) = [] \<and> c_mig (s_cpu s c) = NotMigrating \<and>
     \<not> c_waiting (s_cpu s c)"

text \<open>
  A thread of the processor calls \<open>Fork\<close>, \<open>Yield\<close>, \<open>Sleep\<close>, \<open>Exit\<close> and \<open>Shutdown\<close>.  Wake-ups come
  from threads and from interrupt handlers, also from one that interrupted the idle loop; so
  does the timer.  A processor in the middle of a wake-up or of a migration has its interrupts
  off and goes on with it.
\<close>

fun can_do :: "sched_op \<Rightarrow> sched \<Rightarrow> bool" where
  "can_do (Fork c t) s \<longleftrightarrow> at_ease s c \<and> \<not> c_isidle (s_cpu s c) \<and> s_thread s t = None"
| "can_do (Yield c) s \<longleftrightarrow> at_ease s c \<and> \<not> c_isidle (s_cpu s c)"
| "can_do (Sleep c w) s \<longleftrightarrow> at_ease s c \<and> \<not> c_isidle (s_cpu s c)"
| "can_do (Exit c) s \<longleftrightarrow> at_ease s c \<and> \<not> c_isidle (s_cpu s c)"
| "can_do (WakeOne c w) s \<longleftrightarrow> at_ease s c"
| "can_do (WakeAll c w) s \<longleftrightarrow> at_ease s c"
| "can_do (WakeNext c) s \<longleftrightarrow> alive s c \<and> c_hand (s_cpu s c) \<noteq> []"
| "can_do (Tick c) s \<longleftrightarrow> at_ease s c"
| "can_do (Migrate c) s \<longleftrightarrow> alive s c \<and> c_mig (s_cpu s c) \<noteq> NotMigrating"
| "can_do (Interrupt c) s \<longleftrightarrow> alive s c \<and> c_waiting (s_cpu s c)"
| "can_do (Ipi c) s \<longleftrightarrow> alive s c \<and> c_hand (s_cpu s c) = [] \<and> c_mig (s_cpu s c) = NotMigrating"
| "can_do (Unidle c) s \<longleftrightarrow> at_ease s c \<and> c_isidle (s_cpu s c)"
| "can_do (Shutdown c) s \<longleftrightarrow> at_ease s c \<and> \<not> c_isidle (s_cpu s c)"

inductive sched_step :: "sched \<Rightarrow> sched \<Rightarrow> bool" where
  "can_do c s \<Longrightarrow> sched_do c s = Done s' \<Longrightarrow> sched_step s s'"

section \<open>Where a thread is\<close>

datatype place = Running nat | Queued nat | Victim nat | Waking nat | Dead nat | Asleep nat

fun victims :: "mig \<Rightarrow> nat list" where
  "victims (Giving i one_share to_send vs) = vs"
| "victims (Returning vs) = vs"
| "victims m = []"

fun in_place :: "sched \<Rightarrow> nat \<Rightarrow> place \<Rightarrow> bool" where
  "in_place s t (Running c) \<longleftrightarrow> c < s_ncpu s \<and> \<not> c_isidle (s_cpu s c) \<and> c_curthread (s_cpu s c) = t"
| "in_place s t (Queued c) \<longleftrightarrow> c < s_ncpu s \<and> t \<in> set (c_runqueue (s_cpu s c))"
| "in_place s t (Victim c) \<longleftrightarrow> c < s_ncpu s \<and> t \<in> set (victims (c_mig (s_cpu s c)))"
| "in_place s t (Waking c) \<longleftrightarrow> c < s_ncpu s \<and> t \<in> set (c_hand (s_cpu s c))"
| "in_place s t (Dead c) \<longleftrightarrow> c < s_ncpu s \<and> t \<in> set (c_zombies (s_cpu s c))"
| "in_place s t (Asleep w) \<longleftrightarrow> t \<in> set (s_wc_threads s w)"

fun fits :: "sthread \<Rightarrow> place \<Rightarrow> bool" where
  "fits th (Running c) \<longleftrightarrow> (t_state th = S_RUN \<or> th = thread_create_on c) \<and> t_cpu th = c"
| "fits th (Queued c) \<longleftrightarrow> t_state th = S_READY \<and> t_cpu th = c"
| "fits th (Victim c) \<longleftrightarrow> t_state th = S_READY \<and> t_cpu th = c"
| "fits th (Waking c) \<longleftrightarrow> t_state th = S_SLEEP"
| "fits th (Dead c) \<longleftrightarrow> t_state th = S_ZOMBIE \<and> t_cpu th = c"
| "fits th (Asleep w) \<longleftrightarrow> t_state th = S_SLEEP"

definition placed :: "sched \<Rightarrow> nat \<Rightarrow> bool" where
  "placed s t \<longleftrightarrow> (case s_thread s t of
     None \<Rightarrow> \<forall>p. \<not> in_place s t p
   | Some th \<Rightarrow> t_cpu th < s_ncpu s \<and> (\<exists>p. fits th p \<and> (\<forall>q. in_place s t q \<longleftrightarrow> q = p)))"

definition lists_distinct :: "sched \<Rightarrow> bool" where
  "lists_distinct s \<longleftrightarrow> (\<forall>w. distinct (s_wc_threads s w)) \<and>
     (\<forall>c < s_ncpu s. distinct (c_runqueue (s_cpu s c)) \<and> distinct (victims (c_mig (s_cpu s c))) \<and>
        distinct (c_hand (s_cpu s c)) \<and> distinct (c_zombies (s_cpu s c)))"

text \<open>The current thread of a processor, also of an idle one, belongs to that processor.\<close>

definition current_own :: "sched \<Rightarrow> bool" where
  "current_own s \<longleftrightarrow> (\<forall>c < s_ncpu s. \<exists>th. s_thread s (c_curthread (s_cpu s c)) = Some th \<and> t_cpu th = c)"

fun mig_ok :: "nat list \<Rightarrow> mig \<Rightarrow> bool" where
  "mig_ok q (Counting i my_count total_count) \<longleftrightarrow> my_count \<le> length q"
| "mig_ok q (Taking one_share to_send) \<longleftrightarrow> to_send \<le> length q"
| "mig_ok q (Giving i one_share to_send vs) \<longleftrightarrow> to_send \<le> length vs"
| "mig_ok q m \<longleftrightarrow> True"

definition cpu_ok :: "scpu \<Rightarrow> bool" where
  "cpu_ok x \<longleftrightarrow> mig_ok (c_runqueue x) (c_mig x) \<and> c_numshootdown x = 0 \<and>
     (c_hand x \<noteq> [] \<longrightarrow> c_mig x = NotMigrating) \<and>
     (c_waiting x \<longrightarrow> c_isidle x \<and> c_hand x = [] \<and> c_mig x = NotMigrating \<and>
       (c_runqueue x \<noteq> [] \<longrightarrow> bit (c_ipi_pending x) IPI_UNIDLE))"

definition sched_inv :: "sched \<Rightarrow> bool" where
  "sched_inv s \<longleftrightarrow> (\<forall>t. placed s t) \<and> lists_distinct s \<and> current_own s \<and>
     (\<forall>c < s_ncpu s. cpu_ok (s_cpu s c))"

section \<open>Updates of one processor or one thread\<close>

lemma upd_cpu_simps [simp]:
  "s_cpu (upd_cpu c f s) d = (if d = c then f (s_cpu s c) else s_cpu s d)"
  "s_thread (upd_cpu c f s) = s_thread s" "s_ncpu (upd_cpu c f s) = s_ncpu s"
  "s_wc_threads (upd_cpu c f s) = s_wc_threads s" "s_wc_name (upd_cpu c f s) = s_wc_name s"
  by (simp_all add: upd_cpu_def)

lemma upd_thread_Some:
  "s_thread s t = Some th \<Longrightarrow> upd_thread t f s = Done (s\<lparr>s_thread := (s_thread s)(t \<mapsto> f th)\<rparr>)"
  by (simp add: upd_thread_def)

lemma placed_unique:
  assumes "placed s t" "in_place s t p"
  obtains th where "s_thread s t = Some th" "t_cpu th < s_ncpu s" "fits th p"
    "\<And>q. in_place s t q \<longleftrightarrow> q = p"
  using assms by (auto simp: placed_def split: option.splits)

lemma placed_iff: "placed s t \<Longrightarrow> in_place s t p \<Longrightarrow> in_place s t q \<longleftrightarrow> q = p"
  by (erule placed_unique) auto

lemma placed_None: "placed s t \<Longrightarrow> s_thread s t = None \<Longrightarrow> \<not> in_place s t p"
  by (simp add: placed_def)

lemma placedI:
  assumes "s_thread s t = Some th" "t_cpu th < s_ncpu s" "fits th p"
    "\<And>q. in_place s t q \<longleftrightarrow> q = p"
  shows "placed s t"
  using assms by (auto simp: placed_def)

lemma placed_move:
  assumes "\<And>u. placed s u" "s_ncpu s' = s_ncpu s" "s_thread s' = (s_thread s)(t \<mapsto> th)"
    "t_cpu th < s_ncpu s" "fits th p"
    "\<And>u q. in_place s' u q \<longleftrightarrow> (if u = t then q = p else in_place s u q)"
  shows "placed s' u"
  using assms(1) [of u] assms(2-6) by (cases "u = t") (auto simp: placed_def split: option.splits)

lemma placed_drop:
  assumes "\<And>u. placed s u" "s_ncpu s' = s_ncpu s" "s_thread s' = (s_thread s)(t := None)"
    "\<And>u q. in_place s' u q \<longleftrightarrow> u \<noteq> t \<and> in_place s u q"
  shows "placed s' u"
  using assms(1) [of u] assms(2-4) by (cases "u = t") (auto simp: placed_def split: option.splits)

lemma placed_same:
  assumes "\<And>u. placed s u" "s_ncpu s' = s_ncpu s" "s_thread s' = s_thread s"
    "\<And>u q. in_place s' u q \<longleftrightarrow> in_place s u q"
  shows "placed s' u"
  using assms(1) [of u] assms(2-4) by (auto simp: placed_def split: option.splits)

lemma sched_invD:
  assumes "sched_inv s"
  shows "placed s t" "lists_distinct s" "current_own s" "c < s_ncpu s \<Longrightarrow> cpu_ok (s_cpu s c)"
  using assms by (simp_all add: sched_inv_def)

lemma sched_invI:
  assumes "\<And>t. placed s t" "lists_distinct s" "current_own s" "\<And>c. c < s_ncpu s \<Longrightarrow> cpu_ok (s_cpu s c)"
  shows "sched_inv s"
  using assms by (simp add: sched_inv_def)

lemma distinctD:
  assumes "sched_inv s" "c < s_ncpu s"
  shows "distinct (c_runqueue (s_cpu s c))" "distinct (victims (c_mig (s_cpu s c)))"
    "distinct (c_hand (s_cpu s c))" "distinct (c_zombies (s_cpu s c))" "distinct (s_wc_threads s w)"
  using sched_invD(2) [OF assms(1)] assms(2) by (auto simp: lists_distinct_def)

section \<open>Freeing the dead, and picking the next thread\<close>

lemma exorcise_loop_inv:
  assumes "sched_inv s" "cur < s_ncpu s" "\<not> c_isidle (s_cpu s cur)" "c_zombies (s_cpu s cur) = zs"
  shows "\<exists>s'. exorcise_loop cur zs s = Done s' \<and> sched_inv s'"
  using assms
proof (induction zs arbitrary: s)
  case (Cons z zs)
  let ?s1 = "upd_cpu cur (\<lambda>x. x\<lparr>c_zombies := zs\<rparr>) s"
  let ?s2 = "?s1\<lparr>s_thread := (s_thread s)(z := None)\<rparr>"
  note inv = sched_invD [OF Cons.prems(1)]
  have zin: "in_place s z (Dead cur)" using Cons.prems by simp
  obtain th where th: "s_thread s z = Some th" "t_cpu th < s_ncpu s" "fits th (Dead cur)"
    "\<And>q. in_place s z q \<longleftrightarrow> q = Dead cur"
    using placed_unique [OF inv(1) zin] by blast
  have zc: "z \<noteq> c_curthread (s_cpu s cur)"
    using th(4) [of "Running cur"] Cons.prems(2,3) by auto
  have run: "exorcise_loop cur (z # zs) s = exorcise_loop cur zs ?s2"
    using th zc by (simp add: Let_def destroy_zombie_def)
  have zs: "z \<notin> set zs" using distinctD(4) [OF Cons.prems(1,2)] Cons.prems(4) by simp
  have ip: "in_place ?s2 u q \<longleftrightarrow> u \<noteq> z \<and> in_place s u q" for u q
    using th(4) [of q] zs Cons.prems(4) by (cases q) auto
  have "sched_inv ?s2"
  proof (rule sched_invI)
    show "placed ?s2 t" for t by (rule placed_drop [OF inv(1) _ _ ip]) simp_all
    show "lists_distinct ?s2" using inv(2) zs Cons.prems(4) by (auto simp: lists_distinct_def)
    show "current_own ?s2"
      using inv(3) th zc unfolding current_own_def by fastforce
    show "cpu_ok (s_cpu ?s2 c)" if "c < s_ncpu ?s2" for c
      using inv(4) that by (auto simp: cpu_ok_def)
  qed
  then show ?case
    unfolding run using Cons.IH [of ?s2] Cons.prems by simp
qed simp

lemma pick_next_inv:
  assumes s: "sched_inv s" and cur: "cur < s_ncpu s" "c_isidle (s_cpu s cur)"
    "c_hand (s_cpu s cur) = []" "c_mig (s_cpu s cur) = NotMigrating" "\<not> c_waiting (s_cpu s cur)"
  shows "\<exists>s'. pick_next cur s = Done s' \<and> sched_inv s'"
proof (cases "c_runqueue (s_cpu s cur)")
  case Nil
  let ?s1 = "upd_cpu cur (\<lambda>x. x\<lparr>c_waiting := True\<rparr>) s"
  note inv = sched_invD [OF s]
  have ip: "in_place ?s1 u q \<longleftrightarrow> in_place s u q" for u q by (cases q) auto
  have "sched_inv ?s1"
  proof (rule sched_invI)
    show "placed ?s1 t" for t by (rule placed_same [OF inv(1) _ _ ip]) simp_all
    show "lists_distinct ?s1" using inv(2) by (auto simp: lists_distinct_def)
    show "current_own ?s1" using inv(3) by (auto simp: current_own_def)
    show "cpu_ok (s_cpu ?s1 c)" if "c < s_ncpu ?s1" for c
      using inv(4) [of c] that cur Nil by (auto simp: cpu_ok_def)
  qed
  then show ?thesis by (simp add: pick_next_def Nil)
next
  case (Cons t q)
  note inv = sched_invD [OF s]
  have "in_place s t (Queued cur)" using Cons cur(1) by simp
  then obtain th where th: "s_thread s t = Some th" "t_cpu th < s_ncpu s" "fits th (Queued cur)"
    "\<And>p. in_place s t p \<longleftrightarrow> p = Queued cur"
    using placed_unique [OF inv(1)] by blast
  define s1 where "s1 = upd_cpu cur (\<lambda>x. x\<lparr>c_runqueue := q, c_isidle := False, c_curthread := t\<rparr>) s"
  define s2 where "s2 = s1\<lparr>s_thread := (s_thread s)(t \<mapsto> th\<lparr>t_wchan_name := None, t_state := S_RUN\<rparr>)\<rparr>"
  have run: "pick_next cur s = exorcise_loop cur (c_zombies (s_cpu s2 cur)) s2"
    using th(1) by (simp add: pick_next_def Cons switched_in_def s1_def [symmetric] upd_thread_Some
        exorcise_def s2_def) (simp add: s1_def upd_thread_Some exorcise_def)
  have tq: "t \<notin> set q" using distinctD(1) [OF s cur(1)] Cons by simp
  have ip: "in_place s2 u p \<longleftrightarrow> (if u = t then p = Running cur else in_place s u p)" for u p
    using th(4) [of p] tq Cons cur by (cases p) (auto simp: s1_def s2_def)
  have "sched_inv s2"
  proof (rule sched_invI)
    show "placed s2 u" for u
      by (rule placed_move [where th = "th\<lparr>t_wchan_name := None, t_state := S_RUN\<rparr>", OF inv(1) _ _ _ _ ip])
        (use th in \<open>simp_all add: s1_def s2_def\<close>)
    show "lists_distinct s2" using inv(2) Cons by (auto simp: lists_distinct_def s1_def s2_def)
    show "current_own s2" using inv(3) th by (auto simp: current_own_def s1_def s2_def)
    show "cpu_ok (s_cpu s2 c)" if "c < s_ncpu s2" for c
      using inv(4) [of c] that cur by (auto simp: cpu_ok_def s1_def s2_def)
  qed
  then show ?thesis
    unfolding run using exorcise_loop_inv [of s2 cur] cur(1) by (simp add: s1_def s2_def)
qed

section \<open>Making a thread runnable\<close>

text \<open>\<open>sched_inv_but t\<close>: the invariant, but for thread \<open>t\<close>, which is in no place.\<close>

definition sched_inv_but :: "nat \<Rightarrow> sched \<Rightarrow> bool" where
  "sched_inv_but t s \<longleftrightarrow> (\<forall>u. u \<noteq> t \<longrightarrow> placed s u) \<and> (\<forall>p. \<not> in_place s t p) \<and>
     (\<exists>th. s_thread s t = Some th \<and> t_cpu th < s_ncpu s) \<and> lists_distinct s \<and> current_own s \<and>
     (\<forall>c < s_ncpu s. cpu_ok (s_cpu s c))"

lemma mig_ok_grow: "mig_ok q m \<Longrightarrow> mig_ok (q @ q') m"
  by (cases m) auto

lemma bit_unidle: "bit (w OR 4 :: u32) IPI_UNIDLE"
proof -
  have "(4 :: u32) = push_bit 2 1" by simp
  then show ?thesis by (simp only: bit_simps) simp
qed

lemma enqueue_ok:
  assumes "cpu_ok x" "c_waiting x \<longrightarrow> bit w IPI_UNIDLE"
  shows "cpu_ok (x\<lparr>c_runqueue := c_runqueue x @ q, c_ipi_pending := w\<rparr>)"
  using assms by (auto simp: cpu_ok_def mig_ok_grow)

lemma make_runnable_inv:
  assumes s: "sched_inv_but t s" and cur: "\<not> c_waiting (s_cpu s cur)"
  shows "\<exists>s'. thread_make_runnable cur t s = Done s' \<and> sched_inv s'"
proof -
  obtain th where th: "s_thread s t = Some th" "t_cpu th < s_ncpu s"
    using s by (auto simp: sched_inv_but_def)
  define d where "d = t_cpu th"
  define w where "w = (if c_isidle (s_cpu s d) \<and> d \<noteq> cur
    then c_ipi_pending (s_cpu s d) OR push_bit IPI_UNIDLE 1 else c_ipi_pending (s_cpu s d))"
  define s1 where "s1 = upd_cpu d (\<lambda>x. x\<lparr>c_runqueue := c_runqueue x @ [t], c_ipi_pending := w\<rparr>)
    (s\<lparr>s_thread := (s_thread s)(t \<mapsto> th\<lparr>t_state := S_READY\<rparr>)\<rparr>)"
  have run: "thread_make_runnable cur t s = Done s1"
    using th by (simp add: thread_make_runnable_def ipi_send_def Let_def s1_def w_def d_def upd_cpu_def)
  have no: "\<not> in_place s t p" for p using s by (simp add: sched_inv_but_def)
  have ip: "in_place s1 u p \<longleftrightarrow> (if u = t then p = Queued d else in_place s u p)" for u p
    using no [of p] th by (cases p) (auto simp: s1_def d_def)
  have d: "cpu_ok (s_cpu s d)" using s th(2) by (simp add: sched_inv_but_def d_def)
  have wd: "c_waiting (s_cpu s d) \<longrightarrow> bit w IPI_UNIDLE"
    using d cur by (auto simp: w_def bit_unidle cpu_ok_def)
  have "sched_inv s1"
  proof (rule sched_invI)
    show "placed s1 u" for u
    proof (cases "u = t")
      case True
      show ?thesis unfolding True
        by (rule placedI [of _ _ "th\<lparr>t_state := S_READY\<rparr>" "Queued d"])
          (use th ip in \<open>simp_all add: s1_def d_def\<close>)
    next
      case False
      then have "placed s u" using s by (simp add: sched_inv_but_def)
      then show ?thesis using False ip [of u] by (auto simp: placed_def s1_def split: option.splits)
    qed
    have "t \<notin> set (c_runqueue (s_cpu s d))"
      using no [of "Queued d"] th(2) by (simp add: d_def)
    then show "lists_distinct s1" using s by (auto simp: sched_inv_but_def lists_distinct_def s1_def)
    show "current_own s1" using s th by (auto simp: sched_inv_but_def current_own_def s1_def)
    show "cpu_ok (s_cpu s1 c)" if "c < s_ncpu s1" for c
      using s that enqueue_ok [OF d wd] by (auto simp: sched_inv_but_def s1_def)
  qed
  then show ?thesis using run by simp
qed

section \<open>Switching\<close>

lemma current_thread:
  assumes "sched_inv s" "cur < s_ncpu s" "\<not> c_isidle (s_cpu s cur)"
  obtains th where "s_thread s (c_curthread (s_cpu s cur)) = Some th" "t_cpu th = cur"
    "\<And>q. in_place s (c_curthread (s_cpu s cur)) q \<longleftrightarrow> q = Running cur"
proof -
  have "in_place s (c_curthread (s_cpu s cur)) (Running cur)" using assms(2,3) by simp
  then show ?thesis
    by (rule placed_unique [OF sched_invD(1) [OF assms(1)]]) (use that in auto)
qed

lemma current_inj:
  assumes "sched_inv s" "c < s_ncpu s" "d < s_ncpu s" "c_curthread (s_cpu s c) = c_curthread (s_cpu s d)"
  shows "c = d"
  using sched_invD(3) [OF assms(1)] assms(2-4) unfolding current_own_def by (metis option.inject)

lemma leave_inv:
  assumes s: "sched_inv s" and cur: "cur < s_ncpu s"
    and t: "s_thread s1 = (s_thread s)(t \<mapsto> th)" "t_cpu th = cur" "fits th p" "t = c_curthread (s_cpu s cur)"
    and ip: "\<And>u q. in_place s1 u q \<longleftrightarrow> (if u = t then q = p else in_place s u q)"
    and n: "s_ncpu s1 = s_ncpu s" and d: "lists_distinct s1"
    and oth: "\<And>c. c \<noteq> cur \<Longrightarrow> s_cpu s1 c = s_cpu s c"
    and x: "c_curthread (s_cpu s1 cur) = t" "cpu_ok (s_cpu s1 cur)" "c_isidle (s_cpu s1 cur)"
      "c_hand (s_cpu s1 cur) = []" "c_mig (s_cpu s1 cur) = NotMigrating" "\<not> c_waiting (s_cpu s1 cur)"
  shows "\<exists>s'. pick_next cur s1 = Done s' \<and> sched_inv s'"
proof (rule pick_next_inv)
  note inv = sched_invD [OF s]
  show "sched_inv s1"
  proof (rule sched_invI)
    show "placed s1 u" for u
      by (rule placed_move [OF inv(1) n t(1) _ t(3) ip]) (use t cur in simp)
    show "lists_distinct s1" by (rule d)
    show "current_own s1"
      unfolding current_own_def
    proof (intro allI impI)
      fix c assume c: "c < s_ncpu s1"
      show "\<exists>th. s_thread s1 (c_curthread (s_cpu s1 c)) = Some th \<and> t_cpu th = c"
        using inv(3) c t x(1) oth [of c] n current_inj [OF s, of c cur] cur
        unfolding current_own_def by (cases "c = cur") auto
    qed
    show "cpu_ok (s_cpu s1 c)" if "c < s_ncpu s1" for c
      using that inv(4) [of c] x(2) oth [of c] n by (cases "c = cur") auto
  qed
qed (use cur n x in simp_all)

lemma thread_switch_inv:
  assumes s: "sched_inv s" and cur: "cur < s_ncpu s" "c_hand (s_cpu s cur) = []"
      "c_mig (s_cpu s cur) = NotMigrating" "\<not> c_waiting (s_cpu s cur)" and new: "newstate \<noteq> S_RUN"
  shows "\<exists>s'. thread_switch cur newstate wc s = Done s' \<and> sched_inv s'"
proof (cases "c_isidle (s_cpu s cur) \<or> newstate = S_READY \<and> c_runqueue (s_cpu s cur) = []")
  case True
  then show ?thesis using s by (auto simp: thread_switch_def Let_def)
next
  case False
  define t where "t = c_curthread (s_cpu s cur)"
  obtain th where th: "s_thread s t = Some th" "t_cpu th = cur"
    "\<And>q. in_place s t q \<longleftrightarrow> q = Running cur"
    using current_thread [OF s cur(1)] False unfolding t_def by blast
  note inv = sched_invD [OF s]
  have ok: "cpu_ok (s_cpu s cur)" using inv(4) cur(1) by simp
  have frame: "\<not> c_isidle (s_cpu s cur)" "\<not> (newstate = S_READY \<and> c_runqueue (s_cpu s cur) = [])"
    using False by auto
  show ?thesis
  proof (cases newstate)
    case S_RUN
    then show ?thesis using new by simp
  next
    case S_READY
    let ?s1 = "upd_cpu cur (\<lambda>x. x\<lparr>c_runqueue := c_runqueue x @ [t], c_isidle := True\<rparr>)
      (s\<lparr>s_thread := (s_thread s)(t \<mapsto> th\<lparr>t_state := S_READY\<rparr>)\<rparr>)"
    have "thread_switch cur newstate wc s = pick_next cur ?s1"
      using th frame S_READY
      by (simp add: thread_switch_def Let_def t_def [symmetric] put_away_def thread_make_runnable_def
          upd_thread_def upd_cpu_def)
    moreover have "\<exists>s'. pick_next cur ?s1 = Done s' \<and> sched_inv s'"
    proof (rule leave_inv [OF s cur(1), of _ t "th\<lparr>t_state := S_READY\<rparr>" "Queued cur"])
      show "in_place ?s1 u q \<longleftrightarrow> (if u = t then q = Queued cur else in_place s u q)" for u q
        using th(3) [of q] cur(1) t_def by (cases q) auto
      show "lists_distinct ?s1"
        using inv(2) th(3) [of "Queued cur"] cur(1) by (auto simp: lists_distinct_def)
      show "cpu_ok (s_cpu ?s1 cur)" using ok cur by (simp add: cpu_ok_def)
    qed (use th cur t_def in simp_all)
    ultimately show ?thesis by simp
  next
    case S_SLEEP
    let ?th = "th\<lparr>t_wchan_name := Some (s_wc_name s wc), t_state := S_SLEEP\<rparr>"
    let ?s1 = "upd_cpu cur (\<lambda>x. x\<lparr>c_isidle := True\<rparr>) (s\<lparr>s_wc_threads := (s_wc_threads s)(wc := s_wc_threads s wc @ [t]),
      s_thread := (s_thread s)(t \<mapsto> ?th)\<rparr>)"
    have "thread_switch cur newstate wc s = pick_next cur ?s1"
      using th frame S_SLEEP
      by (simp add: thread_switch_def Let_def t_def [symmetric] put_away_def upd_thread_def upd_cpu_def)
    moreover have "\<exists>s'. pick_next cur ?s1 = Done s' \<and> sched_inv s'"
    proof (rule leave_inv [OF s cur(1), of _ t ?th "Asleep wc"])
      show "in_place ?s1 u q \<longleftrightarrow> (if u = t then q = Asleep wc else in_place s u q)" for u q
        using th(3) [of q] cur(1) t_def by (cases q) auto
      show "lists_distinct ?s1"
        using inv(2) th(3) [of "Asleep wc"] by (auto simp: lists_distinct_def)
      show "cpu_ok (s_cpu ?s1 cur)" using ok cur by (simp add: cpu_ok_def)
    qed (use th cur t_def in simp_all)
    ultimately show ?thesis by simp
  next
    case S_ZOMBIE
    let ?th = "th\<lparr>t_wchan_name := Some ''ZOMBIE'', t_state := S_ZOMBIE\<rparr>"
    let ?s1 = "upd_cpu cur (\<lambda>x. x\<lparr>c_zombies := c_zombies x @ [t], c_isidle := True\<rparr>)
      (s\<lparr>s_thread := (s_thread s)(t \<mapsto> ?th)\<rparr>)"
    have "thread_switch cur newstate wc s = pick_next cur ?s1"
      using th frame S_ZOMBIE
      by (simp add: thread_switch_def Let_def t_def [symmetric] put_away_def upd_thread_def upd_cpu_def)
    moreover have "\<exists>s'. pick_next cur ?s1 = Done s' \<and> sched_inv s'"
    proof (rule leave_inv [OF s cur(1), of _ t ?th "Dead cur"])
      show "in_place ?s1 u q \<longleftrightarrow> (if u = t then q = Dead cur else in_place s u q)" for u q
        using th(3) [of q] cur(1) t_def by (cases q) auto
      show "lists_distinct ?s1"
        using inv(2) th(3) [of "Dead cur"] cur(1) by (auto simp: lists_distinct_def)
      show "cpu_ok (s_cpu ?s1 cur)" using ok cur by (simp add: cpu_ok_def)
    qed (use th cur t_def in simp_all)
    ultimately show ?thesis by simp
  qed
qed

section \<open>Wake-ups and new threads\<close>

lemma placed_move_all:
  assumes "\<And>u. placed s u" "s_ncpu s' = s_ncpu s" "s_thread s' = s_thread s"
    "\<And>u th. u \<in> U \<Longrightarrow> s_thread s u = Some th \<Longrightarrow> fits th p" "\<And>u. u \<in> U \<Longrightarrow> s_thread s u \<noteq> None"
    "\<And>u q. in_place s' u q \<longleftrightarrow> (if u \<in> U then q = p else in_place s u q)"
  shows "placed s' u"
proof (cases "u \<in> U")
  case True
  then obtain th where "s_thread s u = Some th" using assms(5) by blast
  then show ?thesis
    using True assms(1) [of u] assms(2-6) by (intro placedI [of s' u th p]) (auto simp: placed_def)
next
  case False
  then show ?thesis using assms(1) [of u] assms(2,3,6) by (auto simp: placed_def split: option.splits)
qed

lemma wake_grab_inv:
  assumes s: "sched_inv s" and cur: "cur < s_ncpu s" "c_hand (s_cpu s cur) = []"
      "c_mig (s_cpu s cur) = NotMigrating" "\<not> c_waiting (s_cpu s cur)"
    and w: "s_wc_threads s wc = ts @ us"
  shows "sched_inv (upd_cpu cur (\<lambda>x. x\<lparr>c_hand := ts\<rparr>) (s\<lparr>s_wc_threads := (s_wc_threads s)(wc := us)\<rparr>))"
    (is "sched_inv ?s1")
proof (rule sched_invI)
  note inv = sched_invD [OF s]
  have d: "distinct (ts @ us)" using distinctD(5) [OF s cur(1), of wc] w by simp
  have in_ts: "in_place s u (Asleep wc)" if "u \<in> set ts" for u using that w by simp
  show "placed ?s1 u" for u
  proof (rule placed_move_all [OF inv(1), where U = "set ts" and p = "Waking cur"])
    fix u q
    show "in_place ?s1 u q \<longleftrightarrow> (if u \<in> set ts then q = Waking cur else in_place s u q)"
    proof (cases "u \<in> set ts")
      case True
      then show ?thesis
        using placed_iff [OF inv(1) in_ts [OF True], of q] d cur by (cases q) auto
    qed (use w cur in \<open>cases q; auto\<close>)
  next
    fix u assume u: "u \<in> set ts"
    obtain th where "s_thread s u = Some th" "fits th (Asleep wc)"
      using placed_unique [OF inv(1) in_ts [OF u]] by blast
    then show "s_thread s u \<noteq> None" "\<And>th. s_thread s u = Some th \<Longrightarrow> fits th (Waking cur)" by auto
  qed simp_all
  show "lists_distinct ?s1" using inv(2) d by (auto simp: lists_distinct_def)
  show "current_own ?s1" using inv(3) by (auto simp: current_own_def)
  show "cpu_ok (s_cpu ?s1 c)" if "c < s_ncpu ?s1" for c
    using inv(4) [of c] that cur by (auto simp: cpu_ok_def)
qed

lemma wake_next_inv:
  assumes s: "sched_inv s" and cur: "cur < s_ncpu s" "c_hand (s_cpu s cur) \<noteq> []"
  shows "\<exists>s'. wake_next cur s = Done s' \<and> sched_inv s'"
proof -
  obtain t ts where h: "c_hand (s_cpu s cur) = t # ts" using cur(2) by (meson neq_Nil_conv)
  note inv = sched_invD [OF s]
  let ?s1 = "upd_cpu cur (\<lambda>x. x\<lparr>c_hand := ts\<rparr>) s"
  have "in_place s t (Waking cur)" using h cur(1) by simp
  then obtain th where th: "s_thread s t = Some th" "t_cpu th < s_ncpu s"
    "\<And>q. in_place s t q \<longleftrightarrow> q = Waking cur"
    using placed_unique [OF inv(1)] by blast
  have tn: "t \<notin> set ts" using distinctD(3) [OF s cur(1)] h by simp
  have ip: "in_place ?s1 u q \<longleftrightarrow> u \<noteq> t \<and> in_place s u q" for u q
    using th(3) [of q] tn h by (cases q) auto
  have wait: "\<not> c_waiting (s_cpu s cur)" using inv(4) [OF cur(1)] h by (auto simp: cpu_ok_def)
  have "sched_inv_but t ?s1"
    unfolding sched_inv_but_def
  proof (intro conjI allI impI)
    show "placed ?s1 u" if "u \<noteq> t" for u
      using inv(1) [of u] that ip [of u] by (auto simp: placed_def split: option.splits)
    show "\<not> in_place ?s1 t p" for p using ip [of t] by blast
    show "\<exists>th. s_thread ?s1 t = Some th \<and> t_cpu th < s_ncpu ?s1" using th by simp
    show "lists_distinct ?s1" using inv(2) h by (auto simp: lists_distinct_def)
    show "current_own ?s1" using inv(3) by (auto simp: current_own_def)
    show "cpu_ok (s_cpu ?s1 c)" if "c < s_ncpu ?s1" for c
      using inv(4) [of c] that wait h by (auto simp: cpu_ok_def)
  qed
  then show ?thesis
    using make_runnable_inv [of t ?s1 cur] wait by (simp add: wake_next_def h)
qed

lemma fork_inv:
  assumes s: "sched_inv s" and cur: "cur < s_ncpu s" "\<not> c_waiting (s_cpu s cur)" and t: "s_thread s t = None"
  shows "\<exists>s'. fork_runnable cur t s = Done s' \<and> sched_inv s'"
proof -
  note inv = sched_invD [OF s]
  obtain th where th: "s_thread s (c_curthread (s_cpu s cur)) = Some th" "t_cpu th = cur"
    using inv(3) cur(1) by (auto simp: current_own_def)
  let ?s1 = "s\<lparr>s_thread := (s_thread s)(t \<mapsto> thread_create_on (t_cpu th))\<rparr>"
  have ip: "in_place ?s1 u q \<longleftrightarrow> in_place s u q" for u q by (cases q) auto
  have "sched_inv_but t ?s1"
    unfolding sched_inv_but_def
  proof (intro conjI allI impI)
    show "placed ?s1 u" if "u \<noteq> t" for u
      using inv(1) [of u] that ip [of u] by (auto simp: placed_def split: option.splits)
    show "\<not> in_place ?s1 t p" for p using ip [of t] placed_None [OF inv(1) t] by blast
    show "\<exists>th. s_thread ?s1 t = Some th \<and> t_cpu th < s_ncpu ?s1"
      using th cur by (simp add: thread_create_on_def)
    show "lists_distinct ?s1" using inv(2) by (auto simp: lists_distinct_def)
    show "current_own ?s1" using inv(3) t unfolding current_own_def by fastforce
    show "cpu_ok (s_cpu ?s1 c)" if "c < s_ncpu ?s1" for c using inv(4) [of c] that by simp
  qed
  then show ?thesis
    using make_runnable_inv [of t ?s1 cur] cur th by (simp add: fork_runnable_def)
qed

section \<open>Migration\<close>

lemma set_mig_simps [simp]:
  "s_cpu (set_mig c m s) d = (if d = c then (s_cpu s c)\<lparr>c_mig := m\<rparr> else s_cpu s d)"
  "s_thread (set_mig c m s) = s_thread s" "s_ncpu (set_mig c m s) = s_ncpu s"
  "s_wc_threads (set_mig c m s) = s_wc_threads s"
  by (simp_all add: set_mig_def)

lemma set_mig_inv:
  assumes s: "sched_inv s" and m: "set (victims m) = set (victims (c_mig (s_cpu s cur)))"
    "distinct (victims m)" "mig_ok (c_runqueue (s_cpu s cur)) m"
    "c_waiting (s_cpu s cur) \<or> c_hand (s_cpu s cur) \<noteq> [] \<longrightarrow> m = NotMigrating"
  shows "sched_inv (set_mig cur m s)"
proof (rule sched_invI)
  note inv = sched_invD [OF s]
  have ip: "in_place (set_mig cur m s) u q \<longleftrightarrow> in_place s u q" for u q using m(1) by (cases q) auto
  show "placed (set_mig cur m s) t" for t by (rule placed_same [OF inv(1) _ _ ip]) simp_all
  show "lists_distinct (set_mig cur m s)" using inv(2) m(2) by (auto simp: lists_distinct_def)
  show "current_own (set_mig cur m s)" using inv(3) by (auto simp: current_own_def)
  show "cpu_ok (s_cpu (set_mig cur m s) c)" if "c < s_ncpu (set_mig cur m s)" for c
    using inv(4) [of c] that m(3,4) by (auto simp: cpu_ok_def)
qed

lemma grab_victims_splits:
  "n \<le> length q \<Longrightarrow> grab_victims n q vs = Done (take (length q - n) q, drop (length q - n) q @ vs)"
proof (induction n q vs rule: grab_victims.induct)
  case (2 n q vs)
  then obtain q' t where q: "q = q' @ [t]" by (cases q rule: rev_cases) auto
  then show ?case using 2 by (simp add: Suc_diff_le)
qed simp

lemma taking_inv:
  assumes s: "sched_inv s" and cur: "cur < s_ncpu s" and m: "c_mig (s_cpu s cur) = Taking one_share to_send"
  shows "\<exists>s'. migration_section cur s = Done s' \<and> sched_inv s'"
proof -
  note inv = sched_invD [OF s]
  define q where "q = c_runqueue (s_cpu s cur)"
  have ok: "cpu_ok (s_cpu s cur)" using inv(4) cur by simp
  then have le: "to_send \<le> length q" using m by (simp add: cpu_ok_def q_def)
  define vs where "vs = drop (length q - to_send) q"
  define q1 where "q1 = take (length q - to_send) q"
  have split: "q = q1 @ vs" by (simp add: q1_def vs_def)
  have dq: "distinct (q1 @ vs)" using distinctD(1) [OF s cur] split q_def by simp
  define s1 where "s1 = set_mig cur (Giving 0 one_share to_send vs) (upd_cpu cur (\<lambda>x. x\<lparr>c_runqueue := q1\<rparr>) s)"
  have run: "migration_section cur s = Done s1"
    using grab_victims_splits [OF le, of "[]"] m
    by (simp add: migration_section_def q_def [symmetric] s1_def q1_def vs_def)
  have sq: "set (c_runqueue (s_cpu s cur)) = set q1 \<union> set vs" "set q1 \<inter> set vs = {}"
    using split dq unfolding q_def by auto
  have in_vs: "in_place s u (Queued cur)" if "u \<in> set vs" for u
    using that cur sq(1) by simp
  have "sched_inv s1"
  proof (rule sched_invI)
    show "placed s1 u" for u
    proof (rule placed_move_all [OF inv(1), where U = "set vs" and p = "Victim cur"])
      fix u p
      show "in_place s1 u p \<longleftrightarrow> (if u \<in> set vs then p = Victim cur else in_place s u p)"
      proof (cases "u \<in> set vs")
        case True
        then have "u \<notin> set q1" using sq(2) by blast
        then show ?thesis
          using True placed_iff [OF inv(1) in_vs [OF True], of p] cur
          by (cases p) (auto simp: s1_def)
      next
        case False
        then show ?thesis
          using sq(1) cur m by (cases p) (auto simp: s1_def)
      qed
    next
      fix u assume u: "u \<in> set vs"
      obtain th where "s_thread s u = Some th" "fits th (Queued cur)"
        using placed_unique [OF inv(1) in_vs [OF u]] by blast
      then show "s_thread s u \<noteq> None" "\<And>th. s_thread s u = Some th \<Longrightarrow> fits th (Victim cur)" by auto
    qed (simp_all add: s1_def)
    show "lists_distinct s1" using inv(2) dq by (auto simp: lists_distinct_def s1_def)
    show "current_own s1" using inv(3) by (auto simp: current_own_def s1_def)
    show "cpu_ok (s_cpu s1 c)" if "c < s_ncpu s1" for c
      using inv(4) [of c] that le m by (auto simp: cpu_ok_def s1_def vs_def)
  qed
  then show ?thesis using run by simp
qed

lemma returning_inv:
  assumes s: "sched_inv s" and cur: "cur < s_ncpu s" and m: "c_mig (s_cpu s cur) = Returning vs"
  shows "\<exists>s'. migration_section cur s = Done s' \<and> sched_inv s'"
proof -
  note inv = sched_invD [OF s]
  define s1 where "s1 = set_mig cur Migrated (upd_cpu cur (\<lambda>x. x\<lparr>c_runqueue := c_runqueue x @ vs\<rparr>) s)"
  have run: "migration_section cur s = Done s1" using m by (simp add: migration_section_def s1_def)
  have in_vs: "in_place s u (Victim cur)" if "u \<in> set vs" for u using that cur m by simp
  have fresh: "set (c_runqueue (s_cpu s cur)) \<inter> set vs = {}"
    using placed_iff [OF inv(1) in_vs, of _ "Queued cur"] cur by auto
  have "sched_inv s1"
  proof (rule sched_invI)
    show "placed s1 u" for u
    proof (rule placed_move_all [OF inv(1), where U = "set vs" and p = "Queued cur"])
      fix u p
      show "in_place s1 u p \<longleftrightarrow> (if u \<in> set vs then p = Queued cur else in_place s u p)"
      proof (cases "u \<in> set vs")
        case True
        then show ?thesis
          using placed_iff [OF inv(1) in_vs [OF True], of p] cur by (cases p) (auto simp: s1_def)
      next
        case False
        then show ?thesis using cur m by (cases p) (auto simp: s1_def)
      qed
    next
      fix u assume u: "u \<in> set vs"
      obtain th where "s_thread s u = Some th" "fits th (Victim cur)"
        using placed_unique [OF inv(1) in_vs [OF u]] by blast
      then show "s_thread s u \<noteq> None" "\<And>th. s_thread s u = Some th \<Longrightarrow> fits th (Queued cur)" by auto
    qed (simp_all add: s1_def)
    show "lists_distinct s1"
      using inv(2) fresh distinctD(2) [OF s cur] m by (auto simp: lists_distinct_def s1_def)
    show "current_own s1" using inv(3) by (auto simp: current_own_def s1_def)
    show "cpu_ok (s_cpu s1 c)" if "c < s_ncpu s1" for c
      using inv(4) [of c] that m by (auto simp: cpu_ok_def s1_def)
  qed
  then show ?thesis using run by simp
qed

text \<open>One thread given to processor \<open>c\<close>: it leaves the victims and joins the run queue of \<open>c\<close>.\<close>

lemma give_one_inv:
  assumes s: "sched_inv (set_mig cur (Giving i one_share (Suc n) (t # vs)) s)"
    and c: "cur < s_ncpu s" "c < s_ncpu s" "c \<noteq> cur" "t \<noteq> c_curthread (s_cpu s cur)" "n \<le> length vs"
    and w: "w = (if c_isidle (s_cpu s c) then c_ipi_pending (s_cpu s c) OR 4 else c_ipi_pending (s_cpu s c))"
  obtains th where "s_thread s t = Some th"
    "sched_inv (set_mig cur (Giving i one_share n vs)
      (upd_cpu c (\<lambda>x. x\<lparr>c_runqueue := c_runqueue x @ [t], c_ipi_pending := w\<rparr>)
        (s\<lparr>s_thread := (s_thread s)(t \<mapsto> th\<lparr>t_cpu := c\<rparr>)\<rparr>)))"
proof -
  let ?s0 = "set_mig cur (Giving i one_share (Suc n) (t # vs)) s"
  note inv = sched_invD [OF s]
  have "in_place ?s0 t (Victim cur)" using c(1) by simp
  then obtain th where th: "s_thread s t = Some th" "fits th (Victim cur)"
    "\<And>q. in_place ?s0 t q \<longleftrightarrow> q = Victim cur"
    using placed_unique [OF inv(1)] by (metis set_mig_simps(2))
  define s1 where "s1 = set_mig cur (Giving i one_share n vs)
      (upd_cpu c (\<lambda>x. x\<lparr>c_runqueue := c_runqueue x @ [t], c_ipi_pending := w\<rparr>)
        (s\<lparr>s_thread := (s_thread s)(t \<mapsto> th\<lparr>t_cpu := c\<rparr>)\<rparr>))"
  have d: "t \<notin> set vs" using distinctD(2) [OF s, of cur] c(1) by simp
  have ip: "in_place s1 u q \<longleftrightarrow> (if u = t then q = Queued c else in_place ?s0 u q)" for u q
    using th(3) [of q] d c by (cases q) (auto simp: s1_def)
  have okc: "cpu_ok (s_cpu s c)" using inv(4) [of c] c by simp
  then have wd: "c_waiting (s_cpu s c) \<longrightarrow> bit w IPI_UNIDLE"
    by (auto simp: w cpu_ok_def bit_unidle)
  have "sched_inv s1"
  proof (rule sched_invI)
    show "placed s1 u" for u
      by (rule placed_move [where th = "th\<lparr>t_cpu := c\<rparr>", OF inv(1) _ _ _ _ ip])
        (use th c in \<open>simp_all add: s1_def\<close>)
    have "t \<notin> set (c_runqueue (s_cpu s c))" using th(3) [of "Queued c"] c by simp
    then show "lists_distinct s1" using inv(2) c by (auto simp: lists_distinct_def s1_def)
    have "t \<noteq> c_curthread (s_cpu s e)" if "e < s_ncpu s" "e \<noteq> cur" for e
    proof
      assume "t = c_curthread (s_cpu s e)"
      then have "\<exists>th. s_thread s t = Some th \<and> t_cpu th = e"
        using inv(3) that by (auto simp: current_own_def)
      then show False using th that(2) by auto
    qed
    then show "current_own s1"
      using inv(3) c by (auto simp: current_own_def s1_def)
    show "cpu_ok (s_cpu s1 e)" if "e < s_ncpu s1" for e
      using inv(4) [of e] that c enqueue_ok [OF okc wd] by (auto simp: s1_def cpu_ok_def)
  qed
  then show ?thesis using that [OF th(1)] by (simp add: s1_def)
qed

lemma set_mig_twice [simp]: "set_mig c m (set_mig c m' s) = set_mig c m s"
  by (simp add: set_mig_def upd_cpu_def)

lemma giving_again:
  assumes "sched_inv (set_mig cur (Giving i one_share n vs) s)" "cur < s_ncpu s"
    "m \<le> length us" "set us = set vs" "distinct us"
  shows "sched_inv (set_mig cur (Giving j one_share m us) s)"
proof -
  have w: "\<not> c_waiting (s_cpu s cur)" "c_hand (s_cpu s cur) = []"
    using sched_invD(4) [OF assms(1), of cur] assms(2) by (auto simp: cpu_ok_def)
  show ?thesis
    using set_mig_inv [OF assms(1), of "Giving j one_share m us" cur] assms(3-5) w by simp
qed

lemma give_victims_inv:
  assumes "sched_inv (set_mig cur (Giving i one_share to_send vs) s)"
    "cur < s_ncpu s" "c < s_ncpu s" "c \<noteq> cur" "to_send \<le> length vs"
  shows "\<exists>to_send' vs' s'. give_victims cur c one_share to_send vs s = Done (to_send', vs', s') \<and>
    sched_inv (set_mig cur (Giving (i + 1) one_share to_send' vs') s')"
  using assms
proof (induction to_send arbitrary: vs s)
  case 0
  then show ?case using giving_again [OF 0(1,2)] distinctD(2) [OF 0(1), of cur] by simp
next
  case (Suc n)
  obtain t us where vs: "vs = t # us" using Suc.prems(5) by (cases vs) auto
  have dvs: "distinct (t # us)" using distinctD(2) [OF Suc.prems(1), of cur] Suc.prems(2) vs by simp
  have le: "n \<le> length us" using Suc.prems(5) vs by simp
  show ?case
  proof (cases "length (c_runqueue (s_cpu s c)) < one_share")
    case False
    then show ?thesis
      using giving_again [OF Suc.prems(1,2,5) refl, of "i + 1"] dvs vs by simp
  next
    case True
    show ?thesis
    proof (cases "t = c_curthread (s_cpu s cur)")
      case cur: True
      have "sched_inv (set_mig cur (Giving i one_share n (us @ [t])) s)"
        by (rule giving_again [OF Suc.prems(1,2)]) (use le dvs vs in auto)
      then show ?thesis
        using Suc.IH [of "us @ [t]" s] Suc.prems(2-4) le True cur vs by simp
    next
      case False
      let ?w = "if c_isidle (s_cpu s c) then c_ipi_pending (s_cpu s c) OR 4 else c_ipi_pending (s_cpu s c)"
      obtain th where th: "s_thread s t = Some th"
        "sched_inv (set_mig cur (Giving i one_share n us)
          (upd_cpu c (\<lambda>x. x\<lparr>c_runqueue := c_runqueue x @ [t], c_ipi_pending := ?w\<rparr>)
            (s\<lparr>s_thread := (s_thread s)(t \<mapsto> th\<lparr>t_cpu := c\<rparr>)\<rparr>)))"
        using give_one_inv [OF Suc.prems(1) [unfolded vs] Suc.prems(2-4) False le refl] by blast
      have "give_victims cur c one_share (Suc n) vs s = give_victims cur c one_share n us
          (upd_cpu c (\<lambda>x. x\<lparr>c_runqueue := c_runqueue x @ [t], c_ipi_pending := ?w\<rparr>)
            (s\<lparr>s_thread := (s_thread s)(t \<mapsto> th\<lparr>t_cpu := c\<rparr>)\<rparr>))"
        using th(1) True False vs by (simp add: upd_thread_def Let_def ipi_send_def upd_cpu_def)
      then show ?thesis
        using Suc.IH [OF th(2)] Suc.prems(2-4) le by simp
    qed
  qed
qed

lemma migration_section_inv:
  assumes s: "sched_inv s" and cur: "cur < s_ncpu s" "c_mig (s_cpu s cur) \<noteq> NotMigrating"
  shows "\<exists>s'. migration_section cur s = Done s' \<and> sched_inv s'"
proof -
  have ok: "cpu_ok (s_cpu s cur)" using sched_invD(4) [OF s] cur(1) by simp
  then have w: "\<not> c_waiting (s_cpu s cur)" "c_hand (s_cpu s cur) = []"
    using cur(2) by (auto simp: cpu_ok_def)
  show ?thesis
  proof (cases "c_mig (s_cpu s cur)")
    case NotMigrating
    then show ?thesis using cur(2) by simp
  next
    case (Counting i my_count total_count)
    then have "my_count \<le> length (c_runqueue (s_cpu s cur))" using ok by (simp add: cpu_ok_def)
    then show ?thesis
      using Counting w s by (auto simp: migration_section_def Let_def intro!: set_mig_inv)
  next
    case (Taking one_share to_send)
    then show ?thesis by (rule taking_inv [OF s cur(1)])
  next
    case (Giving i one_share to_send vs)
    have le: "to_send \<le> length vs" using ok Giving by (simp add: cpu_ok_def)
    have d: "distinct vs" using distinctD(2) [OF s cur(1)] Giving by simp
    have self: "sched_inv (set_mig cur (Giving i one_share to_send vs) s)"
      using Giving w le d by (intro set_mig_inv [OF s]) simp_all
    show ?thesis
    proof (cases "i < s_ncpu s \<and> to_send > 0 \<and> i \<noteq> cur")
      case True
      then show ?thesis
        using give_victims_inv [OF self cur(1) _ _ le, of i] Giving
        by (auto simp: migration_section_def)
    next
      case False
      then show ?thesis
        using Giving w s le d by (auto simp: migration_section_def intro!: set_mig_inv)
    qed
  next
    case (Returning vs)
    then show ?thesis by (rule returning_inv [OF s cur(1)])
  next
    case Migrated
    have "sched_inv (set_mig cur NotMigrating s)" using Migrated s by (auto intro!: set_mig_inv)
    then show ?thesis
      using thread_switch_inv [of "set_mig cur NotMigrating s" cur S_READY 0] Migrated cur w
      by (simp add: migration_section_def thread_yield_def)
  qed
qed

section \<open>Every step keeps the invariant\<close>

lemma quiet_upd:
  assumes s: "sched_inv s" and f: "c_curthread (f x) = c_curthread x" "c_zombies (f x) = c_zombies x"
      "c_isidle (f x) = c_isidle x" "c_runqueue (f x) = c_runqueue x" "c_hand (f x) = c_hand x"
      "c_mig (f x) = c_mig x" and x: "x = s_cpu s c" and ok: "c < s_ncpu s \<Longrightarrow> cpu_ok x \<Longrightarrow> cpu_ok (f x)"
  shows "sched_inv (upd_cpu c f s)"
proof (rule sched_invI)
  note inv = sched_invD [OF s]
  have ip: "in_place (upd_cpu c f s) u q \<longleftrightarrow> in_place s u q" for u q using f x by (cases q) auto
  show "placed (upd_cpu c f s) t" for t by (rule placed_same [OF inv(1) _ _ ip]) simp_all
  show "lists_distinct (upd_cpu c f s)" using inv(2) f x by (auto simp: lists_distinct_def)
  show "current_own (upd_cpu c f s)" using inv(3) f x by (auto simp: current_own_def)
  show "cpu_ok (s_cpu (upd_cpu c f s) d)" if "d < s_ncpu (upd_cpu c f s)" for d
    using inv(4) [of d] that ok x by auto
qed

lemma hardclock_inv:
  assumes s: "sched_inv s" and e: "at_ease s c"
  shows "\<exists>s'. hardclock c s = Done s' \<and> sched_inv s'"
proof -
  let ?s1 = "upd_cpu c (\<lambda>x. x\<lparr>c_hardclocks := c_hardclocks x + 1\<rparr>) s"
  have s1: "sched_inv ?s1" by (rule quiet_upd [OF s _ _ _ _ _ _ refl]) (simp_all add: cpu_ok_def)
  then have "sched_inv (set_mig c (Counting 0 0 0) ?s1)"
    using e by (intro set_mig_inv) (simp_all add: at_ease_def)
  moreover have "\<exists>s'. thread_yield c ?s1 = Done s' \<and> sched_inv s'"
    unfolding thread_yield_def by (rule thread_switch_inv [OF s1]) (use e in \<open>simp_all add: at_ease_def alive_def\<close>)
  ultimately show ?thesis by (simp add: hardclock_def Let_def)
qed

lemma ipi_inv:
  assumes s: "sched_inv s" and c: "c < s_ncpu s"
  shows "\<exists>s'. interprocessor_interrupt c (upd_cpu c (\<lambda>x. x\<lparr>c_waiting := False\<rparr>) s) = Done s' \<and> sched_inv s'"
proof -
  let ?s1 = "upd_cpu c (\<lambda>x. x\<lparr>c_waiting := False\<rparr>) s"
  have s1: "sched_inv ?s1" by (rule quiet_upd [OF s _ _ _ _ _ _ refl]) (simp_all add: cpu_ok_def)
  have "sched_inv (upd_cpu c (\<lambda>x. x\<lparr>c_halted := True\<rparr>) ?s1)"
    by (rule quiet_upd [OF s1 _ _ _ _ _ _ refl]) (simp_all add: cpu_ok_def)
  moreover have "sched_inv (upd_cpu c (\<lambda>x. x\<lparr>c_ipi_pending := 0\<rparr>) ?s1)"
    by (rule quiet_upd [OF s1 _ _ _ _ _ _ refl]) (simp_all add: cpu_ok_def)
  moreover have "c_numshootdown (s_cpu s c) = 0"
    using sched_invD(4) [OF s c] by (simp add: cpu_ok_def)
  ultimately show ?thesis by (simp add: interprocessor_interrupt_def Let_def)
qed

lemma ipi_broadcast_inv:
  assumes "sched_inv s" "code < 32"
  shows "\<exists>s'. ipi_broadcast_upto c code i s = Done s' \<and> sched_inv s'"
proof (induction i)
  case (Suc i)
  then obtain s1 where s1: "ipi_broadcast_upto c code i s = Done s1" "sched_inv s1" by blast
  have "sched_inv (upd_cpu i (\<lambda>x. x\<lparr>c_ipi_pending := c_ipi_pending x OR push_bit code 1\<rparr>) s1)"
    by (rule quiet_upd [OF s1(2) _ _ _ _ _ _ refl]) (auto simp: cpu_ok_def bit_or_iff)
  then show ?case using s1 assms(2) by (simp add: ipi_send_def)
qed (use assms in simp)

lemma sched_do_inv:
  assumes s: "sched_inv s" and can: "can_do c s"
  shows "\<exists>s'. sched_do c s = Done s' \<and> sched_inv s'"
proof (cases c)
  case (Fork c t)
  then show ?thesis using fork_inv [OF s, of c t] can by (simp add: at_ease_def alive_def)
next
  case (Yield c)
  then show ?thesis using thread_switch_inv [OF s, of c S_READY 0] can
    by (simp add: at_ease_def alive_def thread_yield_def)
next
  case (Sleep c w)
  then show ?thesis using thread_switch_inv [OF s, of c S_SLEEP w] can by (simp add: at_ease_def alive_def)
next
  case (Exit c)
  then show ?thesis using thread_switch_inv [OF s, of c S_ZOMBIE 0] can by (simp add: at_ease_def alive_def)
next
  case (WakeOne c w)
  then have "sched_inv (wake_grab_one c w s)"
    using wake_grab_inv [OF s, of c w "[hd (s_wc_threads s w)]" "tl (s_wc_threads s w)"] can s
    by (cases "s_wc_threads s w") (simp_all add: at_ease_def alive_def wake_grab_one_def)
  then show ?thesis using WakeOne by simp
next
  case (WakeAll c w)
  then have "sched_inv (wake_grab_all c w s)"
    using wake_grab_inv [OF s, of c w "s_wc_threads s w" "[]"] can
    by (simp add: at_ease_def alive_def wake_grab_all_def)
  then show ?thesis using WakeAll by simp
next
  case (WakeNext c)
  then show ?thesis using wake_next_inv [OF s, of c] can by (simp add: alive_def)
next
  case (Tick c)
  then show ?thesis using hardclock_inv [OF s, of c] can by simp
next
  case (Migrate c)
  then show ?thesis using migration_section_inv [OF s, of c] can by (simp add: alive_def)
next
  case (Interrupt c)
  have "sched_inv (upd_cpu c (\<lambda>x. x\<lparr>c_waiting := False\<rparr>) s)"
    by (rule quiet_upd [OF s _ _ _ _ _ _ refl]) (simp_all add: cpu_ok_def)
  then show ?thesis using Interrupt by simp
next
  case (Ipi c)
  then show ?thesis using ipi_inv [OF s, of c] can by (simp add: alive_def)
next
  case (Unidle c)
  then show ?thesis using pick_next_inv [OF s, of c] can by (simp add: at_ease_def alive_def)
next
  case (Shutdown c)
  then show ?thesis using ipi_broadcast_inv [OF s, of 1 c "s_ncpu s"] by (simp add: ipi_broadcast_def)
qed

end
