(* ===== verification/Sched_Run.thy ===== *)
theory Sched_Run
  imports Sched_Laws
begin

unbundle bit_operations_syntax

text \<open>
  What the scheduler promises in every run, from the moment the processors have been created:
  each thread is in one place, no section fails an assertion, no wake-up is lost on an idle
  processor, and the threads of a processor take turns.
\<close>

section \<open>Runs\<close>

definition no_cpus :: "(nat \<Rightarrow> string) \<Rightarrow> scpu \<Rightarrow> sched" where
  "no_cpus names junk = \<lparr>s_thread = (\<lambda>t. None), s_ncpu = 0, s_cpu = (\<lambda>c. junk),
     s_wc_name = names, s_wc_threads = (\<lambda>w. [])\<rparr>"

primrec boot_cpus :: "nat \<Rightarrow> sched \<Rightarrow> sched" where
  "boot_cpus 0 s = s"
| "boot_cpus (Suc n) s = cpu_create n (boot_cpus n s)"

text \<open>The state once \<open>n\<close> processors have been found; \<open>junk\<close> stands for memory not yet written.\<close>

definition sched_boot :: "(nat \<Rightarrow> string) \<Rightarrow> scpu \<Rightarrow> nat \<Rightarrow> sched" where
  "sched_boot names junk n = boot_cpus n (no_cpus names junk)"

fun sched_run :: "sched_op list \<Rightarrow> sched \<Rightarrow> sched outcome" where
  "sched_run [] s = Done s"
| "sched_run (c # cs) s = (if can_do c s then bindo (sched_do c s) (sched_run cs) else Block)"

lemma sched_run_steps: "sched_run cs s = Done s' \<Longrightarrow> sched_step\<^sup>*\<^sup>* s s'"
proof (induction cs arbitrary: s)
  case (Cons c cs)
  then obtain s1 where "can_do c s" "sched_do c s = Done s1" "sched_run cs s1 = Done s'"
    by (auto split: if_splits)
  then show ?case using Cons.IH by (meson converse_rtranclp_into_rtranclp sched_step.intros)
qed simp

lemma cpu_create_inv:
  assumes s: "sched_inv s" and t: "s_thread s t = None"
  shows "sched_inv (cpu_create t s)"
proof (rule sched_invI)
  note inv = sched_invD [OF s]
  let ?s1 = "cpu_create t s"
  have no: "\<not> in_place s t q" for q using placed_None [OF inv(1) t] .
  have ip: "in_place ?s1 u q \<longleftrightarrow> (if u = t then q = Running (s_ncpu s) else in_place s u q)" for u q
    using no [of q] by (cases q) (auto simp: cpu_create_def Let_def less_Suc_eq)
  show "placed ?s1 u" for u
  proof (cases "u = t")
    case True
    then show ?thesis
      using ip [of t] by (intro placedI [of _ _ "thread_create_on (s_ncpu s)" "Running (s_ncpu s)"])
        (simp_all add: cpu_create_def thread_create_on_def Let_def)
  next
    case False
    then show ?thesis
      using inv(1) [of u] ip [of u]
      by (auto simp: placed_def cpu_create_def Let_def less_Suc_eq split: option.splits)
  qed
  show "lists_distinct ?s1"
    using inv(2) by (auto simp: lists_distinct_def cpu_create_def Let_def less_Suc_eq)
  show "current_own ?s1"
    unfolding current_own_def
  proof (intro allI impI)
    fix c assume "c < s_ncpu ?s1"
    then have "c < s_ncpu s \<or> c = s_ncpu s" by (auto simp: cpu_create_def Let_def)
    then show "\<exists>th. s_thread ?s1 (c_curthread (s_cpu ?s1 c)) = Some th \<and> t_cpu th = c"
      using inv(3) t by (auto simp: current_own_def cpu_create_def Let_def thread_create_on_def)
  qed
  show "cpu_ok (s_cpu ?s1 c)" if "c < s_ncpu ?s1" for c
    using inv(4) [of c] that by (auto simp: cpu_create_def Let_def cpu_ok_def less_Suc_eq)
qed

lemma boot_cpus_inv:
  "sched_inv (boot_cpus n (no_cpus names junk)) \<and> (\<forall>t\<ge>n. s_thread (boot_cpus n (no_cpus names junk)) t = None)"
proof (induction n)
  case 0
  have "\<not> in_place (no_cpus names junk) t p" for t p by (cases p) (simp_all add: no_cpus_def)
  then show ?case
    by (simp add: sched_inv_def placed_def lists_distinct_def current_own_def) (simp add: no_cpus_def)
next
  case (Suc n)
  then have "sched_inv (boot_cpus (Suc n) (no_cpus names junk))" by (simp add: cpu_create_inv)
  then show ?case using Suc by (simp add: cpu_create_def Let_def)
qed

lemma sched_steps_inv:
  assumes "sched_step\<^sup>*\<^sup>* s s'" "sched_inv s"
  shows "sched_inv s'"
  using assms
proof (induction rule: rtranclp_induct)
  case (step y z)
  then have "sched_inv y" by simp
  from step(2) obtain c where c: "can_do c y" "sched_do c y = Done z" by (rule sched_step.cases) blast
  then show ?case using sched_do_inv [OF \<open>sched_inv y\<close> c(1)] by auto
qed

lemma sched_reach_inv: "sched_step\<^sup>*\<^sup>* (sched_boot names junk n) s \<Longrightarrow> sched_inv s"
  using sched_steps_inv conjunct1 [OF boot_cpus_inv] unfolding sched_boot_def by blast

text \<open>Processor \<open>c\<close> runs thread \<open>t\<close>, and \<open>q\<close> is its run queue.\<close>

definition busy :: "sched \<Rightarrow> nat \<Rightarrow> nat \<Rightarrow> nat list \<Rightarrow> bool" where
  "busy s c t q \<longleftrightarrow> at_ease s c \<and> \<not> c_isidle (s_cpu s c) \<and> c_curthread (s_cpu s c) = t \<and>
     c_runqueue (s_cpu s c) = q"

text \<open>A machine with two processors for the examples; channel 0 is the only one in use.\<close>

definition two_cpus :: sched where
  "two_cpus = sched_boot (\<lambda>w. ''lbolt'') \<lparr>c_curthread = 0, c_zombies = [], c_hardclocks = 0,
     c_isidle = False, c_runqueue = [], c_ipi_pending = 0, c_numshootdown = 0, c_halted = False,
     c_waiting = False, c_hand = [], c_mig = NotMigrating\<rparr> 2"

lemmas sched_eval = two_cpus_def sched_boot_def no_cpus_def cpu_create_def thread_create_on_def
  numeral_2_eq_2 at_ease_def alive_def thread_switch_def thread_yield_def put_away_def
  pick_next_def switched_in_def exorcise_def upd_thread_def thread_make_runnable_def
  wake_grab_one_def wake_grab_all_def wake_next_def fork_runnable_def ipi_send_def Let_def

lemma two_cpus_sleep_wake:
  "\<exists>s. sched_run [Sleep 1 0, WakeOne 0 0, WakeNext 0] two_cpus = Done s \<and> alive s 1 \<and>
     c_waiting (s_cpu s 1) \<and> c_runqueue (s_cpu s 1) = [1] \<and> c_ipi_pending (s_cpu s 1) = 4"
  by (simp add: sched_eval)

lemma two_cpus_forks:
  "\<exists>s. sched_run [Fork 0 2, Fork 0 3, Exit 1, Fork 0 4, Yield 0] two_cpus = Done s \<and> busy s 0 2 [3, 4, 0]"
  by (simp add: sched_eval busy_def)

section \<open>Places and assertions\<close>



text \<open>
  C6. In every such run, every thread that exists is in exactly one place: running on one
  processor, on one run queue, on one wait channel, in the hands of one waker or of one
  migrating processor, or on one list of dead threads; its state and its processor agree with
  that place.  A thread that does not exist (any more) is in no place.  And no two processors
  ever have the same current thread, not even while one of them idles on the stack of a thread
  that has gone to sleep, so a stack is never used by two processors.
\<close>

theorem thread_in_one_place:
  assumes "sched_step\<^sup>*\<^sup>* (sched_boot names junk n) s"
  shows "(case s_thread s t of
      None \<Rightarrow> \<not> (\<exists>p. in_place s t p)
    | Some th \<Rightarrow> t_cpu th < s_ncpu s \<and> (\<exists>!p. in_place s t p) \<and> (\<exists>p. in_place s t p \<and> fits th p)) \<and>
    inj_on (\<lambda>c. c_curthread (s_cpu s c)) {..<s_ncpu s}"
proof
  note s = sched_reach_inv [OF assms]
  show "case s_thread s t of
      None \<Rightarrow> \<not> (\<exists>p. in_place s t p)
    | Some th \<Rightarrow> t_cpu th < s_ncpu s \<and> (\<exists>!p. in_place s t p) \<and> (\<exists>p. in_place s t p \<and> fits th p)"
    using sched_invD(1) [OF s, of t] by (auto simp: placed_def split: option.splits)
  show "inj_on (\<lambda>c. c_curthread (s_cpu s c)) {..<s_ncpu s}"
    using current_inj [OF s] by (auto simp: inj_on_def)
qed

theorem thread_in_one_place_witness:
  "\<exists>s. sched_step\<^sup>*\<^sup>* two_cpus s \<and> busy s 0 2 [3, 4, 0] \<and> (\<exists>!p. in_place s 3 p) \<and>
    inj_on (\<lambda>c. c_curthread (s_cpu s c)) {..<s_ncpu s}"
proof -
  obtain s where s: "sched_run [Fork 0 2, Fork 0 3, Exit 1, Fork 0 4, Yield 0] two_cpus = Done s"
    "busy s 0 2 [3, 4, 0]"
    using two_cpus_forks by blast
  have r: "sched_step\<^sup>*\<^sup>* two_cpus s" using s(1) by (rule sched_run_steps)
  note one = thread_in_one_place [OF r [unfolded two_cpus_def], of 3]
  have "in_place s 3 (Queued 0)" using s(2) by (simp add: busy_def at_ease_def alive_def)
  then have "\<exists>!p. in_place s 3 p"
    using one by (cases "s_thread s 3") (auto simp del: in_place.simps)
  then show ?thesis using r s(2) one by blast
qed

section \<open>Idle processors\<close>

lemma exorcise_loop_frame:
  "exorcise_loop cur zs s = Done s' \<Longrightarrow> c_zombies (s_cpu s cur) = zs \<Longrightarrow>
     s_ncpu s' = s_ncpu s \<and> s_cpu s' = (s_cpu s)(cur := (s_cpu s cur)\<lparr>c_zombies := []\<rparr>)"
proof (induction zs arbitrary: s)
  case (Cons z zs)
  obtain s1 where s1: "destroy_zombie cur z (upd_cpu cur (\<lambda>x. x\<lparr>c_zombies := zs\<rparr>) s) = Done s1"
    "exorcise_loop cur zs s1 = Done s'"
    using Cons.prems(1) by (auto simp: Let_def split: if_splits option.splits)
  have "s_ncpu s1 = s_ncpu s" "s_cpu s1 = (s_cpu s)(cur := (s_cpu s cur)\<lparr>c_zombies := zs\<rparr>)"
    using s1(1) by (auto simp: destroy_zombie_def upd_cpu_def split: option.splits if_splits)
  then show ?case using Cons.IH [OF s1(2)] by (auto simp: fun_eq_iff)
qed auto

lemma pick_next_head:
  assumes "pick_next c s = Done s'" "c_runqueue (s_cpu s c) = t # q"
  shows "s_ncpu s' = s_ncpu s" "s_cpu s' c = (s_cpu s c)\<lparr>c_runqueue := q, c_isidle := False,
    c_curthread := t, c_zombies := []\<rparr>"
proof -
  let ?s1 = "upd_cpu c (\<lambda>x. x\<lparr>c_runqueue := q, c_isidle := False, c_curthread := t\<rparr>) s"
  obtain s2 where s2: "upd_thread t (\<lambda>th. th\<lparr>t_wchan_name := None, t_state := S_RUN\<rparr>) ?s1 = Done s2"
    "exorcise c s2 = Done s'"
    using assms by (auto simp: pick_next_def switched_in_def)
  have "s_cpu s2 = s_cpu ?s1" "s_ncpu s2 = s_ncpu s"
    using s2(1) by (auto simp: upd_thread_def split: option.splits)
  then show "s_ncpu s' = s_ncpu s" "s_cpu s' c = (s_cpu s c)\<lparr>c_runqueue := q, c_isidle := False,
    c_curthread := t, c_zombies := []\<rparr>"
    using exorcise_loop_frame [OF s2(2) [unfolded exorcise_def] refl] by simp_all
qed

lemma no_low_bits:
  assumes "(w :: u32) AND 3 = 0"
  shows "w AND 1 = 0" "w AND 2 = 0"
proof -
  have "w AND 1 = (w AND 3) AND 1" "w AND 2 = (w AND 3) AND 2"
    by (simp_all add: and.assoc)
  then show "w AND 1 = 0" "w AND 2 = 0" using assms by simp_all
qed

text \<open>
  C16. No wake-up is lost on an idle processor.  Whenever, in some run, a processor sits in
  \<^verbatim>\<open>cpu_idle\<close> although its run queue is not empty, the interrupt that ends its wait is pending.
  Once it takes that interrupt, and unless the system is going down, it leaves the idle loop
  and runs the thread at the head of its queue.
\<close>

theorem idle_processor_wakes:
  assumes run: "sched_step\<^sup>*\<^sup>* (sched_boot names junk n) s"
    and c: "alive s c" "c_waiting (s_cpu s c)" "c_runqueue (s_cpu s c) = t # q"
    and up: "c_ipi_pending (s_cpu s c) AND 3 = 0"
  shows "bit (c_ipi_pending (s_cpu s c)) IPI_UNIDLE \<and>
    (\<exists>s1 s2. sched_do (Ipi c) s = Done s1 \<and> can_do (Unidle c) s1 \<and> sched_do (Unidle c) s1 = Done s2 \<and>
       c_curthread (s_cpu s2 c) = t \<and> \<not> c_isidle (s_cpu s2 c) \<and> c_runqueue (s_cpu s2 c) = q)"
proof -
  note s = sched_reach_inv [OF run]
  have ok: "cpu_ok (s_cpu s c)" using sched_invD(4) [OF s] c(1) by (simp add: alive_def)
  then have x: "c_isidle (s_cpu s c)" "c_hand (s_cpu s c) = []" "c_mig (s_cpu s c) = NotMigrating"
    "c_numshootdown (s_cpu s c) = 0" "bit (c_ipi_pending (s_cpu s c)) IPI_UNIDLE"
    using c by (auto simp: cpu_ok_def)
  define s1 where "s1 = upd_cpu c (\<lambda>x. x\<lparr>c_waiting := False, c_ipi_pending := 0\<rparr>) s"
  have ipi: "sched_do (Ipi c) s = Done s1"
    using no_low_bits [OF up] x(4)
    by (simp add: interprocessor_interrupt_def Let_def s1_def upd_cpu_def)
  have can: "can_do (Ipi c) s" "can_do (Unidle c) s1"
    using c x by (simp_all add: s1_def at_ease_def alive_def)
  have "sched_inv s1" using sched_do_inv [OF s can(1)] ipi by auto
  then obtain s2 where s2: "sched_do (Unidle c) s1 = Done s2" using sched_do_inv can(2) by blast
  have "c_curthread (s_cpu s2 c) = t \<and> \<not> c_isidle (s_cpu s2 c) \<and> c_runqueue (s_cpu s2 c) = q"
    using pick_next_head [of c s1 s2 t q] s2 c(3) by (simp add: s1_def)
  then show ?thesis using ipi can(2) s2 x(5) by blast
qed

theorem idle_processor_wakes_witness:
  "\<exists>s s1 s2. sched_step\<^sup>*\<^sup>* two_cpus s \<and> c_waiting (s_cpu s 1) \<and> sched_do (Ipi 1) s = Done s1 \<and>
    sched_do (Unidle 1) s1 = Done s2 \<and> c_curthread (s_cpu s2 1) = 1 \<and> \<not> c_isidle (s_cpu s2 1)"
proof -
  obtain s where s: "sched_run [Sleep 1 0, WakeOne 0 0, WakeNext 0] two_cpus = Done s" "alive s 1"
    "c_waiting (s_cpu s 1)" "c_runqueue (s_cpu s 1) = [1]" "c_ipi_pending (s_cpu s 1) = 4"
    using two_cpus_sleep_wake by blast
  have r: "sched_step\<^sup>*\<^sup>* two_cpus s" using s(1) by (rule sched_run_steps)
  show ?thesis
    using idle_processor_wakes [OF r [unfolded two_cpus_def] s(2-4)] s(3,5) r by auto
qed

section \<open>Taking turns\<close>

primrec yields :: "nat \<Rightarrow> nat \<Rightarrow> sched \<Rightarrow> sched outcome" where
  "yields 0 c s = Done s"
| "yields (Suc n) c s = bindo (thread_yield c s) (yields n c)"

lemma yield_rotates:
  assumes s: "sched_inv s" and b: "busy s c t (u # q)"
  shows "\<exists>s'. thread_yield c s = Done s' \<and> sched_inv s' \<and> busy s' c u (q @ [t])"
proof -
  have e: "at_ease s c" "\<not> c_isidle (s_cpu s c)" "c_curthread (s_cpu s c) = t" "c_runqueue (s_cpu s c) = u # q"
    using b by (simp_all add: busy_def)
  have c: "c < s_ncpu s" using e(1) by (simp add: at_ease_def alive_def)
  obtain th where th: "s_thread s t = Some th" "t_cpu th = c"
    using sched_invD(3) [OF s] c e(3) by (auto simp: current_own_def)
  obtain s' where s': "thread_yield c s = Done s'" "sched_inv s'"
    using thread_switch_inv [OF s c, of S_READY 0] e(1) by (auto simp: thread_yield_def at_ease_def)
  let ?s1 = "upd_cpu c (\<lambda>x. x\<lparr>c_runqueue := c_runqueue x @ [t], c_isidle := True\<rparr>)
      (s\<lparr>s_thread := (s_thread s)(t \<mapsto> th\<lparr>t_state := S_READY\<rparr>)\<rparr>)"
  have "thread_yield c s = pick_next c ?s1"
    using th e by (simp add: thread_yield_def thread_switch_def Let_def put_away_def
        thread_make_runnable_def upd_thread_def upd_cpu_def)
  then have "pick_next c ?s1 = Done s'" using s'(1) by simp
  from pick_next_head [OF this, of u "q @ [t]"]
  have "busy s' c u (q @ [t])" using e by (simp add: busy_def at_ease_def alive_def)
  then show ?thesis using s' by blast
qed

lemma yields_rotate:
  assumes "sched_inv s" "busy s c t q" "i < length q"
  shows "\<exists>s'. yields (Suc i) c s = Done s' \<and> sched_inv s' \<and> busy s' c (q ! i) (drop (Suc i) q @ t # take i q)"
  using assms
proof (induction i arbitrary: s t q)
  case 0
  then show ?case using yield_rotates [of s c t "hd q" "tl q"] by (cases q) auto
next
  case (Suc i)
  obtain u r where q: "q = u # r" using Suc.prems(3) by (cases q) auto
  obtain s1 where s1: "thread_yield c s = Done s1" "sched_inv s1" "busy s1 c u (r @ [t])"
    using yield_rotates [OF Suc.prems(1)] Suc.prems(2) q by blast
  obtain s' where s': "yields (Suc i) c s1 = Done s'" "sched_inv s'"
    "busy s' c ((r @ [t]) ! i) (drop (Suc i) (r @ [t]) @ u # take i (r @ [t]))"
    using Suc.IH [OF s1(2,3)] Suc.prems(3) q by auto
  have "busy s' c (q ! Suc i) (drop (Suc (Suc i)) q @ t # take (Suc i) q)"
    using s'(3) q Suc.prems(3) by (simp add: nth_append)
  then show ?case using s1(1) s'(1,2) by auto
qed

lemma yields_snoc: "yields (Suc n) c s = bindo (yields n c s) (thread_yield c)"
proof (induction n arbitrary: s)
  case 0
  show ?case by (cases "thread_yield c s") simp_all
next
  case (Suc n)
  have "yields (Suc (Suc n)) c s = bindo (thread_yield c s) (\<lambda>s. yields (Suc n) c s)"
    by (simp only: yields.simps(2) [of "Suc n"])
  also have "\<dots> = bindo (thread_yield c s) (\<lambda>s. bindo (yields n c s) (thread_yield c))"
    by (simp only: Suc)
  finally show ?case by (simp add: bindo_assoc)
qed

lemma yields_full_turn:
  assumes s: "sched_inv s" and b: "busy s c t q"
  shows "\<exists>s'. yields (Suc (length q)) c s = Done s' \<and> busy s' c t q"
proof (cases q rule: rev_cases)
  case Nil
  then have "thread_yield c s = Done s"
    using b by (simp add: busy_def thread_yield_def thread_switch_def Let_def)
  then show ?thesis using b Nil by simp
next
  case (snoc r u)
  then obtain s1 where s1: "yields (length q) c s = Done s1" "sched_inv s1" "busy s1 c u (t # r)"
    using yields_rotate [OF s b, of "length r"] by auto
  obtain s2 where "thread_yield c s1 = Done s2" "busy s2 c t (r @ [u])"
    using yield_rotates [OF s1(2,3)] by blast
  then show ?thesis
    using snoc by (intro exI [of _ s2]) (simp only: yields_snoc s1(1) [unfolded snoc] bindo.simps simp_thms)
qed

text \<open>
  C18. The threads of a processor take turns.  In a state of some run in which a processor runs
  thread \<open>t\<close> with the run queue \<open>q\<close>, the \<open>i\<close>-th thread of the queue runs after \<open>i + 1\<close> calls of
  \<^verbatim>\<open>thread_yield\<close>, by when \<open>t\<close> and those before it wait behind the others in their old order;
  so nobody is overtaken or forgotten, and after as many yields as there are threads the same
  thread runs again with the same queue.
\<close>

theorem yield_round_robin:
  assumes "sched_step\<^sup>*\<^sup>* (sched_boot names junk n) s" "busy s c t q"
  shows "(\<forall>i. i < length q \<longrightarrow> (\<exists>s'. yields (Suc i) c s = Done s' \<and>
      busy s' c (q ! i) (drop (Suc i) q @ t # take i q))) \<and>
    (\<exists>s'. yields (Suc (length q)) c s = Done s' \<and> busy s' c t q)"
  using yields_rotate [OF sched_reach_inv [OF assms(1)] assms(2)]
    yields_full_turn [OF sched_reach_inv [OF assms(1)] assms(2)] by blast

theorem yield_round_robin_witness:
  "\<exists>s s' s''. sched_step\<^sup>*\<^sup>* two_cpus s \<and> busy s 0 2 [3, 4, 0] \<and> yields 2 0 s = Done s' \<and>
    busy s' 0 4 [0, 2, 3] \<and> yields 4 0 s = Done s'' \<and> busy s'' 0 2 [3, 4, 0]"
proof -
  obtain s where s: "sched_run [Fork 0 2, Fork 0 3, Exit 1, Fork 0 4, Yield 0] two_cpus = Done s"
    "busy s 0 2 [3, 4, 0]"
    using two_cpus_forks by blast
  have r: "sched_step\<^sup>*\<^sup>* two_cpus s" using s(1) by (rule sched_run_steps)
  note turn = yield_round_robin [OF r [unfolded two_cpus_def] s(2)]
  obtain s' where "yields 2 0 s = Done s'" "busy s' 0 4 [0, 2, 3]"
    using spec [OF conjunct1 [OF turn], of 1] by (auto simp: numeral_2_eq_2)
  moreover obtain s'' where "yields 4 0 s = Done s''" "busy s'' 0 2 [3, 4, 0]"
    using conjunct2 [OF turn] by (auto simp: numeral_eq_Suc)
  ultimately show ?thesis using r s(2) by blast
qed

end
