(* ===== verification/Synch.thy ===== *)
theory Synch
  imports OS_Prelude
begin

text \<open>
  Synchronization primitives: spinlocks (\<^verbatim>\<open>kern/thread/spinlock.c\<close>), wait channels
  (\<^verbatim>\<open>kern/thread/thread.c\<close>), semaphores, sleep locks and condition variables
  (\<^verbatim>\<open>kern/thread/synch.c\<close>). A routine that runs under a spinlock is one atomic section; the
  interleavings of several threads are the step relations \<open>sem_step\<close> and \<open>mon_step\<close>
  over these sections. Threads are named by natural numbers.
\<close>

type_synonym thread_id = nat

section \<open>Spinlocks\<close>

record cpu =
  c_self :: nat
  c_spinlocks :: nat

record spinlock =
  splk_lock :: bool
  splk_holder :: "nat option"

definition spinlock_init :: spinlock where
  "spinlock_init = \<lparr>splk_lock = False, splk_holder = None\<rparr>"

definition spinlock_cleanup :: "spinlock \<Rightarrow> unit outcome" where
  "spinlock_cleanup sl =
     (if splk_holder sl \<noteq> None then Panic
      else if splk_lock sl then Panic
      else Done ())"

definition spinlock_acquire :: "cpu \<Rightarrow> spinlock \<Rightarrow> (cpu \<times> spinlock) outcome" where
  "spinlock_acquire mycpu sl =
     (if splk_holder sl = Some (c_self mycpu) then Panic
      else if splk_lock sl then Block
      else Done (mycpu\<lparr>c_spinlocks := Suc (c_spinlocks mycpu)\<rparr>,
                 sl\<lparr>splk_lock := True, splk_holder := Some (c_self mycpu)\<rparr>))"

definition spinlock_release :: "cpu \<Rightarrow> spinlock \<Rightarrow> (cpu \<times> spinlock) outcome" where
  "spinlock_release mycpu sl =
     (if splk_holder sl \<noteq> Some (c_self mycpu) then Panic
      else if c_spinlocks mycpu = 0 then Panic
      else Done (mycpu\<lparr>c_spinlocks := c_spinlocks mycpu - 1\<rparr>,
                 sl\<lparr>splk_holder := None, splk_lock := False\<rparr>))"

definition spinlock_do_i_hold :: "cpu \<Rightarrow> spinlock \<Rightarrow> bool" where
  "spinlock_do_i_hold mycpu sl = (splk_holder sl = Some (c_self mycpu))"

section \<open>Wait channels\<close>

record wchan =
  wc_name :: string
  wc_threads :: "thread_id list"

definition wchan_create :: "string \<Rightarrow> memsupply \<Rightarrow> wchan option \<times> memsupply" where
  "wchan_create name al =
     (let (ok, al1) = kmalloc al in
      if \<not> ok then (None, al1)
      else (Some \<lparr>wc_name = name, wc_threads = []\<rparr>, al1))"

definition wchan_destroy :: "wchan \<Rightarrow> unit outcome" where
  "wchan_destroy wc = (if wc_threads wc \<noteq> [] then Panic else Done ())"

text \<open>The queueing half of \<^verbatim>\<open>wchan_sleep\<close>: the thread joins the tail of the channel.\<close>

definition wchan_sleep :: "thread_id \<Rightarrow> wchan \<Rightarrow> wchan" where
  "wchan_sleep t wc = wc\<lparr>wc_threads := wc_threads wc @ [t]\<rparr>"

definition wchan_wakeone :: "wchan \<Rightarrow> thread_id option \<times> wchan" where
  "wchan_wakeone wc =
     (case wc_threads wc of
        [] \<Rightarrow> (None, wc)
      | target # rest \<Rightarrow> (Some target, wc\<lparr>wc_threads := rest\<rparr>))"

definition wchan_wakeall :: "wchan \<Rightarrow> thread_id list \<times> wchan" where
  "wchan_wakeall wc = (wc_threads wc, wc\<lparr>wc_threads := []\<rparr>)"

definition wchan_isempty :: "wchan \<Rightarrow> bool" where
  "wchan_isempty wc = (wc_threads wc = [])"

section \<open>Semaphores\<close>

record semaphore =
  sem_name :: string
  sem_wchan :: wchan
  sem_lock :: spinlock
  sem_count :: u32

definition sem_create :: "string \<Rightarrow> u32 \<Rightarrow> memsupply \<Rightarrow> semaphore option \<times> memsupply" where
  "sem_create name initial_count al =
     (let (ok1, al1) = kmalloc al in
      if \<not> ok1 then (None, al1) else
      let (ok2, al2) = kmalloc al1 in
      if \<not> ok2 then (None, al2) else
      case wchan_create name al2 of
        (None, al3) \<Rightarrow> (None, al3)
      | (Some wc, al3) \<Rightarrow>
          (Some \<lparr>sem_name = name, sem_wchan = wc, sem_lock = spinlock_init,
                 sem_count = initial_count\<rparr>, al3))"

definition sem_destroy :: "semaphore \<Rightarrow> unit outcome" where
  "sem_destroy sem = bindo (spinlock_cleanup (sem_lock sem)) (\<lambda>_. wchan_destroy (sem_wchan sem))"

text \<open>
  One pass of the loop of \<^verbatim>\<open>P\<close> under \<^verbatim>\<open>sem_lock\<close>: \<open>True\<close> when the thread leaves the loop
  with a unit of the semaphore, \<open>False\<close> when it went to sleep on the channel.
\<close>

definition P_section :: "thread_id \<Rightarrow> semaphore \<Rightarrow> bool \<times> semaphore" where
  "P_section t sem =
     (if sem_count sem = 0
      then (False, sem\<lparr>sem_wchan := wchan_sleep t (sem_wchan sem)\<rparr>)
      else (True, sem\<lparr>sem_count := sem_count sem - 1\<rparr>))"

text \<open>\<^verbatim>\<open>V\<close>: the woken thread, if any, and the semaphore. A wrapped count fails the assertion.\<close>

definition V_section :: "semaphore \<Rightarrow> (thread_id option \<times> semaphore) outcome" where
  "V_section sem =
     (if sem_count sem + 1 = 0 then Panic
      else let (w, wc) = wchan_wakeone (sem_wchan sem)
           in Done (w, sem\<lparr>sem_count := sem_count sem + 1, sem_wchan := wc\<rparr>))"

section \<open>Locks\<close>

record lock =
  lk_name :: string
  lk_wchan :: wchan
  lk_owner :: "thread_id option"
  lk_lock :: spinlock

definition lock_create :: "string \<Rightarrow> memsupply \<Rightarrow> lock option \<times> memsupply" where
  "lock_create name al =
     (let (ok1, al1) = kmalloc al in
      if \<not> ok1 then (None, al1) else
      let (ok2, al2) = kmalloc al1 in
      if \<not> ok2 then (None, al2) else
      case wchan_create name al2 of
        (None, al3) \<Rightarrow> (None, al3)
      | (Some wc, al3) \<Rightarrow>
          (Some \<lparr>lk_name = name, lk_wchan = wc, lk_owner = None,
                 lk_lock = spinlock_init\<rparr>, al3))"

definition lock_destroy :: "lock \<Rightarrow> unit outcome" where
  "lock_destroy l = bindo (spinlock_cleanup (lk_lock l)) (\<lambda>_. wchan_destroy (lk_wchan l))"

definition lock_do_i_hold :: "thread_id \<Rightarrow> lock \<Rightarrow> bool" where
  "lock_do_i_hold t l = (lk_owner l = Some t)"

text \<open>One pass of the loop of \<^verbatim>\<open>lock_acquire\<close> under \<^verbatim>\<open>lk_lock\<close>.\<close>

definition lock_acquire_section :: "thread_id \<Rightarrow> lock \<Rightarrow> bool \<times> lock" where
  "lock_acquire_section t l =
     (if lk_owner l \<noteq> None
      then (False, l\<lparr>lk_wchan := wchan_sleep t (lk_wchan l)\<rparr>)
      else (True, l\<lparr>lk_owner := Some t\<rparr>))"

text \<open>
  \<^verbatim>\<open>lock_acquire\<close> as a call inside a system call: it returns with the lock, fails its
  assertion when the caller holds the lock already, or waits for the owner.
\<close>

definition lock_acquire :: "thread_id \<Rightarrow> lock \<Rightarrow> lock outcome" where
  "lock_acquire t l =
     (if lock_do_i_hold t l then Panic
      else case lock_acquire_section t l of
             (True, l') \<Rightarrow> Done l'
           | (False, _) \<Rightarrow> Block)"

text \<open>\<^verbatim>\<open>lock_release\<close>: the thread taken off the channel, if any, and the free lock.\<close>

definition lock_release :: "thread_id \<Rightarrow> lock \<Rightarrow> (thread_id option \<times> lock) outcome" where
  "lock_release t l =
     (if \<not> lock_do_i_hold t l then Panic
      else let (w, wc) = wchan_wakeone (lk_wchan l)
           in Done (w, l\<lparr>lk_owner := None, lk_wchan := wc\<rparr>))"

section \<open>Condition variables\<close>

record cv =
  cv_name :: string
  cv_wchan :: wchan
  cv_lock :: spinlock

definition cv_create :: "string \<Rightarrow> memsupply \<Rightarrow> cv option \<times> memsupply" where
  "cv_create name al =
     (let (ok1, al1) = kmalloc al in
      if \<not> ok1 then (None, al1) else
      let (ok2, al2) = kmalloc al1 in
      if \<not> ok2 then (None, al2) else
      case wchan_create name al2 of
        (None, al3) \<Rightarrow> (None, al3)
      | (Some wc, al3) \<Rightarrow>
          (Some \<lparr>cv_name = name, cv_wchan = wc, cv_lock = spinlock_init\<rparr>, al3))"

definition cv_destroy :: "cv \<Rightarrow> unit outcome" where
  "cv_destroy c = bindo (spinlock_cleanup (cv_lock c)) (\<lambda>_. wchan_destroy (cv_wchan c))"

text \<open>
  The part of \<^verbatim>\<open>cv_wait\<close> before the thread sleeps: under \<^verbatim>\<open>cv_lock\<close> it gives the lock up,
  which may wake a thread that waits for the lock, and joins the channel of the condition
  variable. Once woken it calls \<^verbatim>\<open>lock_acquire\<close> again.
\<close>

definition cv_wait_section ::
  "thread_id \<Rightarrow> cv \<Rightarrow> lock \<Rightarrow> (thread_id option \<times> cv \<times> lock) outcome" where
  "cv_wait_section t c l =
     (if \<not> lock_do_i_hold t l then Panic
      else bindo (lock_release t l)
             (\<lambda>(w, l'). Done (w, c\<lparr>cv_wchan := wchan_sleep t (cv_wchan c)\<rparr>, l')))"

definition cv_signal :: "thread_id \<Rightarrow> cv \<Rightarrow> lock \<Rightarrow> (thread_id option \<times> cv) outcome" where
  "cv_signal t c l =
     (if \<not> lock_do_i_hold t l then Panic
      else let (w, wc) = wchan_wakeone (cv_wchan c) in Done (w, c\<lparr>cv_wchan := wc\<rparr>))"

definition cv_broadcast :: "thread_id \<Rightarrow> cv \<Rightarrow> lock \<Rightarrow> (thread_id list \<times> cv) outcome" where
  "cv_broadcast t c l =
     (if \<not> lock_do_i_hold t l then Panic
      else let (ws, wc) = wchan_wakeall (cv_wchan c) in Done (ws, c\<lparr>cv_wchan := wc\<rparr>))"

section \<open>Threads using one semaphore\<close>

datatype sem_pc = SIdle | SWant | SSleep

record sem_sys =
  ss_sem :: semaphore
  ss_pc :: "thread_id \<Rightarrow> sem_pc"
  ss_p :: nat
  ss_v :: nat

fun sem_wake :: "thread_id option \<Rightarrow> (thread_id \<Rightarrow> sem_pc) \<Rightarrow> thread_id \<Rightarrow> sem_pc" where
  "sem_wake None pc = pc"
| "sem_wake (Some u) pc = pc(u := SWant)"

inductive sem_step :: "sem_sys \<Rightarrow> sem_sys \<Rightarrow> bool" where
  call_P: "ss_pc s t = SIdle \<Longrightarrow> sem_step s (s\<lparr>ss_pc := (ss_pc s)(t := SWant)\<rparr>)"
| pass_P: "ss_pc s t = SWant \<Longrightarrow> P_section t (ss_sem s) = (True, sem') \<Longrightarrow>
    sem_step s (s\<lparr>ss_sem := sem', ss_pc := (ss_pc s)(t := SIdle), ss_p := Suc (ss_p s)\<rparr>)"
| sleep_P: "ss_pc s t = SWant \<Longrightarrow> P_section t (ss_sem s) = (False, sem') \<Longrightarrow>
    sem_step s (s\<lparr>ss_sem := sem', ss_pc := (ss_pc s)(t := SSleep)\<rparr>)"
| call_V: "V_section (ss_sem s) = Done (w, sem') \<Longrightarrow>
    sem_step s (s\<lparr>ss_sem := sem', ss_pc := sem_wake w (ss_pc s), ss_v := Suc (ss_v s)\<rparr>)"

definition sem_start :: "semaphore \<Rightarrow> sem_sys" where
  "sem_start sem = \<lparr>ss_sem = sem, ss_pc = (\<lambda>_. SIdle), ss_p = 0, ss_v = 0\<rparr>"

definition sem_inv :: "u32 \<Rightarrow> sem_sys \<Rightarrow> bool" where
  "sem_inv c0 s \<longleftrightarrow>
     unat (sem_count (ss_sem s)) + ss_p s = unat c0 + ss_v s \<and>
     distinct (wc_threads (sem_wchan (ss_sem s))) \<and>
     (\<forall>t. t \<in> set (wc_threads (sem_wchan (ss_sem s))) \<longleftrightarrow> ss_pc s t = SSleep) \<and>
     finite {t. ss_pc s t = SWant} \<and>
     (wc_threads (sem_wchan (ss_sem s)) \<noteq> [] \<longrightarrow>
        unat (sem_count (ss_sem s)) \<le> card {t. ss_pc s t = SWant})"

section \<open>Threads using one lock and one condition variable\<close>

datatype mon_pc = MIdle | MWant | MSleep | MHold | MCvSleep

record mon_sys =
  ms_lock :: lock
  ms_cv :: cv
  ms_pc :: "thread_id \<Rightarrow> mon_pc"

definition mon_wake :: "thread_id list \<Rightarrow> (thread_id \<Rightarrow> mon_pc) \<Rightarrow> thread_id \<Rightarrow> mon_pc" where
  "mon_wake ws pc = (\<lambda>u. if u \<in> set ws then MWant else pc u)"

inductive mon_step :: "mon_sys \<Rightarrow> mon_sys \<Rightarrow> bool" where
  call_acquire: "ms_pc s t = MIdle \<Longrightarrow> mon_step s (s\<lparr>ms_pc := (ms_pc s)(t := MWant)\<rparr>)"
| pass_acquire: "ms_pc s t = MWant \<Longrightarrow> lock_acquire_section t (ms_lock s) = (True, l') \<Longrightarrow>
    mon_step s (s\<lparr>ms_lock := l', ms_pc := (ms_pc s)(t := MHold)\<rparr>)"
| sleep_acquire: "ms_pc s t = MWant \<Longrightarrow> lock_acquire_section t (ms_lock s) = (False, l') \<Longrightarrow>
    mon_step s (s\<lparr>ms_lock := l', ms_pc := (ms_pc s)(t := MSleep)\<rparr>)"
| release: "ms_pc s t = MHold \<Longrightarrow> lock_release t (ms_lock s) = Done (w, l') \<Longrightarrow>
    mon_step s (s\<lparr>ms_lock := l',
                  ms_pc := mon_wake (case w of None \<Rightarrow> [] | Some u \<Rightarrow> [u])
                             ((ms_pc s)(t := MIdle))\<rparr>)"
| wait: "ms_pc s t = MHold \<Longrightarrow> cv_wait_section t (ms_cv s) (ms_lock s) = Done (w, c', l') \<Longrightarrow>
    mon_step s (s\<lparr>ms_lock := l', ms_cv := c',
                  ms_pc := mon_wake (case w of None \<Rightarrow> [] | Some u \<Rightarrow> [u])
                             ((ms_pc s)(t := MCvSleep))\<rparr>)"
| signal: "ms_pc s t = MHold \<Longrightarrow> cv_signal t (ms_cv s) (ms_lock s) = Done (w, c') \<Longrightarrow>
    mon_step s (s\<lparr>ms_cv := c',
                  ms_pc := mon_wake (case w of None \<Rightarrow> [] | Some u \<Rightarrow> [u]) (ms_pc s)\<rparr>)"
| broadcast: "ms_pc s t = MHold \<Longrightarrow> cv_broadcast t (ms_cv s) (ms_lock s) = Done (ws, c') \<Longrightarrow>
    mon_step s (s\<lparr>ms_cv := c', ms_pc := mon_wake ws (ms_pc s)\<rparr>)"

definition mon_start :: "lock \<Rightarrow> cv \<Rightarrow> mon_sys" where
  "mon_start l c = \<lparr>ms_lock = l, ms_cv = c, ms_pc = (\<lambda>_. MIdle)\<rparr>"

definition mon_inv :: "mon_sys \<Rightarrow> bool" where
  "mon_inv s \<longleftrightarrow>
     (\<forall>t. lk_owner (ms_lock s) = Some t \<longleftrightarrow> ms_pc s t = MHold) \<and>
     distinct (wc_threads (lk_wchan (ms_lock s))) \<and>
     (\<forall>t. t \<in> set (wc_threads (lk_wchan (ms_lock s))) \<longleftrightarrow> ms_pc s t = MSleep) \<and>
     distinct (wc_threads (cv_wchan (ms_cv s))) \<and>
     (\<forall>t. t \<in> set (wc_threads (cv_wchan (ms_cv s))) \<longleftrightarrow> ms_pc s t = MCvSleep) \<and>
     (lk_owner (ms_lock s) = None \<and> wc_threads (lk_wchan (ms_lock s)) \<noteq> [] \<longrightarrow>
        (\<exists>t. ms_pc s t = MWant))"

section \<open>Scheduled runs\<close>

text \<open>
  A schedule picks who moves next; running one gives a reachable state of the step relations.
  \<open>Inl t\<close> lets thread \<open>t\<close> advance, \<open>Inr ()\<close> is a call of \<^verbatim>\<open>V\<close>.
\<close>

fun sem_do :: "thread_id + unit \<Rightarrow> sem_sys \<Rightarrow> sem_sys" where
  "sem_do (Inl t) s =
     (case ss_pc s t of
        SIdle \<Rightarrow> s\<lparr>ss_pc := (ss_pc s)(t := SWant)\<rparr>
      | SSleep \<Rightarrow> s
      | SWant \<Rightarrow>
          (case P_section t (ss_sem s) of
             (True, sem') \<Rightarrow> s\<lparr>ss_sem := sem', ss_pc := (ss_pc s)(t := SIdle), ss_p := Suc (ss_p s)\<rparr>
           | (False, sem') \<Rightarrow> s\<lparr>ss_sem := sem', ss_pc := (ss_pc s)(t := SSleep)\<rparr>))"
| "sem_do (Inr ()) s =
     (case V_section (ss_sem s) of
        Done (w, sem') \<Rightarrow>
          s\<lparr>ss_sem := sem', ss_pc := sem_wake w (ss_pc s), ss_v := Suc (ss_v s)\<rparr>
      | _ \<Rightarrow> s)"

datatype mon_ev = Advance thread_id | Wait thread_id | Signal thread_id

fun mon_do :: "mon_ev \<Rightarrow> mon_sys \<Rightarrow> mon_sys" where
  "mon_do (Advance t) s =
     (case ms_pc s t of
        MIdle \<Rightarrow> s\<lparr>ms_pc := (ms_pc s)(t := MWant)\<rparr>
      | MWant \<Rightarrow>
          (case lock_acquire_section t (ms_lock s) of
             (True, l') \<Rightarrow> s\<lparr>ms_lock := l', ms_pc := (ms_pc s)(t := MHold)\<rparr>
           | (False, l') \<Rightarrow> s\<lparr>ms_lock := l', ms_pc := (ms_pc s)(t := MSleep)\<rparr>)
      | MHold \<Rightarrow>
          (case lock_release t (ms_lock s) of
             Done (w, l') \<Rightarrow>
               s\<lparr>ms_lock := l',
                 ms_pc := mon_wake (case w of None \<Rightarrow> [] | Some u \<Rightarrow> [u]) ((ms_pc s)(t := MIdle))\<rparr>
           | _ \<Rightarrow> s)
      | _ \<Rightarrow> s)"
| "mon_do (Wait t) s =
     (if ms_pc s t = MHold then
        (case cv_wait_section t (ms_cv s) (ms_lock s) of
           Done (w, c', l') \<Rightarrow>
             s\<lparr>ms_lock := l', ms_cv := c',
               ms_pc := mon_wake (case w of None \<Rightarrow> [] | Some u \<Rightarrow> [u]) ((ms_pc s)(t := MCvSleep))\<rparr>
         | _ \<Rightarrow> s)
      else s)"
| "mon_do (Signal t) s =
     (if ms_pc s t = MHold then
        (case cv_signal t (ms_cv s) (ms_lock s) of
           Done (w, c') \<Rightarrow>
             s\<lparr>ms_cv := c', ms_pc := mon_wake (case w of None \<Rightarrow> [] | Some u \<Rightarrow> [u]) (ms_pc s)\<rparr>
         | _ \<Rightarrow> s)
      else s)"

inductive_cases sem_stepE: "sem_step s s'"
inductive_cases mon_stepE: "mon_step s s'"

section \<open>Lemmas on the sections\<close>

lemmas wchan_defs = wchan_sleep_def wchan_wakeone_def wchan_wakeall_def

lemma P_section_True [simp]:
  "P_section t sem = (True, sem') \<longleftrightarrow>
     sem_count sem \<noteq> 0 \<and> sem' = sem\<lparr>sem_count := sem_count sem - 1\<rparr>"
  by (auto simp: P_section_def)

lemma P_section_False [simp]:
  "P_section t sem = (False, sem') \<longleftrightarrow>
     sem_count sem = 0 \<and> sem' = sem\<lparr>sem_wchan := wchan_sleep t (sem_wchan sem)\<rparr>"
  by (auto simp: P_section_def)

lemma V_section_DoneE:
  assumes "V_section sem = Done (w, sem')"
  obtains "unat (sem_count sem') = Suc (unat (sem_count sem))"
    and "w = None" and "wc_threads (sem_wchan sem) = []"
    and "wc_threads (sem_wchan sem') = []"
  | u rest where "unat (sem_count sem') = Suc (unat (sem_count sem))"
    and "w = Some u" and "wc_threads (sem_wchan sem) = u # rest"
    and "wc_threads (sem_wchan sem') = rest"
proof -
  have nz: "sem_count sem + 1 \<noteq> 0"
    and eq: "(w, sem') = (let (w, wc) = wchan_wakeone (sem_wchan sem)
           in (w, sem\<lparr>sem_count := sem_count sem + 1, sem_wchan := wc\<rparr>))"
    using assms by (auto simp: V_section_def split: if_splits prod.splits)
  note inc = unat_inc [OF nz]
  show thesis
    using that eq inc
    by (cases "wc_threads (sem_wchan sem)") (auto simp: wchan_defs)
qed

lemma lock_acquire_section_True [simp]:
  "lock_acquire_section t l = (True, l') \<longleftrightarrow>
     lk_owner l = None \<and> l' = l\<lparr>lk_owner := Some t\<rparr>"
  by (auto simp: lock_acquire_section_def)

lemma lock_acquire_section_False [simp]:
  "lock_acquire_section t l = (False, l') \<longleftrightarrow>
     lk_owner l \<noteq> None \<and> l' = l\<lparr>lk_wchan := wchan_sleep t (lk_wchan l)\<rparr>"
  by (auto simp: lock_acquire_section_def)

lemma lock_acquire_Done [simp]:
  "lock_acquire t l = Done l' \<longleftrightarrow> lk_owner l = None \<and> l' = l\<lparr>lk_owner := Some t\<rparr>"
  by (auto simp: lock_acquire_def lock_do_i_hold_def lock_acquire_section_def)

lemma lock_release_Done [simp]:
  "lock_release t l = Done (w, l') \<longleftrightarrow>
     lk_owner l = Some t \<and> w = fst (wchan_wakeone (lk_wchan l)) \<and>
     l' = l\<lparr>lk_owner := None, lk_wchan := snd (wchan_wakeone (lk_wchan l))\<rparr>"
  by (auto simp: lock_release_def lock_do_i_hold_def split: prod.splits)

lemma cv_wait_section_Done [simp]:
  "cv_wait_section t c l = Done (w, c', l') \<longleftrightarrow>
     lock_release t l = Done (w, l') \<and> c' = c\<lparr>cv_wchan := wchan_sleep t (cv_wchan c)\<rparr>"
  by (auto simp: cv_wait_section_def lock_do_i_hold_def simp del: lock_release_Done)
     (auto simp: lock_release_def lock_do_i_hold_def)

lemma cv_signal_Done [simp]:
  "cv_signal t c l = Done (w, c') \<longleftrightarrow>
     lk_owner l = Some t \<and> w = fst (wchan_wakeone (cv_wchan c)) \<and>
     c' = c\<lparr>cv_wchan := snd (wchan_wakeone (cv_wchan c))\<rparr>"
  by (auto simp: cv_signal_def lock_do_i_hold_def split: prod.splits)

lemma cv_broadcast_Done [simp]:
  "cv_broadcast t c l = Done (ws, c') \<longleftrightarrow>
     lk_owner l = Some t \<and> ws = wc_threads (cv_wchan c) \<and>
     c' = c\<lparr>cv_wchan := cv_wchan c\<lparr>wc_threads := []\<rparr>\<rparr>"
  by (auto simp: cv_broadcast_def lock_do_i_hold_def wchan_wakeall_def)

section \<open>The invariants are kept by every step\<close>

lemma card_want_add: "finite {t. pc t = SWant} \<Longrightarrow> pc u \<noteq> SWant \<Longrightarrow>
    {t. (pc(u := SWant)) t = SWant} = insert u {t. pc t = SWant} \<and>
    card {t. (pc(u := SWant)) t = SWant} = Suc (card {t. pc t = SWant})"
  by (subgoal_tac "{t. (pc(u := SWant)) t = SWant} = insert u {t. pc t = SWant}") auto

lemma card_want_remove: "finite {t. pc t = SWant} \<Longrightarrow> pc u = SWant \<Longrightarrow> v \<noteq> SWant \<Longrightarrow>
    {t. (pc(u := v)) t = SWant} = {t. pc t = SWant} - {u} \<and>
    card {t. (pc(u := v)) t = SWant} = card {t. pc t = SWant} - 1"
  by (subgoal_tac "{t. (pc(u := v)) t = SWant} = {t. pc t = SWant} - {u}") auto

lemma sem_inv_step [kinv]:
  assumes "sem_inv c0 s" "sem_step s s'"
  shows "sem_inv c0 s'"
  using assms(2)
proof cases
  case (call_P t)
  then show ?thesis
    using assms(1) card_want_add [of "ss_pc s" t] by (auto simp: sem_inv_def)
next
  case (pass_P t sem')
  then have nz: "sem_count (ss_sem s) \<noteq> 0" by simp
  note dec = unat_dec [OF nz]
  have fin: "finite {t. ss_pc s t = SWant}" and w: "ss_pc s t = SWant"
    using assms(1) pass_P by (auto simp: sem_inv_def)
  have pos: "0 < card {t. ss_pc s t = SWant}"
    using fin w by (auto simp: card_gt_0_iff)
  show ?thesis
    using assms(1) pass_P nz dec pos card_want_remove [OF fin w, of SIdle]
    by (auto simp: sem_inv_def)
next
  case (sleep_P t sem')
  have fin: "finite {t. ss_pc s t = SWant}" and w: "ss_pc s t = SWant"
    using assms(1) sleep_P by (auto simp: sem_inv_def)
  show ?thesis
    using assms(1) sleep_P card_want_remove [OF fin w, of SSleep]
    by (auto simp: sem_inv_def wchan_defs)
next
  case (call_V w sem')
  from call_V(2) show ?thesis
  proof (cases rule: V_section_DoneE)
    case 1
    then show ?thesis using assms(1) call_V by (auto simp: sem_inv_def)
  next
    case (2 u rest)
    have fin: "finite {t. ss_pc s t = SWant}" and u: "ss_pc s u = SSleep"
      using assms(1) 2 by (auto simp: sem_inv_def)
    then have w: "ss_pc s u \<noteq> SWant" by simp
    show ?thesis
      using assms(1) call_V 2 card_want_add [OF fin w] by (auto simp: sem_inv_def)
  qed
qed

lemma mon_inv_holder: "mon_inv s \<Longrightarrow> ms_pc s t = MHold \<Longrightarrow> ta \<noteq> t \<Longrightarrow> ms_pc s ta \<noteq> MHold"
  unfolding mon_inv_def by (metis option.inject)

lemma mon_inv_giveup:
  assumes inv: "mon_inv s" and own: "ms_pc s t = MHold"
    and c': "c' = (if waiting then (ms_cv s)\<lparr>cv_wchan := wchan_sleep t (cv_wchan (ms_cv s))\<rparr>
                   else ms_cv s)"
    and rel: "lock_release t (ms_lock s) = Done (w, l')"
  shows "mon_inv (s\<lparr>ms_lock := l', ms_cv := c',
                    ms_pc := mon_wake (case w of None \<Rightarrow> [] | Some u \<Rightarrow> [u])
                               ((ms_pc s)(t := if waiting then MCvSleep else MIdle))\<rparr>)"
proof (cases "wc_threads (lk_wchan (ms_lock s))")
  case Nil
  note hold = mon_inv_holder [OF inv own]
  show ?thesis using Nil inv own hold c' rel
    by (auto simp: mon_inv_def mon_wake_def wchan_defs)
next
  case (Cons u rest)
  note hold = mon_inv_holder [OF inv own]
  have u: "ms_pc s u = MSleep" using inv Cons by (auto simp: mon_inv_def)
  have "t \<notin> set (wc_threads (lk_wchan (ms_lock s)))" using inv own by (simp add: mon_inv_def)
  then have "u \<noteq> t" "t \<notin> set rest" using Cons by auto
  moreover have "lk_owner (ms_lock s) = Some t" using rel by simp
  ultimately show ?thesis using inv own hold c' rel Cons u
    by (cases waiting) (auto simp: mon_inv_def mon_wake_def wchan_defs)
qed

lemma mon_inv_wake:
  assumes inv: "mon_inv s" and own: "ms_pc s t = MHold"
    and q: "wc_threads (cv_wchan (ms_cv s)) = ws @ rest"
    and c': "wc_threads (cv_wchan c') = rest"
  shows "mon_inv (s\<lparr>ms_cv := c', ms_pc := mon_wake ws (ms_pc s)\<rparr>)"
proof -
  have "\<And>u. u \<in> set ws \<Longrightarrow> ms_pc s u = MCvSleep"
    using inv q unfolding mon_inv_def by auto
  moreover have "lk_owner (ms_lock s) = Some t" using inv own by (simp add: mon_inv_def)
  ultimately show ?thesis using inv q c'
    by (auto simp: mon_inv_def mon_wake_def)
qed

lemma mon_inv_step [kinv]:
  assumes inv: "mon_inv s" and "mon_step s s'"
  shows "mon_inv s'"
  using assms(2)
proof cases
  case (call_acquire t)
  then show ?thesis using inv by (auto simp: mon_inv_def)
next
  case (pass_acquire t l')
  then show ?thesis using inv by (auto simp: mon_inv_def)
next
  case (sleep_acquire t l')
  then show ?thesis using inv by (auto simp: mon_inv_def wchan_defs)
next
  case (release t w l')
  then show ?thesis
    using mon_inv_giveup [of s t "ms_cv s" False w l'] inv by simp
next
  case (wait t w c' l')
  then show ?thesis
    using mon_inv_giveup [of s t c' True w l'] inv by simp
next
  case (signal t w c')
  then show ?thesis
    using mon_inv_wake [OF inv, of t "case w of None \<Rightarrow> [] | Some u \<Rightarrow> [u]"
        "wc_threads (cv_wchan c')" c']
    by (cases "wc_threads (cv_wchan (ms_cv s))") (simp_all add: wchan_defs)
next
  case (broadcast t ws c')
  then show ?thesis
    using mon_inv_wake [OF inv, of t ws "[]" c'] by simp
qed

lemma sem_inv_start: "wc_threads (sem_wchan sem) = [] \<Longrightarrow> sem_inv (sem_count sem) (sem_start sem)"
  by (simp add: sem_start_def sem_inv_def)

lemma mon_inv_start:
  "lk_owner l = None \<Longrightarrow> wc_threads (lk_wchan l) = [] \<Longrightarrow> wc_threads (cv_wchan c) = [] \<Longrightarrow>
   mon_inv (mon_start l c)"
  by (simp add: mon_start_def mon_inv_def)

lemma sem_inv_reach:
  assumes "sem_step\<^sup>*\<^sup>* (sem_start sem) s" "wc_threads (sem_wchan sem) = []"
  shows "sem_inv (sem_count sem) s"
  using assms(1)
  by (induction rule: rtranclp_induct) (blast intro: sem_inv_start assms(2) sem_inv_step)+

lemma mon_inv_reach:
  assumes "mon_step\<^sup>*\<^sup>* (mon_start l c) s"
    and "lk_owner l = None" "wc_threads (lk_wchan l) = []" "wc_threads (cv_wchan c) = []"
  shows "mon_inv s"
  using assms(1)
  by (induction rule: rtranclp_induct) (blast intro: mon_inv_start assms(2-4) mon_inv_step)+

lemma wchan_create_Some [simp]:
  "wchan_create name al = (Some wc, al') \<Longrightarrow> wc_threads wc = []"
  by (auto simp: wchan_create_def split: prod.splits if_splits)

lemma sem_create_Some:
  "sem_create name n al = (Some sem, al') \<Longrightarrow> sem_count sem = n \<and> wc_threads (sem_wchan sem) = []"
  by (auto simp: sem_create_def split: prod.splits if_splits option.splits)

lemma lock_create_Some:
  "lock_create name al = (Some l, al') \<Longrightarrow> lk_owner l = None \<and> wc_threads (lk_wchan l) = []"
  by (auto simp: lock_create_def split: prod.splits if_splits option.splits)

lemma cv_create_Some: "cv_create name al = (Some c, al') \<Longrightarrow> wc_threads (cv_wchan c) = []"
  by (auto simp: cv_create_def split: prod.splits if_splits option.splits)

section \<open>The contract of a sleep lock\<close>

text \<open>
  What a system call relies on when it brackets its work with \<^verbatim>\<open>lock_acquire\<close> and
  \<^verbatim>\<open>lock_release\<close>: \<open>own\<close> reads the owner, \<open>acq\<close> and \<open>rel\<close> are the two calls.
\<close>

locale mutex =
  fixes own :: "'l \<Rightarrow> thread_id option"
    and acq :: "thread_id \<Rightarrow> 'l \<Rightarrow> 'l outcome"
    and rel :: "thread_id \<Rightarrow> 'l \<Rightarrow> 'l outcome"
  assumes acq_free: "own l = None \<Longrightarrow> \<exists>l'. acq t l = Done l' \<and> own l' = Some t"
    and acq_mine: "own l = Some t \<Longrightarrow> acq t l = Panic"
    and acq_other: "own l = Some u \<Longrightarrow> u \<noteq> t \<Longrightarrow> acq t l = Block"
    and rel_mine: "own l = Some t \<Longrightarrow> \<exists>l'. rel t l = Done l' \<and> own l' = None"
    and rel_other: "own l \<noteq> Some t \<Longrightarrow> rel t l = Panic"
begin

lemma bracket_free:
  assumes "own l = None"
  shows "\<exists>l'. bindo (acq t l) (rel t) = Done l' \<and> own l' = None"
proof -
  obtain l1 where "acq t l = Done l1" "own l1 = Some t" using acq_free assms by blast
  then show ?thesis using rel_mine by fastforce
qed

lemma acq_Done_iff: "(\<exists>l'. acq t l = Done l') \<longleftrightarrow> own l = None"
  using acq_free acq_mine acq_other by (cases "own l") (metis outcome.distinct option.distinct(1))+

lemma kept_then_stuck:
  assumes "acq t l = Done l'"
  shows "acq t l' = Panic" "u \<noteq> t \<Longrightarrow> acq u l' = Block"
  using assms acq_Done_iff acq_free acq_mine acq_other by (metis outcome.inject)+

end

definition lock_release_only :: "thread_id \<Rightarrow> lock \<Rightarrow> lock outcome" where
  "lock_release_only t l = bindo (lock_release t l) (\<lambda>(_, l'). Done l')"

lemma lock_release_only_Done [simp]:
  "lock_release_only t l = Done l' \<longleftrightarrow>
     lk_owner l = Some t \<and>
     l' = l\<lparr>lk_owner := None, lk_wchan := snd (wchan_wakeone (lk_wchan l))\<rparr>"
  by (auto simp: lock_release_only_def lock_release_def lock_do_i_hold_def split: prod.splits)

interpretation sleep_lock: mutex lk_owner lock_acquire lock_release_only
proof
  show "lk_owner l \<noteq> Some t \<Longrightarrow> lock_release_only t l = Panic" for l t
    by (simp add: lock_release_only_def lock_release_def lock_do_i_hold_def)
qed (auto simp: lock_acquire_def lock_do_i_hold_def lock_acquire_section_def)

lemma sem_do_step: "sem_step\<^sup>*\<^sup>* s (sem_do e s)"
proof (cases "(e, s)" rule: sem_do.cases)
  case (1 t s')
  then show ?thesis
    by (auto split: sem_pc.splits prod.splits bool.splits
        intro: sem_step.intros simp del: P_section_True P_section_False)
next
  case (2 s')
  then show ?thesis by (auto split: outcome.splits prod.splits intro: sem_step.intros)
qed

lemma sem_schedule_reach: "sem_step\<^sup>*\<^sup>* s (fold sem_do es s)"
  by (induction es arbitrary: s) (auto intro: rtranclp_trans sem_do_step)

lemma mon_do_step: "mon_step\<^sup>*\<^sup>* s (mon_do e s)"
proof (cases e)
  case (Advance t)
  then show ?thesis
    by (auto split: mon_pc.splits prod.splits bool.splits outcome.splits
        intro: mon_step.intros
        simp del: lock_acquire_section_True lock_acquire_section_False lock_release_Done)
next
  case (Wait t)
  then show ?thesis
    by (auto split: prod.splits outcome.splits intro: mon_step.wait
        simp del: cv_wait_section_Done)
next
  case (Signal t)
  then show ?thesis
    by (auto split: prod.splits outcome.splits intro: mon_step.signal simp del: cv_signal_Done)
qed

lemma mon_schedule_reach: "mon_step\<^sup>*\<^sup>* s (fold mon_do es s)"
  by (induction es arbitrary: s) (auto intro: rtranclp_trans mon_do_step)

section \<open>Properties\<close>



text \<open>
  C35. Locks give mutual exclusion and no thread waits for a free lock without a contender. In
  every state reached by interleaved \<^verbatim>\<open>lock_acquire\<close>, \<^verbatim>\<open>lock_release\<close>, \<^verbatim>\<open>cv_wait\<close>,
  \<^verbatim>\<open>cv_signal\<close> and \<^verbatim>\<open>cv_broadcast\<close> calls on a fresh lock and condition variable at most one
  thread is inside, it is the recorded owner, and if a thread sleeps on a free lock then
  another thread has been woken and its next pass takes the lock.
\<close>

theorem lock_mutual_exclusion:
  assumes "lock_create ln al = (Some l, al1)" "cv_create cn al1 = (Some c, al2)"
    and "mon_step\<^sup>*\<^sup>* (mon_start l c) s"
  shows "(ms_pc s t = MHold \<and> ms_pc s u = MHold \<longrightarrow> t = u) \<and>
         (lock_do_i_hold t (ms_lock s) \<longleftrightarrow> ms_pc s t = MHold) \<and>
         (ms_pc s t = MSleep \<and> lk_owner (ms_lock s) = None \<longrightarrow>
            (\<exists>v. ms_pc s v = MWant \<and> fst (lock_acquire_section v (ms_lock s))))"
proof -
  have inv: "mon_inv s"
    using mon_inv_reach [OF assms(3)] lock_create_Some [OF assms(1)] cv_create_Some [OF assms(2)]
    by simp
  then have "t \<in> set (wc_threads (lk_wchan (ms_lock s)))" if "ms_pc s t = MSleep"
    using that by (simp add: mon_inv_def)
  then have "\<exists>v. ms_pc s v = MWant" if "ms_pc s t = MSleep" "lk_owner (ms_lock s) = None"
    using inv that by (auto simp: mon_inv_def)
  then show ?thesis
    using inv mon_inv_holder [OF inv]
    by (auto simp: lock_do_i_hold_def lock_acquire_section_def mon_inv_def)
qed

theorem lock_mutual_exclusion_witness:
  "\<exists>s :: mon_sys. ms_pc s 2 = MSleep \<and> lk_owner (ms_lock s) = None \<and>
       (\<exists>v. ms_pc s v = MWant \<and> fst (lock_acquire_section v (ms_lock s)))"
proof -
  define l where "l = the (fst (lock_create ''l'' []))"
  define c where "c = the (fst (cv_create ''c'' []))"
  have mk: "lock_create ''l'' [] = (Some l, [])" "cv_create ''c'' [] = (Some c, [])"
    by (simp_all add: l_def c_def lock_create_def cv_create_def wchan_create_def)
  define s where "s = fold mon_do [Advance 1, Advance 1, Advance 2, Advance 3, Advance 3,
    Advance 2, Advance 1] (mon_start l c)"
  have r: "mon_step\<^sup>*\<^sup>* (mon_start l c) s"
    unfolding s_def by (rule mon_schedule_reach)
  have sl: "ms_pc s 2 = MSleep" and free: "lk_owner (ms_lock s) = None"
    by (simp_all add: s_def l_def c_def lock_create_def cv_create_def wchan_create_def
        mon_start_def lock_acquire_section_def lock_release_def lock_do_i_hold_def wchan_defs
        mon_wake_def)
  from lock_mutual_exclusion [OF mk r, of 2 2] sl free show ?thesis
    by - (rule exI [of _ s], simp)
qed

text \<open>
  The assertions of the lock and condition variable code never fail for threads that call
  it in bracketed form. In every reachable state a thread inside may release, wait, signal and
  broadcast, and each of the four returns; a thread that is about to test the lock does not
  hold it already; and a thread on the channel of the condition variable is not on the channel
  of the lock, so a wake-up is never spent on the wrong channel.
\<close>

theorem monitor_calls_return:
  assumes "lock_create ln al = (Some l, al1)" "cv_create cn al1 = (Some c, al2)"
    and "mon_step\<^sup>*\<^sup>* (mon_start l c) s"
  shows "(ms_pc s t = MHold \<longrightarrow>
            (\<exists>w l'. lock_release t (ms_lock s) = Done (w, l')) \<and>
            (\<exists>w c' l'. cv_wait_section t (ms_cv s) (ms_lock s) = Done (w, c', l')) \<and>
            (\<exists>w c'. cv_signal t (ms_cv s) (ms_lock s) = Done (w, c')) \<and>
            (\<exists>ws c'. cv_broadcast t (ms_cv s) (ms_lock s) = Done (ws, c'))) \<and>
         (ms_pc s t = MWant \<longrightarrow> \<not> lock_do_i_hold t (ms_lock s)) \<and>
         set (wc_threads (cv_wchan (ms_cv s))) \<inter> set (wc_threads (lk_wchan (ms_lock s))) = {}"
proof -
  have inv: "mon_inv s"
    using mon_inv_reach [OF assms(3)] lock_create_Some [OF assms(1)] cv_create_Some [OF assms(2)]
    by simp
  then show ?thesis by (auto simp: mon_inv_def lock_do_i_hold_def)
qed

theorem monitor_calls_return_witness:
  "\<exists>s :: mon_sys. ms_pc s 1 = MHold \<and> wc_threads (cv_wchan (ms_cv s)) = [2] \<and>
       (\<exists>w c'. cv_signal 1 (ms_cv s) (ms_lock s) = Done (w, c'))"
proof -
  define l where "l = the (fst (lock_create ''l'' []))"
  define c where "c = the (fst (cv_create ''c'' []))"
  have mk: "lock_create ''l'' [] = (Some l, [])" "cv_create ''c'' [] = (Some c, [])"
    by (simp_all add: l_def c_def lock_create_def cv_create_def wchan_create_def)
  define s where "s = fold mon_do [Advance 2, Advance 2, Wait 2, Advance 1, Advance 1]
    (mon_start l c)"
  have r: "mon_step\<^sup>*\<^sup>* (mon_start l c) s"
    unfolding s_def by (rule mon_schedule_reach)
  have hold: "ms_pc s 1 = MHold" and q: "wc_threads (cv_wchan (ms_cv s)) = [2]"
    by (simp_all add: s_def l_def c_def lock_create_def cv_create_def wchan_create_def
        mon_start_def lock_acquire_section_def cv_wait_section_def lock_release_def
        lock_do_i_hold_def wchan_defs mon_wake_def)
  from monitor_calls_return [OF mk r, of 1] hold q show ?thesis
    by - (rule exI [of _ s], simp)
qed

end
