(* ===== verification/Bitmap.thy ===== *)
theory Bitmap
  imports OS_Prelude
begin

unbundle bit_operations_syntax

text \<open>
  The fixed-size bit arrays of \<^verbatim>\<open>kern/lib/bitmap.c\<close>, as the code keeps them: a bit count and an
  array of bytes whose bits past the count are set. The contract \<open>bit_store\<close> states what a
  client such as the block allocator of SFS relies on; it is interpreted on these operations.
\<close>

section \<open>The operations\<close>

record bitmap =
  nbits :: nat
  v :: "u8 list"

text \<open>\<^verbatim>\<open>DIVROUNDUP\<close> at the width of \<^verbatim>\<open>unsigned\<close>.\<close>

definition DIVROUNDUP :: "nat \<Rightarrow> nat \<Rightarrow> nat" where
  "DIVROUNDUP a b = ((a + b - 1) mod 2 ^ 32) div b"

definition bitmap_create :: "nat \<Rightarrow> memsupply \<Rightarrow> (bitmap option \<times> memsupply) outcome" where
  "bitmap_create n al =
     (let words = DIVROUNDUP n 8;
          (ok1, al1) = kmalloc al in
      if \<not> ok1 then Done (None, al1) else
      let (ok2, al2) = kmalloc al1 in
      if \<not> ok2 then Done (None, al2) else
      let zeros = replicate words 0 in
      if words > n div 8 then
        let ix = words - 1; overbits = n - ix * 8 in
        if n div 8 \<noteq> words - 1 then Panic
        else if \<not> (overbits > 0 \<and> overbits < 8) then Panic
        else Done (Some \<lparr>nbits = n,
               v = fold (\<lambda>j u. u[ix := u ! ix OR push_bit j 1]) [overbits ..< 8] zeros\<rparr>, al2)
      else Done (Some \<lparr>nbits = n, v = zeros\<rparr>, al2))"

text \<open>The inner loop of \<^verbatim>\<open>bitmap_alloc\<close>: the first clear bit of a byte from \<open>offset\<close> on.\<close>

function bitmap_alloc_offset :: "u8 \<Rightarrow> nat \<Rightarrow> nat option" where
  "bitmap_alloc_offset w offset =
     (if offset < 8
      then if w AND push_bit offset 1 = 0 then Some offset
           else bitmap_alloc_offset w (Suc offset)
      else None)"
  by pat_completeness auto
termination by (relation "measure (\<lambda>(_, offset). 8 - offset)") auto

text \<open>The outer loop from byte \<open>ix\<close> on.\<close>

function bitmap_alloc_from :: "bitmap \<Rightarrow> nat \<Rightarrow> (bitmap \<times> nat) cres outcome" where
  "bitmap_alloc_from b ix =
     (if ix < DIVROUNDUP (nbits b) 8
      then if length (v b) \<le> ix then Panic
           else if v b ! ix \<noteq> 0xff
           then case bitmap_alloc_offset (v b ! ix) 0 of
                  None \<Rightarrow> Panic
                | Some offset \<Rightarrow>
                    let index = ix * 8 + offset;
                        b' = b\<lparr>v := (v b)[ix := v b ! ix OR push_bit offset 1]\<rparr>
                    in if index < nbits b then Done (Inr (b', index)) else Panic
           else bitmap_alloc_from b (Suc ix)
      else Done (Inl ENOSPC))"
  by pat_completeness auto
termination by (relation "measure (\<lambda>(b, ix). DIVROUNDUP (nbits b) 8 - ix)") auto

definition bitmap_alloc :: "bitmap \<Rightarrow> (bitmap \<times> nat) cres outcome" where
  "bitmap_alloc b = bitmap_alloc_from b 0"

definition bitmap_translate :: "nat \<Rightarrow> nat \<times> u8" where
  "bitmap_translate bitno = (bitno div 8, push_bit (bitno mod 8) 1)"

definition bitmap_mark :: "bitmap \<Rightarrow> nat \<Rightarrow> bitmap outcome" where
  "bitmap_mark b index =
     (if \<not> index < nbits b then Panic
      else let (ix, mask) = bitmap_translate index in
           if length (v b) \<le> ix then Panic
           else if v b ! ix AND mask \<noteq> 0 then Panic
           else Done (b\<lparr>v := (v b)[ix := v b ! ix OR mask]\<rparr>))"

definition bitmap_unmark :: "bitmap \<Rightarrow> nat \<Rightarrow> bitmap outcome" where
  "bitmap_unmark b index =
     (if \<not> index < nbits b then Panic
      else let (ix, mask) = bitmap_translate index in
           if length (v b) \<le> ix then Panic
           else if v b ! ix AND mask = 0 then Panic
           else Done (b\<lparr>v := (v b)[ix := v b ! ix AND NOT mask]\<rparr>))"

definition bitmap_isset :: "bitmap \<Rightarrow> nat \<Rightarrow> u8 outcome" where
  "bitmap_isset b index =
     (let (ix, mask) = bitmap_translate index in
      if length (v b) \<le> ix then Panic else Done (v b ! ix AND mask))"

declare bitmap_alloc_offset.simps [simp del] bitmap_alloc_from.simps [simp del]

section \<open>Abstraction to a set of indices\<close>

definition bm_bit :: "bitmap \<Rightarrow> nat \<Rightarrow> bool" where
  "bm_bit b i \<longleftrightarrow> bit (v b ! (i div 8)) (i mod 8)"

definition bm_set :: "bitmap \<Rightarrow> nat set" where
  "bm_set b = {i. i < nbits b \<and> bm_bit b i}"

definition bm_wf :: "bitmap \<Rightarrow> bool" where
  "bm_wf b \<longleftrightarrow> nbits b + 7 < 2 ^ 32 \<and> length (v b) = (nbits b + 7) div 8 \<and>
     (\<forall>i < 8 * length (v b). nbits b \<le> i \<longrightarrow> bm_bit b i)"

section \<open>The contract\<close>

locale bit_store =
  fixes inv :: "'b \<Rightarrow> bool"
    and size :: "'b \<Rightarrow> nat"
    and bits :: "'b \<Rightarrow> nat set"
    and alloc :: "'b \<Rightarrow> ('b \<times> nat) cres outcome"
    and mark :: "'b \<Rightarrow> nat \<Rightarrow> 'b outcome"
    and unmark :: "'b \<Rightarrow> nat \<Rightarrow> 'b outcome"
  assumes bits_bound: "inv b \<Longrightarrow> bits b \<subseteq> {..<size b}"
    and alloc_full: "inv b \<Longrightarrow> bits b = {..<size b} \<Longrightarrow> alloc b = Done (Inl ENOSPC)"
    and alloc_some: "inv b \<Longrightarrow> bits b \<noteq> {..<size b} \<Longrightarrow>
      \<exists>b' i. alloc b = Done (Inr (b', i)) \<and> i < size b \<and> i \<notin> bits b \<and> {..<i} \<subseteq> bits b \<and>
             bits b' = insert i (bits b) \<and> size b' = size b \<and> inv b'"
    and mark_ok: "inv b \<Longrightarrow> i < size b \<Longrightarrow> i \<notin> bits b \<Longrightarrow>
      \<exists>b'. mark b i = Done b' \<and> bits b' = insert i (bits b) \<and> size b' = size b \<and> inv b'"
    and unmark_ok: "inv b \<Longrightarrow> i \<in> bits b \<Longrightarrow>
      \<exists>b'. unmark b i = Done b' \<and> bits b' = bits b - {i} \<and> size b' = size b \<and> inv b'"
begin

lemma alloc_Done:
  assumes "inv b" "alloc b = Done (Inr (b', i))"
  shows "i < size b" "i \<notin> bits b" "{..<i} \<subseteq> bits b" "bits b' = insert i (bits b)"
    "size b' = size b" "inv b'"
proof -
  have "bits b \<noteq> {..<size b}" using assms alloc_full by force
  then obtain b1 j where "alloc b = Done (Inr (b1, j)) \<and> j < size b \<and> j \<notin> bits b \<and>
      {..<j} \<subseteq> bits b \<and> bits b1 = insert j (bits b) \<and> size b1 = size b \<and> inv b1"
    using alloc_some assms(1) by blast
  then show "i < size b" "i \<notin> bits b" "{..<i} \<subseteq> bits b" "bits b' = insert i (bits b)"
    "size b' = size b" "inv b'"
    using assms(2) by simp_all
qed

lemma alloc_ENOSPC_iff: "inv b \<Longrightarrow> alloc b = Done (Inl e) \<longleftrightarrow> bits b = {..<size b} \<and> e = ENOSPC"
  using alloc_full [of b] alloc_some [of b] by (cases "bits b = {..<size b}") auto

lemma alloc_never_panics: "inv b \<Longrightarrow> \<exists>r. alloc b = Done r"
  using alloc_full [of b] alloc_some [of b] by (cases "bits b = {..<size b}") auto

lemma free_then_alloc_lowest:
  assumes "inv b" "i \<in> bits b" "{..<i} \<subseteq> bits b"
  shows "\<exists>b1 b2. unmark b i = Done b1 \<and> alloc b1 = Done (Inr (b2, i)) \<and> bits b2 = bits b"
proof -
  obtain b1 where b1: "unmark b i = Done b1" "bits b1 = bits b - {i}" "size b1 = size b" "inv b1"
    using unmark_ok assms by blast
  have "i < size b" using bits_bound assms by blast
  then have "bits b1 \<noteq> {..<size b1}" using b1 by auto
  then obtain b2 j where j: "alloc b1 = Done (Inr (b2, j))" "j \<notin> bits b1" "{..<j} \<subseteq> bits b1"
    "bits b2 = insert j (bits b1)"
    using alloc_some [OF b1(4)] by auto
  have "\<not> i < j" using j(3) b1(2) by auto
  moreover have "\<not> j < i" using j(2) b1(2) assms(3) by auto
  ultimately have "j = i" by simp
  then show ?thesis using b1 j assms(2) by auto
qed

lemma mark_unmark:
  assumes "inv b" "i < size b" "i \<notin> bits b"
  shows "\<exists>b1 b2. mark b i = Done b1 \<and> unmark b1 i = Done b2 \<and> bits b2 = bits b"
proof -
  obtain b1 where b1: "mark b i = Done b1" "bits b1 = insert i (bits b)" "inv b1"
    using mark_ok assms by blast
  moreover obtain b2 where "unmark b1 i = Done b2" "bits b2 = bits b1 - {i}"
    using unmark_ok [of b1 i] b1 by auto
  ultimately show ?thesis using assms(3) by auto
qed

end

section \<open>Bit-level lemmas\<close>

lemma and_bit_zero_iff [simp]: "w AND 2 ^ k = 0 \<longleftrightarrow> \<not> bit w k" for w :: u8
  using bit_iff_and_push_bit_not_eq_0 [of w k] by simp

lemma bit_set_iff: "k < 8 \<Longrightarrow> bit (w OR 2 ^ k) n \<longleftrightarrow> bit w n \<or> n = k" for w :: u8
  by (auto simp: bit_or_iff bit_exp_iff)

lemma bit_clear_iff: "bit (w AND NOT (2 ^ k)) n \<longleftrightarrow> bit w n \<and> n \<noteq> k" for w :: u8
  by (auto simp: bit_and_iff bit_not_iff bit_exp_iff dest: bit_imp_le_length)

lemma byte_full_iff: "w = 0xff \<longleftrightarrow> (\<forall>k < 8. bit w k)" for w :: u8
proof
  assume "w = 0xff"
  then have "w = - 1" by simp
  then show "\<forall>k < 8. bit w k" by simp
next
  assume a: "\<forall>k < 8. bit w k"
  have "w = - 1" by (rule bit_word_eqI) (use a in simp)
  then show "w = 0xff" by simp
qed

lemma bitmap_alloc_offset_Some:
  "bitmap_alloc_offset w offset = Some k \<Longrightarrow>
     offset \<le> k \<and> k < 8 \<and> \<not> bit w k \<and> (\<forall>j. offset \<le> j \<and> j < k \<longrightarrow> bit w j)"
proof (induction w offset rule: bitmap_alloc_offset.induct)
  case (1 w offset)
  show ?case
  proof (cases "offset < 8 \<and> bit w offset")
    case True
    then have "bitmap_alloc_offset w (Suc offset) = Some k"
      using 1(2) by (subst (asm) bitmap_alloc_offset.simps) simp
    then have ih: "Suc offset \<le> k \<and> k < 8 \<and> \<not> bit w k \<and> (\<forall>j. Suc offset \<le> j \<and> j < k \<longrightarrow> bit w j)"
      using 1(1) True by simp
    then show ?thesis using True by (metis Suc_leD Suc_leI le_neq_implies_less)
  next
    case False
    then show ?thesis
      using 1(2) by (subst (asm) bitmap_alloc_offset.simps) (auto split: if_splits)
  qed
qed

lemma bitmap_alloc_offset_None:
  "bitmap_alloc_offset w offset = None \<Longrightarrow> offset \<le> j \<Longrightarrow> j < 8 \<Longrightarrow> bit w j"
proof (induction w offset rule: bitmap_alloc_offset.induct)
  case (1 w offset)
  then have b: "bit w offset" and "bitmap_alloc_offset w (Suc offset) = None"
    using bitmap_alloc_offset.simps [of w offset] by (auto split: if_splits)
  then show ?case using 1 by (cases "j = offset") auto
qed

lemma bitmap_alloc_offset_notfull:
  assumes "w \<noteq> 0xff"
  obtains k where "bitmap_alloc_offset w 0 = Some k" "k < 8" "\<not> bit w k" "\<And>j. j < k \<Longrightarrow> bit w j"
  using assms bitmap_alloc_offset_None [of w 0] bitmap_alloc_offset_Some [of w 0] byte_full_iff [of w]
  by (cases "bitmap_alloc_offset w 0") auto

lemma DIVROUNDUP_8: "n + 7 < 2 ^ 32 \<Longrightarrow> DIVROUNDUP n 8 = (n + 7) div 8"
  by (simp add: DIVROUNDUP_def)

lemma bit_index_iff: "k < 8 \<Longrightarrow> i = ix * 8 + k \<longleftrightarrow> i div 8 = ix \<and> i mod 8 = k" for i :: nat
  using div_mult_mod_eq [of i 8] by auto

lemma bm_bit_update:
  assumes "k < 8" "ix < length (v b)" "\<And>n. bit w n \<longleftrightarrow> (if n = k then x else bit (v b ! ix) n)"
  shows "bm_bit (b\<lparr>v := (v b)[ix := w]\<rparr>) i \<longleftrightarrow> (if i = ix * 8 + k then x else bm_bit b i)"
  unfolding bit_index_iff [OF assms(1)]
  using assms by (simp add: bm_bit_def nth_list_update)

lemma bm_wf_update:
  assumes "bm_wf b" "k < 8" "ix * 8 + k < nbits b"
    "\<And>n. bit w n \<longleftrightarrow> (if n = k then x else bit (v b ! ix) n)"
  shows "bm_wf (b\<lparr>v := (v b)[ix := w]\<rparr>)"
    "bm_set (b\<lparr>v := (v b)[ix := w]\<rparr>) =
       (if x then insert (ix * 8 + k) (bm_set b) else bm_set b - {ix * 8 + k})"
proof -
  have "ix < length (v b)" using assms(1,3) by (simp add: bm_wf_def)
  note u = bm_bit_update [OF assms(2) this assms(4)]
  show "bm_wf (b\<lparr>v := (v b)[ix := w]\<rparr>)"
    using assms(1,3) u by (auto simp: bm_wf_def)
  show "bm_set (b\<lparr>v := (v b)[ix := w]\<rparr>) =
       (if x then insert (ix * 8 + k) (bm_set b) else bm_set b - {ix * 8 + k})"
    using assms(3) u by (auto simp: bm_set_def)
qed

lemma bm_index_split: "i < nbits b \<Longrightarrow> bm_wf b \<Longrightarrow> i div 8 < length (v b)"
  by (simp add: bm_wf_def)

lemma bitmap_mark_ok:
  assumes "bm_wf b" "i < nbits b" "i \<notin> bm_set b"
  shows "\<exists>b'. bitmap_mark b i = Done b' \<and> bm_set b' = insert i (bm_set b) \<and>
              nbits b' = nbits b \<and> bm_wf b'"
proof -
  let ?b = "b\<lparr>v := (v b)[i div 8 := v b ! (i div 8) OR 2 ^ (i mod 8)]\<rparr>"
  have "bm_wf ?b" "bm_set ?b = insert i (bm_set b)"
    using bm_wf_update [OF assms(1), of "i mod 8" "i div 8" "v b ! (i div 8) OR 2 ^ (i mod 8)" True]
      assms(2) by (auto simp: bit_set_iff)
  moreover have "bitmap_mark b i = Done ?b"
    using assms bm_index_split [OF assms(2,1)]
    by (simp add: bitmap_mark_def bitmap_translate_def bm_set_def bm_bit_def)
  ultimately show ?thesis by simp
qed

lemma bitmap_unmark_ok:
  assumes "bm_wf b" "i \<in> bm_set b"
  shows "\<exists>b'. bitmap_unmark b i = Done b' \<and> bm_set b' = bm_set b - {i} \<and>
              nbits b' = nbits b \<and> bm_wf b'"
proof -
  have "i < nbits b" using assms(2) by (simp add: bm_set_def)
  then show ?thesis
    using assms bm_index_split [OF _ assms(1), of i]
      bm_wf_update [OF assms(1), of "i mod 8" "i div 8"
        "v b ! (i div 8) AND NOT (2 ^ (i mod 8))" False]
    by (auto simp: bitmap_unmark_def bitmap_translate_def and_bit_zero_iff bit_clear_iff
        bm_set_def bm_bit_def)
qed

lemma bitmap_alloc_from_spec:
  assumes "bm_wf b" "\<And>i. i < nbits b \<Longrightarrow> i < ix * 8 \<Longrightarrow> i \<in> bm_set b"
  shows "if bm_set b = {..<nbits b} then bitmap_alloc_from b ix = Done (Inl ENOSPC)
         else \<exists>b' i. bitmap_alloc_from b ix = Done (Inr (b', i)) \<and> i < nbits b \<and> i \<notin> bm_set b \<and>
                {..<i} \<subseteq> bm_set b \<and> bm_set b' = insert i (bm_set b) \<and> nbits b' = nbits b \<and> bm_wf b'"
  using assms
proof (induction b ix rule: bitmap_alloc_from.induct)
  case (1 b ix)
  note wf = 1(2) and below = 1(3)
  have len: "DIVROUNDUP (nbits b) 8 = length (v b)"
    using wf by (simp add: bm_wf_def DIVROUNDUP_8)
  consider "length (v b) \<le> ix" | "ix < length (v b)" "v b ! ix = 0xff"
    | "ix < length (v b)" "v b ! ix \<noteq> 0xff" by linarith
  then show ?case
  proof cases
    case 1
    then have "bm_set b = {..<nbits b}"
      using below wf by (fastforce simp: bm_set_def bm_wf_def)
    then show ?thesis using 1 len by (subst bitmap_alloc_from.simps) simp
  next
    case 2
    have "i \<in> bm_set b" if "i < nbits b" "i < Suc ix * 8" for i
    proof (cases "i < ix * 8")
      case False
      then have "i div 8 = ix" using that(2) by (simp add: div_nat_eqI)
      then show ?thesis using that 2 byte_full_iff by (simp add: bm_set_def bm_bit_def)
    qed (use below that in simp)
    moreover have "bitmap_alloc_from b ix = bitmap_alloc_from b (Suc ix)"
      using 2 len by (subst bitmap_alloc_from.simps) simp
    ultimately show ?thesis using 1(1) 2 len wf by simp
  next
    case 3
    obtain k where k: "bitmap_alloc_offset (v b ! ix) 0 = Some k" "k < 8" "\<not> bit (v b ! ix) k"
      "\<And>j. j < k \<Longrightarrow> bit (v b ! ix) j"
      using bitmap_alloc_offset_notfull [OF 3(2)] by metis
    let ?i = "ix * 8 + k" and ?b = "b\<lparr>v := (v b)[ix := v b ! ix OR 2 ^ k]\<rparr>"
    have nb: "\<not> bm_bit b ?i" using k by (simp add: bm_bit_def)
    have lt: "?i < nbits b"
    proof (rule ccontr)
      assume "\<not> ?i < nbits b"
      moreover have "?i < 8 * length (v b)" using 3(1) k(2) by linarith
      ultimately show False using nb wf by (simp add: bm_wf_def)
    qed
    have low: "{..<?i} \<subseteq> bm_set b"
    proof
      fix i assume i: "i \<in> {..<?i}"
      show "i \<in> bm_set b"
      proof (cases "i < ix * 8")
        case False
        then have "i div 8 = ix" using i k(2) by (simp add: div_nat_eqI)
        moreover from this have "i mod 8 < k" using i div_mult_mod_eq [of i 8] by simp
        ultimately show ?thesis using k(4) i lt by (simp add: bm_set_def bm_bit_def)
      qed (use below i lt in simp)
    qed
    have upd: "bm_wf ?b" "bm_set ?b = insert ?i (bm_set b)"
      using bm_wf_update [OF wf k(2) lt, of "v b ! ix OR 2 ^ k" True] k(2)
      by (auto simp: bit_set_iff)
    have "bitmap_alloc_from b ix = Done (Inr (?b, ?i))"
      using 3 k lt len by (subst bitmap_alloc_from.simps) simp
    moreover have "?i \<notin> bm_set b" using nb by (simp add: bm_set_def)
    ultimately show ?thesis using lt low upd by auto
  qed
qed

interpretation kern_bitmap: bit_store bm_wf nbits bm_set bitmap_alloc bitmap_mark bitmap_unmark
proof
  fix b
  assume wf: "bm_wf b"
  note spec = bitmap_alloc_from_spec [OF wf, of 0]
  show "bm_set b = {..<nbits b} \<Longrightarrow> bitmap_alloc b = Done (Inl ENOSPC)"
    using spec by (simp add: bitmap_alloc_def)
  show "bm_set b \<noteq> {..<nbits b} \<Longrightarrow>
      \<exists>b' i. bitmap_alloc b = Done (Inr (b', i)) \<and> i < nbits b \<and> i \<notin> bm_set b \<and>
        {..<i} \<subseteq> bm_set b \<and> bm_set b' = insert i (bm_set b) \<and> nbits b' = nbits b \<and> bm_wf b'"
    using spec by (simp add: bitmap_alloc_def)
  show "bm_set b \<subseteq> {..<nbits b}" by (auto simp: bm_set_def)
qed (fact bitmap_mark_ok bitmap_unmark_ok)+

lemma fold_set_bits:
  assumes "ix < length u" "\<forall>j \<in> set js. j < 8"
  shows "length (fold (\<lambda>j u. u[ix := u ! ix OR 2 ^ j]) js u) = length u \<and>
    (\<forall>m. m \<noteq> ix \<longrightarrow> fold (\<lambda>j u. u[ix := u ! ix OR 2 ^ j]) js u ! m = u ! m) \<and>
    (\<forall>k. bit (fold (\<lambda>j u. u[ix := u ! ix OR 2 ^ j]) js u ! ix :: u8) k \<longleftrightarrow>
           bit (u ! ix) k \<or> k \<in> set js)"
  using assms by (induction js arbitrary: u) (auto simp: bit_set_iff)

lemma bitmap_create_Some:
  assumes "n + 7 < 2 ^ 32" "kmalloc al = (True, al1)" "kmalloc al1 = (True, al2)"
  shows "\<exists>b. bitmap_create n al = Done (Some b, al2) \<and> bm_wf b \<and> bm_set b = {} \<and> nbits b = n"
proof (cases "(n + 7) div 8 > n div 8")
  case False
  then have "(n + 7) div 8 * 8 \<le> n"
    using mult_le_mono1 [of "(n + 7) div 8" "n div 8" 8] div_times_less_eq_dividend [of n 8] by linarith
  then show ?thesis using False assms
    by (simp add: bitmap_create_def DIVROUNDUP_8 bm_wf_def bm_set_def bm_bit_def mult.commute)
next
  case True
  define q r where "q = n div 8" and "r = n mod 8"
  have n: "n = q * 8 + r" "r < 8" by (simp_all add: q_def r_def)
  have r: "0 < r" using True n by (cases "r = 0") auto
  then have words: "(n + 7) div 8 = Suc q" using n by (simp add: div_nat_eqI)
  let ?z = "replicate (Suc q) (0 :: u8)"
  let ?w = "fold (\<lambda>j u. u[q := u ! q OR 2 ^ j]) [r ..< 8] ?z"
  have w: "length ?w = Suc q" "\<And>m. m \<noteq> q \<Longrightarrow> ?w ! m = ?z ! m"
    "\<And>k. bit (?w ! q) k \<longleftrightarrow> r \<le> k \<and> k < 8"
    using fold_set_bits [of q ?z "[r ..< 8]"] by (auto simp: nth_append replicate_append_same [symmetric])
  have bits: "bit (?w ! (i div 8)) (i mod 8) \<longleftrightarrow> n \<le> i" if "i < 8 * Suc q" for i
  proof (cases "i div 8 = q")
    case True
    then have "i = q * 8 + i mod 8" using div_mult_mod_eq [of i 8] by simp
    then have "n \<le> i \<longleftrightarrow> r \<le> i mod 8" using n by linarith
    then show ?thesis using True w(3) by simp
  next
    case False
    then have "i div 8 < q" using that by simp
    moreover from this have "i < n" using n by (simp add: div_less_iff_less_mult)
    ultimately show ?thesis using w(2) [of "i div 8"] by (simp del: replicate.simps)
  qed
  have "bitmap_create n al = Done (Some \<lparr>nbits = n, v = ?w\<rparr>, al2)"
  proof -
    have "n div 8 = q" "n - q * 8 = r" using n by simp_all
    then show ?thesis
      using n(2) r words assms
      by (simp add: bitmap_create_def DIVROUNDUP_8 Let_def del: replicate.simps)
  qed
  moreover have "bm_wf \<lparr>nbits = n, v = ?w\<rparr>"
    using assms(1) w(1) bits words by (simp add: bm_wf_def bm_bit_def)
  moreover have "bm_set \<lparr>nbits = n, v = ?w\<rparr> = {}"
    using bits n by (force simp: bm_set_def bm_bit_def)
  ultimately show ?thesis by simp
qed

section \<open>Properties\<close>

text \<open>
  \<^verbatim>\<open>bitmap_alloc\<close> on a well-formed bitmap returns the lowest clear index, marks exactly that
  index and keeps the bitmap well formed; it reports \<open>ENOSPC\<close> exactly when every index is
  taken, and none of its assertions can fail.
\<close>

theorem bitmap_alloc_lowest:
  assumes "bm_wf b"
  shows "if bm_set b = {..<nbits b} then bitmap_alloc b = Done (Inl ENOSPC)
         else \<exists>b' i. bitmap_alloc b = Done (Inr (b', i)) \<and> i < nbits b \<and> i \<notin> bm_set b \<and>
                {..<i} \<subseteq> bm_set b \<and> bm_set b' = insert i (bm_set b) \<and> nbits b' = nbits b \<and> bm_wf b'"
  using kern_bitmap.alloc_full [OF assms] kern_bitmap.alloc_some [OF assms] by simp

theorem bitmap_alloc_lowest_witness:
  "\<exists>b'. bitmap_alloc \<lparr>nbits = 8, v = [0x05]\<rparr> = Done (Inr (b', 1)) \<and> bm_set b' = {0, 1, 2}"
proof -
  let ?b = "\<lparr>nbits = 8, v = [0x05]\<rparr>"
  have wf: "bm_wf ?b" by (simp add: bm_wf_def)
  have set: "bm_set ?b = {0, 2}"
  proof -
    have "list_all (\<lambda>i. bit (5 :: u8) i = (i = 0 \<or> i = 2)) [0 ..< 8]" by (simp add: upt_rec)
    then have "bit (5 :: u8) i = (i = 0 \<or> i = 2)" if "i < 8" for i
      using that by (simp add: list_all_iff)
    then show ?thesis by (auto simp: bm_set_def bm_bit_def)
  qed
  have "(1 :: nat) \<in> {..<8}" "(1 :: nat) \<notin> {0, 2}" by simp_all
  then have "{0, 2} \<noteq> {..<8 :: nat}" by blast
  then obtain b' i where i: "bitmap_alloc ?b = Done (Inr (b', i))" "i \<notin> {0, 2}" "{..<i} \<subseteq> {0, 2}"
    "bm_set b' = insert i {0, 2}"
    using bitmap_alloc_lowest [OF wf] unfolding set by auto
  have "i = 1"
  proof (rule ccontr)
    assume "i \<noteq> 1"
    then have "1 \<in> {..<i}" using i(2) by auto
    then show False using i(3) by auto
  qed
  then show ?thesis using i by auto
qed

text \<open>
  The bitmap is a finite set of indices. A fresh bitmap is well formed and empty for any
  size that does not overflow the rounding to bytes, and marking an index, asking for it and
  unmarking it again behave as insertion, membership and deletion on the abstract set.
\<close>

theorem bitmap_refines_set:
  assumes "n + 7 < 2 ^ 32" "i < n" "kmalloc al = (True, al1)" "kmalloc al1 = (True, al2)"
  shows "\<exists>b b1 b2. bitmap_create n al = Done (Some b, al2) \<and> bm_set b = {} \<and>
           bitmap_mark b i = Done b1 \<and> bm_set b1 = {i} \<and>
           (\<forall>j < n. \<exists>w. bitmap_isset b1 j = Done w \<and> (w \<noteq> 0 \<longleftrightarrow> j = i)) \<and>
           bitmap_unmark b1 i = Done b2 \<and> bm_set b2 = {} \<and> bm_wf b2"
proof -
  obtain b where b: "bitmap_create n al = Done (Some b, al2)" "bm_wf b" "bm_set b = {}" "nbits b = n"
    using bitmap_create_Some [OF assms(1,3,4)] by blast
  obtain b1 where b1: "bitmap_mark b i = Done b1" "bm_set b1 = {i}" "nbits b1 = n" "bm_wf b1"
    using kern_bitmap.mark_ok [OF b(2), of i] b assms(2) by auto
  obtain b2 where b2: "bitmap_unmark b1 i = Done b2" "bm_set b2 = {}" "bm_wf b2"
    using kern_bitmap.unmark_ok [OF b1(4), of i] b1 by auto
  have "\<exists>w. bitmap_isset b1 j = Done w \<and> (w \<noteq> 0 \<longleftrightarrow> j = i)" if "j < n" for j
  proof -
    have "j div 8 < length (v b1)" using bm_index_split b1 that by simp
    moreover have "bm_bit b1 j \<longleftrightarrow> j = i" using b1(2,3) that by (auto simp: bm_set_def)
    ultimately show ?thesis
      by (auto simp: bitmap_isset_def bitmap_translate_def bm_bit_def)
  qed
  then show ?thesis using b b1 b2 by blast
qed

theorem bitmap_refines_set_witness:
  "\<exists>b b1. bitmap_create 20 [] = Done (Some b, []) \<and> bitmap_mark b 11 = Done b1 \<and> bm_set b1 = {11}"
  using bitmap_refines_set [of 20 11 "[]" "[]" "[]"] by auto

end
