(* ===== verification/Vm.thy ===== *)
theory Vm
  imports OS_Prelude
begin

text \<open>
  Physical memory and address spaces: \<^verbatim>\<open>kern/arch/mips/vm/ram.c\<close> and
  \<^verbatim>\<open>kern/arch/mips/vm/dumbvm.c\<close> with the page allocator of the shell project.
  Addresses are natural numbers below \<open>2 ^ 32\<close>; an addition or product that the C code performs
  at 32 bits is taken modulo \<open>2 ^ 32\<close> where it could wrap. Each allocator routine runs under
  \<^verbatim>\<open>freemem_lock\<close> or \<^verbatim>\<open>stealmem_lock\<close> and is one atomic step.
\<close>

abbreviation "PAGE_SIZE \<equiv> 4096 :: nat"
abbreviation "DUMBVM_STACKPAGES \<equiv> 18 :: nat"
abbreviation "USERSTACK \<equiv> 0x80000000 :: nat"
abbreviation "MIPS_KSEG0 \<equiv> 0x80000000 :: nat"
abbreviation "NUM_TLB \<equiv> 64 :: nat"
abbreviation "TLBLO_DIRTY \<equiv> 0x400 :: nat"
abbreviation "TLBLO_VALID \<equiv> 0x200 :: nat"

definition page_frame :: "nat \<Rightarrow> nat" where
  "page_frame a = a div PAGE_SIZE * PAGE_SIZE"

section \<open>State\<close>

text \<open>
  A table of the C code that is \<^verbatim>\<open>NULL\<close> before \<^verbatim>\<open>vm_bootstrap\<close> is the empty list.
  \<open>phys\<close> is the contents of physical memory, reached by the kernel through kseg0.
\<close>

record vmstate =
  firstpaddr :: nat
  lastpaddr :: nat
  number_ram_pages :: nat
  bitmap_freePages :: "bool list"
  bitmap_sizePages :: "nat list"
  allocTableActive :: bool
  tlb :: "(nat \<times> nat) list"
  phys :: "nat \<Rightarrow> u8"

record addrspace =
  as_vbase1 :: nat
  as_pbase1 :: nat
  as_npages1 :: nat
  as_vbase2 :: nat
  as_pbase2 :: nat
  as_npages2 :: nat
  as_stackpbase :: nat

section \<open>RAM handed out at boot\<close>

definition ram_bootstrap :: "nat \<Rightarrow> nat \<Rightarrow> vmstate \<Rightarrow> vmstate" where
  "ram_bootstrap ramsize firstfree s =
     s\<lparr>lastpaddr := (if ramsize > 512 * 1024 * 1024 then 512 * 1024 * 1024 else ramsize),
       firstpaddr := (firstfree + 2 ^ 32 - MIPS_KSEG0) mod 2 ^ 32\<rparr>"

definition ram_stealmem :: "nat \<Rightarrow> vmstate \<Rightarrow> vmstate \<times> nat" where
  "ram_stealmem npages s =
     (let sz = (npages * PAGE_SIZE) mod 2 ^ 32 in
      if (firstpaddr s + sz) mod 2 ^ 32 > lastpaddr s then (s, 0)
      else (s\<lparr>firstpaddr := (firstpaddr s + sz) mod 2 ^ 32\<rparr>, firstpaddr s))"

definition ram_getsize :: "vmstate \<Rightarrow> nat" where
  "ram_getsize s = lastpaddr s"

definition ram_getfirstfree :: "vmstate \<Rightarrow> vmstate \<times> nat" where
  "ram_getfirstfree s = (s\<lparr>firstpaddr := 0, lastpaddr := 0\<rparr>, firstpaddr s)"

section \<open>The page allocator\<close>

definition isTableActive :: "vmstate \<Rightarrow> bool" where
  "isTableActive s = allocTableActive s"

definition vm_bootstrap :: "memsupply \<Rightarrow> vmstate \<Rightarrow> vmstate \<times> memsupply" where
  "vm_bootstrap al s =
     (let n = ram_getsize s div PAGE_SIZE;
          s1 = s\<lparr>number_ram_pages := n\<rparr>;
          (ok1, al1) = kmalloc al;
          (ok2, al2) = kmalloc al1 in
      if \<not> ok1 \<or> \<not> ok2
      then (s1\<lparr>bitmap_freePages := [], bitmap_sizePages := []\<rparr>, al2)
      else (s1\<lparr>bitmap_freePages := replicate n False, bitmap_sizePages := replicate n 0,
               allocTableActive := True\<rparr>, al2))"

text \<open>
  The search loop of \<^verbatim>\<open>getfreeppages\<close> from index \<open>i\<close> on, with \<open>start_tmp\<close> the beginning of
  the current run of free pages. The result is \<open>start_adr\<close>, \<open>- 1\<close> when nothing was found.
\<close>

function getfreeppages_scan :: "bool list \<Rightarrow> nat \<Rightarrow> nat \<Rightarrow> nat \<Rightarrow> int \<Rightarrow> int" where
  "getfreeppages_scan fp nram npages i start_tmp =
     (if i < nram
      then if fp ! i
           then let st = (if i = 0 \<or> \<not> fp ! (i - 1) then int i else start_tmp)
                in if int i - st + 1 \<ge> int npages then st
                   else getfreeppages_scan fp nram npages (Suc i) st
           else getfreeppages_scan fp nram npages (Suc i) start_tmp
      else - 1)"
  by pat_completeness auto
termination by (relation "measure (\<lambda>(_, nram, _, i, _). nram - i)") auto

declare getfreeppages_scan.simps [simp del]

text \<open>\<^verbatim>\<open>getfreeppages\<close>: the loop that clears the table starts at index 0.\<close>

definition getfreeppages :: "nat \<Rightarrow> vmstate \<Rightarrow> vmstate \<times> nat" where
  "getfreeppages npages s =
     (if \<not> isTableActive s then (s, 0)
      else let start_adr = getfreeppages_scan (bitmap_freePages s) (number_ram_pages s) npages 0 (- 1)
           in if start_adr \<noteq> - 1
              then let st = nat start_adr in
                   (s\<lparr>bitmap_freePages :=
                        map (\<lambda>i. if i < st + npages then False else bitmap_freePages s ! i)
                            [0 ..< length (bitmap_freePages s)],
                      bitmap_sizePages := (bitmap_sizePages s)[st := npages]\<rparr>,
                    (st * PAGE_SIZE) mod 2 ^ 32)
              else (s, 0))"

definition getppages :: "nat \<Rightarrow> vmstate \<Rightarrow> vmstate \<times> nat" where
  "getppages npages s =
     (let (s1, addr1) = getfreeppages npages s;
          (s2, addr) = (if addr1 = 0 then ram_stealmem npages s1 else (s1, addr1))
      in if addr \<noteq> 0 \<and> isTableActive s2
         then (s2\<lparr>bitmap_sizePages := (bitmap_sizePages s2)[addr div PAGE_SIZE := npages]\<rparr>, addr)
         else (s2, addr))"

definition alloc_kpages :: "nat \<Rightarrow> vmstate \<Rightarrow> vmstate \<times> nat" where
  "alloc_kpages npages s =
     (let (s1, pa) = getppages npages s
      in if pa = 0 then (s1, 0) else (s1, (pa + MIPS_KSEG0) mod 2 ^ 32))"

definition freeppages :: "nat \<Rightarrow> nat \<Rightarrow> vmstate \<Rightarrow> vmstate" where
  "freeppages paddr sz s =
     (if \<not> isTableActive s then s
      else let start_addr = paddr div PAGE_SIZE in
           s\<lparr>bitmap_freePages :=
               map (\<lambda>i. if start_addr \<le> i \<and> i < start_addr + sz then True
                        else bitmap_freePages s ! i)
                   [0 ..< length (bitmap_freePages s)]\<rparr>)"

text \<open>A read or write past the end of the tables is undefined in C and \<open>Panic\<close> here.\<close>

definition free_kpages :: "nat \<Rightarrow> vmstate \<Rightarrow> vmstate outcome" where
  "free_kpages addr s =
     (if isTableActive s then
        let paddr = (addr + 2 ^ 32 - MIPS_KSEG0) mod 2 ^ 32;
            start_addr = paddr div PAGE_SIZE in
        if start_addr < length (bitmap_sizePages s) \<and>
           start_addr + bitmap_sizePages s ! start_addr \<le> length (bitmap_freePages s)
        then Done (freeppages paddr (bitmap_sizePages s ! start_addr) s)
        else Panic
      else Done s)"

section \<open>Address translation\<close>

definition tlb_valid :: "nat \<Rightarrow> bool" where
  "tlb_valid elo \<longleftrightarrow> odd (elo div TLBLO_VALID)"

text \<open>What the MMU does with a user address: the frame of the first matching valid entry.\<close>

fun tlb_lookup :: "(nat \<times> nat) list \<Rightarrow> nat \<Rightarrow> nat option" where
  "tlb_lookup [] va = None"
| "tlb_lookup ((ehi, elo) # es) va =
     (if tlb_valid elo \<and> page_frame ehi = page_frame va
      then Some (page_frame elo + va mod PAGE_SIZE)
      else tlb_lookup es va)"

text \<open>The loop of \<^verbatim>\<open>vm_fault\<close> over the TLB: the first invalid slot is overwritten.\<close>

fun tlb_fill :: "nat \<times> nat \<Rightarrow> (nat \<times> nat) list \<Rightarrow> (nat \<times> nat) list option" where
  "tlb_fill e [] = None"
| "tlb_fill e ((ehi, elo) # es) =
     (if tlb_valid elo then map_option (Cons (ehi, elo)) (tlb_fill e es) else Some (e # es))"

datatype faulttype = VM_FAULT_READ | VM_FAULT_WRITE | VM_FAULT_READONLY | VM_FAULT_OTHER

text \<open>The assertions of \<^verbatim>\<open>vm_fault\<close> on the address space.\<close>

definition as_set_up :: "addrspace \<Rightarrow> bool" where
  "as_set_up as \<longleftrightarrow>
     as_vbase1 as \<noteq> 0 \<and> as_pbase1 as \<noteq> 0 \<and> as_npages1 as \<noteq> 0 \<and>
     as_vbase2 as \<noteq> 0 \<and> as_pbase2 as \<noteq> 0 \<and> as_npages2 as \<noteq> 0 \<and>
     as_stackpbase as \<noteq> 0 \<and>
     page_frame (as_vbase1 as) = as_vbase1 as \<and> page_frame (as_pbase1 as) = as_pbase1 as \<and>
     page_frame (as_vbase2 as) = as_vbase2 as \<and> page_frame (as_pbase2 as) = as_pbase2 as \<and>
     page_frame (as_stackpbase as) = as_stackpbase as"

text \<open>The choice of the frame for a page address, as the branches of \<^verbatim>\<open>vm_fault\<close> make it.\<close>

definition vm_fault_paddr :: "addrspace \<Rightarrow> nat \<Rightarrow> nat option" where
  "vm_fault_paddr as faultaddress =
     (let vbase1 = as_vbase1 as;
          vtop1 = (vbase1 + as_npages1 as * PAGE_SIZE) mod 2 ^ 32;
          vbase2 = as_vbase2 as;
          vtop2 = (vbase2 + as_npages2 as * PAGE_SIZE) mod 2 ^ 32;
          stackbase = USERSTACK - DUMBVM_STACKPAGES * PAGE_SIZE;
          stacktop = USERSTACK
      in if faultaddress \<ge> vbase1 \<and> faultaddress < vtop1
         then Some ((faultaddress - vbase1 + as_pbase1 as) mod 2 ^ 32)
         else if faultaddress \<ge> vbase2 \<and> faultaddress < vtop2
         then Some ((faultaddress - vbase2 + as_pbase2 as) mod 2 ^ 32)
         else if faultaddress \<ge> stackbase \<and> faultaddress < stacktop
         then Some ((faultaddress - stackbase + as_stackpbase as) mod 2 ^ 32)
         else None)"

text \<open>
  \<^verbatim>\<open>vm_fault\<close>: \<open>cur\<close> is the address space that \<^verbatim>\<open>proc_getas\<close> returns, \<open>None\<close> when there is
  no current process or it has none. The frame is page aligned, so that the bits of the low
  word are added instead of or-ed.
\<close>

definition vm_fault ::
  "faulttype \<Rightarrow> nat \<Rightarrow> addrspace option \<Rightarrow> vmstate \<Rightarrow> vmstate cres outcome" where
  "vm_fault faulttype va cur s =
     (let faultaddress = page_frame va in
      if faulttype = VM_FAULT_READONLY then Panic
      else if faulttype = VM_FAULT_OTHER then Done (Inl EINVAL)
      else case cur of
        None \<Rightarrow> Done (Inl EFAULT)
      | Some as \<Rightarrow>
          if \<not> as_set_up as then Panic
          else case vm_fault_paddr as faultaddress of
            None \<Rightarrow> Done (Inl EFAULT)
          | Some paddr \<Rightarrow>
              if page_frame paddr \<noteq> paddr then Panic
              else case tlb_fill (faultaddress, paddr + TLBLO_DIRTY + TLBLO_VALID) (tlb s) of
                None \<Rightarrow> Done (Inl EFAULT)
              | Some tlb' \<Rightarrow> Done (Inr (s\<lparr>tlb := tlb'\<rparr>)))"

text \<open>
  A memory access at a user address: the TLB is consulted, a miss calls \<^verbatim>\<open>vm_fault\<close> and the
  access is retried. \<open>Done None\<close> is a fault that the kernel cannot repair.
\<close>

definition vm_access :: "addrspace option \<Rightarrow> nat \<Rightarrow> vmstate \<Rightarrow> (vmstate \<times> nat) option outcome" where
  "vm_access cur va s =
     (case tlb_lookup (tlb s) va of
        Some pa \<Rightarrow> Done (Some (s, pa))
      | None \<Rightarrow>
          bindo (vm_fault VM_FAULT_READ va cur s)
            (\<lambda>r. case r of
                   Inl _ \<Rightarrow> Done None
                 | Inr s' \<Rightarrow> Done (map_option (Pair s') (tlb_lookup (tlb s') va))))"

section \<open>Address spaces\<close>

definition as_create :: "memsupply \<Rightarrow> addrspace option \<times> memsupply" where
  "as_create al =
     (let (ok, al1) = kmalloc al in
      if \<not> ok then (None, al1)
      else (Some \<lparr>as_vbase1 = 0, as_pbase1 = 0, as_npages1 = 0,
                  as_vbase2 = 0, as_pbase2 = 0, as_npages2 = 0, as_stackpbase = 0\<rparr>, al1))"

text \<open>\<^verbatim>\<open>as_destroy\<close> frees the structure; the physical pages it names stay allocated.\<close>

definition as_destroy :: "addrspace \<Rightarrow> vmstate \<Rightarrow> vmstate" where
  "as_destroy as s = s"

definition TLBHI_INVALID :: "nat \<Rightarrow> nat" where
  "TLBHI_INVALID entryno = (0x80000 + entryno) * 2 ^ 12"

definition as_activate :: "addrspace option \<Rightarrow> vmstate \<Rightarrow> vmstate" where
  "as_activate cur s =
     (case cur of
        None \<Rightarrow> s
      | Some _ \<Rightarrow> s\<lparr>tlb := map (\<lambda>i. (TLBHI_INVALID i, 0)) [0 ..< NUM_TLB]\<rparr>)"

definition as_deactivate :: "vmstate \<Rightarrow> vmstate" where
  "as_deactivate s = s"

definition as_define_region :: "addrspace \<Rightarrow> nat \<Rightarrow> nat \<Rightarrow> addrspace cres" where
  "as_define_region as vaddr sz =
     (let sz1 = (sz + vaddr mod PAGE_SIZE) mod 2 ^ 32;
          va = page_frame vaddr;
          sz2 = page_frame ((sz1 + PAGE_SIZE - 1) mod 2 ^ 32);
          npages = sz2 div PAGE_SIZE
      in if as_vbase1 as = 0 then Inr (as\<lparr>as_vbase1 := va, as_npages1 := npages\<rparr>)
         else if as_vbase2 as = 0 then Inr (as\<lparr>as_vbase2 := va, as_npages2 := npages\<rparr>)
         else Inl ENOSYS)"

definition mem_set :: "nat \<Rightarrow> nat \<Rightarrow> u8 \<Rightarrow> (nat \<Rightarrow> u8) \<Rightarrow> nat \<Rightarrow> u8" where
  "mem_set dst n c m = (\<lambda>a. if dst \<le> a \<and> a < dst + n then c else m a)"

definition mem_move :: "nat \<Rightarrow> nat \<Rightarrow> nat \<Rightarrow> (nat \<Rightarrow> u8) \<Rightarrow> nat \<Rightarrow> u8" where
  "mem_move dst src n m = (\<lambda>a. if dst \<le> a \<and> a < dst + n then m (src + (a - dst)) else m a)"

definition as_zero_region :: "nat \<Rightarrow> nat \<Rightarrow> vmstate \<Rightarrow> vmstate" where
  "as_zero_region paddr npages s = s\<lparr>phys := mem_set paddr (npages * PAGE_SIZE) 0 (phys s)\<rparr>"

definition as_prepare_load :: "addrspace \<Rightarrow> vmstate \<Rightarrow> (vmstate \<times> addrspace cres) outcome" where
  "as_prepare_load as s =
     (if as_pbase1 as \<noteq> 0 \<or> as_pbase2 as \<noteq> 0 \<or> as_stackpbase as \<noteq> 0 then Panic
      else let (s1, p1) = getppages (as_npages1 as) s in
      if p1 = 0 then Done (s1, Inl ENOMEM)
      else let (s2, p2) = getppages (as_npages2 as) s1 in
      if p2 = 0 then Done (s2, Inl ENOMEM)
      else let (s3, p3) = getppages DUMBVM_STACKPAGES s2 in
      if p3 = 0 then Done (s3, Inl ENOMEM)
      else Done (as_zero_region p3 DUMBVM_STACKPAGES
                   (as_zero_region p2 (as_npages2 as) (as_zero_region p1 (as_npages1 as) s3)),
                 Inr (as\<lparr>as_pbase1 := p1, as_pbase2 := p2, as_stackpbase := p3\<rparr>)))"

definition as_complete_load :: "addrspace \<Rightarrow> unit cres" where
  "as_complete_load as = Inr ()"

definition as_define_stack :: "addrspace \<Rightarrow> nat outcome" where
  "as_define_stack as = (if as_stackpbase as = 0 then Panic else Done USERSTACK)"

definition as_copy ::
  "addrspace \<Rightarrow> memsupply \<Rightarrow> vmstate \<Rightarrow> (vmstate \<times> memsupply \<times> addrspace cres) outcome" where
  "as_copy old al s =
     (case as_create al of
        (None, al1) \<Rightarrow> Done (s, al1, Inl ENOMEM)
      | (Some new0, al1) \<Rightarrow>
          bindo (as_prepare_load
                   (new0\<lparr>as_vbase1 := as_vbase1 old, as_npages1 := as_npages1 old,
                         as_vbase2 := as_vbase2 old, as_npages2 := as_npages2 old\<rparr>) s)
            (\<lambda>(s1, r). case r of
               Inl _ \<Rightarrow> Done (s1, al1, Inl ENOMEM)
             | Inr new \<Rightarrow>
                 Done (s1\<lparr>phys :=
                         mem_move (as_stackpbase new) (as_stackpbase old) (DUMBVM_STACKPAGES * PAGE_SIZE)
                           (mem_move (as_pbase2 new) (as_pbase2 old) (as_npages2 old * PAGE_SIZE)
                             (mem_move (as_pbase1 new) (as_pbase1 old) (as_npages1 old * PAGE_SIZE)
                               (phys s1)))\<rparr>, al1, Inr new)))"

section \<open>Lemmas on the allocator\<close>

text \<open>What the search loop knows at index \<open>i\<close> about the run of free pages that ends there.\<close>

definition scan_inv :: "bool list \<Rightarrow> nat \<Rightarrow> nat \<Rightarrow> int \<Rightarrow> bool" where
  "scan_inv fp npages i st \<longleftrightarrow>
     (0 < i \<and> fp ! (i - 1) \<longrightarrow>
        0 \<le> st \<and> nat st < i \<and> (\<forall>j. nat st \<le> j \<and> j < i \<longrightarrow> fp ! j) \<and>
        (nat st = 0 \<or> \<not> fp ! (nat st - 1)) \<and> i - nat st < npages)"

definition scan_start :: "bool list \<Rightarrow> nat \<Rightarrow> int \<Rightarrow> int" where
  "scan_start fp i st = (if i = 0 \<or> \<not> fp ! (i - 1) then int i else st)"

lemma scan_step:
  "getfreeppages_scan fp nram npages i st =
     (if i < nram
      then if fp ! i
           then if int i - scan_start fp i st + 1 \<ge> int npages then scan_start fp i st
                else getfreeppages_scan fp nram npages (Suc i) (scan_start fp i st)
           else getfreeppages_scan fp nram npages (Suc i) st
      else - 1)"
  by (subst getfreeppages_scan.simps) (simp add: scan_start_def Let_def)

lemma scan_start_props:
  assumes "scan_inv fp n i st" "fp ! i"
  shows "0 \<le> scan_start fp i st" "nat (scan_start fp i st) \<le> i"
    "\<And>j. nat (scan_start fp i st) \<le> j \<Longrightarrow> j \<le> i \<Longrightarrow> fp ! j"
    "nat (scan_start fp i st) = 0 \<or> \<not> fp ! (nat (scan_start fp i st) - 1)"
proof -
  have *: "0 \<le> scan_start fp i st \<and> nat (scan_start fp i st) \<le> i \<and>
      (\<forall>j. nat (scan_start fp i st) \<le> j \<and> j \<le> i \<longrightarrow> fp ! j) \<and>
      (nat (scan_start fp i st) = 0 \<or> \<not> fp ! (nat (scan_start fp i st) - 1))"
  proof (cases "i = 0 \<or> \<not> fp ! (i - 1)")
    case True
    then show ?thesis using assms(2) by (auto simp: scan_start_def le_antisym)
  next
    case False
    then have "scan_start fp i st = st" by (simp add: scan_start_def)
    moreover have "0 \<le> st \<and> nat st < i \<and> (\<forall>j. nat st \<le> j \<and> j < i \<longrightarrow> fp ! j) \<and>
        (nat st = 0 \<or> \<not> fp ! (nat st - 1))"
      using assms(1) False by (simp add: scan_inv_def)
    ultimately show ?thesis using assms(2) by (metis le_neq_implies_less less_imp_le)
  qed
  then show "0 \<le> scan_start fp i st" "nat (scan_start fp i st) \<le> i"
    "\<And>j. nat (scan_start fp i st) \<le> j \<Longrightarrow> j \<le> i \<Longrightarrow> fp ! j"
    "nat (scan_start fp i st) = 0 \<or> \<not> fp ! (nat (scan_start fp i st) - 1)"
    by blast+
qed

lemma scan_inv_next:
  assumes "scan_inv fp n i st" "fp ! i" "\<not> int i - scan_start fp i st + 1 \<ge> int n"
  shows "scan_inv fp n (Suc i) (scan_start fp i st)"
  using scan_start_props [OF assms(1,2)] assms(3) by (auto simp: scan_inv_def less_Suc_eq_le)

lemma scan_inv_skip: "\<not> fp ! i \<Longrightarrow> scan_inv fp n (Suc i) st"
  by (simp add: scan_inv_def)

lemma scan_sound:
  assumes "scan_inv fp npages i st" "0 < npages"
    and "getfreeppages_scan fp nram npages i st = r" "r \<noteq> - 1"
  shows "0 \<le> r \<and> nat r + npages \<le> nram \<and> (\<forall>j. nat r \<le> j \<and> j < nat r + npages \<longrightarrow> fp ! j)"
  using assms
proof (induction fp nram npages i st rule: getfreeppages_scan.induct)
  case (1 fp nram n i st)
  let ?st = "scan_start fp i st"
  consider "\<not> i < nram" | "i < nram" "\<not> fp ! i"
    | "i < nram" "fp ! i" "int i - ?st + 1 \<ge> int n"
    | "i < nram" "fp ! i" "\<not> int i - ?st + 1 \<ge> int n" by blast
  then show ?case
  proof cases
    case 1
    then show ?thesis using "1.prems" by (subst (asm) scan_step) simp
  next
    case 2
    then have "getfreeppages_scan fp nram n i st = getfreeppages_scan fp nram n (Suc i) st"
      by (subst scan_step) simp
    then show ?thesis using "1.IH"(2) [OF 2 scan_inv_skip [OF 2(2)]] "1.prems" by simp
  next
    case 3
    note p = scan_start_props [OF "1.prems"(1) 3(2)]
    have "r = ?st" using 3 "1.prems"(3) by (subst (asm) scan_step) simp
    then show ?thesis using p 3(1,3) by auto
  next
    case 4
    then have "getfreeppages_scan fp nram n i st = getfreeppages_scan fp nram n (Suc i) ?st"
      by (subst scan_step) simp
    then show ?thesis
      using "1.IH"(1) [OF 4(1,2) refl, folded scan_start_def, OF 4(3) scan_inv_next
          [OF "1.prems"(1) 4(2,3)]] "1.prems" by simp
  qed
qed

lemma scan_complete:
  assumes "scan_inv fp npages i st" "getfreeppages_scan fp nram npages i st = - 1"
    and "i < a + npages" "a + npages \<le> nram" "\<And>j. a \<le> j \<Longrightarrow> j < a + npages \<Longrightarrow> fp ! j"
    and "0 < npages"
  shows False
  using assms
proof (induction fp nram npages i st rule: getfreeppages_scan.induct)
  case (1 fp nram n i st)
  let ?st = "scan_start fp i st"
  have i: "i < nram" using "1.prems" by simp
  show ?case
  proof (cases "fp ! i")
    case False
    then have "getfreeppages_scan fp nram n i st = getfreeppages_scan fp nram n (Suc i) st"
      using i by (subst scan_step) simp
    moreover have "i < a" using "1.prems"(3,5) False by (meson linorder_not_less)
    ultimately show ?thesis
      using "1.IH"(2) [OF i False scan_inv_skip [OF False]] "1.prems" by simp
  next
    case True
    note p = scan_start_props [OF "1.prems"(1) True]
    show ?thesis
    proof (cases "int i - ?st + 1 \<ge> int n")
      case found: True
      then show ?thesis using "1.prems"(2) i True p(1) by (subst (asm) scan_step) simp
    next
      case short: False
      have eq: "getfreeppages_scan fp nram n i st = getfreeppages_scan fp nram n (Suc i) ?st"
        using i True short by (subst scan_step) simp
      have "Suc i < a + n"
      proof (rule ccontr)
        assume "\<not> Suc i < a + n"
        then have "Suc i = a + n" using "1.prems"(3) by simp
        then have "a < nat ?st" using short p(1,2) by linarith
        moreover from this have "fp ! (nat ?st - 1)"
          using "1.prems"(5) [of "nat ?st - 1"] p(2) \<open>Suc i = a + n\<close> by simp
        ultimately show False using p(4) by simp
      qed
      then show ?thesis
        using "1.IH"(1) [OF i True refl, folded scan_start_def, OF short scan_inv_next
            [OF "1.prems"(1) True short]] "1.prems" eq by simp
    qed
  qed
qed

text \<open>
  The allocator invariant, with \<open>live\<close> the blocks handed out and not yet freed, each as its
  first page and its number of pages.
\<close>

definition blk :: "nat \<times> nat \<Rightarrow> nat set" where
  "blk b = {fst b ..< fst b + snd b}"

definition alloc_inv :: "(nat \<times> nat) set \<Rightarrow> vmstate \<Rightarrow> bool" where
  "alloc_inv live s \<longleftrightarrow>
     allocTableActive s \<and> number_ram_pages s = lastpaddr s div PAGE_SIZE \<and>
     length (bitmap_freePages s) = number_ram_pages s \<and>
     length (bitmap_sizePages s) = number_ram_pages s \<and>
     lastpaddr s \<le> 512 * 1024 * 1024 \<and> firstpaddr s \<le> lastpaddr s \<and>
     firstpaddr s mod PAGE_SIZE = 0 \<and> 0 < firstpaddr s \<and>
     (\<forall>i < number_ram_pages s. bitmap_freePages s ! i \<longrightarrow> 0 < i \<and> i < firstpaddr s div PAGE_SIZE) \<and>
     (\<forall>b \<in> live. 0 < fst b \<and> 0 < snd b \<and> fst b + snd b \<le> firstpaddr s div PAGE_SIZE \<and>
        bitmap_sizePages s ! fst b = snd b \<and> (\<forall>i \<in> blk b. \<not> bitmap_freePages s ! i)) \<and>
     (\<forall>b \<in> live. \<forall>c \<in> live. b \<noteq> c \<longrightarrow> blk b \<inter> blk c = {})"

lemma alloc_inv_bound:
  assumes "alloc_inv live s"
  shows "firstpaddr s div PAGE_SIZE \<le> number_ram_pages s" "number_ram_pages s \<le> 131072"
    "firstpaddr s div PAGE_SIZE * PAGE_SIZE = firstpaddr s"
  using assms div_le_mono [of "lastpaddr s" "512 * 1024 * 1024" PAGE_SIZE]
  by (auto simp: alloc_inv_def intro!: div_le_mono)

lemma alloc_inv_free:
  "alloc_inv live s \<Longrightarrow> i < number_ram_pages s \<Longrightarrow> bitmap_freePages s ! i \<Longrightarrow>
     0 < i \<and> i < firstpaddr s div PAGE_SIZE"
  by (simp add: alloc_inv_def)

lemma alloc_inv_live:
  "alloc_inv live s \<Longrightarrow> b \<in> live \<Longrightarrow>
     0 < fst b \<and> 0 < snd b \<and> fst b + snd b \<le> firstpaddr s div PAGE_SIZE \<and>
     bitmap_sizePages s ! fst b = snd b"
  by (simp add: alloc_inv_def)

lemma alloc_inv_take:
  assumes inv: "alloc_inv live s" and n: "0 < n" and st: "0 < st"
    and free: "\<And>i. i \<in> blk (st, n) \<Longrightarrow> i < number_ram_pages s \<and> bitmap_freePages s ! i"
  shows "alloc_inv (insert (st, n) live)
           (s\<lparr>bitmap_freePages := map (\<lambda>i. if i < st + n then False else bitmap_freePages s ! i)
                                    [0 ..< length (bitmap_freePages s)],
              bitmap_sizePages := (bitmap_sizePages s)[st := n]\<rparr>)"
    and "\<And>b. b \<in> live \<Longrightarrow> blk b \<inter> blk (st, n) = {}"
proof -
  have top: "st + n \<le> firstpaddr s div PAGE_SIZE" "st + n \<le> number_ram_pages s"
  proof -
    have "st + n - 1 \<in> blk (st, n)" using n by (auto simp: blk_def)
    then have "st + n - 1 < firstpaddr s div PAGE_SIZE" "st + n - 1 < number_ram_pages s"
      using free inv by (auto simp: alloc_inv_def)
    then show "st + n \<le> firstpaddr s div PAGE_SIZE" "st + n \<le> number_ram_pages s" by linarith+
  qed
  show disj: "\<And>b. b \<in> live \<Longrightarrow> blk b \<inter> blk (st, n) = {}"
    using inv free unfolding alloc_inv_def by blast
  have ne: "fst b \<noteq> st" if "b \<in> live" for b
  proof
    assume "fst b = st"
    moreover have "0 < snd b" using inv that by (auto simp: alloc_inv_def)
    ultimately have "st \<in> blk b \<inter> blk (st, n)" using n by (simp add: blk_def)
    then show False using disj [OF that] by blast
  qed
  show "alloc_inv (insert (st, n) live)
           (s\<lparr>bitmap_freePages := map (\<lambda>i. if i < st + n then False else bitmap_freePages s ! i)
                                    [0 ..< length (bitmap_freePages s)],
              bitmap_sizePages := (bitmap_sizePages s)[st := n]\<rparr>)"
  proof -
    have "(bitmap_sizePages s)[st := n] ! fst b = snd b" if "b \<in> live" for b
      using inv ne [OF that] that by (simp add: alloc_inv_def)
    then show ?thesis
      using inv top n st disj alloc_inv_bound(1) [OF inv] unfolding alloc_inv_def
      by (auto simp: blk_def)
  qed
qed

lemma alloc_inv_steal:
  assumes inv: "alloc_inv live s" and n: "0 < n" and fits: "firstpaddr s + n * PAGE_SIZE \<le> lastpaddr s"
  defines "q \<equiv> firstpaddr s div PAGE_SIZE"
  shows "alloc_inv (insert (q, n) live)
           (s\<lparr>firstpaddr := firstpaddr s + n * PAGE_SIZE,
              bitmap_sizePages := (bitmap_sizePages s)[q := n]\<rparr>)"
    and "\<And>b. b \<in> live \<Longrightarrow> blk b \<inter> blk (q, n) = {}"
proof -
  have q: "firstpaddr s = q * PAGE_SIZE" "0 < q"
    using alloc_inv_bound(3) [OF inv] inv by (auto simp: q_def alloc_inv_def)
  have qn: "(firstpaddr s + n * PAGE_SIZE) div PAGE_SIZE = q + n" using q(1) by simp
  have le: "q + n \<le> number_ram_pages s"
    using div_le_mono [OF fits, of PAGE_SIZE] inv unfolding qn by (simp add: alloc_inv_def)
  have below: "0 < snd b \<and> fst b + snd b \<le> q" if "b \<in> live" for b
    using inv that by (auto simp: alloc_inv_def q_def)
  show disj: "\<And>b. b \<in> live \<Longrightarrow> blk b \<inter> blk (q, n) = {}"
    using below by (fastforce simp: blk_def)
  have sz: "(bitmap_sizePages s)[q := n] ! fst b = snd b" if "b \<in> live" for b
    using inv below [OF that] that by (auto simp: alloc_inv_def)
  have fresh: "\<not> bitmap_freePages s ! i" if "i \<in> blk (q, n)" for i
    using alloc_inv_free [OF inv, of i] that le by (auto simp: blk_def q_def)
  have pairs: "\<forall>b \<in> insert (q, n) live. \<forall>c \<in> insert (q, n) live. b \<noteq> c \<longrightarrow> blk b \<inter> blk c = {}"
    using inv disj unfolding alloc_inv_def by blast
  show "alloc_inv (insert (q, n) live)
           (s\<lparr>firstpaddr := firstpaddr s + n * PAGE_SIZE,
              bitmap_sizePages := (bitmap_sizePages s)[q := n]\<rparr>)"
    unfolding alloc_inv_def
  proof (intro conjI)
    show "\<forall>b\<in>insert (q, n) live. \<forall>c\<in>insert (q, n) live. b \<noteq> c \<longrightarrow> blk b \<inter> blk c = {}"
      by (rule pairs)
    let ?s = "s\<lparr>firstpaddr := firstpaddr s + n * PAGE_SIZE,
                bitmap_sizePages := (bitmap_sizePages s)[q := n]\<rparr>"
    show "\<forall>i < number_ram_pages ?s. bitmap_freePages ?s ! i \<longrightarrow>
        0 < i \<and> i < firstpaddr ?s div PAGE_SIZE"
    proof (intro allI impI)
      fix i assume "i < number_ram_pages ?s" "bitmap_freePages ?s ! i"
      then have "0 < i \<and> i < q" using alloc_inv_free [OF inv, of i] by (simp add: q_def)
      then show "0 < i \<and> i < firstpaddr ?s div PAGE_SIZE" using qn by simp
    qed
    show "\<forall>b\<in>insert (q, n) live. 0 < fst b \<and> 0 < snd b \<and>
        fst b + snd b \<le> firstpaddr ?s div PAGE_SIZE \<and> bitmap_sizePages ?s ! fst b = snd b \<and>
        (\<forall>i\<in>blk b. \<not> bitmap_freePages ?s ! i)"
    proof
      fix b assume b: "b \<in> insert (q, n) live"
      have len: "q < length (bitmap_sizePages s)" using inv le n by (simp add: alloc_inv_def)
      show "0 < fst b \<and> 0 < snd b \<and> fst b + snd b \<le> firstpaddr ?s div PAGE_SIZE \<and>
          bitmap_sizePages ?s ! fst b = snd b \<and> (\<forall>i\<in>blk b. \<not> bitmap_freePages ?s ! i)"
      proof (cases "b = (q, n)")
        case True
        then show ?thesis using q(2) n qn len fresh by simp
      next
        case False
        then have b': "b \<in> live" using b by simp
        have nf: "\<forall>i\<in>blk b. \<not> bitmap_freePages s ! i" using inv b' by (simp add: alloc_inv_def)
        show ?thesis using alloc_inv_live [OF inv b'] below [OF b'] sz [OF b'] nf qn by simp
      qed
    qed
    show "firstpaddr ?s mod PAGE_SIZE = 0" using q(1) by simp
  qed (use inv fits in \<open>simp_all add: alloc_inv_def\<close>)
qed

lemma getfreeppages_none:
  assumes "alloc_inv live s" "getfreeppages_scan (bitmap_freePages s) (number_ram_pages s) n 0 (- 1) = - 1"
  shows "getfreeppages n s = (s, 0)"
  using assms by (simp add: getfreeppages_def)

lemma getppages_ok:
  assumes inv: "alloc_inv live s" and n: "0 < n" "n < 2 ^ 19" and get: "getppages n s = (s', a)"
  shows "if a = 0 then s' = s \<and> firstpaddr s + n * PAGE_SIZE > lastpaddr s
         else a mod PAGE_SIZE = 0 \<and> alloc_inv (insert (a div PAGE_SIZE, n) live) s' \<and>
              (\<forall>b \<in> live. blk b \<inter> blk (a div PAGE_SIZE, n) = {}) \<and>
              a + n * PAGE_SIZE \<le> lastpaddr s' \<and> lastpaddr s' = lastpaddr s \<and>
              phys s' = phys s \<and> tlb s' = tlb s"
proof -
  let ?r = "getfreeppages_scan (bitmap_freePages s) (number_ram_pages s) n 0 (- 1)"
  have act: "isTableActive s" using inv by (simp add: alloc_inv_def isTableActive_def)
  show ?thesis
  proof (cases "?r = - 1")
    case True
    note none = getfreeppages_none [OF inv True]
    have b: "firstpaddr s \<le> 512 * 1024 * 1024" "0 < firstpaddr s" using inv by (auto simp: alloc_inv_def)
    have m: "(n * PAGE_SIZE) mod 2 ^ 32 = n * PAGE_SIZE"
      "(firstpaddr s + n * PAGE_SIZE) mod 2 ^ 32 = firstpaddr s + n * PAGE_SIZE"
      using n b by simp_all
    show ?thesis
    proof (cases "firstpaddr s + n * PAGE_SIZE > lastpaddr s")
      case True
      then show ?thesis using none get m by (simp add: getppages_def ram_stealmem_def)
    next
      case False
      then have fits: "firstpaddr s + n * PAGE_SIZE \<le> lastpaddr s" by simp
      have "a = firstpaddr s \<and> s' = s\<lparr>firstpaddr := firstpaddr s + n * PAGE_SIZE,
              bitmap_sizePages := (bitmap_sizePages s)[firstpaddr s div PAGE_SIZE := n]\<rparr>"
        using none get m False b act by (auto simp: getppages_def ram_stealmem_def isTableActive_def)
      then show ?thesis
        using alloc_inv_steal [OF inv n(1) fits] fits b inv by (simp add: alloc_inv_def)
    qed
  next
    case False
    have s0: "scan_inv (bitmap_freePages s) n 0 (- 1)" by (simp add: scan_inv_def)
    define st where "st = nat ?r"
    have st: "?r = int st" "st + n \<le> number_ram_pages s"
      "\<And>j. st \<le> j \<Longrightarrow> j < st + n \<Longrightarrow> bitmap_freePages s ! j"
      using scan_sound [OF s0 n(1) refl False] by (auto simp: st_def)
    have free: "\<And>i. i \<in> blk (st, n) \<Longrightarrow> i < number_ram_pages s \<and> bitmap_freePages s ! i"
      using st by (auto simp: blk_def)
    have pos: "0 < st" using alloc_inv_free [OF inv, of st] st(2,3) n(1) by simp
    have small: "st * PAGE_SIZE < 2 ^ 32"
      using st(2) alloc_inv_bound(2) [OF inv] n(1) by simp
    let ?s = "s\<lparr>bitmap_freePages := map (\<lambda>i. if i < st + n then False else bitmap_freePages s ! i)
                                      [0 ..< length (bitmap_freePages s)],
                bitmap_sizePages := (bitmap_sizePages s)[st := n]\<rparr>"
    have "getfreeppages n s = (?s, st * PAGE_SIZE)"
      using act st(1) False small by (simp add: getfreeppages_def)
    then have "a = st * PAGE_SIZE \<and> s' = ?s"
      using get pos act by (auto simp: getppages_def isTableActive_def)
    moreover have "st * PAGE_SIZE + n * PAGE_SIZE \<le> lastpaddr s"
      using mult_le_mono1 [OF st(2), of PAGE_SIZE] inv div_times_less_eq_dividend [of "lastpaddr s" PAGE_SIZE]
      by (simp add: alloc_inv_def algebra_simps)
    ultimately show ?thesis
      using alloc_inv_take [OF inv n(1) pos free] pos by simp
  qed
qed

lemma free_kpages_ok:
  assumes inv: "alloc_inv live s" and b: "(p, n) \<in> live"
  shows "\<exists>s'. free_kpages (p * PAGE_SIZE + MIPS_KSEG0) s = Done s' \<and>
              alloc_inv (live - {(p, n)}) s' \<and> phys s' = phys s \<and> firstpaddr s' = firstpaddr s \<and>
              (\<forall>i < number_ram_pages s. bitmap_freePages s' ! i \<longleftrightarrow>
                 bitmap_freePages s ! i \<or> i \<in> blk (p, n))"
proof -
  have p: "0 < p" "0 < n" "p + n \<le> firstpaddr s div PAGE_SIZE" "bitmap_sizePages s ! p = n"
    using inv b by (auto simp: alloc_inv_def)
  note bd = alloc_inv_bound [OF inv]
  have len: "length (bitmap_freePages s) = number_ram_pages s"
    "length (bitmap_sizePages s) = number_ram_pages s" "allocTableActive s"
    using inv by (auto simp: alloc_inv_def)
  let ?s = "freeppages (p * PAGE_SIZE) n s"
  have addr: "(p * PAGE_SIZE + MIPS_KSEG0 + 2 ^ 32 - MIPS_KSEG0) mod 2 ^ 32 = p * PAGE_SIZE"
    using p bd by simp
  have "free_kpages (p * PAGE_SIZE + MIPS_KSEG0) s = Done ?s"
    unfolding free_kpages_def addr Let_def using p bd len by (simp add: isTableActive_def)
  moreover have fp: "bitmap_freePages ?s ! i \<longleftrightarrow> bitmap_freePages s ! i \<or> i \<in> blk (p, n)"
    if "i < number_ram_pages s" for i
    using that len by (auto simp: freeppages_def isTableActive_def blk_def)
  moreover have "alloc_inv (live - {(p, n)}) ?s"
  proof -
    have other: "blk b \<inter> blk (p, n) = {}" if "b \<in> live - {(p, n)}" for b
      using inv b that unfolding alloc_inv_def by blast
    have "\<not> bitmap_freePages ?s ! i" if "c \<in> live - {(p, n)}" "i \<in> blk c" for c i
    proof -
      have "i < number_ram_pages s" using alloc_inv_live [OF inv, of c] that bd(1) by (simp add: blk_def)
      then show ?thesis using fp other [OF that(1)] inv that by (auto simp: alloc_inv_def)
    qed
    moreover have "0 < i \<and> i < firstpaddr s div PAGE_SIZE"
      if "i < number_ram_pages s" "bitmap_freePages ?s ! i" for i
      using fp [OF that(1)] that inv p by (auto simp: alloc_inv_def blk_def)
    ultimately show ?thesis
      using inv by (auto simp: alloc_inv_def freeppages_def isTableActive_def)
  qed
  moreover have "phys ?s = phys s" "firstpaddr ?s = firstpaddr s"
    by (simp_all add: freeppages_def)
  ultimately show ?thesis by blast
qed

section \<open>The contract of the frame allocator\<close>

locale page_source =
  fixes inv :: "(nat \<times> nat) set \<Rightarrow> 's \<Rightarrow> bool"
    and get :: "nat \<Rightarrow> 's \<Rightarrow> 's \<times> nat"
  assumes get_block: "inv live s \<Longrightarrow> 0 < n \<Longrightarrow> n < 2 ^ 19 \<Longrightarrow> get n s = (s', a) \<Longrightarrow> a \<noteq> 0 \<Longrightarrow>
      inv (insert (a div PAGE_SIZE, n) live) s' \<and> a mod PAGE_SIZE = 0 \<and>
      (\<forall>b \<in> live. blk b \<inter> blk (a div PAGE_SIZE, n) = {})"
    and get_none: "inv live s \<Longrightarrow> 0 < n \<Longrightarrow> n < 2 ^ 19 \<Longrightarrow> get n s = (s', a) \<Longrightarrow> a = 0 \<Longrightarrow> s' = s"
begin

lemma get_keeps:
  assumes "inv live s" "0 < n" "n < 2 ^ 19" "get n s = (s', a)"
  shows "\<exists>live'. live \<subseteq> live' \<and> inv live' s'"
  using get_block [OF assms] get_none [OF assms] assms(1)
  by (cases "a = 0") (auto intro: exI [of _ live] exI [of _ "insert (a div PAGE_SIZE, n) live"])

lemma three_blocks:
  assumes inv: "inv live s" and n: "0 < n1" "n1 < 2 ^ 19" "0 < n2" "n2 < 2 ^ 19" "0 < n3" "n3 < 2 ^ 19"
    and g: "get n1 s = (s1, p1)" "p1 \<noteq> 0" "get n2 s1 = (s2, p2)" "p2 \<noteq> 0" "get n3 s2 = (s3, p3)" "p3 \<noteq> 0"
  defines "b1 \<equiv> (p1 div PAGE_SIZE, n1)" and "b2 \<equiv> (p2 div PAGE_SIZE, n2)"
    and "b3 \<equiv> (p3 div PAGE_SIZE, n3)"
  shows "inv ({b1, b2, b3} \<union> live) s3"
    "p1 mod PAGE_SIZE = 0" "p2 mod PAGE_SIZE = 0" "p3 mod PAGE_SIZE = 0"
    "blk b1 \<inter> blk b2 = {}" "blk b1 \<inter> blk b3 = {}" "blk b2 \<inter> blk b3 = {}"
    "\<And>b c. b \<in> live \<Longrightarrow> c \<in> {b1, b2, b3} \<Longrightarrow> blk b \<inter> blk c = {}"
proof -
  note o1 = get_block [OF inv n(1,2) g(1,2), folded b1_def]
  note o2 = get_block [OF o1 [THEN conjunct1] n(3,4) g(3,4), folded b2_def]
  note o3 = get_block [OF o2 [THEN conjunct1] n(5,6) g(5,6), folded b3_def]
  show "inv ({b1, b2, b3} \<union> live) s3"
    using o3 [THEN conjunct1] by (simp add: insert_commute)
  show "p1 mod PAGE_SIZE = 0" "p2 mod PAGE_SIZE = 0" "p3 mod PAGE_SIZE = 0"
    "blk b1 \<inter> blk b2 = {}" "blk b1 \<inter> blk b3 = {}" "blk b2 \<inter> blk b3 = {}"
    "\<And>b c. b \<in> live \<Longrightarrow> c \<in> {b1, b2, b3} \<Longrightarrow> blk b \<inter> blk c = {}"
    using o1 o2 o3 by blast+
qed

end

interpretation frames: page_source alloc_inv getppages
proof
  fix live s n s' a
  assume a: "alloc_inv live s" "0 < n" "n < 2 ^ 19" "getppages n s = (s', a)"
  note ok = getppages_ok [OF a]
  show "a \<noteq> 0 \<Longrightarrow> alloc_inv (insert (a div PAGE_SIZE, n) live) s' \<and> a mod PAGE_SIZE = 0 \<and>
      (\<forall>b \<in> live. blk b \<inter> blk (a div PAGE_SIZE, n) = {})"
    using ok by simp
  show "a = 0 \<Longrightarrow> s' = s" using ok by simp
qed

section \<open>Properties\<close>

lemma scan_no_free:
  assumes "0 < n" "\<And>i. i < nram \<Longrightarrow> \<not> fp ! i"
  shows "getfreeppages_scan fp nram n 0 (- 1) = - 1"
proof (rule ccontr)
  assume "\<not> ?thesis"
  then have "nat (getfreeppages_scan fp nram n 0 (- 1)) + n \<le> nram \<and>
      fp ! nat (getfreeppages_scan fp nram n 0 (- 1))"
    using scan_sound [of fp n 0 "- 1" nram] assms(1) by (simp add: scan_inv_def)
  then show False using assms by (metis add_lessD1 add_strict_left_mono le_neq_implies_less less_add_same_cancel1 order_less_le_trans)
qed


definition boot_vm :: "nat \<Rightarrow> nat \<Rightarrow> vmstate" where
  "boot_vm used npg =
     fst (vm_bootstrap [] \<lparr>firstpaddr = used * PAGE_SIZE, lastpaddr = npg * PAGE_SIZE,
       number_ram_pages = 0, bitmap_freePages = [], bitmap_sizePages = [],
       allocTableActive = False, tlb = [], phys = (\<lambda>_. 0)\<rparr>)"

lemma boot_vm_fields [simp]:
  "firstpaddr (boot_vm u t) = u * PAGE_SIZE" "lastpaddr (boot_vm u t) = t * PAGE_SIZE"
  "number_ram_pages (boot_vm u t) = t" "bitmap_freePages (boot_vm u t) = replicate t False"
  "bitmap_sizePages (boot_vm u t) = replicate t 0" "allocTableActive (boot_vm u t)"
  "phys (boot_vm u t) = (\<lambda>_. 0)" "tlb (boot_vm u t) = []"
  by (simp_all add: boot_vm_def vm_bootstrap_def ram_getsize_def)

lemma alloc_inv_boot: "0 < u \<Longrightarrow> u \<le> t \<Longrightarrow> t \<le> 131072 \<Longrightarrow> alloc_inv {} (boot_vm u t)"
  by (simp add: alloc_inv_def)

lemma getppages_steal:
  assumes "allocTableActive s" "\<And>i. i < number_ram_pages s \<Longrightarrow> \<not> bitmap_freePages s ! i"
    and "0 < firstpaddr s" "0 < n" "firstpaddr s + n * PAGE_SIZE \<le> lastpaddr s" "lastpaddr s \<le> 0x20000000"
  shows "getppages n s =
    (s\<lparr>firstpaddr := firstpaddr s + n * PAGE_SIZE,
       bitmap_sizePages := (bitmap_sizePages s)[firstpaddr s div PAGE_SIZE := n]\<rparr>, firstpaddr s)"
  using assms scan_no_free [of n "number_ram_pages s" "bitmap_freePages s"]
  by (simp add: getppages_def getfreeppages_def isTableActive_def ram_stealmem_def)

lemma getppages_bump:
  assumes "0 < u" "0 < n" "u + n \<le> t" "t \<le> 131072"
  shows "getppages n (boot_vm u t) =
    ((boot_vm u t)\<lparr>firstpaddr := (u + n) * PAGE_SIZE, bitmap_sizePages := (replicate t 0)[u := n]\<rparr>,
     u * PAGE_SIZE)"
  using assms getppages_steal [of "boot_vm u t" n] by (simp add: distrib_right)


text \<open>
  Freeing a block gives back exactly its pages. For a block in use, \<^verbatim>\<open>free_kpages\<close> at the
  block's kernel address returns, the pages that become free are the pages of the block and no
  others, and the invariant holds with the block removed.
\<close>

theorem free_kpages_exact:
  assumes "alloc_inv live s" "(p, n) \<in> live"
  shows "\<exists>s'. free_kpages (p * PAGE_SIZE + MIPS_KSEG0) s = Done s' \<and>
              alloc_inv (live - {(p, n)}) s' \<and>
              (\<forall>i < number_ram_pages s. bitmap_freePages s' ! i \<longleftrightarrow>
                 bitmap_freePages s ! i \<or> i \<in> blk (p, n))"
  using free_kpages_ok [OF assms] by blast

theorem free_kpages_exact_witness:
  "\<exists>s s'. alloc_inv {(8, 2)} s \<and> free_kpages (8 * PAGE_SIZE + MIPS_KSEG0) s = Done s' \<and>
          bitmap_freePages s' ! 9"
proof -
  have inv: "alloc_inv {} (boot_vm 8 16)" by (rule alloc_inv_boot) simp_all
  obtain s where g: "getppages 2 (boot_vm 8 16) = (s, 8 * PAGE_SIZE)"
    by (simp add: getppages_bump)
  then have s: "alloc_inv {(8, 2)} s" "number_ram_pages s = 16"
    using getppages_ok [OF inv _ _ g] by (auto simp: getppages_bump)
  then show ?thesis using free_kpages_exact [OF s(1), of 8 2] by (auto simp: blk_def)
qed

text \<open>
  The page that is free below the block found by the search is lost: after the request it is
  neither free nor part of a block in use, because the clearing loop starts at index 0.
\<close>

theorem getfreeppages_loses_lower_pages:
  "\<exists>s s' :: vmstate. alloc_inv {} s \<and> bitmap_freePages s ! 3 \<and> getppages 2 s = (s', 5 * PAGE_SIZE) \<and>
     \<not> bitmap_freePages s' ! 3 \<and> alloc_inv {(5, 2)} s'"
proof -
  let ?s = "(boot_vm 7 8)\<lparr>bitmap_freePages := [False, False, False, True, False, True, True, False]\<rparr>"
  have inv: "alloc_inv {} ?s"
    by (auto simp: alloc_inv_def nth_Cons' split: if_splits)
  have "getfreeppages_scan (bitmap_freePages ?s) 8 2 0 (- 1) = 5"
    by (simp add: getfreeppages_scan.simps)
  moreover have "map (\<lambda>i. if i < 5 + 2 then False else bitmap_freePages ?s ! i)
      [0 ..< length (bitmap_freePages ?s)] = [False, False, False, False, False, False, False, False]"
    by (simp add: upt_rec)
  ultimately have g: "getppages 2 ?s = (?s\<lparr>
      bitmap_freePages := [False, False, False, False, False, False, False, False],
      bitmap_sizePages := (replicate 8 0)[5 := 2]\<rparr>, 5 * PAGE_SIZE)"
    by (simp add: getppages_def getfreeppages_def isTableActive_def)
  then show ?thesis
    using getppages_ok [OF inv _ _ g] inv
    by (intro exI [of _ ?s] exI [of _ "fst (getppages 2 ?s)"]) simp
qed

end
