(* ===== verification/Addrspace.thy ===== *)
theory Addrspace
  imports Vm
begin

text \<open>
  What the address spaces of \<^verbatim>\<open>dumbvm.c\<close> mean: the translation that \<^verbatim>\<open>vm_fault\<close> installs in
  the TLB, when an access to user memory succeeds, and what \<^verbatim>\<open>as_copy\<close> copies.
\<close>

section \<open>Lemmas on translation\<close>

definition as_wf :: "addrspace \<Rightarrow> bool" where
  "as_wf as \<longleftrightarrow> as_set_up as \<and>
     as_vbase1 as + as_npages1 as * PAGE_SIZE \<le> USERSTACK \<and>
     as_vbase2 as + as_npages2 as * PAGE_SIZE \<le> USERSTACK \<and>
     as_pbase1 as + as_npages1 as * PAGE_SIZE \<le> 0x20000000 \<and>
     as_pbase2 as + as_npages2 as * PAGE_SIZE \<le> 0x20000000 \<and>
     as_stackpbase as + DUMBVM_STACKPAGES * PAGE_SIZE \<le> 0x20000000"

text \<open>The physical address behind a user address, and the region and offset it lies in.\<close>

definition as_translate :: "addrspace \<Rightarrow> nat \<Rightarrow> nat option" where
  "as_translate as va = map_option (\<lambda>p. p + va mod PAGE_SIZE) (vm_fault_paddr as (page_frame va))"

definition as_region :: "addrspace \<Rightarrow> nat \<Rightarrow> (nat \<times> nat) option" where
  "as_region as va =
     (if as_vbase1 as \<le> va \<and> va < as_vbase1 as + as_npages1 as * PAGE_SIZE
      then Some (0, va - as_vbase1 as)
      else if as_vbase2 as \<le> va \<and> va < as_vbase2 as + as_npages2 as * PAGE_SIZE
      then Some (1, va - as_vbase2 as)
      else if USERSTACK - DUMBVM_STACKPAGES * PAGE_SIZE \<le> va \<and> va < USERSTACK
      then Some (2, va - (USERSTACK - DUMBVM_STACKPAGES * PAGE_SIZE))
      else None)"

definition as_base :: "addrspace \<Rightarrow> nat \<Rightarrow> nat" where
  "as_base as r = [as_pbase1 as, as_pbase2 as, as_stackpbase as] ! r"

definition as_len :: "addrspace \<Rightarrow> nat \<Rightarrow> nat" where
  "as_len as r = [as_npages1 as, as_npages2 as, DUMBVM_STACKPAGES] ! r"

definition as_blocks :: "addrspace \<Rightarrow> (nat \<times> nat) set" where
  "as_blocks as = (\<lambda>r. (as_base as r div PAGE_SIZE, as_len as r)) ` {0, 1, 2}"

lemma page_frame_le: "page_frame a \<le> a"
  by (simp add: page_frame_def)

lemma page_frame_idem [simp]: "page_frame (page_frame a) = page_frame a"
  by (simp add: page_frame_def)

lemma page_frame_plus [simp]: "page_frame a + a mod PAGE_SIZE = a"
  by (simp add: page_frame_def)

lemma page_frame_fix_iff: "page_frame a = a \<longleftrightarrow> a mod PAGE_SIZE = 0"
  by (metis page_frame_plus add_cancel_left_right)

lemma page_frame_window:
  assumes "page_frame b = b"
  shows "b \<le> page_frame va \<longleftrightarrow> b \<le> va" "page_frame va < b + n * PAGE_SIZE \<longleftrightarrow> va < b + n * PAGE_SIZE"
proof -
  define q where "q = b div PAGE_SIZE"
  have b: "b = q * PAGE_SIZE" using assms by (simp add: page_frame_def q_def)
  show "b \<le> page_frame va \<longleftrightarrow> b \<le> va"
    unfolding b page_frame_def by (simp add: less_eq_div_iff_mult_less_eq)
  have "page_frame va < (q + n) * PAGE_SIZE \<longleftrightarrow> va < (q + n) * PAGE_SIZE"
    unfolding page_frame_def mult_less_cancel2 by (simp only: div_less_iff_less_mult) simp
  then show "page_frame va < b + n * PAGE_SIZE \<longleftrightarrow> va < b + n * PAGE_SIZE"
    unfolding b by (simp add: distrib_right)
qed

lemma page_frame_add_aligned:
  "page_frame a = a \<Longrightarrow> page_frame b = b \<Longrightarrow> page_frame (a + b) = a + b"
  by (auto simp: page_frame_fix_iff)

lemma page_frame_diff_aligned:
  "page_frame a = a \<Longrightarrow> page_frame b = b \<Longrightarrow> page_frame (a - b) = a - b"
  by (simp add: page_frame_fix_iff mod_diff_right_eq dvd_diff_nat mod_eq_0_iff_dvd)

lemma less_3: "(r :: nat) < 3 \<longleftrightarrow> r = 0 \<or> r = 1 \<or> r = 2"
  by auto

lemma aligned_diff:
  assumes "page_frame b = b" "b \<le> va"
  shows "page_frame va - b = page_frame (va - b)" "(va - b) mod PAGE_SIZE = va mod PAGE_SIZE"
proof -
  obtain q d where q: "b = q * PAGE_SIZE" and d: "va = q * PAGE_SIZE + d"
    using assms by (metis page_frame_def le_iff_add)
  show "page_frame va - b = page_frame (va - b)" "(va - b) mod PAGE_SIZE = va mod PAGE_SIZE"
    unfolding q d by (simp_all add: page_frame_def)
qed

lemma vm_fault_paddr_region:
  assumes "as_wf as"
  shows "vm_fault_paddr as (page_frame va) =
    map_option (\<lambda>(r, k). as_base as r + page_frame k) (as_region as va)"
proof -
  have al: "page_frame (as_vbase1 as) = as_vbase1 as" "page_frame (as_vbase2 as) = as_vbase2 as"
    "page_frame (USERSTACK - DUMBVM_STACKPAGES * PAGE_SIZE) = USERSTACK - DUMBVM_STACKPAGES * PAGE_SIZE"
    using assms by (auto simp: as_wf_def as_set_up_def page_frame_def)
  have win: "\<And>va. page_frame va < USERSTACK \<longleftrightarrow> va < USERSTACK"
    using page_frame_window(2) [of USERSTACK _ 0] by (simp add: page_frame_def)
  have nowrap: "(as_vbase1 as + as_npages1 as * PAGE_SIZE) mod 2 ^ 32 = as_vbase1 as + as_npages1 as * PAGE_SIZE"
    "(as_vbase2 as + as_npages2 as * PAGE_SIZE) mod 2 ^ 32 = as_vbase2 as + as_npages2 as * PAGE_SIZE"
    using assms by (auto simp: as_wf_def)
  have pa: "(page_frame (va - b) + p) mod 2 ^ 32 = p + page_frame (va - b)"
    if "va < b + n" "p + n \<le> 0x20000000" "b \<le> va" for b p n
  proof -
    have "page_frame (va - b) + p < 2 ^ 32"
      using that page_frame_le [of "va - b"] by simp
    then show ?thesis by (simp add: add.commute)
  qed
  show ?thesis
    using assms aligned_diff(1) [OF al(1)] aligned_diff(1) [OF al(2)] aligned_diff(1) [OF al(3)]
      pa [of "as_vbase1 as" "as_npages1 as * PAGE_SIZE" "as_pbase1 as"]
      pa [of "as_vbase2 as" "as_npages2 as * PAGE_SIZE" "as_pbase2 as"]
      pa [of "USERSTACK - DUMBVM_STACKPAGES * PAGE_SIZE" "DUMBVM_STACKPAGES * PAGE_SIZE" "as_stackpbase as"]
    unfolding vm_fault_paddr_def Let_def as_region_def nowrap
      page_frame_window [OF al(1)] page_frame_window [OF al(2)] page_frame_window(1) [OF al(3)] win
    by (simp add: as_wf_def as_base_def)
qed

lemma as_region_bound:
  "as_region as va = Some (r, k) \<Longrightarrow> r < 3 \<and> k < as_len as r * PAGE_SIZE"
  by (auto simp: as_region_def as_len_def split: if_splits)

lemma as_region_aligned:
  assumes "as_wf as" "as_region as va = Some (r, k)"
  shows "\<exists>b. page_frame b = b \<and> b \<le> va \<and> k = va - b"
proof -
  have "page_frame (as_vbase1 as) = as_vbase1 as" "page_frame (as_vbase2 as) = as_vbase2 as"
    using assms by (auto simp: as_wf_def as_set_up_def)
  moreover have "page_frame (USERSTACK - DUMBVM_STACKPAGES * PAGE_SIZE) =
      USERSTACK - DUMBVM_STACKPAGES * PAGE_SIZE" by (simp add: page_frame_def)
  moreover consider "as_vbase1 as \<le> va" "k = va - as_vbase1 as"
    | "as_vbase2 as \<le> va" "k = va - as_vbase2 as"
    | "USERSTACK - DUMBVM_STACKPAGES * PAGE_SIZE \<le> va" "k = va - (USERSTACK - DUMBVM_STACKPAGES * PAGE_SIZE)"
    using assms(2) by (auto simp: as_region_def split: if_splits)
  ultimately show ?thesis by cases metis+
qed

lemma as_translate_region:
  assumes "as_wf as"
  shows "as_translate as va = map_option (\<lambda>(r, k). as_base as r + k) (as_region as va)"
proof -
  have mod: "page_frame k + va mod PAGE_SIZE = k" if "as_region as va = Some (r, k)" for r k
  proof -
    have "k mod PAGE_SIZE = va mod PAGE_SIZE"
      using as_region_aligned [OF assms that] aligned_diff(2) by blast
    then show ?thesis by (metis page_frame_plus)
  qed
  show ?thesis
    unfolding as_translate_def vm_fault_paddr_region [OF assms] option.map_comp
    using mod by (cases "as_region as va") (auto simp: add.assoc)
qed

section \<open>Lemmas on the TLB\<close>

text \<open>The TLB only holds translations of the current address space, each page once.\<close>

definition tlb_inv :: "addrspace \<Rightarrow> vmstate \<Rightarrow> bool" where
  "tlb_inv as s \<longleftrightarrow>
     length (tlb s) = NUM_TLB \<and>
     (\<forall>e \<in> set (tlb s). tlb_valid (snd e) \<longrightarrow>
        page_frame (fst e) = fst e \<and> vm_fault_paddr as (fst e) = Some (page_frame (snd e))) \<and>
     distinct (map fst (filter (\<lambda>e. tlb_valid (snd e)) (tlb s)))"

text \<open>The whole address space fits in the TLB.\<close>

definition as_fits_tlb :: "addrspace \<Rightarrow> bool" where
  "as_fits_tlb as \<longleftrightarrow> as_npages1 as + as_npages2 as + DUMBVM_STACKPAGES \<le> NUM_TLB"

lemma tlb_lookup_Some:
  "tlb_lookup es va = Some pa \<Longrightarrow>
     \<exists>e \<in> set es. tlb_valid (snd e) \<and> page_frame (fst e) = page_frame va \<and>
                  pa = page_frame (snd e) + va mod PAGE_SIZE"
  by (induction es va rule: tlb_lookup.induct) (auto split: if_splits)

lemma tlb_lookup_None:
  "tlb_lookup es va = None \<longleftrightarrow> (\<forall>e \<in> set es. tlb_valid (snd e) \<longrightarrow> page_frame (fst e) \<noteq> page_frame va)"
  by (induction es va rule: tlb_lookup.induct) auto

lemma tlb_fill_None: "tlb_fill e es = None \<longleftrightarrow> (\<forall>x \<in> set es. tlb_valid (snd x))"
  by (induction e es rule: tlb_fill.induct) auto

lemma tlb_fill_Some:
  "tlb_fill e es = Some es' \<Longrightarrow>
     \<exists>xs y ys. es = xs @ y # ys \<and> \<not> tlb_valid (snd y) \<and> es' = xs @ e # ys"
proof (induction e es arbitrary: es' rule: tlb_fill.induct)
  case (2 e ehi elo es)
  show ?case
  proof (cases "tlb_valid elo")
    case True
    then obtain zs where zs: "tlb_fill e es = Some zs" "es' = (ehi, elo) # zs" using 2 by auto
    then obtain xs y ys where "es = xs @ y # ys \<and> \<not> tlb_valid (snd y) \<and> zs = xs @ e # ys"
      using 2(1) True by blast
    then show ?thesis using zs by (metis append_Cons)
  qed (use 2 in force)
qed simp

lemma tlb_word:
  assumes "page_frame p = p"
  shows "tlb_valid (p + TLBLO_DIRTY + TLBLO_VALID)" "page_frame (p + TLBLO_DIRTY + TLBLO_VALID) = p"
proof -
  obtain q where "p = q * PAGE_SIZE" using assms by (metis page_frame_def)
  then show "tlb_valid (p + TLBLO_DIRTY + TLBLO_VALID)" "page_frame (p + TLBLO_DIRTY + TLBLO_VALID) = p"
    by (auto simp: tlb_valid_def page_frame_def)
qed

lemma as_activate_tlb_inv: "tlb_inv as (as_activate (Some x) s)"
  by (auto simp: tlb_inv_def as_activate_def tlb_valid_def)

lemma as_activate_phys [simp]: "phys (as_activate cur s) = phys s"
  by (simp add: as_activate_def split: option.splits)

lemma vm_fault_paddr_aligned:
  assumes "as_wf as" "vm_fault_paddr as (page_frame va) = Some p"
  shows "page_frame p = p"
proof -
  obtain r k where rk: "as_region as va = Some (r, k)" "p = as_base as r + page_frame k"
    using assms vm_fault_paddr_region by auto
  have "r = 0 \<or> r = 1 \<or> r = 2" using as_region_bound [OF rk(1)] less_3 by blast
  then have "page_frame (as_base as r) = as_base as r"
    using assms(1) by (auto simp: as_base_def as_wf_def as_set_up_def)
  then show ?thesis unfolding rk(2) by (rule page_frame_add_aligned) simp
qed

text \<open>The pages an address space maps.\<close>

definition as_pages :: "addrspace \<Rightarrow> nat set" where
  "as_pages as = {h. page_frame h = h \<and> vm_fault_paddr as h \<noteq> None}"

lemma as_pages_card:
  assumes "as_wf as"
  shows "finite (as_pages as)" "card (as_pages as) \<le> as_npages1 as + as_npages2 as + DUMBVM_STACKPAGES"
proof -
  let ?f = "\<lambda>(r, i). [as_vbase1 as, as_vbase2 as, USERSTACK - DUMBVM_STACKPAGES * PAGE_SIZE] ! r
              + i * PAGE_SIZE"
  let ?I = "({0} \<times> {..<as_npages1 as}) \<union> ({1} \<times> {..<as_npages2 as}) \<union> ({2 :: nat} \<times> {..<DUMBVM_STACKPAGES})"
  have "as_pages as \<subseteq> ?f ` ?I"
  proof
    fix h assume "h \<in> as_pages as"
    then have h: "page_frame h = h" "vm_fault_paddr as (page_frame h) \<noteq> None"
      by (auto simp: as_pages_def)
    then obtain r k where rk: "as_region as h = Some (r, k)"
      using vm_fault_paddr_region [OF assms, of h] by auto
    have "page_frame k = k"
      using as_region_aligned [OF assms rk] aligned_diff(1) h(1) by metis
    then obtain i where i: "k = i * PAGE_SIZE" by (metis page_frame_def)
    have "i < as_len as r" using as_region_bound [OF rk] i by simp
    moreover have "r = 0 \<or> r = 1 \<or> r = 2" using as_region_bound [OF rk] less_3 by blast
    moreover have "h = ?f (r, i)" using rk i by (auto simp: as_region_def split: if_splits)
    ultimately show "h \<in> ?f ` ?I"
      by (intro image_eqI [of _ _ "(r, i)"]) (auto simp: as_len_def)
  qed
  moreover have fin: "finite ?I" by simp
  moreover have "card ?I \<le> as_npages1 as + as_npages2 as + DUMBVM_STACKPAGES"
    using card_Un_le [of "{0} \<times> {..<as_npages1 as}" "{1 :: nat} \<times> {..<as_npages2 as}"]
      card_Un_le [of "({0} \<times> {..<as_npages1 as}) \<union> ({1} \<times> {..<as_npages2 as})"
        "{2 :: nat} \<times> {..<DUMBVM_STACKPAGES}"]
    by (simp add: card_cartesian_product)
  ultimately show "finite (as_pages as)"
    "card (as_pages as) \<le> as_npages1 as + as_npages2 as + DUMBVM_STACKPAGES"
    by (meson finite_imageI finite_subset, meson card_image_le card_mono finite_imageI le_trans)
qed

lemma vm_access_hit:
  assumes "tlb_inv as s" "tlb_lookup (tlb s) va = Some pa"
  shows "as_translate as va = Some pa"
  using tlb_lookup_Some [OF assms(2)] assms(1) by (auto simp: tlb_inv_def as_translate_def)

lemma tlb_inv_fill:
  assumes inv: "tlb_inv as s" and p: "vm_fault_paddr as (page_frame va) = Some p" "page_frame p = p"
    and miss: "tlb_lookup (tlb s) va = None"
    and fill: "tlb_fill (page_frame va, p + TLBLO_DIRTY + TLBLO_VALID) (tlb s) = Some es"
  shows "tlb_inv as (s\<lparr>tlb := es\<rparr>)" "tlb_lookup es va \<noteq> None"
proof -
  let ?e = "(page_frame va, p + TLBLO_DIRTY + TLBLO_VALID)"
  note w = tlb_word [OF p(2)]
  obtain xs y ys where d: "tlb s = xs @ y # ys" "\<not> tlb_valid (snd y)" "es = xs @ ?e # ys"
    using tlb_fill_Some [OF fill] by blast
  have fresh: "page_frame (fst x) \<noteq> page_frame va" if "x \<in> set (tlb s)" "tlb_valid (snd x)" for x
    using miss that by (auto simp: tlb_lookup_None)
  have al: "page_frame (fst x) = fst x" if "x \<in> set (tlb s)" "tlb_valid (snd x)" for x
    using inv that by (simp add: tlb_inv_def)
  have new: "fst x \<noteq> page_frame va" if "x \<in> set (tlb s)" "tlb_valid (snd x)" for x
    using fresh [OF that] al [OF that] by auto
  have "page_frame va \<notin> fst ` {x \<in> set xs. tlb_valid (snd x)}"
    "page_frame va \<notin> fst ` {x \<in> set ys. tlb_valid (snd x)}"
    using new unfolding d(1) by fastforce+
  then show "tlb_inv as (s\<lparr>tlb := es\<rparr>)"
    using inv p w d unfolding tlb_inv_def by simp
  show "tlb_lookup es va \<noteq> None" unfolding tlb_lookup_None using w by (auto simp: d)
qed

lemma tlb_has_room:
  assumes wf: "as_wf as" and fits: "as_fits_tlb as" and inv: "tlb_inv as s"
    and p: "vm_fault_paddr as (page_frame va) \<noteq> None" and miss: "tlb_lookup (tlb s) va = None"
  shows "\<exists>x \<in> set (tlb s). \<not> tlb_valid (snd x)"
proof (rule ccontr)
  assume "\<not> ?thesis"
  then have valid: "\<forall>x \<in> set (tlb s). tlb_valid (snd x)" by blast
  then have all: "filter (\<lambda>e. tlb_valid (snd e)) (tlb s) = tlb s" by (simp add: filter_id_conv)
  let ?H = "fst ` set (tlb s)"
  have "card ?H = NUM_TLB"
    using inv all by (metis (no_types, lifting) distinct_card length_map set_map tlb_inv_def)
  moreover have "insert (page_frame va) ?H \<subseteq> as_pages as"
    using inv p valid by (auto simp: tlb_inv_def as_pages_def)
  moreover have "page_frame va \<notin> ?H"
    using miss inv valid by (fastforce simp: tlb_lookup_None tlb_inv_def)
  ultimately have "Suc NUM_TLB \<le> card (as_pages as)"
    by (metis as_pages_card(1) [OF wf] card_insert_disjoint card_mono finite_imageI finite_set)
  then show False using as_pages_card(2) [OF wf] fits by (simp add: as_fits_tlb_def)
qed

lemma vm_access_correct:
  assumes wf: "as_wf as" and fits: "as_fits_tlb as" and inv: "tlb_inv as s"
  shows "case as_translate as va of
           None \<Rightarrow> vm_access (Some as) va s = Done None
         | Some pa \<Rightarrow> \<exists>es. vm_access (Some as) va s = Done (Some (s\<lparr>tlb := es\<rparr>, pa)) \<and>
                            tlb_inv as (s\<lparr>tlb := es\<rparr>)"
proof (cases "tlb_lookup (tlb s) va")
  case (Some pa)
  moreover have "s\<lparr>tlb := tlb s\<rparr> = s" by simp
  ultimately show ?thesis
    using vm_access_hit [OF inv Some] inv by (auto simp: vm_access_def intro!: exI [of _ "tlb s"])
next
  case miss: None
  have su: "as_set_up as" using wf by (simp add: as_wf_def)
  show ?thesis
  proof (cases "vm_fault_paddr as (page_frame va)")
    case None
    then show ?thesis using miss su by (simp add: vm_access_def vm_fault_def as_translate_def)
  next
    case (Some p)
    note al = vm_fault_paddr_aligned [OF wf Some]
    obtain es where es: "tlb_fill (page_frame va, p + TLBLO_DIRTY + TLBLO_VALID) (tlb s) = Some es"
      using tlb_has_room [OF wf fits inv _ miss] Some tlb_fill_None by (metis not_None_eq)
    note i = tlb_inv_fill [OF inv Some al miss es]
    obtain pa where pa: "tlb_lookup es va = Some pa" using i(2) by blast
    then have "as_translate as va = Some pa" using vm_access_hit [OF i(1)] by simp
    then show ?thesis
      using miss su Some al es pa i(1) by (auto simp: vm_access_def vm_fault_def)
  qed
qed

section \<open>Lemmas on copying\<close>

lemma mem_move_in: "k < n \<Longrightarrow> mem_move dst src n m (dst + k) = m (src + k)"
  by (simp add: mem_move_def)

lemma in_block_iff:
  assumes "p mod PAGE_SIZE = 0"
  shows "a div PAGE_SIZE \<in> blk (p div PAGE_SIZE, n) \<longleftrightarrow> p \<le> a \<and> a < p + n * PAGE_SIZE"
proof -
  obtain q where q: "p = q * PAGE_SIZE" using assms by (metis div_mult_mod_eq add.right_neutral)
  have "q \<le> a div PAGE_SIZE \<longleftrightarrow> q * PAGE_SIZE \<le> a" by (simp add: less_eq_div_iff_mult_less_eq)
  moreover have "a div PAGE_SIZE < q + n \<longleftrightarrow> a < (q + n) * PAGE_SIZE"
    by (simp add: div_less_iff_less_mult)
  ultimately show ?thesis unfolding q by (simp add: blk_def distrib_right)
qed

lemma mem_move_out:
  "dst mod PAGE_SIZE = 0 \<Longrightarrow> a div PAGE_SIZE \<notin> blk (dst div PAGE_SIZE, n) \<Longrightarrow>
     mem_move dst src (n * PAGE_SIZE) m a = m a"
  using in_block_iff [of dst a n] by (auto simp: mem_move_def)

lemma mem_set_out:
  "dst mod PAGE_SIZE = 0 \<Longrightarrow> a div PAGE_SIZE \<notin> blk (dst div PAGE_SIZE, n) \<Longrightarrow>
     mem_set dst (n * PAGE_SIZE) c m a = m a"
  using in_block_iff [of dst a n] by (auto simp: mem_set_def)

lemma as_prepare_load_ok:
  assumes inv: "alloc_inv live s"
    and np: "0 < as_npages1 as" "as_npages1 as < 2 ^ 19" "0 < as_npages2 as" "as_npages2 as < 2 ^ 19"
    and load: "as_prepare_load as s = Done (s', Inr new)"
  shows "alloc_inv (as_blocks new \<union> live) s'"
    "\<And>b c. b \<in> live \<Longrightarrow> c \<in> as_blocks new \<Longrightarrow> blk b \<inter> blk c = {}"
    "\<And>r. r < 3 \<Longrightarrow> as_base new r mod PAGE_SIZE = 0 \<and> as_base new r \<noteq> 0"
    "\<And>r q. r < 3 \<Longrightarrow> q < 3 \<Longrightarrow> r \<noteq> q \<Longrightarrow>
        blk (as_base new r div PAGE_SIZE, as_len new r) \<inter> blk (as_base new q div PAGE_SIZE, as_len new q) = {}"
    "as_vbase1 new = as_vbase1 as" "as_npages1 new = as_npages1 as"
    "as_vbase2 new = as_vbase2 as" "as_npages2 new = as_npages2 as"
    "\<And>a. (\<And>c. c \<in> as_blocks new \<Longrightarrow> a div PAGE_SIZE \<notin> blk c) \<Longrightarrow> phys s' a = phys s a"
    "\<And>a c. c \<in> as_blocks new \<Longrightarrow> a div PAGE_SIZE \<in> blk c \<Longrightarrow> phys s' a = 0"
proof -
  obtain s1 p1 s2 p2 s3 p3 where g: "getppages (as_npages1 as) s = (s1, p1)" "p1 \<noteq> 0"
    "getppages (as_npages2 as) s1 = (s2, p2)" "p2 \<noteq> 0"
    "getppages DUMBVM_STACKPAGES s2 = (s3, p3)" "p3 \<noteq> 0"
    and s': "s' = as_zero_region p3 DUMBVM_STACKPAGES
               (as_zero_region p2 (as_npages2 as) (as_zero_region p1 (as_npages1 as) s3))"
    and new: "new = as\<lparr>as_pbase1 := p1, as_pbase2 := p2, as_stackpbase := p3\<rparr>"
    using load by (auto simp: as_prepare_load_def Let_def split: if_splits prod.splits)
  have sp: "(0 :: nat) < DUMBVM_STACKPAGES" "DUMBVM_STACKPAGES < 2 ^ 19" by simp_all
  note three = frames.three_blocks [OF inv np sp g]
  have blocks: "as_blocks new = {(p1 div PAGE_SIZE, as_npages1 as), (p2 div PAGE_SIZE, as_npages2 as),
      (p3 div PAGE_SIZE, DUMBVM_STACKPAGES)}"
    by (simp add: as_blocks_def as_base_def as_len_def new)
  have i1: "alloc_inv (insert (p1 div PAGE_SIZE, as_npages1 as) live) s1"
    using frames.get_block [OF inv np(1,2) g(1,2)] by blast
  then have i2: "alloc_inv (insert (p2 div PAGE_SIZE, as_npages2 as)
      (insert (p1 div PAGE_SIZE, as_npages1 as) live)) s2"
    using frames.get_block [OF _ np(3,4) g(3,4)] by blast
  have ph: "phys s3 = phys s"
    using getppages_ok [OF inv np(1,2) g(1)] getppages_ok [OF i1 np(3,4) g(3)]
      getppages_ok [OF i2 sp g(5)] g by simp
  show "alloc_inv (as_blocks new \<union> live) s'"
    using three(1) by (simp add: blocks s' as_zero_region_def alloc_inv_def)
  show "\<And>b c. b \<in> live \<Longrightarrow> c \<in> as_blocks new \<Longrightarrow> blk b \<inter> blk c = {}"
    using three(8) unfolding blocks by blast
  show "\<And>r. r < 3 \<Longrightarrow> as_base new r mod PAGE_SIZE = 0 \<and> as_base new r \<noteq> 0"
    using three(2-4) g by (auto simp: less_3 as_base_def new)
  show "\<And>r q. r < 3 \<Longrightarrow> q < 3 \<Longrightarrow> r \<noteq> q \<Longrightarrow>
        blk (as_base new r div PAGE_SIZE, as_len new r) \<inter> blk (as_base new q div PAGE_SIZE, as_len new q) = {}"
    using three(5-7) by (auto simp: less_3 as_base_def as_len_def new)
  show "as_vbase1 new = as_vbase1 as" "as_npages1 new = as_npages1 as"
    "as_vbase2 new = as_vbase2 as" "as_npages2 new = as_npages2 as"
    by (simp_all add: new)
  show "\<And>a. (\<And>c. c \<in> as_blocks new \<Longrightarrow> a div PAGE_SIZE \<notin> blk c) \<Longrightarrow> phys s' a = phys s a"
    unfolding blocks s' using three(2-4) mem_set_out [of p1 _ "as_npages1 as"]
      mem_set_out [of p2 _ "as_npages2 as"] mem_set_out [of p3 _ DUMBVM_STACKPAGES]
    by (simp add: as_zero_region_def ph)
  show "\<And>a c. c \<in> as_blocks new \<Longrightarrow> a div PAGE_SIZE \<in> blk c \<Longrightarrow> phys s' a = 0"
    unfolding blocks s' using in_block_iff [OF three(2)] in_block_iff [OF three(3)]
      in_block_iff [OF three(4)]
    by (auto simp: as_zero_region_def mem_set_def)
qed

lemma in_as_blockI:
  assumes "k < as_len as r * PAGE_SIZE" "as_base as r mod PAGE_SIZE = 0"
  shows "(as_base as r + k) div PAGE_SIZE \<in> blk (as_base as r div PAGE_SIZE, as_len as r)"
  using assms by (simp only: in_block_iff) simp

lemma as_blocksI: "r < 3 \<Longrightarrow> (as_base as r div PAGE_SIZE, as_len as r) \<in> as_blocks as"
  unfolding as_blocks_def by (rule imageI) (auto simp: less_3)

lemma as_wf_base:
  "as_wf as \<Longrightarrow> r < 3 \<Longrightarrow> as_base as r mod PAGE_SIZE = 0"
  unfolding less_3 by (auto simp: as_wf_def as_set_up_def as_base_def page_frame_fix_iff mod_eq_0_iff_dvd)

lemma alloc_inv_block_top:
  assumes "alloc_inv live s" "(p div PAGE_SIZE, n) \<in> live" "p mod PAGE_SIZE = 0"
  shows "p + n * PAGE_SIZE \<le> 0x20000000"
proof -
  have "p div PAGE_SIZE + n \<le> firstpaddr s div PAGE_SIZE"
    using alloc_inv_live [OF assms(1,2)] by simp
  then have "(p div PAGE_SIZE + n) * PAGE_SIZE \<le> firstpaddr s"
    using alloc_inv_bound(3) [OF assms(1)] by (metis mult_le_mono1)
  moreover have "firstpaddr s \<le> 0x20000000" using assms(1) by (simp add: alloc_inv_def)
  ultimately show ?thesis using assms(3) by (simp add: distrib_right mod_0_imp_dvd)
qed

lemma as_copy_Inr:
  assumes "as_copy old al s = Done (s', al', Inr new)"
  obtains blank s1 where
    "as_prepare_load blank s = Done (s1, Inr new)"
    "as_vbase1 blank = as_vbase1 old" "as_npages1 blank = as_npages1 old"
    "as_vbase2 blank = as_vbase2 old" "as_npages2 blank = as_npages2 old"
    "s' = s1\<lparr>phys :=
         mem_move (as_stackpbase new) (as_stackpbase old) (DUMBVM_STACKPAGES * PAGE_SIZE)
           (mem_move (as_pbase2 new) (as_pbase2 old) (as_npages2 old * PAGE_SIZE)
             (mem_move (as_pbase1 new) (as_pbase1 old) (as_npages1 old * PAGE_SIZE) (phys s1)))\<rparr>"
proof -
  obtain o0 al1 where c: "as_create al = (o0, al1)" by fastforce
  then obtain new0 where o0: "o0 = Some new0" using assms by (cases o0) (auto simp: as_copy_def)
  let ?blank = "new0\<lparr>as_vbase1 := as_vbase1 old, as_npages1 := as_npages1 old,
                     as_vbase2 := as_vbase2 old, as_npages2 := as_npages2 old\<rparr>"
  obtain s1 r where p: "as_prepare_load ?blank s = Done (s1, r)"
    using assms c o0 by (auto simp: as_copy_def)
  then obtain x where "r = Inr x" using assms c o0 by (cases r) (auto simp: as_copy_def)
  then show thesis
    using assms c o0 p by (intro that [of ?blank s1]) (auto simp: as_copy_def)
qed

lemma as_copy_ok:
  assumes inv: "alloc_inv live s" and wf: "as_wf old" and own: "as_blocks old \<subseteq> live"
    and cp: "as_copy old al s = Done (s', al', Inr new)"
  shows "as_wf new" "alloc_inv (as_blocks new \<union> live) s'"
    "\<And>b c. b \<in> live \<Longrightarrow> c \<in> as_blocks new \<Longrightarrow> blk b \<inter> blk c = {}"
    "as_region new = as_region old"
    "\<And>va r k. as_region old va = Some (r, k) \<Longrightarrow> phys s' (as_base new r + k) = phys s (as_base old r + k)"
    "\<And>a. (\<And>c. c \<in> as_blocks new \<Longrightarrow> a div PAGE_SIZE \<notin> blk c) \<Longrightarrow> phys s' a = phys s a"
proof -
  obtain blank s1 where pl: "as_prepare_load blank s = Done (s1, Inr new)"
    and bl: "as_vbase1 blank = as_vbase1 old" "as_npages1 blank = as_npages1 old"
      "as_vbase2 blank = as_vbase2 old" "as_npages2 blank = as_npages2 old"
    and s': "s' = s1\<lparr>phys :=
         mem_move (as_stackpbase new) (as_stackpbase old) (DUMBVM_STACKPAGES * PAGE_SIZE)
           (mem_move (as_pbase2 new) (as_pbase2 old) (as_npages2 old * PAGE_SIZE)
             (mem_move (as_pbase1 new) (as_pbase1 old) (as_npages1 old * PAGE_SIZE) (phys s1)))\<rparr>"
    using as_copy_Inr [OF cp] by metis
  have np: "0 < as_npages1 blank" "as_npages1 blank < 2 ^ 19" "0 < as_npages2 blank" "as_npages2 blank < 2 ^ 19"
    using wf bl by (auto simp: as_wf_def as_set_up_def)
  note ok = as_prepare_load_ok [OF inv np pl]
  have lay: "as_vbase1 new = as_vbase1 old" "as_npages1 new = as_npages1 old"
    "as_vbase2 new = as_vbase2 old" "as_npages2 new = as_npages2 old"
    using ok(5-8) bl by simp_all
  then have len: "as_len new = as_len old" by (simp add: as_len_def fun_eq_iff)
  show inv': "alloc_inv (as_blocks new \<union> live) s'" using ok(1) by (simp add: s' alloc_inv_def)
  have top: "as_base new r + as_len new r * PAGE_SIZE \<le> 0x20000000" if "r < 3" for r
    using as_blocksI [OF that, of new] ok(3) [OF that] by (intro alloc_inv_block_top [OF ok(1)]) simp_all
  show "as_wf new"
    using wf lay ok(3) [of 0] ok(3) [of 1] ok(3) [of 2] top [of 0] top [of 1] top [of 2]
    by (simp add: as_wf_def as_set_up_def as_base_def as_len_def page_frame_fix_iff)
  show disj: "\<And>b c. b \<in> live \<Longrightarrow> c \<in> as_blocks new \<Longrightarrow> blk b \<inter> blk c = {}" by (rule ok(2))
  show "as_region new = as_region old" using lay by (simp add: as_region_def fun_eq_iff)
  have out: "phys s' a = phys s1 a" if "\<And>c. c \<in> as_blocks new \<Longrightarrow> a div PAGE_SIZE \<notin> blk c" for a
    using that as_blocksI [of 0 new] as_blocksI [of 1 new] as_blocksI [of 2 new]
      ok(3) [of 0] ok(3) [of 1] ok(3) [of 2] lay
      mem_move_out [of "as_pbase1 new" a "as_npages1 new"] mem_move_out [of "as_pbase2 new" a "as_npages2 new"]
      mem_move_out [of "as_stackpbase new" a DUMBVM_STACKPAGES]
    by (simp add: s' as_base_def as_len_def)
  show keep: "\<And>a. (\<And>c. c \<in> as_blocks new \<Longrightarrow> a div PAGE_SIZE \<notin> blk c) \<Longrightarrow> phys s' a = phys s a"
    using out ok(9) by simp
  show "phys s' (as_base new r + k) = phys s (as_base old r + k)"
    if rk: "as_region old va = Some (r, k)" for va r k
  proof -
    have r: "r < 3" "k < as_len old r * PAGE_SIZE" using as_region_bound [OF rk] by simp_all
    let ?src = "as_base old r + k" and ?dst = "as_base new r + k"
    have src: "?src div PAGE_SIZE \<notin> blk c" if "c \<in> as_blocks new" for c
      using in_as_blockI [OF r(2) as_wf_base [OF wf r(1)]] as_blocksI [OF r(1), of old] own
        disj [OF _ that] by blast
    then have ph: "phys s1 ?src = phys s ?src" by (rule ok(9))
    have src': "?src div PAGE_SIZE \<notin> blk (as_base new q div PAGE_SIZE, as_len new q)" if "q < 3" for q
      using src as_blocksI [OF that] by blast
    have dst: "?dst div PAGE_SIZE \<notin> blk (as_base new q div PAGE_SIZE, as_len new q)"
      if "q < 3" "q \<noteq> r" for q
    proof -
      have "?dst div PAGE_SIZE \<in> blk (as_base new r div PAGE_SIZE, as_len new r)"
        using in_as_blockI [of k new r] r ok(3) [OF r(1)] len by simp
      then show ?thesis using ok(4) [OF r(1) that(1)] that(2) by blast
    qed
    note simps = s' as_base_def as_len_def
    from r(1) [unfolded less_3] consider "r = 0" | "r = 1" | "r = 2" by blast
    then show ?thesis
    proof cases
      case 1
      then show ?thesis
        using r(2) ph dst [of 1] dst [of 2] ok(3) [of 1] ok(3) [of 2] lay
          mem_move_out [of "as_pbase2 new" "as_pbase1 new + k" "as_npages2 new"]
          mem_move_out [of "as_stackpbase new" "as_pbase1 new + k" DUMBVM_STACKPAGES]
        by (simp add: simps mem_move_in)
    next
      case 2
      then show ?thesis
        using r(2) ph dst [of 2] src' [of 0] ok(3) [of 0] ok(3) [of 2] lay
          mem_move_out [of "as_pbase1 new" "as_pbase2 old + k" "as_npages1 new"]
          mem_move_out [of "as_stackpbase new" "as_pbase2 new + k" DUMBVM_STACKPAGES]
        by (simp add: simps mem_move_in)
    next
      case 3
      then show ?thesis
        using r(2) ph src' [of 0] src' [of 1] ok(3) [of 0] ok(3) [of 1] lay
          mem_move_out [of "as_pbase1 new" "as_stackpbase old + k" "as_npages1 new"]
          mem_move_out [of "as_pbase2 new" "as_stackpbase old + k" "as_npages2 new"]
        by (simp add: simps mem_move_in)
    qed
  qed
qed

section \<open>Properties\<close>

text \<open>
  C32. An access to user memory reaches the frame that belongs to it. For a well-formed address
  space that fits in the TLB, and a TLB that holds only translations of that address space, an
  access to any address either lands on the physical address that the layout assigns to it,
  filling the TLB if needed and changing nothing else, or faults when the layout assigns none;
  the assertions of \<^verbatim>\<open>vm_fault\<close> hold and the TLB never runs out of entries.
\<close>

theorem vm_access_translates:
  assumes "as_wf as" "as_fits_tlb as" "tlb_inv as s"
  shows "case as_region as va of
           None \<Rightarrow> vm_access (Some as) va s = Done None
         | Some (r, k) \<Rightarrow> \<exists>es. vm_access (Some as) va s =
                 Done (Some (s\<lparr>tlb := es\<rparr>, as_base as r + k)) \<and> tlb_inv as (s\<lparr>tlb := es\<rparr>)"
  using vm_access_correct [OF assms, of va] as_translate_region [OF assms(1), of va]
  by (auto split: option.splits)

definition demo_as :: addrspace where
  "demo_as = \<lparr>as_vbase1 = 0x400000, as_pbase1 = 1 * PAGE_SIZE, as_npages1 = 1,
     as_vbase2 = 0x10000000, as_pbase2 = 2 * PAGE_SIZE, as_npages2 = 1,
     as_stackpbase = 3 * PAGE_SIZE\<rparr>"

lemma demo_as_wf: "as_wf demo_as" "as_fits_tlb demo_as"
  by (simp_all add: demo_as_def as_wf_def as_set_up_def as_fits_tlb_def page_frame_def)

theorem vm_access_translates_witness:
  "\<exists>es. vm_access (Some demo_as) 0x7fffffff (as_activate (Some demo_as) (boot_vm 24 64)) =
     Done (Some (as_activate (Some demo_as) (boot_vm 24 64)\<lparr>tlb := es\<rparr>, 0x14fff))"
proof -
  have "as_region demo_as 0x7fffffff = Some (2, 0x11fff)" "as_base demo_as 2 = 0x3000"
    by (simp_all add: as_region_def demo_as_def as_base_def)
  then show ?thesis
    using vm_access_translates [where va = "0x7fffffff", OF demo_as_wf as_activate_tlb_inv
        [where as = demo_as and x = demo_as and s = "boot_vm 24 64"]]
    by auto
qed

text \<open>
  C20. \<^verbatim>\<open>as_copy\<close> makes a faithful and private copy. When it succeeds on a well-formed address
  space whose pages are allocated, the copy maps exactly the same user addresses, every byte
  of the copy equals the byte of the original at the same user address, the original is
  unchanged, and no user address of the copy shares a byte of memory with any address of the
  original or with any other block in use.
\<close>

theorem as_copy_duplicates:
  assumes inv: "alloc_inv live s" and wf: "as_wf old" and own: "as_blocks old \<subseteq> live"
    and cp: "as_copy old al s = Done (s', al', Inr new)"
  shows "as_wf new \<and> alloc_inv (as_blocks new \<union> live) s' \<and>
         (\<forall>va. (as_translate new va = None) = (as_translate old va = None)) \<and>
         (\<forall>va a b. as_translate old va = Some a \<and> as_translate new va = Some b \<longrightarrow>
            phys s' b = phys s a \<and> phys s' a = phys s a) \<and>
         (\<forall>vb b c. as_translate new vb = Some b \<and> c \<in> live \<longrightarrow> b div PAGE_SIZE \<notin> blk c)"
proof -
  note ok = as_copy_ok [OF inv wf own cp]
  note tr = as_translate_region [OF wf] as_translate_region [OF ok(1)]
  have inb: "(as_base x r + k) div PAGE_SIZE \<in> blk (as_base x r div PAGE_SIZE, as_len x r) \<and>
      (as_base x r div PAGE_SIZE, as_len x r) \<in> as_blocks x"
    if "as_wf x" "as_region x va = Some (r, k)" for x va r k
    using as_region_bound [OF that(2)] in_as_blockI [of k x r] as_wf_base [OF that(1), of r]
      as_blocksI [of r x] by simp
  have old_kept: "phys s' a = phys s a" if "as_translate old va = Some a" for va a
  proof -
    obtain r k where rk: "as_region old va = Some (r, k)" "a = as_base old r + k"
      using \<open>as_translate old va = Some a\<close> by (auto simp: tr)
    show ?thesis using inb [OF wf rk(1)] own ok(3) rk(2) by (intro ok(6)) blast
  qed
  have new_private: "b div PAGE_SIZE \<notin> blk c" if h: "as_translate new vb = Some b" "c \<in> live" for vb b c
  proof -
    obtain r k where rk: "as_region new vb = Some (r, k)" "b = as_base new r + k"
      using h(1) by (auto simp: tr)
    show ?thesis using inb [OF ok(1) rk(1)] ok(3) [OF h(2)] rk(2) by blast
  qed
  have eq: "phys s' b = phys s a" if "as_translate old va = Some a" "as_translate new va = Some b" for va a b
    using that ok(4,5) unfolding tr by (auto simp: ok(4))
  have "(as_translate new va = None) = (as_translate old va = None)" for va
    unfolding tr ok(4) by simp
  then show ?thesis using ok(1,2) old_kept new_private eq by blast
qed

definition demo_vm :: vmstate where
  "demo_vm = (boot_vm 24 64)\<lparr>bitmap_sizePages := (replicate 64 0)[1 := 1, 2 := 1, 3 := 18],
     phys := (\<lambda>a. if a = 0x1004 then 7 else 0)\<rparr>"

lemma demo_vm_inv: "alloc_inv {(1, 1), (2, 1), (3, 18)} demo_vm"
  by (auto simp: demo_vm_def alloc_inv_def blk_def)

lemma demo_copy: "\<exists>s' new. as_copy demo_as [] demo_vm = Done (s', [], Inr new) \<and> as_pbase1 new = 24 * PAGE_SIZE"
proof -
  let ?s1 = "demo_vm\<lparr>firstpaddr := 25 * PAGE_SIZE, bitmap_sizePages := (bitmap_sizePages demo_vm)[24 := 1]\<rparr>"
  let ?s2 = "?s1\<lparr>firstpaddr := 26 * PAGE_SIZE, bitmap_sizePages := (bitmap_sizePages ?s1)[25 := 1]\<rparr>"
  let ?s3 = "?s2\<lparr>firstpaddr := 44 * PAGE_SIZE, bitmap_sizePages := (bitmap_sizePages ?s2)[26 := 18]\<rparr>"
  have g: "getppages 1 demo_vm = (?s1, 24 * PAGE_SIZE)" "getppages 1 ?s1 = (?s2, 25 * PAGE_SIZE)"
    "getppages DUMBVM_STACKPAGES ?s2 = (?s3, 26 * PAGE_SIZE)"
    by (subst getppages_steal; simp add: demo_vm_def)+
  have "\<exists>s3 new. as_prepare_load (demo_as\<lparr>as_pbase1 := 0, as_pbase2 := 0, as_stackpbase := 0\<rparr>) demo_vm =
      Done (s3, Inr new) \<and> as_pbase1 new = 24 * PAGE_SIZE"
    using g by (simp add: as_prepare_load_def demo_as_def)
  then show ?thesis by (auto simp: as_copy_def as_create_def demo_as_def)
qed

theorem as_copy_duplicates_witness:
  "\<exists>s' new. as_copy demo_as [] demo_vm = Done (s', [], Inr new) \<and> as_translate new 0x400004 \<noteq> None \<and>
     phys s' (24 * PAGE_SIZE + 4) = 7"
proof -
  obtain s' new where cp: "as_copy demo_as [] demo_vm = Done (s', [], Inr new)"
    and p1: "as_pbase1 new = 24 * PAGE_SIZE"
    using demo_copy by blast
  have own: "as_blocks demo_as \<subseteq> {(1, 1), (2, 1), (3, 18)}"
    by (auto simp: as_blocks_def as_base_def as_len_def demo_as_def)
  note dup = as_copy_duplicates [OF demo_vm_inv demo_as_wf(1) own cp]
  have old: "as_translate demo_as 0x400004 = Some 0x1004"
    unfolding as_translate_region [OF demo_as_wf(1)] by (simp add: as_region_def demo_as_def as_base_def)
  then obtain b where b: "as_translate new 0x400004 = Some b" using dup by fastforce
  note ok = as_copy_ok(1,4) [OF demo_vm_inv demo_as_wf(1) own cp]
  have "b = 24 * PAGE_SIZE + 4"
    using b p1 unfolding as_translate_region [OF ok(1)] ok(2)
    by (simp add: as_region_def demo_as_def as_base_def)
  moreover have "phys s' b = phys demo_vm 0x1004" using dup old b by blast
  ultimately show ?thesis using cp b by (auto simp: demo_vm_def)
qed

text \<open>
  \<^verbatim>\<open>as_define_region\<close> covers the requested range with whole pages and nothing more. For a
  range that lies below the top of user space, the first free region slot is set to the page
  of the start address, its pages contain the whole range, and one page fewer would not; the
  other slot is unchanged. With both slots in use the call fails with \<open>ENOSYS\<close>.
\<close>

theorem as_define_region_covers:
  assumes "vaddr + sz \<le> USERSTACK" "0 < sz"
  shows "case as_define_region as vaddr sz of
      Inl e \<Rightarrow> e = ENOSYS \<and> as_vbase1 as \<noteq> 0 \<and> as_vbase2 as \<noteq> 0
    | Inr new \<Rightarrow> \<exists>base n. base = page_frame vaddr \<and> vaddr + sz \<le> base + n * PAGE_SIZE \<and>
        base + (n - 1) * PAGE_SIZE < vaddr + sz \<and>
        (if as_vbase1 as = 0 then new = as\<lparr>as_vbase1 := base, as_npages1 := n\<rparr>
         else as_vbase2 as = 0 \<and> new = as\<lparr>as_vbase2 := base, as_npages2 := n\<rparr>)"
proof -
  define len where "len = sz + vaddr mod PAGE_SIZE"
  define n where "n = (len + PAGE_SIZE - 1) div PAGE_SIZE"
  have lt: "len + PAGE_SIZE - 1 < 2 ^ 32" using assms mod_less_divisor [of PAGE_SIZE vaddr]
    unfolding len_def by simp
  have end': "page_frame vaddr + len = vaddr + sz" unfolding len_def page_frame_def by simp
  have n: "len \<le> n * PAGE_SIZE" "(n - 1) * PAGE_SIZE < len"
  proof -
    have "0 < len" using assms(2) by (simp add: len_def)
    have d: "n * PAGE_SIZE + (len + PAGE_SIZE - 1) mod PAGE_SIZE = len + PAGE_SIZE - 1"
      unfolding n_def by simp
    have "(len + PAGE_SIZE - 1) mod PAGE_SIZE < PAGE_SIZE" by simp
    then show "len \<le> n * PAGE_SIZE" using d by linarith
    show "(n - 1) * PAGE_SIZE < len" using d \<open>0 < len\<close> by (cases n) simp_all
  qed
  have np: "page_frame ((((sz + vaddr mod PAGE_SIZE) mod 2 ^ 32) + PAGE_SIZE - 1) mod 2 ^ 32) div PAGE_SIZE = n"
    using lt unfolding n_def len_def by (simp add: page_frame_def)
  show ?thesis
  proof -
    have eq: "as_define_region as vaddr sz =
        (if as_vbase1 as = 0 then Inr (as\<lparr>as_vbase1 := page_frame vaddr, as_npages1 := n\<rparr>)
         else if as_vbase2 as = 0 then Inr (as\<lparr>as_vbase2 := page_frame vaddr, as_npages2 := n\<rparr>)
         else Inl ENOSYS)"
      unfolding as_define_region_def Let_def np by (rule refl)
    have fit: "vaddr + sz \<le> page_frame vaddr + n * PAGE_SIZE"
      "page_frame vaddr + (n - 1) * PAGE_SIZE < vaddr + sz"
      using n end' by linarith+
    show ?thesis unfolding eq using fit by auto
  qed
qed

theorem as_define_region_covers_witness:
  "case as_define_region (demo_as\<lparr>as_vbase1 := 0\<rparr>) 0x401ffe 4 of
     Inl e \<Rightarrow> False | Inr new \<Rightarrow> as_npages1 new = 2 \<and> as_vbase1 new = 0x401000"
  using as_define_region_covers [of "0x401ffe" 4 "demo_as\<lparr>as_vbase1 := 0\<rparr>"]
  by (simp add: as_define_region_def page_frame_def)

end
