(* ===== verification/UserMem.thy ===== *)
theory UserMem
  imports Addrspace
begin

text \<open>
  Copying between the kernel and user memory, \<^verbatim>\<open>kern/vm/copyinout.c\<close>. The code is independent
  of the machine and lists what it assumes of the memory system; here the memory system is a
  record of two operations, and the assumptions are the locale \<open>user_memory\<close>, interpreted on
  the virtual memory system. A fault that cannot be repaired makes the copy return \<open>EFAULT\<close>
  through the recovery function; what was written to user memory before it stays written.
\<close>

abbreviation "USERSPACETOP \<equiv> 0x80000000 :: nat"

text \<open>One byte load and one byte store at a user address; \<open>Done None\<close> is a fatal fault.\<close>

record 's memops =
  ld :: "nat \<Rightarrow> 's \<Rightarrow> ('s \<times> u8) option outcome"
  st :: "nat \<Rightarrow> u8 \<Rightarrow> 's \<Rightarrow> 's option outcome"

section \<open>The operations\<close>

definition copycheck :: "nat \<Rightarrow> nat \<Rightarrow> nat cres" where
  "copycheck userptr len =
     (let bot = userptr; top = (bot + len + 2 ^ 32 - 1) mod 2 ^ 32
      in if top < bot then Inl EFAULT
         else if bot \<ge> USERSPACETOP then Inl EFAULT
         else if top \<ge> USERSPACETOP then Inr (USERSPACETOP - bot)
         else Inr len)"

text \<open>The copy loops of \<^verbatim>\<open>memcpy\<close> with the user side as source or as destination.\<close>

fun read_bytes :: "'s memops \<Rightarrow> nat \<Rightarrow> nat \<Rightarrow> 's \<Rightarrow> ('s \<times> u8 list option) outcome" where
  "read_bytes M a 0 s = Done (s, Some [])"
| "read_bytes M a (Suc n) s =
     bindo (ld M a s)
       (\<lambda>r. case r of
              None \<Rightarrow> Done (s, None)
            | Some (s1, b) \<Rightarrow>
                bindo (read_bytes M (a + 1) n s1) (\<lambda>(s2, bs). Done (s2, map_option (Cons b) bs)))"

fun write_bytes :: "'s memops \<Rightarrow> nat \<Rightarrow> u8 list \<Rightarrow> 's \<Rightarrow> ('s \<times> bool) outcome" where
  "write_bytes M a [] s = Done (s, True)"
| "write_bytes M a (b # bs) s =
     bindo (st M a b s)
       (\<lambda>r. case r of
              None \<Rightarrow> Done (s, False)
            | Some s1 \<Rightarrow> write_bytes M (a + 1) bs s1)"

definition copyin :: "'s memops \<Rightarrow> nat \<Rightarrow> nat \<Rightarrow> 's \<Rightarrow> ('s \<times> u8 list cres) outcome" where
  "copyin M usersrc len s =
     (case copycheck usersrc len of
        Inl e \<Rightarrow> Done (s, Inl e)
      | Inr stoplen \<Rightarrow>
          if stoplen \<noteq> len then Done (s, Inl EFAULT)
          else bindo (read_bytes M usersrc len s)
                 (\<lambda>(s1, r). case r of
                    None \<Rightarrow> Done (s1, Inl EFAULT)
                  | Some bs \<Rightarrow> Done (s1, Inr bs)))"

definition copyout :: "'s memops \<Rightarrow> u8 list \<Rightarrow> nat \<Rightarrow> 's \<Rightarrow> ('s \<times> unit cres) outcome" where
  "copyout M src userdest s =
     (case copycheck userdest (length src) of
        Inl e \<Rightarrow> Done (s, Inl e)
      | Inr stoplen \<Rightarrow>
          if stoplen \<noteq> length src then Done (s, Inl EFAULT)
          else bindo (write_bytes M userdest src s)
                 (\<lambda>(s1, ok). Done (s1, if ok then Inr () else Inl EFAULT)))"

text \<open>
  The loop of \<^verbatim>\<open>copystr\<close> with the user side as source. \<open>n\<close> is the number of bytes that may
  still be copied, the smaller of \<^verbatim>\<open>maxlen\<close> and \<^verbatim>\<open>stoplen\<close> at the start; the outcome is a
  fault, the end of the allowance without a terminator, or the string with its terminator.
\<close>

datatype strres = StrFault | StrLong | StrOk "u8 list"

fun copystr_in :: "'s memops \<Rightarrow> nat \<Rightarrow> nat \<Rightarrow> 's \<Rightarrow> ('s \<times> strres) outcome" where
  "copystr_in M a 0 s = Done (s, StrLong)"
| "copystr_in M a (Suc n) s =
     bindo (ld M a s)
       (\<lambda>r. case r of
              None \<Rightarrow> Done (s, StrFault)
            | Some (s1, b) \<Rightarrow>
                if b = 0 then Done (s1, StrOk [0])
                else bindo (copystr_in M (a + 1) n s1)
                       (\<lambda>(s2, q). Done (s2, case q of StrOk bs \<Rightarrow> StrOk (b # bs) | _ \<Rightarrow> q)))"

definition copyinstr :: "'s memops \<Rightarrow> nat \<Rightarrow> nat \<Rightarrow> 's \<Rightarrow> ('s \<times> u8 list cres) outcome" where
  "copyinstr M usersrc len s =
     (case copycheck usersrc len of
        Inl e \<Rightarrow> Done (s, Inl e)
      | Inr stoplen \<Rightarrow>
          bindo (copystr_in M usersrc (min len stoplen) s)
            (\<lambda>(s1, q). Done (s1, case q of
                 StrFault \<Rightarrow> Inl EFAULT
               | StrLong \<Rightarrow> if stoplen < len then Inl EFAULT else Inl ENAMETOOLONG
               | StrOk bs \<Rightarrow> Inr bs)))"

text \<open>
  The same loop with the user side as destination; the result on success is the number of
  bytes copied. Running off the end of the kernel buffer \<open>src\<close> is \<open>Panic\<close>.
\<close>

fun copystr_out :: "'s memops \<Rightarrow> u8 list \<Rightarrow> nat \<Rightarrow> nat \<Rightarrow> nat \<Rightarrow> 's \<Rightarrow> ('s \<times> (bool + nat)) outcome" where
  "copystr_out M src a i 0 s = Done (s, Inl False)"
| "copystr_out M src a i (Suc n) s =
     (if length src \<le> i then Panic
      else bindo (st M (a + i) (src ! i) s)
             (\<lambda>r. case r of
                    None \<Rightarrow> Done (s, Inl True)
                  | Some s1 \<Rightarrow>
                      if src ! i = 0 then Done (s1, Inr (Suc i))
                      else copystr_out M src a (Suc i) n s1))"

definition copyoutstr :: "'s memops \<Rightarrow> u8 list \<Rightarrow> nat \<Rightarrow> nat \<Rightarrow> 's \<Rightarrow> ('s \<times> nat cres) outcome" where
  "copyoutstr M src userdest len s =
     (case copycheck userdest len of
        Inl e \<Rightarrow> Done (s, Inl e)
      | Inr stoplen \<Rightarrow>
          bindo (copystr_out M src userdest 0 (min len stoplen) s)
            (\<lambda>(s1, q). Done (s1, case q of
                 Inl True \<Rightarrow> Inl EFAULT
               | Inl False \<Rightarrow> if stoplen < len then Inl EFAULT else Inl ENAMETOOLONG
               | Inr got \<Rightarrow> Inr got)))"

section \<open>Ranges of a memory view\<close>

definition mapped :: "(nat \<Rightarrow> u8 option) \<Rightarrow> nat \<Rightarrow> nat \<Rightarrow> bool" where
  "mapped m a n \<longleftrightarrow> (\<forall>x. a \<le> x \<and> x < a + n \<longrightarrow> m x \<noteq> None)"

fun bytes_at :: "(nat \<Rightarrow> u8 option) \<Rightarrow> nat \<Rightarrow> nat \<Rightarrow> u8 list" where
  "bytes_at m a 0 = []"
| "bytes_at m a (Suc n) = the (m a) # bytes_at m (a + 1) n"

definition put_bytes :: "(nat \<Rightarrow> u8 option) \<Rightarrow> nat \<Rightarrow> u8 list \<Rightarrow> nat \<Rightarrow> u8 option" where
  "put_bytes m a bs = (\<lambda>x. if a \<le> x \<and> x < a + length bs then Some (bs ! (x - a)) else m x)"

lemma mapped_0 [simp]: "mapped m a 0"
  by (auto simp: mapped_def)

lemma mapped_Suc: "mapped m a (Suc n) \<longleftrightarrow> m a \<noteq> None \<and> mapped m (Suc a) n"
proof -
  have rng: "a \<le> x \<and> x < a + Suc n \<longleftrightarrow> x = a \<or> Suc a \<le> x \<and> x < Suc a + n" for x by auto
  show ?thesis unfolding mapped_def rng by (simp del: not_None_eq) metis
qed

lemma mapped_mono: "mapped m a n \<Longrightarrow> a \<le> b \<Longrightarrow> b + k \<le> a + n \<Longrightarrow> mapped m b k"
  by (simp add: mapped_def)

lemma length_bytes_at [simp]: "length (bytes_at m a n) = n"
  by (induction m a n rule: bytes_at.induct) auto

lemma nth_bytes_at: "i < n \<Longrightarrow> bytes_at m a n ! i = the (m (a + i))"
  by (induction m a n arbitrary: i rule: bytes_at.induct) (auto simp: nth_Cons split: nat.split)

lemma put_bytes_apply:
  "put_bytes m a bs x = (if a \<le> x \<and> x < a + length bs then Some (bs ! (x - a)) else m x)"
  by (simp add: put_bytes_def)

lemma put_bytes_Nil [simp]: "put_bytes m a [] = m"
  by (rule ext) (auto simp: put_bytes_def)

lemma put_bytes_Cons [simp]: "put_bytes m a (b # bs) = put_bytes (m(a \<mapsto> b)) (Suc a) bs"
proof
  fix x
  have "Suc a \<le> x \<Longrightarrow> (b # bs) ! (x - a) = bs ! (x - Suc a)" by (simp add: nth_Cons' Suc_le_eq)
  then show "put_bytes m a (b # bs) x = put_bytes (m(a \<mapsto> b)) (Suc a) bs x"
    by (auto simp: put_bytes_def)
qed

lemma put_bytes_dom [simp]: "mapped m a (length bs) \<Longrightarrow> put_bytes m a bs x = None \<longleftrightarrow> m x = None"
  by (auto simp: put_bytes_apply mapped_def)

lemma mapped_put_bytes: "mapped m b n \<Longrightarrow> mapped (put_bytes m a bs) b n"
  by (auto simp: mapped_def put_bytes_apply)

lemma bytes_at_put_same [simp]: "bytes_at (put_bytes m a bs) a (length bs) = bs"
  by (rule nth_equalityI) (auto simp: nth_bytes_at put_bytes_apply)

lemma bytes_at_cong: "(\<And>x. a \<le> x \<Longrightarrow> x < a + n \<Longrightarrow> m x = m' x) \<Longrightarrow> bytes_at m a n = bytes_at m' a n"
  by (rule nth_equalityI) (auto simp: nth_bytes_at)

lemma bytes_at_put_other:
  "b + n \<le> a \<or> a + length bs \<le> b \<Longrightarrow> bytes_at (put_bytes m a bs) b n = bytes_at m b n"
  by (rule bytes_at_cong) (auto simp: put_bytes_apply)

text \<open>A terminated string in memory.\<close>

definition is_str :: "(nat \<Rightarrow> u8 option) \<Rightarrow> nat \<Rightarrow> u8 list \<Rightarrow> bool" where
  "is_str m a cs \<longleftrightarrow> 0 \<notin> set cs \<and> mapped m a (Suc (length cs)) \<and> bytes_at m a (Suc (length cs)) = cs @ [0]"

lemma is_str_Nil: "is_str m a [] \<longleftrightarrow> m a = Some 0"
  by (auto simp: is_str_def mapped_Suc)

lemma is_str_Cons: "is_str m a (c # cs) \<longleftrightarrow> c \<noteq> 0 \<and> m a = Some c \<and> is_str m (Suc a) cs"
  by (auto simp: is_str_def mapped_Suc)

lemma is_str_put: "0 \<notin> set cs \<Longrightarrow> is_str (put_bytes m a (cs @ [0])) a cs"
  using bytes_at_put_same [of m a "cs @ [0]"]
  by (auto simp: is_str_def mapped_def put_bytes_apply)

lemma is_str_put_other:
  "is_str m b cs \<Longrightarrow> b + Suc (length cs) \<le> a \<or> a + length bs \<le> b \<Longrightarrow> is_str (put_bytes m a bs) b cs"
  using bytes_at_put_other [of b "Suc (length cs)" a bs m] mapped_put_bytes
  by (auto simp: is_str_def)

lemma copycheck_top:
  assumes "0 < len" "a + len \<le> (2 ^ 32 :: nat)"
  shows "(a + len + 2 ^ 32 - 1) mod 2 ^ 32 = a + len - 1"
proof -
  have "a + len + 2 ^ 32 - 1 = (a + len - 1) + 2 ^ 32" using assms(1) by simp
  then show ?thesis using assms(2) by (simp only: mod_add_self2) simp
qed

lemma copycheck_ok: "0 < len \<Longrightarrow> a + len \<le> USERSPACETOP \<Longrightarrow> copycheck a len = Inr len"
  using copycheck_top [of len a] by (simp add: copycheck_def Let_def) linarith

lemma copycheck_min:
  assumes "0 < n" "a < USERSPACETOP" "a + n \<le> 2 ^ 32"
  shows "copycheck a n = Inr (min n (USERSPACETOP - a))"
  unfolding copycheck_def Let_def copycheck_top [OF assms(1,3)] using assms by auto

text \<open>A block of length zero is refused, except that at address 0 it is shortened to user space.\<close>

lemma copycheck_empty: "a < 2 ^ 32 \<Longrightarrow> copycheck a 0 \<noteq> Inr 0"
  by (cases "a = 0") (auto simp: copycheck_def Let_def mod_if)

section \<open>What the memory system promises\<close>

locale user_memory =
  fixes M :: "'s memops"
    and inv :: "'s \<Rightarrow> bool"
    and view :: "'s \<Rightarrow> nat \<Rightarrow> u8 option"
  assumes ld_ok: "inv s \<Longrightarrow> view s a = Some b \<Longrightarrow> \<exists>s'. ld M a s = Done (Some (s', b)) \<and> inv s' \<and> view s' = view s"
    and ld_bad: "inv s \<Longrightarrow> view s a = None \<Longrightarrow> ld M a s = Done None"
    and st_ok: "inv s \<Longrightarrow> view s a \<noteq> None \<Longrightarrow> \<exists>s'. st M a c s = Done (Some s') \<and> inv s' \<and> view s' = (view s)(a \<mapsto> c)"
    and st_bad: "inv s \<Longrightarrow> view s a = None \<Longrightarrow> st M a c s = Done None"
begin

lemma read_bytes_ok:
  assumes "inv s" "mapped (view s) a n"
  shows "\<exists>s'. read_bytes M a n s = Done (s', Some (bytes_at (view s) a n)) \<and> inv s' \<and> view s' = view s"
  using assms
proof (induction n arbitrary: a s)
  case (Suc n)
  obtain b where b: "view s a = Some b" "mapped (view s) (Suc a) n"
    using Suc.prems(2) by (auto simp: mapped_Suc)
  obtain s1 where s1: "ld M a s = Done (Some (s1, b))" "inv s1" "view s1 = view s"
    using ld_ok [OF Suc.prems(1) b(1)] by blast
  then obtain s2 where "read_bytes M (Suc a) n s1 = Done (s2, Some (bytes_at (view s) (Suc a) n))"
    "inv s2" "view s2 = view s"
    using Suc.IH [of s1 "Suc a"] b(2) by auto
  then show ?case using s1(1) b(1) by simp
qed simp

lemma read_bytes_bad:
  assumes "inv s" "\<not> mapped (view s) a n"
  shows "\<exists>s'. read_bytes M a n s = Done (s', None) \<and> inv s' \<and> view s' = view s"
  using assms
proof (induction n arbitrary: a s)
  case (Suc n)
  show ?case
  proof (cases "view s a")
    case None
    then show ?thesis using ld_bad Suc.prems(1) by simp
  next
    case (Some b)
    obtain s1 where s1: "ld M a s = Done (Some (s1, b))" "inv s1" "view s1 = view s"
      using ld_ok [OF Suc.prems(1) Some] by blast
    moreover obtain s2 where "read_bytes M (Suc a) n s1 = Done (s2, None)" "inv s2" "view s2 = view s"
      using Suc.IH [of s1 "Suc a"] s1 Suc.prems(2) Some by (auto simp: mapped_Suc)
    ultimately show ?thesis by simp
  qed
qed simp

lemma write_bytes_ok:
  assumes "inv s" "mapped (view s) a (length bs)"
  shows "\<exists>s'. write_bytes M a bs s = Done (s', True) \<and> inv s' \<and> view s' = put_bytes (view s) a bs"
  using assms
proof (induction bs arbitrary: a s)
  case (Cons b bs)
  then obtain s1 where s1: "st M a b s = Done (Some s1)" "inv s1" "view s1 = (view s)(a \<mapsto> b)"
    using st_ok [OF Cons.prems(1), of a b] by (auto simp: mapped_Suc)
  have "mapped (view s1) (Suc a) (length bs)"
    using Cons.prems(2) s1(3) by (simp add: mapped_def)
  from Cons.IH [OF s1(2) this] obtain s2 where "write_bytes M (Suc a) bs s1 = Done (s2, True)"
    "inv s2" "view s2 = put_bytes (view s1) (Suc a) bs" by blast
  then show ?case using s1(1) unfolding s1(3) by simp
qed simp

lemma copyin_ok:
  assumes "inv s" "0 < n" "a + n \<le> USERSPACETOP" "mapped (view s) a n"
  shows "\<exists>s'. copyin M a n s = Done (s', Inr (bytes_at (view s) a n)) \<and> inv s' \<and> view s' = view s"
  using read_bytes_ok [OF assms(1,4)] copycheck_ok [OF assms(2,3)] by (auto simp: copyin_def)

lemma copyin_bad:
  assumes "inv s" "0 < n" "a + n \<le> USERSPACETOP" "\<not> mapped (view s) a n"
  shows "\<exists>s'. copyin M a n s = Done (s', Inl EFAULT) \<and> inv s' \<and> view s' = view s"
  using read_bytes_bad [OF assms(1,4)] copycheck_ok [OF assms(2,3)] by (auto simp: copyin_def)

lemma copyout_ok:
  assumes "inv s" "bs \<noteq> []" "a + length bs \<le> USERSPACETOP" "mapped (view s) a (length bs)"
  shows "\<exists>s'. copyout M bs a s = Done (s', Inr ()) \<and> inv s' \<and> view s' = put_bytes (view s) a bs"
  using write_bytes_ok [OF assms(1,4)] copycheck_ok [of "length bs" a] assms(2,3) by (auto simp: copyout_def)

lemma copystr_in_ok:
  assumes "inv s" "is_str (view s) a cs" "length cs < n"
  shows "\<exists>s'. copystr_in M a n s = Done (s', StrOk (cs @ [0])) \<and> inv s' \<and> view s' = view s"
  using assms
proof (induction cs arbitrary: a n s)
  case Nil
  then obtain m where "n = Suc m" by (cases n) auto
  then show ?case using ld_ok [OF Nil(1), of a 0] Nil(2) by (auto simp: is_str_Nil)
next
  case (Cons c cs)
  then obtain m where n: "n = Suc m" by (cases n) auto
  have c: "c \<noteq> 0" "view s a = Some c" "is_str (view s) (Suc a) cs"
    using Cons.prems(2) by (auto simp: is_str_Cons)
  obtain s1 where s1: "ld M a s = Done (Some (s1, c))" "inv s1" "view s1 = view s"
    using ld_ok [OF Cons.prems(1) c(2)] by blast
  then obtain s2 where "copystr_in M (Suc a) m s1 = Done (s2, StrOk (cs @ [0]))" "inv s2" "view s2 = view s"
    using Cons.IH [OF s1(2), of "Suc a" m] c(3) Cons.prems(3) n by auto
  then show ?case using s1(1) c(1) n by simp
qed

lemma copystr_in_long:
  assumes "inv s" "mapped (view s) a n" "0 \<notin> set (bytes_at (view s) a n)"
  shows "\<exists>s'. copystr_in M a n s = Done (s', StrLong) \<and> inv s' \<and> view s' = view s"
  using assms
proof (induction n arbitrary: a s)
  case (Suc n)
  obtain c where c: "view s a = Some c" "c \<noteq> 0" "mapped (view s) (Suc a) n"
    "0 \<notin> set (bytes_at (view s) (Suc a) n)"
    using Suc.prems(2,3) by (auto simp: mapped_Suc)
  obtain s1 where s1: "ld M a s = Done (Some (s1, c))" "inv s1" "view s1 = view s"
    using ld_ok [OF Suc.prems(1) c(1)] by blast
  then obtain s2 where "copystr_in M (Suc a) n s1 = Done (s2, StrLong)" "inv s2" "view s2 = view s"
    using Suc.IH [OF s1(2), of "Suc a"] c(3,4) by auto
  then show ?case using s1(1) c(2) by simp
qed simp

lemma copyinstr_ok:
  assumes "inv s" "is_str (view s) a cs" "length cs < n" "a + length cs < USERSPACETOP" "a + n \<le> 2 ^ 32"
  shows "\<exists>s'. copyinstr M a n s = Done (s', Inr (cs @ [0])) \<and> inv s' \<and> view s' = view s"
proof -
  have "copycheck a n = Inr (min n (USERSPACETOP - a))" using copycheck_min assms by simp
  moreover have "length cs < min n (USERSPACETOP - a)" using assms by simp
  ultimately show ?thesis
    using copystr_in_ok [OF assms(1,2), of "min n (USERSPACETOP - a)"] by (auto simp: copyinstr_def)
qed

lemma copyinstr_long:
  assumes "inv s" "mapped (view s) a n" "0 \<notin> set (bytes_at (view s) a n)" "0 < n" "a + n \<le> USERSPACETOP"
  shows "\<exists>s'. copyinstr M a n s = Done (s', Inl ENAMETOOLONG) \<and> inv s' \<and> view s' = view s"
  using copystr_in_long [OF assms(1-3)] copycheck_ok [OF assms(4,5)] by (auto simp: copyinstr_def)

lemma copystr_out_ok:
  assumes "inv s" "mapped (view s) (a + i) (Suc (length cs))" "length cs < n" "0 \<notin> set cs"
    and "i + length cs < length src" "take (Suc (length cs)) (drop i src) = cs @ [0]"
  shows "\<exists>s'. copystr_out M src a i n s = Done (s', Inr (i + Suc (length cs))) \<and> inv s' \<and>
              view s' = put_bytes (view s) (a + i) (cs @ [0])"
  using assms
proof (induction cs arbitrary: i n s)
  case Nil
  obtain m where n: "n = Suc m" using Nil.prems(3) by (cases n) auto
  have src: "src ! i = 0" using Nil.prems(5,6) by (simp add: take_Suc_conv_app_nth drop_eq_Nil hd_drop_conv_nth take_Suc)
  obtain s1 where "st M (a + i) 0 s = Done (Some s1)" "inv s1" "view s1 = (view s)(a + i \<mapsto> 0)"
    using st_ok [OF Nil.prems(1), of "a + i" 0] Nil.prems(2) by (auto simp: mapped_Suc)
  then show ?case using n src Nil.prems(5) by (simp add: fun_upd_def)
next
  case (Cons c cs)
  obtain m where n: "n = Suc m" using Cons.prems(3) by (cases n) auto
  have d: "drop i src = src ! i # drop (Suc i) src" using Cons.prems(5) by (simp add: Cons_nth_drop_Suc)
  have src: "src ! i = c" "take (Suc (length cs)) (drop (Suc i) src) = cs @ [0]"
    using Cons.prems(6) unfolding d by simp_all
  have c: "c \<noteq> 0" using Cons.prems(4) by auto
  obtain s1 where s1: "st M (a + i) c s = Done (Some s1)" "inv s1" "view s1 = (view s)(a + i \<mapsto> c)"
    using st_ok [OF Cons.prems(1), of "a + i" c] Cons.prems(2) by (auto simp: mapped_Suc)
  have m1: "mapped (view s1) (a + Suc i) (Suc (length cs))"
    using Cons.prems(2) unfolding s1(3) by (simp add: mapped_def)
  from Cons.IH [OF s1(2) m1, of m] obtain s2 where
    "copystr_out M src a (Suc i) m s1 = Done (s2, Inr (Suc i + Suc (length cs)))" "inv s2"
    "view s2 = put_bytes (view s1) (a + Suc i) (cs @ [0])"
    using Cons.prems n src by auto
  then show ?case using s1(1) n src(1) c Cons.prems(5) unfolding s1(3) by (simp add: fun_upd_def)
qed

lemma copyoutstr_ok:
  assumes "inv s" "src = cs @ 0 # rest" "0 \<notin> set cs" "mapped (view s) a (Suc (length cs))"
    and "length cs < n" "a + length cs < USERSPACETOP" "a + n \<le> 2 ^ 32"
  shows "\<exists>s'. copyoutstr M src a n s = Done (s', Inr (Suc (length cs))) \<and> inv s' \<and>
              view s' = put_bytes (view s) a (cs @ [0])"
proof -
  have "copycheck a n = Inr (min n (USERSPACETOP - a))" using copycheck_min assms by simp
  moreover have "length cs < min n (USERSPACETOP - a)" using assms by simp
  ultimately show ?thesis
    using copystr_out_ok [OF assms(1), of a 0 cs "min n (USERSPACETOP - a)" src] assms
    by (auto simp: copyoutstr_def)
qed

end

section \<open>The virtual memory system keeps the promises\<close>

definition vm_memops :: "addrspace option \<Rightarrow> vmstate memops" where
  "vm_memops cur =
     \<lparr>ld = (\<lambda>a s. bindo (vm_access cur a s)
              (\<lambda>r. Done (map_option (\<lambda>(s', pa). (s', phys s' pa)) r))),
      st = (\<lambda>a c s. bindo (vm_access cur a s)
              (\<lambda>r. Done (map_option (\<lambda>(s', pa). s'\<lparr>phys := (phys s')(pa := c)\<rparr>) r)))\<rparr>"

text \<open>No two user addresses share a byte of memory.\<close>

definition as_inj :: "addrspace \<Rightarrow> bool" where
  "as_inj as \<longleftrightarrow> (\<forall>va vb. as_translate as va \<noteq> None \<and> as_translate as va = as_translate as vb \<longrightarrow> va = vb)"

definition vm_user_inv :: "addrspace \<Rightarrow> vmstate \<Rightarrow> bool" where
  "vm_user_inv as s \<longleftrightarrow> as_wf as \<and> as_fits_tlb as \<and> as_inj as \<and> tlb_inv as s"

definition vm_user_view :: "addrspace \<Rightarrow> vmstate \<Rightarrow> nat \<Rightarrow> u8 option" where
  "vm_user_view as s va = map_option (phys s) (as_translate as va)"

lemma tlb_inv_phys [simp]: "tlb_inv as (s\<lparr>phys := m\<rparr>) = tlb_inv as s"
  by (simp add: tlb_inv_def)

lemma vm_user_access:
  assumes "vm_user_inv as s"
  shows "case as_translate as va of
           None \<Rightarrow> vm_access (Some as) va s = Done None
         | Some pa \<Rightarrow> \<exists>es. vm_access (Some as) va s = Done (Some (s\<lparr>tlb := es\<rparr>, pa)) \<and>
                            vm_user_inv as (s\<lparr>tlb := es\<rparr>)"
  using vm_access_correct [of as s va] assms
  by (cases "as_translate as va") (auto simp: vm_user_inv_def)

interpretation vm: user_memory "vm_memops (Some as)" "vm_user_inv as" "vm_user_view as" for as
proof
  fix s a b c
  assume inv: "vm_user_inv as s"
  note acc = vm_user_access [OF inv, of a]
  show "vm_user_view as s a = Some b \<Longrightarrow>
      \<exists>s'. ld (vm_memops (Some as)) a s = Done (Some (s', b)) \<and> vm_user_inv as s' \<and> vm_user_view as s' = vm_user_view as s"
    using acc by (auto simp: vm_memops_def vm_user_view_def fun_eq_iff)
  show "vm_user_view as s a = None \<Longrightarrow> ld (vm_memops (Some as)) a s = Done None"
    using acc by (auto simp: vm_memops_def vm_user_view_def)
  show "vm_user_view as s a = None \<Longrightarrow> st (vm_memops (Some as)) a c s = Done None"
    using acc by (auto simp: vm_memops_def vm_user_view_def)
  assume "vm_user_view as s a \<noteq> None"
  then obtain pa where pa: "as_translate as a = Some pa" by (auto simp: vm_user_view_def)
  then obtain es where es: "vm_access (Some as) a s = Done (Some (s\<lparr>tlb := es\<rparr>, pa))"
    "vm_user_inv as (s\<lparr>tlb := es\<rparr>)" using acc by auto
  let ?s = "s\<lparr>tlb := es, phys := (phys s)(pa := c)\<rparr>"
  have "vm_user_view as ?s x = ((vm_user_view as s)(a \<mapsto> c)) x" for x
  proof (cases "x = a")
    case False
    then have "as_translate as x \<noteq> Some pa"
      using inv pa unfolding vm_user_inv_def as_inj_def by (metis option.distinct(1))
    then show ?thesis using False by (cases "as_translate as x") (auto simp: vm_user_view_def)
  qed (simp add: vm_user_view_def pa)
  moreover have "vm_user_inv as ?s" using es(2) by (simp add: vm_user_inv_def tlb_inv_def)
  moreover have "st (vm_memops (Some as)) a c s = Done (Some ?s)"
    using es(1) by (simp add: vm_memops_def)
  ultimately show "\<exists>s'. st (vm_memops (Some as)) a c s = Done (Some s') \<and> vm_user_inv as s' \<and>
      vm_user_view as s' = (vm_user_view as s)(a \<mapsto> c)" by blast
qed

lemma as_region_inj:
  "as_region as va = Some (r, k) \<Longrightarrow> as_region as vb = Some (r, k) \<Longrightarrow> va = vb"
  by (auto simp: as_region_def split: if_splits)

lemma as_inj_disjoint:
  assumes wf: "as_wf as"
    and disj: "\<And>r q. r < 3 \<Longrightarrow> q < 3 \<Longrightarrow> r \<noteq> q \<Longrightarrow>
      blk (as_base as r div PAGE_SIZE, as_len as r) \<inter> blk (as_base as q div PAGE_SIZE, as_len as q) = {}"
  shows "as_inj as"
  unfolding as_inj_def
proof (intro allI impI)
  fix va vb assume "as_translate as va \<noteq> None \<and> as_translate as va = as_translate as vb"
  then obtain r k q l where r: "as_region as va = Some (r, k)" "as_region as vb = Some (q, l)"
    and eq: "as_base as r + k = as_base as q + l"
    unfolding as_translate_region [OF wf] by (cases "as_region as va"; cases "as_region as vb") auto
  have rb: "r < 3" "k < as_len as r * PAGE_SIZE" "q < 3" "l < as_len as q * PAGE_SIZE"
    using as_region_bound [OF r(1)] as_region_bound [OF r(2)] by simp_all
  have "r = q"
  proof (rule ccontr)
    assume "r \<noteq> q"
    then show False
      using disj [OF rb(1,3)] in_as_blockI [OF rb(2) as_wf_base [OF wf rb(1)]]
        in_as_blockI [OF rb(4) as_wf_base [OF wf rb(3)]] eq by auto
  qed
  then show "va = vb" using r eq as_region_inj by auto
qed

lemma demo_user_inv: "vm_user_inv demo_as (as_activate (Some demo_as) demo_vm)"
proof -
  have "as_inj demo_as"
  proof (rule as_inj_disjoint [OF demo_as_wf(1)])
    fix r q :: nat
    assume "r < 3" "q < 3" "r \<noteq> q"
    then show "blk (as_base demo_as r div PAGE_SIZE, as_len demo_as r) \<inter>
        blk (as_base demo_as q div PAGE_SIZE, as_len demo_as q) = {}"
      unfolding less_3 by (auto simp: blk_def as_base_def as_len_def demo_as_def)
  qed
  then show ?thesis using demo_as_wf as_activate_tlb_inv by (simp add: vm_user_inv_def)
qed

lemma demo_stack_mapped:
  assumes "0x7ffee000 \<le> a" "a + n \<le> USERSPACETOP"
  shows "mapped (vm_user_view demo_as s) a n"
  using assms unfolding mapped_def vm_user_view_def as_translate_region [OF demo_as_wf(1)]
  by (auto simp: as_region_def demo_as_def)

section \<open>Properties\<close>

text \<open>
  C33. What the kernel copies out, it can copy back in. For a block of user memory that is mapped
  and lies below the kernel, \<^verbatim>\<open>copyout\<close> succeeds and changes exactly the bytes of the block
  in the view the process has of its memory, and a following \<^verbatim>\<open>copyin\<close> of the same block
  returns the same bytes.
\<close>

theorem copyout_copyin:
  assumes "vm_user_inv as s" "bs \<noteq> []" "a + length bs \<le> USERSPACETOP"
    and "mapped (vm_user_view as s) a (length bs)"
  shows "\<exists>s1 s2. copyout (vm_memops (Some as)) bs a s = Done (s1, Inr ()) \<and>
           copyin (vm_memops (Some as)) a (length bs) s1 = Done (s2, Inr bs) \<and>
           vm_user_view as s1 = put_bytes (vm_user_view as s) a bs \<and>
           vm_user_view as s2 = vm_user_view as s1 \<and> vm_user_inv as s2"
proof -
  obtain s1 where s1: "copyout (vm_memops (Some as)) bs a s = Done (s1, Inr ())"
    "vm_user_inv as s1" "vm_user_view as s1 = put_bytes (vm_user_view as s) a bs"
    using vm.copyout_ok [OF assms] by blast
  have "mapped (vm_user_view as s1) a (length bs)" using assms(4) by (simp add: s1(3) mapped_put_bytes)
  then obtain s2 where "copyin (vm_memops (Some as)) a (length bs) s1 =
      Done (s2, Inr (bytes_at (vm_user_view as s1) a (length bs)))"
    "vm_user_inv as s2" "vm_user_view as s2 = vm_user_view as s1"
    using vm.copyin_ok [OF s1(2) _ assms(3)] assms(2) by blast
  then show ?thesis using s1 by auto
qed

theorem copyout_copyin_witness:
  "\<exists>s1 s2. copyout (vm_memops (Some demo_as)) [1, 2, 3] 0x7fffff00 (as_activate (Some demo_as) demo_vm) = Done (s1, Inr ()) \<and>
     copyin (vm_memops (Some demo_as)) 0x7fffff00 3 s1 = Done (s2, Inr [1, 2, 3])"
  using copyout_copyin [OF demo_user_inv, of "[1, 2, 3]" "0x7fffff00"] demo_stack_mapped [of "0x7fffff00" 3]
  by (auto simp: numeral_3_eq_3)

text \<open>
  An empty block is never copied: whatever the address, \<^verbatim>\<open>copyin\<close> of length 0 and
  \<^verbatim>\<open>copyout\<close> of length 0 return \<open>EFAULT\<close> and change nothing, because the last address of an
  empty block is computed as one below its first.
\<close>

theorem empty_copy_faults:
  assumes "a < 2 ^ 32"
  shows "copyin M a 0 s = Done (s, Inl EFAULT) \<and> copyout M [] a s = Done (s, Inl EFAULT)"
proof -
  have "(\<exists>n. copycheck a 0 = Inr n \<and> n \<noteq> 0) \<or> copycheck a 0 = Inl EFAULT"
    using assms by (auto simp: copycheck_def Let_def mod_if)
  then show ?thesis by (auto simp: copyin_def copyout_def)
qed

theorem empty_copy_faults_witness:
  "copyin (vm_memops None) 0x400000 0 demo_vm = Done (demo_vm, Inl EFAULT)"
  using empty_copy_faults [of "0x400000" "vm_memops None" demo_vm] by simp

text \<open>
  \<^verbatim>\<open>copyinstr\<close> distinguishes its three outcomes. A terminated string that fits is returned
  with its terminator; a string without a terminator in the first \<open>n\<close> bytes gives
  \<open>ENAMETOOLONG\<close>; and neither changes the memory of the process.
\<close>

theorem copyinstr_outcomes:
  assumes "vm_user_inv as s" "0 < n" "a + n \<le> USERSPACETOP"
  shows "(\<forall>cs. is_str (vm_user_view as s) a cs \<and> length cs < n \<longrightarrow>
            (\<exists>s'. copyinstr (vm_memops (Some as)) a n s = Done (s', Inr (cs @ [0])) \<and>
                  vm_user_view as s' = vm_user_view as s)) \<and>
         (mapped (vm_user_view as s) a n \<and> 0 \<notin> set (bytes_at (vm_user_view as s) a n) \<longrightarrow>
            (\<exists>s'. copyinstr (vm_memops (Some as)) a n s = Done (s', Inl ENAMETOOLONG) \<and>
                  vm_user_view as s' = vm_user_view as s))"
proof -
  have "\<exists>s'. copyinstr (vm_memops (Some as)) a n s = Done (s', Inr (cs @ [0])) \<and>
      vm_user_view as s' = vm_user_view as s"
    if "is_str (vm_user_view as s) a cs" "length cs < n" for cs
    using vm.copyinstr_ok [OF assms(1) that] that assms(3) by auto
  then show ?thesis using vm.copyinstr_long [OF assms(1) _ _ assms(2,3)] by blast
qed

theorem copyinstr_outcomes_witness:
  "\<exists>s1 s2. copyout (vm_memops (Some demo_as)) [72, 105, 0] 0x7fffff00 (as_activate (Some demo_as) demo_vm) = Done (s1, Inr ()) \<and>
     copyinstr (vm_memops (Some demo_as)) 0x7fffff00 8 s1 = Done (s2, Inr [72, 105, 0])"
proof -
  obtain s1 where s1: "copyout (vm_memops (Some demo_as)) [72, 105, 0] 0x7fffff00 (as_activate (Some demo_as) demo_vm) = Done (s1, Inr ())"
    "vm_user_inv demo_as s1"
    "vm_user_view demo_as s1 =
       put_bytes (vm_user_view demo_as (as_activate (Some demo_as) demo_vm)) 0x7fffff00 ([72, 105] @ [0])"
    using vm.copyout_ok [OF demo_user_inv, of "[72, 105, 0]" "0x7fffff00"]
      demo_stack_mapped [of "0x7fffff00" 3] by (auto simp: numeral_3_eq_3)
  have "is_str (vm_user_view demo_as s1) 0x7fffff00 [72, 105]"
    unfolding s1(3) by (rule is_str_put) simp
  then show ?thesis using copyinstr_outcomes [OF s1(2), of 8 "0x7fffff00"] s1(1) by fastforce
qed

end
