(* ===== verification/ArgBuf.thy ===== *)
theory ArgBuf
  imports UserMem Synch
begin

text \<open>
  The argument buffer of \<^verbatim>\<open>execv\<close>, \<^verbatim>\<open>kern/syscall/exec.c\<close>: copying an argument vector from the
  memory of a process into a kernel buffer and from there onto the stack of the new program.
  The loops end because every string takes at least one byte of the buffer. The main lemmas
  are proved for any memory system that keeps the promises of \<open>user_memory\<close>.
\<close>

abbreviation "ARGMAX \<equiv> 65536 :: nat"

section \<open>State and operations\<close>

text \<open>\<open>ab_data\<close> is \<open>None\<close> for \<^verbatim>\<open>NULL\<close> and otherwise the first \<^verbatim>\<open>len\<close> bytes of the block.\<close>

record argbuf =
  ab_data :: "u8 list option"
  ab_len :: nat
  ab_max :: nat
  ab_nargs :: nat
  ab_tooksem :: bool

definition argbuf_init :: argbuf where
  "argbuf_init = \<lparr>ab_data = None, ab_len = 0, ab_max = 0, ab_nargs = 0, ab_tooksem = False\<rparr>"

text \<open>\<^verbatim>\<open>exec_bootstrap\<close>: the throttle lets one big buffer exist at a time.\<close>

definition exec_bootstrap :: "memsupply \<Rightarrow> (semaphore \<times> memsupply) outcome" where
  "exec_bootstrap al =
     (case sem_create ''exec'' 1 al of
        (None, _) \<Rightarrow> Panic
      | (Some sem, al1) \<Rightarrow> Done (sem, al1))"

text \<open>A pointer in memory: four bytes, the most significant first.\<close>

definition be32 :: "u8 list \<Rightarrow> nat" where
  "be32 bs = foldl (\<lambda>n b. 256 * n + unat b) 0 bs"

definition to_be32 :: "nat \<Rightarrow> u8 list" where
  "to_be32 n = [of_nat (n div 16777216), of_nat (n div 65536), of_nat (n div 256), of_nat n]"

lemma copystr_in_length:
  "copystr_in M a n s = Done (s', StrOk bs) \<Longrightarrow> 0 < length bs \<and> length bs \<le> n"
proof (induction M a n s arbitrary: s' bs rule: copystr_in.induct)
  case (2 M a n s)
  obtain s1 b where ld: "ld M a s = Done (Some (s1, b))"
    using 2(2) by (auto split: option.splits)
  show ?case
  proof (cases "b = 0")
    case True
    then show ?thesis using 2(2) ld by auto
  next
    case False
    then obtain q where q: "copystr_in M (a + 1) n s1 = Done (s', q)"
      "(case q of StrOk cs \<Rightarrow> StrOk (b # cs) | _ \<Rightarrow> q) = StrOk bs"
      using 2(2) ld by auto
    then obtain cs where "q = StrOk cs" "bs = b # cs" by (cases q) auto
    then show ?thesis using 2(1) [OF _ _ refl False] ld q(1) by auto
  qed
qed simp

lemma copyinstr_length:
  "copyinstr M a n s = Done (s', Inr bs) \<Longrightarrow> 0 < length bs \<and> length bs \<le> n"
proof -
  assume a: "copyinstr M a n s = Done (s', Inr bs)"
  then obtain stop where c: "copycheck a n = Inr stop" by (auto simp: copyinstr_def split: sum.splits)
  then obtain q where q: "copystr_in M a (min n stop) s = Done (s', q)"
    "(case q of StrFault \<Rightarrow> Inl EFAULT | StrLong \<Rightarrow> if stop < n then Inl EFAULT else Inl ENAMETOOLONG
        | StrOk bs \<Rightarrow> Inr bs) = Inr bs"
    using a by (auto simp: copyinstr_def)
  then have "q = StrOk bs" by (cases q) (auto split: if_splits)
  then show ?thesis using copystr_in_length [of M a "min n stop" s s' bs] q(1) by simp
qed

lemma copystr_out_length:
  "copystr_out M src a i n s = Done (s', Inr got) \<Longrightarrow> i < got \<and> got \<le> i + n"
proof (induction M src a i n s rule: copystr_out.induct)
  case (2 M src a i n s)
  obtain s1 where st: "i < length src" "st M (a + i) (src ! i) s = Done (Some s1)"
    using 2(2) by (auto split: option.splits if_splits)
  then show ?case using 2(1) [of "Some s1" s1] 2(2) by (cases "src ! i = 0") auto
qed simp

lemma copyoutstr_length:
  "copyoutstr M src a n s = Done (s', Inr got) \<Longrightarrow> 0 < got \<and> got \<le> n"
proof -
  assume a: "copyoutstr M src a n s = Done (s', Inr got)"
  then obtain stop where c: "copycheck a n = Inr stop" by (auto simp: copyoutstr_def split: sum.splits)
  then obtain q where q: "copystr_out M src a 0 (min n stop) s = Done (s', q)"
    "(case q of Inl True \<Rightarrow> Inl EFAULT
        | Inl False \<Rightarrow> if stop < n then Inl EFAULT else Inl ENAMETOOLONG | Inr got \<Rightarrow> Inr got) = Inr got"
    using a by (auto simp: copyoutstr_def)
  then have "q = Inr got" by (cases q) (auto split: bool.splits if_splits)
  then show ?thesis using copystr_out_length [of M src a 0 "min n stop" s s' got] q(1) by simp
qed

lemma copyinstr_decreases:
  "copyinstr M a (m - k) s = Done (s', Inr bs) \<Longrightarrow> m - (k + length bs) < m - k"
  using copyinstr_length [of M a "m - k" s s' bs] by linarith

lemma copyoutstr_decreases:
  "copyoutstr M src a (m - k) s = Done (s', Inr got) \<Longrightarrow> m - (k + got) < m - k"
  using copyoutstr_length [of M src a "m - k" s s' got] by linarith

function argbuf_copyin :: "'s memops \<Rightarrow> argbuf \<Rightarrow> nat \<Rightarrow> 's \<Rightarrow> ('s \<times> argbuf \<times> unit cres) outcome" where
  "argbuf_copyin M buf uargv s =
     bindo (copyin M uargv 4 s)
       (\<lambda>(s1, r). case r of
          Inl e \<Rightarrow> Done (s1, buf, Inl e)
        | Inr w \<Rightarrow>
            if be32 w = 0 then Done (s1, buf, Inr ())
            else case ab_data buf of
              None \<Rightarrow> Panic
            | Some d \<Rightarrow>
                bindo (copyinstr M (be32 w) (ab_max buf - ab_len buf) s1)
                  (\<lambda>(s2, q). case q of
                     Inl e \<Rightarrow> Done (s2, buf, Inl (if e = ENAMETOOLONG then E2BIG else e))
                   | Inr str \<Rightarrow>
                       argbuf_copyin M
                         (buf\<lparr>ab_data := Some (d @ str), ab_len := ab_len buf + length str,
                              ab_nargs := Suc (ab_nargs buf)\<rparr>)
                         ((uargv + 4) mod 2 ^ 32) s2))"
  by pat_completeness auto
termination
  by (relation "measure (\<lambda>(M, buf, uargv, s). ab_max buf - ab_len buf)")
     (auto dest: copyinstr_decreases)

declare argbuf_copyin.simps [simp del]

text \<open>The loop of \<^verbatim>\<open>argbuf_copyout\<close>; it hands back the final \<^verbatim>\<open>pos\<close> and \<^verbatim>\<open>uargv_i\<close>.\<close>

function argbuf_copyout_loop ::
  "'s memops \<Rightarrow> u8 list \<Rightarrow> nat \<Rightarrow> nat \<Rightarrow> nat \<Rightarrow> nat \<Rightarrow> 's \<Rightarrow> ('s \<times> (nat \<times> nat) cres) outcome" where
  "argbuf_copyout_loop M d len ustringbase pos uargv_i s =
     (if pos < len then
        let thisarg = (ustringbase + pos) mod 2 ^ 32 in
        bindo (copyout M (to_be32 thisarg) uargv_i s)
          (\<lambda>(s1, r). case r of
             Inl e \<Rightarrow> Done (s1, Inl e)
           | Inr _ \<Rightarrow>
               bindo (copyoutstr M (drop pos d) thisarg (len - pos) s1)
                 (\<lambda>(s2, q). case q of
                    Inl e \<Rightarrow> Done (s2, Inl e)
                  | Inr thisarglen \<Rightarrow>
                      argbuf_copyout_loop M d len ustringbase (pos + thisarglen)
                        ((uargv_i + 4) mod 2 ^ 32) s2))
      else Done (s, Inr (pos, uargv_i)))"
  by pat_completeness auto
termination
  by (relation "measure (\<lambda>(M, d, len, ustringbase, pos, uargv_i, s). len - pos)")
     (auto dest: copyoutstr_decreases)

declare argbuf_copyout_loop.simps [simp del]

definition argbuf_copyout ::
  "'s memops \<Rightarrow> argbuf \<Rightarrow> nat \<Rightarrow> 's \<Rightarrow> ('s \<times> (nat \<times> nat \<times> nat) cres) outcome" where
  "argbuf_copyout M buf ustackp s =
     (let ustack1 = (ustackp + 2 ^ 32 - ab_len buf) mod 2 ^ 32;
          ustringbase = ustack1 - ustack1 mod 4;
          uargvbase = (ustringbase + 2 ^ 32 - (ab_nargs buf + 1) * 4) mod 2 ^ 32
      in case ab_data buf of
           None \<Rightarrow> if ab_len buf = 0
                   then bindo (copyout M (to_be32 0) uargvbase s)
                          (\<lambda>(s1, r). Done (s1, case r of Inl e \<Rightarrow> Inl e
                             | Inr _ \<Rightarrow> Inr (uargvbase, ab_nargs buf, uargvbase)))
                   else Panic
         | Some d \<Rightarrow>
             bindo (argbuf_copyout_loop M d (ab_len buf) ustringbase 0 uargvbase s)
               (\<lambda>(s1, r). case r of
                  Inl e \<Rightarrow> Done (s1, Inl e)
                | Inr (pos, uargv_i) \<Rightarrow>
                    if pos \<noteq> ab_len buf then Panic
                    else bindo (copyout M (to_be32 0) uargv_i s1)
                           (\<lambda>(s2, q). Done (s2, case q of Inl e \<Rightarrow> Inl e
                              | Inr _ \<Rightarrow> Inr (uargvbase, ab_nargs buf, uargvbase)))))"

definition argbuf_allocate :: "argbuf \<Rightarrow> nat \<Rightarrow> memsupply \<Rightarrow> argbuf \<times> memsupply \<times> unit cres" where
  "argbuf_allocate buf sz al =
     (let (ok, al1) = kmalloc al in
      if \<not> ok then (buf\<lparr>ab_data := None\<rparr>, al1, Inl ENOMEM)
      else (buf\<lparr>ab_data := Some [], ab_max := sz\<rparr>, al1, Inr ()))"

definition argbuf_cleanup :: "argbuf \<Rightarrow> semaphore \<Rightarrow> (argbuf \<times> semaphore) outcome" where
  "argbuf_cleanup buf execthrottle =
     (let buf1 = buf\<lparr>ab_data := None, ab_len := 0, ab_max := 0, ab_nargs := 0\<rparr>
      in if ab_tooksem buf
         then bindo (V_section execthrottle) (\<lambda>(_, sem). Done (buf1\<lparr>ab_tooksem := False\<rparr>, sem))
         else Done (buf1, execthrottle))"

text \<open>
  \<^verbatim>\<open>argbuf_fromuser\<close>: a first attempt with one page, and when the arguments do not fit a second
  one with the full size, throttled by the semaphore. \<open>Block\<close> when the semaphore is taken.
\<close>

definition argbuf_fromuser ::
  "'s memops \<Rightarrow> argbuf \<Rightarrow> nat \<Rightarrow> thread_id \<Rightarrow> semaphore \<Rightarrow> memsupply \<Rightarrow> 's \<Rightarrow>
     ('s \<times> argbuf \<times> semaphore \<times> memsupply \<times> unit cres) outcome" where
  "argbuf_fromuser M buf uargv t execthrottle al s =
     (case argbuf_allocate buf PAGE_SIZE al of
        (b1, al1, Inl e) \<Rightarrow> Done (s, b1, execthrottle, al1, Inl e)
      | (b1, al1, Inr _) \<Rightarrow>
          bindo (argbuf_copyin M b1 uargv s)
            (\<lambda>(s1, b2, r).
               if r = Inl E2BIG then
                 bindo (argbuf_cleanup b2 execthrottle)
                   (\<lambda>(_, sem1).
                      case P_section t sem1 of
                        (False, _) \<Rightarrow> Block
                      | (True, sem2) \<Rightarrow>
                          (case argbuf_allocate (argbuf_init\<lparr>ab_tooksem := True\<rparr>) ARGMAX al1 of
                             (b3, al2, Inl e) \<Rightarrow> Done (s1, b3, sem2, al2, Inl e)
                           | (b3, al2, Inr _) \<Rightarrow>
                               bindo (argbuf_copyin M b3 uargv s1)
                                 (\<lambda>(s2, b4, q). Done (s2, b4, sem2, al2, q))))
               else Done (s1, b2, execthrottle, al1, r)))"

section \<open>Argument vectors in memory\<close>

definition word_at :: "(nat \<Rightarrow> u8 option) \<Rightarrow> nat \<Rightarrow> nat option" where
  "word_at m u = (if mapped m u 4 then Some (be32 (bytes_at m u 4)) else None)"

text \<open>A \<^verbatim>\<open>NULL\<close>-terminated array of pointers to terminated strings, below the kernel.\<close>

fun argv_at :: "(nat \<Rightarrow> u8 option) \<Rightarrow> nat \<Rightarrow> u8 list list \<Rightarrow> bool" where
  "argv_at m u [] \<longleftrightarrow> u + 4 \<le> USERSPACETOP \<and> word_at m u = Some 0"
| "argv_at m u (c # cs) \<longleftrightarrow>
     u + 4 \<le> USERSPACETOP \<and>
     (case word_at m u of
        None \<Rightarrow> False
      | Some p \<Rightarrow> p \<noteq> 0 \<and> p + length c < USERSPACETOP \<and> is_str m p c) \<and>
     argv_at m (u + 4) cs"

definition argsize :: "u8 list list \<Rightarrow> nat" where
  "argsize args = sum_list (map (\<lambda>c. Suc (length c)) args)"

definition argbytes :: "u8 list list \<Rightarrow> u8 list" where
  "argbytes args = concat (map (\<lambda>c. c @ [0]) args)"

lemma argsize_simps [simp]: "argsize [] = 0" "argsize (c # cs) = Suc (length c) + argsize cs"
  by (simp_all add: argsize_def)

lemma argbytes_simps [simp]: "argbytes [] = []" "argbytes (c # cs) = c @ 0 # argbytes cs"
  by (simp_all add: argbytes_def)

lemma length_argbytes [simp]: "length (argbytes args) = argsize args"
  by (induction args) auto

lemma take_bytes_at: "take n (bytes_at m a k) = bytes_at m a (min n k)"
  by (rule nth_equalityI) (simp_all add: nth_bytes_at)

lemma length_to_be32 [simp]: "length (to_be32 n) = 4"
  by (simp add: to_be32_def)

lemma to_be32_ne [simp]: "to_be32 n \<noteq> []"
  by (simp add: to_be32_def)

lemma be32_to_be32: "n < 2 ^ 32 \<Longrightarrow> be32 (to_be32 n) = n"
proof -
  assume n: "n < 2 ^ 32"
  define a b c d where "a = n div 16777216" and "b = n div 65536 mod 256" and "c = n div 256 mod 256"
    and "d = n mod 256"
  have "unat (of_nat a :: u8) = a" using n by (simp add: unat_of_nat a_def)
  moreover have "unat (of_nat (n div 65536) :: u8) = b" "unat (of_nat (n div 256) :: u8) = c"
    "unat (of_nat n :: u8) = d"
    by (simp_all add: unat_of_nat b_def c_def d_def)
  moreover have "n = 256 * (256 * (256 * a + b) + c) + d"
  proof -
    have "n div 65536 = n div 256 div 256" "n div 16777216 = n div 256 div 256 div 256"
      by (simp_all add: div_mult2_eq [symmetric])
    then show ?thesis unfolding a_def b_def c_def d_def by simp
  qed
  ultimately show ?thesis unfolding be32_def to_be32_def a_def by simp
qed

lemma word_at_put: "n < 2 ^ 32 \<Longrightarrow> word_at (put_bytes m u (to_be32 n)) u = Some n"
  using bytes_at_put_same [of m u "to_be32 n"]
  by (auto simp: word_at_def be32_to_be32 mapped_def put_bytes_apply)

lemma word_at_cong: "(\<And>x. u \<le> x \<Longrightarrow> x < u + 4 \<Longrightarrow> m x = m' x) \<Longrightarrow> word_at m u = word_at m' u"
  using bytes_at_cong [of u 4 m m'] by (auto simp: word_at_def mapped_def)

lemma is_str_cong:
  "(\<And>x. a \<le> x \<Longrightarrow> x < a + Suc (length cs) \<Longrightarrow> m x = m' x) \<Longrightarrow> is_str m a cs = is_str m' a cs"
  using bytes_at_cong [of a "Suc (length cs)" m m'] by (auto simp: is_str_def mapped_def)

lemma argv_at_word: "argv_at m u args \<Longrightarrow> \<exists>p. word_at m u = Some p \<and> u + 4 \<le> USERSPACETOP"
  by (cases args) (auto split: option.splits)

text \<open>The pointers from \<open>u\<close> on lead to the strings that lie one after the other from \<open>a\<close> on.\<close>

fun ptrs_at :: "(nat \<Rightarrow> u8 option) \<Rightarrow> nat \<Rightarrow> nat \<Rightarrow> u8 list list \<Rightarrow> bool" where
  "ptrs_at m u a [] \<longleftrightarrow> True"
| "ptrs_at m u a (c # cs) \<longleftrightarrow>
     word_at m u = Some a \<and> is_str m a c \<and> ptrs_at m (u + 4) (a + Suc (length c)) cs"

lemma ptrs_at_cong:
  assumes "\<And>x. u \<le> x \<Longrightarrow> x < u + 4 * length cs \<Longrightarrow> m x = m' x"
    and "\<And>x. a \<le> x \<Longrightarrow> x < a + argsize cs \<Longrightarrow> m x = m' x"
  shows "ptrs_at m u a cs = ptrs_at m' u a cs"
  using assms
proof (induction cs arbitrary: u a)
  case (Cons c cs)
  have "word_at m u = word_at m' u" using Cons.prems(1) by (intro word_at_cong) simp
  moreover have "is_str m a c = is_str m' a c" using Cons.prems(2) by (intro is_str_cong) simp
  moreover have "ptrs_at m (u + 4) (a + Suc (length c)) cs = ptrs_at m' (u + 4) (a + Suc (length c)) cs"
    using Cons.prems by (intro Cons.IH) simp_all
  ultimately show ?case by simp
qed simp

lemma argv_at_ptrs:
  assumes "ptrs_at m u a args" "word_at m (u + 4 * length args) = Some 0"
    and "0 < a" "a + argsize args \<le> USERSPACETOP" "u + 4 * length args + 4 \<le> USERSPACETOP"
  shows "argv_at m u args"
  using assms
proof (induction args arbitrary: u a)
  case (Cons c cs)
  have "argv_at m (u + 4) cs" using Cons.prems by (intro Cons.IH [of "u + 4" "a + Suc (length c)"]) (simp_all add: algebra_simps)
  then show ?case using Cons.prems by simp
qed simp

context user_memory begin

lemma copyin_word:
  assumes "inv s" "word_at (view s) u = Some p" "u + 4 \<le> USERSPACETOP"
  shows "\<exists>s' w. copyin M u 4 s = Done (s', Inr w) \<and> be32 w = p \<and> inv s' \<and> view s' = view s"
proof -
  have "mapped (view s) u 4" "be32 (bytes_at (view s) u 4) = p"
    using assms(2) by (auto simp: word_at_def split: if_splits)
  then show ?thesis using copyin_ok [OF assms(1) _ assms(3)] by fastforce
qed

lemma argbuf_copyin_ok:
  assumes "inv s" "argv_at (view s) u args" "ab_data buf = Some d"
    and "ab_len buf + argsize args \<le> ab_max buf" "ab_max buf \<le> ARGMAX"
  shows "\<exists>s'. argbuf_copyin M buf u s =
           Done (s', buf\<lparr>ab_data := Some (d @ argbytes args), ab_len := ab_len buf + argsize args,
                        ab_nargs := ab_nargs buf + length args\<rparr>, Inr ()) \<and>
         inv s' \<and> view s' = view s"
  using assms
proof (induction args arbitrary: buf u s d)
  case Nil
  obtain s1 w where s1: "copyin M u 4 s = Done (s1, Inr w)" "be32 w = 0" "inv s1" "view s1 = view s"
    using copyin_word [OF Nil.prems(1), of u 0] Nil.prems(2) by auto
  have "buf\<lparr>ab_data := Some d, ab_len := ab_len buf, ab_nargs := ab_nargs buf\<rparr> = buf"
    using Nil.prems(3) by simp
  then show ?case using s1 Nil.prems(3) by (subst argbuf_copyin.simps) simp
next
  case (Cons c cs)
  obtain p where p: "word_at (view s) u = Some p" "p \<noteq> 0" "p + length c < USERSPACETOP"
    "is_str (view s) p c" "u + 4 \<le> USERSPACETOP" "argv_at (view s) (u + 4) cs"
    using Cons.prems(2) by (auto split: option.splits)
  obtain s1 w where s1: "copyin M u 4 s = Done (s1, Inr w)" "be32 w = p" "inv s1" "view s1 = view s"
    using copyin_word [OF Cons.prems(1) p(1,5)] by blast
  have room: "length c < ab_max buf - ab_len buf" "p + (ab_max buf - ab_len buf) \<le> 2 ^ 32"
    using Cons.prems(4,5) p(3) by auto
  obtain s2 where s2: "copyinstr M p (ab_max buf - ab_len buf) s1 = Done (s2, Inr (c @ [0]))"
    "inv s2" "view s2 = view s"
    using copyinstr_ok [OF s1(3) _ room(1) p(3) room(2)] p(4) s1(4) by auto
  let ?buf = "buf\<lparr>ab_data := Some (d @ c @ [0]), ab_len := ab_len buf + Suc (length c),
                  ab_nargs := Suc (ab_nargs buf)\<rparr>"
  obtain s3 where s3: "argbuf_copyin M ?buf (u + 4) s2 =
      Done (s3, ?buf\<lparr>ab_data := Some ((d @ c @ [0]) @ argbytes cs),
        ab_len := ab_len ?buf + argsize cs, ab_nargs := ab_nargs ?buf + length cs\<rparr>, Inr ())"
    "inv s3" "view s3 = view s"
    using Cons.IH [OF s2(2), of "u + 4" ?buf "d @ c @ [0]"] p(6) s2(3) Cons.prems(4,5) by auto
  have "argbuf_copyin M buf u s = argbuf_copyin M ?buf (u + 4) s2"
    using s1 s2(1) p(2,5) Cons.prems(3) by (subst argbuf_copyin.simps) simp
  then show ?case using s3 by (simp add: add.assoc)
qed

lemma argbuf_copyout_loop_ok:
  assumes "inv s" "drop pos d = argbytes args" "pos + argsize args = len" "\<forall>c \<in> set args. 0 \<notin> set c"
    and "0 < sb" "sb + len \<le> USERSPACETOP" "u + 4 * length args \<le> sb"
    and "mapped (view s) u (4 * length args)" "mapped (view s) (sb + pos) (argsize args)"
  shows "\<exists>s'. argbuf_copyout_loop M d len sb pos u s = Done (s', Inr (len, u + 4 * length args)) \<and>
              inv s' \<and> ptrs_at (view s') u (sb + pos) args \<and>
              (\<forall>x. \<not> (u \<le> x \<and> x < u + 4 * length args) \<and> \<not> (sb + pos \<le> x \<and> x < sb + len) \<longrightarrow>
                   view s' x = view s x)"
  using assms
proof (induction args arbitrary: pos u s)
  case Nil
  then show ?case by (subst argbuf_copyout_loop.simps) simp
next
  case (Cons c cs)
  let ?a = "sb + pos"
  have c0: "0 \<notin> set c" using Cons.prems(4) by simp
  have alt: "?a < 2 ^ 32" "?a mod 2 ^ 32 = ?a" using Cons.prems(3,6) by simp_all
  obtain s1 where s1: "copyout M (to_be32 ?a) u s = Done (s1, Inr ())" "inv s1"
    "view s1 = put_bytes (view s) u (to_be32 ?a)"
    using copyout_ok [OF Cons.prems(1), of "to_be32 ?a" u] Cons.prems(6,7)
      mapped_mono [OF Cons.prems(8), of u 4] by auto
  have m1: "mapped (view s1) ?a (Suc (length c))"
    unfolding s1(3) using mapped_mono [OF Cons.prems(9), of ?a "Suc (length c)"]
    by (simp add: mapped_put_bytes)
  obtain s2 where s2: "copyoutstr M (drop pos d) ?a (len - pos) s1 = Done (s2, Inr (Suc (length c)))"
    "inv s2" "view s2 = put_bytes (view s1) ?a (c @ [0])"
    using copyoutstr_ok [OF s1(2) _ c0 m1, of "drop pos d" "argbytes cs" "len - pos"] Cons.prems(2,3,6)
    by auto
  have v2: "view s2 x = view s x"
    if "\<not> (u \<le> x \<and> x < u + 4)" "\<not> (?a \<le> x \<and> x < ?a + Suc (length c))" for x
    using that unfolding s2(3) s1(3) by (auto simp: put_bytes_apply)
  have mm: "mapped (view s2) (u + 4) (4 * length cs)" "mapped (view s2) (?a + Suc (length c)) (argsize cs)"
    unfolding s2(3) s1(3)
    using mapped_mono [OF Cons.prems(8), of "u + 4" "4 * length cs"]
      mapped_mono [OF Cons.prems(9), of "?a + Suc (length c)" "argsize cs"]
    by (auto intro!: mapped_put_bytes simp: algebra_simps)
  have dr: "drop (pos + Suc (length c)) d = argbytes cs"
    using Cons.prems(2) by (metis (no_types, lifting) add.commute append.assoc append_Cons append_Nil
        append_eq_conv_conj argbytes_simps(2) drop_drop length_append_singleton)
  obtain s3 where s3: "argbuf_copyout_loop M d len sb (pos + Suc (length c)) (u + 4) s2 =
      Done (s3, Inr (len, u + 4 + 4 * length cs))" "inv s3"
    "ptrs_at (view s3) (u + 4) (?a + Suc (length c)) cs"
    "\<And>x. \<not> (u + 4 \<le> x \<and> x < u + 4 + 4 * length cs) \<Longrightarrow> \<not> (?a + Suc (length c) \<le> x \<and> x < sb + len) \<Longrightarrow>
          view s3 x = view s2 x"
    using Cons.IH [OF s2(2) dr, of "u + 4"] Cons.prems(3-7) mm by (auto simp: algebra_simps)
  have "word_at (view s3) u = word_at (put_bytes (view s) u (to_be32 ?a)) u"
    using s3(4) s2(3) s1(3) Cons.prems(3,7) by (intro word_at_cong) (auto simp: put_bytes_apply)
  then have w: "word_at (view s3) u = Some ?a" using word_at_put [OF alt(1)] by simp
  have "is_str (view s3) ?a c = is_str (view s2) ?a c"
    using s3(4) Cons.prems(3,7) by (intro is_str_cong) simp
  then have str: "is_str (view s3) ?a c" unfolding s2(3) using is_str_put [OF c0] by simp
  have "argbuf_copyout_loop M d len sb pos u s =
      argbuf_copyout_loop M d len sb (pos + Suc (length c)) (u + 4) s2"
    using s1(1) s2(1) alt(2) Cons.prems(3,6,7) by (subst argbuf_copyout_loop.simps) simp
  moreover have "view s3 x = view s x"
    if "\<not> (u \<le> x \<and> x < u + 4 * length (c # cs))" "\<not> (?a \<le> x \<and> x < sb + len)" for x
    using that s3(4) [of x] v2 [of x] Cons.prems(3) by auto
  ultimately show ?case using s3 w str by (simp add: algebra_simps)
qed

lemma argbuf_copyout_ok:
  assumes inv: "inv s" and buf: "ab_data buf = Some (argbytes args)" "ab_len buf = argsize args"
      "ab_nargs buf = length args"
    and nz: "\<forall>c \<in> set args. 0 \<notin> set c"
    and top: "ustackp \<le> USERSPACETOP" "argsize args + 4 * length args + 8 \<le> ustackp"
  defines "sb \<equiv> (ustackp - argsize args) - (ustackp - argsize args) mod 4"
  defines "ub \<equiv> sb - 4 * (length args + 1)"
  assumes mp: "mapped (view s) ub (ustackp - ub)"
  shows "\<exists>s'. argbuf_copyout M buf ustackp s = Done (s', Inr (ub, length args, ub)) \<and> inv s' \<and>
              argv_at (view s') ub args \<and> (\<forall>x. \<not> (ub \<le> x \<and> x < ustackp) \<longrightarrow> view s' x = view s x)"
proof -
  define w where "w = ustackp - argsize args"
  have w: "w + argsize args = ustackp" "4 * length args + 8 \<le> w" "sb = w - w mod 4" "w mod 4 < 4"
    using top(2) unfolding w_def sb_def by simp_all
  have sb: "sb + argsize args \<le> ustackp" "0 < sb" and sb4: "4 * (length args + 1) \<le> sb"
    using w by simp_all
  have ub: "ub + 4 * length args + 4 = sb" using sb4 unfolding ub_def by simp
  have e1: "(ustackp + 2 ^ 32 - argsize args) mod 2 ^ 32 = ustackp - argsize args"
  proof -
    have "ustackp + 2 ^ 32 - argsize args = (ustackp - argsize args) + 2 ^ 32" using top(2) by simp
    then show ?thesis using top(1) by (simp only: mod_add_self2) simp
  qed
  have e2: "(sb + 2 ^ 32 - (length args + 1) * 4) mod 2 ^ 32 = ub"
  proof -
    have "sb + 2 ^ 32 - (length args + 1) * 4 = ub + 2 ^ 32" using sb4 unfolding ub_def by simp
    then show ?thesis using sb(1) ub top(1) by (simp only: mod_add_self2) simp
  qed
  have mp': "mapped (view s) ub (4 * length args)" "mapped (view s) (sb + 0) (argsize args)"
    using mapped_mono [OF mp] ub sb(1) by auto
  obtain s1 where s1: "argbuf_copyout_loop M (argbytes args) (argsize args) sb 0 ub s =
      Done (s1, Inr (argsize args, ub + 4 * length args))" "inv s1"
    "ptrs_at (view s1) ub sb args"
    "\<And>x. \<not> (ub \<le> x \<and> x < ub + 4 * length args) \<Longrightarrow> \<not> (sb \<le> x \<and> x < sb + argsize args) \<Longrightarrow>
       view s1 x = view s x"
    using argbuf_copyout_loop_ok [OF inv, of 0 "argbytes args" args "argsize args" sb ub]
      nz sb ub top(1) mp' by auto
  let ?z = "ub + 4 * length args"
  have mz: "mapped (view s1) ?z (length (to_be32 0))"
    using mapped_mono [OF mp, of ?z 4] s1(4) ub sb(1) by (auto simp: mapped_def)
  obtain s2 where s2: "copyout M (to_be32 0) ?z s1 = Done (s2, Inr ())" "inv s2"
    "view s2 = put_bytes (view s1) ?z (to_be32 0)"
    using copyout_ok [OF s1(2) to_be32_ne _ mz] ub sb(1) top(1) by auto
  have "word_at (view s2) ?z = Some 0" unfolding s2(3) by (rule word_at_put) simp
  moreover have "ptrs_at (view s2) ub sb args = ptrs_at (view s1) ub sb args"
    unfolding s2(3) using ub by (intro ptrs_at_cong) (auto simp: put_bytes_apply)
  ultimately have "argv_at (view s2) ub args"
    using argv_at_ptrs [of "view s2" ub sb args] s1(3) sb ub top(1) by auto
  moreover have "view s2 x = view s x" if "\<not> (ub \<le> x \<and> x < ustackp)" for x
    using that s1(4) [of x] ub sb(1) unfolding s2(3) by (auto simp: put_bytes_apply)
  moreover have "argbuf_copyout M buf ustackp s = Done (s2, Inr (ub, length args, ub))"
    unfolding argbuf_copyout_def buf Let_def e1 sb_def [symmetric] e2 using s1(1) s2(1) by simp
  ultimately show ?thesis using s2(2) by blast
qed

lemma argbuf_copyin_prefix:
  assumes "inv s" "argv_at (view s) u (pre @ c # post)" "ab_data buf = Some d"
    and "ab_len buf + argsize pre \<le> ab_max buf" "ab_max buf < ab_len buf + argsize pre + Suc (length c)"
    and "ab_max buf \<le> ARGMAX"
  shows "\<exists>s' buf'. argbuf_copyin M buf u s = Done (s', buf',
           Inl (if ab_len buf + argsize pre = ab_max buf then EFAULT else E2BIG)) \<and>
         ab_tooksem buf' = ab_tooksem buf \<and> inv s' \<and> view s' = view s"
  using assms
proof (induction pre arbitrary: buf u s d)
  case Nil
  obtain p where p: "word_at (view s) u = Some p" "p \<noteq> 0" "p + length c < USERSPACETOP"
    "is_str (view s) p c" "u + 4 \<le> USERSPACETOP"
    using Nil.prems(2) by (auto split: option.splits)
  obtain s1 w where s1: "copyin M u 4 s = Done (s1, Inr w)" "be32 w = p" "inv s1" "view s1 = view s"
    using copyin_word [OF Nil.prems(1) p(1,5)] by blast
  let ?n = "ab_max buf - ab_len buf"
  show ?case
  proof (cases "?n = 0")
    case True
    have "(p + 2 ^ 32 - 1) mod 2 ^ 32 = p - 1" using p(2,3) by (simp add: mod_if)
    then have "copycheck p 0 = Inl EFAULT" using p(2) by (simp add: copycheck_def)
    then have "copyinstr M p ?n s1 = Done (s1, Inl EFAULT)" using True by (simp add: copyinstr_def)
    then show ?thesis using s1 p(2) Nil.prems(3,4) True by (subst argbuf_copyin.simps) simp
  next
    case False
    have "mapped (view s1) p ?n" "0 \<notin> set (bytes_at (view s1) p ?n)"
    proof -
      have nc: "?n \<le> length c" using Nil.prems(5) by simp
      have st: "0 \<notin> set c" "mapped (view s1) p (Suc (length c))"
        "bytes_at (view s1) p (Suc (length c)) = c @ [0]"
        using p(4) s1(4) by (auto simp: is_str_def)
      show "mapped (view s1) p ?n" using mapped_mono [OF st(2), of p ?n] nc by simp
      have "bytes_at (view s1) p ?n = take ?n c"
        using take_bytes_at [of ?n "view s1" p "Suc (length c)"] st(3) nc by (simp del: bytes_at.simps)
      then show "0 \<notin> set (bytes_at (view s1) p ?n)" using st(1) by (auto dest: in_set_takeD)
    qed
    then obtain s2 where "copyinstr M p ?n s1 = Done (s2, Inl ENAMETOOLONG)" "inv s2" "view s2 = view s1"
      using copyinstr_long [OF s1(3)] False p(3) Nil.prems(5) by fastforce
    then show ?thesis using s1 p(2) Nil.prems(3,4) False by (subst argbuf_copyin.simps) simp
  qed
next
  case (Cons b pre)
  obtain p where p: "word_at (view s) u = Some p" "p \<noteq> 0" "p + length b < USERSPACETOP"
    "is_str (view s) p b" "u + 4 \<le> USERSPACETOP" "argv_at (view s) (u + 4) (pre @ c # post)"
    using Cons.prems(2) by (auto split: option.splits)
  obtain s1 w where s1: "copyin M u 4 s = Done (s1, Inr w)" "be32 w = p" "inv s1" "view s1 = view s"
    using copyin_word [OF Cons.prems(1) p(1,5)] by blast
  have room: "length b < ab_max buf - ab_len buf" "p + (ab_max buf - ab_len buf) \<le> 2 ^ 32"
    using Cons.prems(4,6) p(3) by auto
  obtain s2 where s2: "copyinstr M p (ab_max buf - ab_len buf) s1 = Done (s2, Inr (b @ [0]))"
    "inv s2" "view s2 = view s"
    using copyinstr_ok [OF s1(3) _ room(1) p(3) room(2)] p(4) s1(4) by auto
  let ?buf = "buf\<lparr>ab_data := Some (d @ b @ [0]), ab_len := ab_len buf + Suc (length b),
                  ab_nargs := Suc (ab_nargs buf)\<rparr>"
  have "argbuf_copyin M buf u s = argbuf_copyin M ?buf (u + 4) s2"
    using s1 s2(1) p(2,5) Cons.prems(3) by (subst argbuf_copyin.simps) simp
  then show ?case
    using Cons.IH [OF s2(2), of "u + 4" ?buf "d @ b @ [0]"] p(6) s2(3) Cons.prems(4-6)
    by (simp add: add.assoc)
qed

end

lemma argv_at_nz: "argv_at m u args \<Longrightarrow> c \<in> set args \<Longrightarrow> 0 \<notin> set c"
  by (induction m u args rule: argv_at.induct) (auto simp: is_str_def split: option.splits)

lemma argsize_append [simp]: "argsize (xs @ ys) = argsize xs + argsize ys"
  by (simp add: argsize_def)

text \<open>Where \<^verbatim>\<open>argbuf_copyout\<close> puts the pointers: aligned, and close below the strings.\<close>

lemma argv_base_bounds:
  fixes T sz n :: nat
  assumes "sz + 4 * n + 8 \<le> T"
  defines "ub \<equiv> (T - sz) - (T - sz) mod 4 - 4 * (n + 1)"
  shows "T - (sz + 4 * n + 8) \<le> ub" "ub \<le> T" "ub mod 4 = 0"
proof -
  define w where "w = T - sz"
  have w: "w + sz = T" "4 * n + 8 \<le> w" "w mod 4 < 4" using assms(1) unfolding w_def by simp_all
  have ub: "ub + 4 * (n + 1) = w - w mod 4" using w unfolding ub_def w_def by simp
  then have "ub + 4 * (n + 1) + w mod 4 = w" using w(2,3) by simp
  then show "T - (sz + 4 * n + 8) \<le> ub" "ub \<le> T" using w by simp_all
  have "(ub + 4 * (n + 1)) mod 4 = 0" unfolding ub minus_mod_eq_mult_div by simp
  then show "ub mod 4 = 0" unfolding mod_mult_self2 .
qed

text \<open>A process whose stack holds a given argument vector, for the concrete instances below.\<close>

lemma demo_argv:
  assumes "\<forall>c \<in> set args. 0 \<notin> set c" "argsize args + 4 * length args + 8 \<le> 0x11000"
  shows "\<exists>s u. vm_user_inv demo_as s \<and> argv_at (vm_user_view demo_as s) u args"
proof -
  let ?b = "\<lparr>ab_data = Some (argbytes args), ab_len = argsize args, ab_max = ARGMAX,
      ab_nargs = length args, ab_tooksem = False\<rparr>"
  let ?sb = "(USERSTACK - argsize args) - (USERSTACK - argsize args) mod 4"
  let ?ub = "?sb - 4 * (length args + 1)"
  have "argsize args + 4 * length args + 8 \<le> USERSTACK" using assms(2) by simp
  note ub = argv_base_bounds [OF this]
  have "0x7ffee000 \<le> ?ub" by (rule order_trans [OF _ ub(1)]) (use assms(2) in simp)
  then have "mapped (vm_user_view demo_as (as_activate (Some demo_as) demo_vm)) ?ub (USERSTACK - ?ub)"
    using ub(2) by (intro demo_stack_mapped) simp_all
  then show ?thesis
    using vm.argbuf_copyout_ok [OF demo_user_inv, of ?b args USERSTACK] assms by auto
qed

lemma exec_bootstrap_ok: "\<exists>sem. exec_bootstrap [] = Done (sem, []) \<and> sem_count sem = 1"
  by (simp add: exec_bootstrap_def sem_create_def wchan_create_def)

section \<open>Properties\<close>

text \<open>
  C10. \<^verbatim>\<open>execv\<close> hands the new program exactly the arguments it was called with. When the strings
  and their terminators fit one page, \<^verbatim>\<open>argbuf_fromuser\<close> reads the whole vector from the old
  address space without touching it or the throttle, and \<^verbatim>\<open>argbuf_copyout\<close> builds on the
  stack of the new address space a vector with the same strings. It returns a stack pointer that
  is a multiple of four, the number of arguments and the vector's address, and it writes nowhere
  else.
\<close>

theorem execv_args_roundtrip:
  assumes old: "vm_user_inv as0 s0" "argv_at (vm_user_view as0 s0) uargv args" "argsize args \<le> PAGE_SIZE"
    and new: "vm_user_inv as1 s1"
      "mapped (vm_user_view as1 s1) (USERSTACK - (argsize args + 4 * length args + 8))
         (argsize args + 4 * length args + 8)"
      "length args \<le> PAGE_SIZE"
  shows "\<exists>s0' buf. argbuf_fromuser (vm_memops (Some as0)) argbuf_init uargv t execthrottle [] s0 =
             Done (s0', buf, execthrottle, [], Inr ()) \<and>
           vm_user_view as0 s0' = vm_user_view as0 s0 \<and>
           (\<exists>s1' sp. argbuf_copyout (vm_memops (Some as1)) buf USERSTACK s1 =
                Done (s1', Inr (sp, length args, sp)) \<and>
              sp mod 4 = 0 \<and> argv_at (vm_user_view as1 s1') sp args \<and>
              (\<forall>x. \<not> (sp \<le> x \<and> x < USERSTACK) \<longrightarrow> vm_user_view as1 s1' x = vm_user_view as1 s1 x))"
proof -
  let ?b = "argbuf_init\<lparr>ab_data := Some [], ab_max := PAGE_SIZE\<rparr>"
  let ?c = "?b\<lparr>ab_data := Some (argbytes args), ab_len := argsize args, ab_nargs := length args\<rparr>"
  obtain s0' where s0': "argbuf_copyin (vm_memops (Some as0)) ?b uargv s0 = Done (s0', ?c, Inr ())"
    "vm_user_view as0 s0' = vm_user_view as0 s0"
    using vm.argbuf_copyin_ok [OF old(1,2), of ?b "[]"] old(3) by (auto simp: argbuf_init_def)
  let ?sb = "(USERSTACK - argsize args) - (USERSTACK - argsize args) mod 4"
  let ?ub = "?sb - 4 * (length args + 1)"
  have "argsize args + 4 * length args + 8 \<le> USERSTACK" using old(3) new(3) by simp
  note ub = argv_base_bounds [OF this]
  have mp: "mapped (vm_user_view as1 s1) ?ub (USERSTACK - ?ub)"
    by (intro mapped_mono [OF new(2)]) (use ub(1,2) in linarith)+
  obtain s1' where s1': "argbuf_copyout (vm_memops (Some as1)) ?c USERSTACK s1 =
        Done (s1', Inr (?ub, length args, ?ub))"
      "argv_at (vm_user_view as1 s1') ?ub args"
      "\<forall>x. \<not> (?ub \<le> x \<and> x < USERSTACK) \<longrightarrow> vm_user_view as1 s1' x = vm_user_view as1 s1 x"
    using vm.argbuf_copyout_ok [OF new(1) _ _ _ _ _ _ mp, of ?c]
      old(3) new(3) argv_at_nz [OF old(2)] by auto
  have "argbuf_fromuser (vm_memops (Some as0)) argbuf_init uargv t execthrottle [] s0 =
      Done (s0', ?c, execthrottle, [], Inr ())"
    using s0'(1) by (simp add: argbuf_fromuser_def argbuf_allocate_def)
  then show ?thesis
    by (intro exI conjI) (assumption, rule s0'(2), rule s1'(1), rule ub(3), rule s1'(2), rule s1'(3))
qed

theorem execv_args_roundtrip_witness:
  "\<exists>sem s0 uargv s0' buf s1' sp. exec_bootstrap [] = Done (sem, []) \<and>
     argbuf_fromuser (vm_memops (Some demo_as)) argbuf_init uargv 0 sem [] s0 =
       Done (s0', buf, sem, [], Inr ()) \<and>
     argbuf_copyout (vm_memops (Some demo_as)) buf USERSTACK (as_activate (Some demo_as) demo_vm) =
       Done (s1', Inr (sp, 2, sp)) \<and>
     argv_at (vm_user_view demo_as s1') sp [[108, 115], [47]]"
proof -
  let ?args = "[[108, 115], [47]] :: u8 list list"
  obtain sem where sem: "exec_bootstrap [] = Done (sem, [])" using exec_bootstrap_ok by blast
  obtain s0 u where s0: "vm_user_inv demo_as s0" "argv_at (vm_user_view demo_as s0) u ?args"
    using demo_argv [of ?args] by auto
  have "mapped (vm_user_view demo_as (as_activate (Some demo_as) demo_vm))
      (USERSTACK - (argsize ?args + 4 * length ?args + 8)) (argsize ?args + 4 * length ?args + 8)"
    by (rule demo_stack_mapped) simp_all
  note ex = execv_args_roundtrip [OF s0 _ demo_user_inv this, of 0 sem]
  obtain s0' buf s1' sp where
    "argbuf_fromuser (vm_memops (Some demo_as)) argbuf_init u 0 sem [] s0 = Done (s0', buf, sem, [], Inr ())"
    "argbuf_copyout (vm_memops (Some demo_as)) buf USERSTACK (as_activate (Some demo_as) demo_vm) =
       Done (s1', Inr (sp, length ?args, sp))" "argv_at (vm_user_view demo_as s1') sp ?args"
    using ex by (auto simp del: argv_at.simps)
  then show ?thesis using sem by (intro exI conjI) auto
qed

text \<open>
  Arguments that do not fit one page. Let \<open>c\<close> be the first string that goes past the page.
  When some room is left for it, \<^verbatim>\<open>argbuf_fromuser\<close> retries with the full-size buffer under the
  throttle and returns all arguments, up to \<^verbatim>\<open>ARG_MAX\<close> bytes of them. When the strings before it fill the page
  exactly, no room is left, and the call fails with \<open>EFAULT\<close> without a second attempt.
\<close>

theorem argbuf_fromuser_large:
  assumes u: "vm_user_inv as s" "argv_at (vm_user_view as s) uargv (pre @ c # post)"
    and c: "argsize pre \<le> PAGE_SIZE" "PAGE_SIZE < argsize pre + Suc (length c)"
      "argsize (pre @ c # post) \<le> ARGMAX"
    and sem: "0 < sem_count execthrottle"
  shows "(argsize pre < PAGE_SIZE \<longrightarrow>
            (\<exists>s' buf sem'. argbuf_fromuser (vm_memops (Some as)) argbuf_init uargv t execthrottle [] s =
               Done (s', buf, sem', [], Inr ()) \<and>
             ab_data buf = Some (argbytes (pre @ c # post)) \<and> ab_nargs buf = length (pre @ c # post) \<and>
             ab_tooksem buf \<and> sem_count sem' = sem_count execthrottle - 1)) \<and>
         (argsize pre = PAGE_SIZE \<longrightarrow>
            (\<exists>s' buf. argbuf_fromuser (vm_memops (Some as)) argbuf_init uargv t execthrottle [] s =
               Done (s', buf, execthrottle, [], Inl EFAULT)))"
proof -
  let ?M = "vm_memops (Some as)" and ?args = "pre @ c # post"
  let ?b = "argbuf_init\<lparr>ab_data := Some [], ab_max := PAGE_SIZE\<rparr>"
  let ?d = "argbuf_init\<lparr>ab_tooksem := True, ab_data := Some [], ab_max := ARGMAX\<rparr>"
  let ?e = "?d\<lparr>ab_data := Some (argbytes ?args), ab_len := argsize ?args, ab_nargs := length ?args\<rparr>"
  obtain s1 b1 where s1: "argbuf_copyin ?M ?b uargv s =
      Done (s1, b1, Inl (if argsize pre = PAGE_SIZE then EFAULT else E2BIG))"
    "\<not> ab_tooksem b1" "vm_user_inv as s1" "vm_user_view as s1 = vm_user_view as s"
    using vm.argbuf_copyin_prefix [OF u, of ?b "[]"] c by (auto simp: argbuf_init_def)
  obtain s2 where s2: "argbuf_copyin ?M ?d uargv s1 = Done (s2, ?e, Inr ())"
    using vm.argbuf_copyin_ok [OF s1(3), of uargv ?args ?d "[]"] u(2) s1(4) c(3)
    by (auto simp: argbuf_init_def)
  show ?thesis
    using s1(1,2) s2 sem
    by (auto simp: argbuf_fromuser_def argbuf_allocate_def argbuf_cleanup_def P_section_def argbuf_init_def)
qed

theorem argbuf_fromuser_large_witness:
  "\<exists>sem s uargv s' buf sem'. exec_bootstrap [] = Done (sem, []) \<and>
     argbuf_fromuser (vm_memops (Some demo_as)) argbuf_init uargv 0 sem [] s = Done (s', buf, sem', [], Inr ()) \<and>
     ab_nargs buf = 2"
proof -
  let ?c = "replicate 5000 65 :: u8 list"
  obtain sem where sem: "exec_bootstrap [] = Done (sem, [])" "sem_count sem = 1" using exec_bootstrap_ok by blast
  obtain s u where s: "vm_user_inv demo_as s" "argv_at (vm_user_view demo_as s) u ([[97]] @ ?c # [])"
    using demo_argv [of "[[97], ?c]"] by auto
  show ?thesis
    using argbuf_fromuser_large [OF s, of sem 0] sem by (fastforce simp: numeral_2_eq_2)
qed

end
