(* ===== verification/Uio.thy ===== *)
theory Uio
  imports UserMem
begin

text \<open>
  The \<^verbatim>\<open>uio\<close> abstraction of a data transfer, \<^verbatim>\<open>kern/lib/uio.c\<close>. An \<^verbatim>\<open>iovec\<close> names a block of
  kernel or of user memory; for a kernel block the model keeps the contents of the block it points
  into, so that the effect of \<^verbatim>\<open>memmove\<close> can be stated. The results say how much \<^verbatim>\<open>uiomove\<close>
  transfers and that offset and remaining count move together.
\<close>

section \<open>State\<close>

datatype uio_rw = UIO_READ | UIO_WRITE

datatype uio_seg = UIO_USERISPACE | UIO_USERSPACE | UIO_SYSSPACE

text \<open>\<open>iov_block\<close> is the kernel block that \<open>iov_kbase\<close> is an index of.\<close>

record iovec =
  iov_block :: "u8 list"
  iov_kbase :: nat
  iov_ubase :: nat
  iov_len :: nat

text \<open>
  \<open>uio_iov\<close> holds the remaining blocks, as many as \<^verbatim>\<open>uio_iovcnt\<close> says; those that
  \<^verbatim>\<open>uio_iov++\<close> has moved past are in \<open>uio_done\<close>. The offset is a signed 64-bit number.
\<close>

record uio =
  uio_iov :: "iovec list"
  uio_done :: "iovec list"
  uio_offset :: u64
  uio_resid :: nat
  uio_segflg :: uio_seg
  uio_rw :: uio_rw
  uio_space :: "addrspace option"

section \<open>Operations\<close>

definition splice :: "'a list \<Rightarrow> nat \<Rightarrow> 'a list \<Rightarrow> 'a list" where
  "splice xs i ys = take i xs @ ys @ drop (i + length ys) xs"

text \<open>
  One transfer of \<open>amt\<close> bytes between the block at \<open>ptr + pos\<close> and the first \<^verbatim>\<open>iovec\<close>, the
  \<^verbatim>\<open>switch\<close> of the loop. The result is the new block, \<^verbatim>\<open>iovec\<close> and error.
\<close>

definition uio_copy ::
  "'s memops \<Rightarrow> u8 list \<Rightarrow> nat \<Rightarrow> nat \<Rightarrow> uio \<Rightarrow> iovec \<Rightarrow> 's \<Rightarrow> ('s \<times> u8 list \<times> iovec \<times> unit cres) outcome" where
  "uio_copy M ptr pos amt u iov s =
     (if length ptr < pos + amt then Panic else
      case uio_segflg u of
        UIO_SYSSPACE \<Rightarrow>
          if length (iov_block iov) < iov_kbase iov + amt then Panic
          else (case uio_rw u of
             UIO_READ \<Rightarrow>
               Done (s, ptr, iov\<lparr>iov_block := splice (iov_block iov) (iov_kbase iov) (take amt (drop pos ptr)),
                               iov_kbase := iov_kbase iov + amt\<rparr>, Inr ())
           | UIO_WRITE \<Rightarrow>
               Done (s, splice ptr pos (take amt (drop (iov_kbase iov) (iov_block iov))),
                     iov\<lparr>iov_kbase := iov_kbase iov + amt\<rparr>, Inr ()))
      | _ \<Rightarrow>
          (case uio_rw u of
             UIO_READ \<Rightarrow>
               bindo (copyout M (take amt (drop pos ptr)) (iov_ubase iov) s)
                 (\<lambda>(s1, r). case r of
                    Inl e \<Rightarrow> Done (s1, ptr, iov, Inl e)
                  | Inr _ \<Rightarrow> Done (s1, ptr, iov\<lparr>iov_ubase := (iov_ubase iov + amt) mod 2 ^ 32\<rparr>, Inr ()))
           | UIO_WRITE \<Rightarrow>
               bindo (copyin M (iov_ubase iov) amt s)
                 (\<lambda>(s1, r). case r of
                    Inl e \<Rightarrow> Done (s1, ptr, iov, Inl e)
                  | Inr bs \<Rightarrow> Done (s1, splice ptr pos bs,
                                 iov\<lparr>iov_ubase := (iov_ubase iov + amt) mod 2 ^ 32\<rparr>, Inr ()))))"

text \<open>
  The loop of \<^verbatim>\<open>uiomove\<close>: \<open>pos\<close> is how far \<^verbatim>\<open>ptr\<close> has advanced. The remaining count is
  an unsigned 32-bit number and would wrap if a block were longer than it says.
\<close>

function uiomove_loop ::
  "'s memops \<Rightarrow> u8 list \<Rightarrow> nat \<Rightarrow> nat \<Rightarrow> uio \<Rightarrow> 's \<Rightarrow> ('s \<times> u8 list \<times> uio \<times> unit cres) outcome" where
  "uiomove_loop M ptr pos n u s =
     (if n > 0 \<and> uio_resid u > 0 then
        case uio_iov u of
          [] \<Rightarrow> Panic
        | iov # iovs \<Rightarrow>
            let amt = min (iov_len iov) n in
            if amt = 0 then
              (if iovs = [] then Panic
               else uiomove_loop M ptr pos n (u\<lparr>uio_iov := iovs, uio_done := uio_done u @ [iov]\<rparr>) s)
            else
              bindo (uio_copy M ptr pos amt u iov s)
                (\<lambda>(s1, ptr1, iov1, r). case r of
                   Inl e \<Rightarrow> Done (s1, ptr1, u, Inl e)
                 | Inr _ \<Rightarrow>
                     uiomove_loop M ptr1 (pos + amt) (n - amt)
                       (u\<lparr>uio_iov := iov1\<lparr>iov_len := iov_len iov - amt\<rparr> # iovs,
                          uio_resid := (uio_resid u + 2 ^ 32 - amt) mod 2 ^ 32,
                          uio_offset := uio_offset u + of_nat amt\<rparr>) s1)
      else Done (s, ptr, u, Inr ()))"
  by pat_completeness auto
termination
  by (relation "measures [\<lambda>(M, ptr, pos, n, u, s). n, \<lambda>(M, ptr, pos, n, u, s). length (uio_iov u)]") auto

declare uiomove_loop.simps [simp del]

lemma uiomove_loop_0 [simp]: "uiomove_loop M ptr pos 0 u s = Done (s, ptr, u, Inr ())"
  by (simp add: uiomove_loop.simps)

definition uiomove ::
  "'s memops \<Rightarrow> addrspace option \<Rightarrow> u8 list \<Rightarrow> nat \<Rightarrow> uio \<Rightarrow> 's \<Rightarrow> ('s \<times> u8 list \<times> uio \<times> unit cres) outcome" where
  "uiomove M curas ptr n u s =
     (if uio_segflg u = UIO_SYSSPACE \<and> uio_space u \<noteq> None then Panic
      else if uio_segflg u \<noteq> UIO_SYSSPACE \<and> uio_space u \<noteq> curas then Panic
      else uiomove_loop M ptr 0 n u s)"

function uiomovezeros ::
  "'s memops \<Rightarrow> addrspace option \<Rightarrow> nat \<Rightarrow> uio \<Rightarrow> 's \<Rightarrow> ('s \<times> uio \<times> unit cres) outcome" where
  "uiomovezeros M curas n u s =
     (if uio_rw u \<noteq> UIO_READ then Panic
      else if n = 0 then Done (s, u, Inr ())
      else let amt = min 16 n in
        bindo (uiomove M curas (replicate 16 0) amt u s)
          (\<lambda>(s1, _, u1, r). case r of
             Inl e \<Rightarrow> Done (s1, u1, Inl e)
           | Inr _ \<Rightarrow> uiomovezeros M curas (n - amt) u1 s1))"
  by pat_completeness auto
termination
  by (relation "measure (\<lambda>(M, curas, n, u, s). n)") auto

declare uiomovezeros.simps [simp del]

definition uio_kinit :: "u8 list \<Rightarrow> nat \<Rightarrow> u64 \<Rightarrow> uio_rw \<Rightarrow> uio" where
  "uio_kinit kbuf len pos rw =
     \<lparr>uio_iov = [\<lparr>iov_block = kbuf, iov_kbase = 0, iov_ubase = 0, iov_len = len\<rparr>], uio_done = [],
      uio_offset = pos, uio_resid = len, uio_segflg = UIO_SYSSPACE, uio_rw = rw, uio_space = None\<rparr>"

section \<open>Well-formed transfers\<close>

text \<open>The bytes a kernel transfer still offers, and those it has already filled in.\<close>

definition iov_window :: "iovec \<Rightarrow> u8 list" where
  "iov_window iov = take (iov_len iov) (drop (iov_kbase iov) (iov_block iov))"

definition uio_window :: "uio \<Rightarrow> u8 list" where
  "uio_window u = concat (map iov_window (uio_iov u))"

definition uio_filled :: "uio \<Rightarrow> u8 list" where
  "uio_filled u = concat (map (\<lambda>iov. take (iov_kbase iov) (iov_block iov)) (uio_done u @ take 1 (uio_iov u)))"

definition uio_wf :: "uio \<Rightarrow> bool" where
  "uio_wf u \<longleftrightarrow> sum_list (map iov_len (uio_iov u)) = uio_resid u \<and> uio_resid u < 2 ^ 32 \<and>
     (\<forall>iov \<in> set (uio_iov u). iov_kbase iov + iov_len iov \<le> length (iov_block iov)) \<and>
     (\<forall>iov \<in> set (tl (uio_iov u)). iov_kbase iov = 0)"

lemma length_splice [simp]: "i + length ys \<le> length xs \<Longrightarrow> length (splice xs i ys) = length xs"
  by (simp add: splice_def)

lemma splice_splice:
  assumes "i + length ys + length zs \<le> length xs"
  shows "splice (splice xs i ys) (i + length ys) zs = splice xs i (ys @ zs)"
  using assms by (simp add: splice_def take_drop ac_simps)

lemma splice_take:
  assumes "pos + n \<le> length ptr" "length w = a" "a \<le> n" "r \<le> n - a"
  shows "splice (splice ptr pos w) (pos + a) (take r X) = splice ptr pos (w @ take r X)"
proof -
  have "pos + length w + length (take r X) \<le> length ptr" using assms by auto
  then show ?thesis using splice_splice assms(2) by blast
qed

lemma splice_Nil [simp]: "splice xs i [] = xs"
  by (simp add: splice_def)

lemma length_iov_window:
  "iov_kbase iov + iov_len iov \<le> length (iov_block iov) \<Longrightarrow> length (iov_window iov) = iov_len iov"
  by (simp add: iov_window_def)

lemma length_uio_window:
  assumes "uio_wf u"
  shows "length (uio_window u) = uio_resid u"
proof -
  have "length (uio_window u) = sum_list (map (\<lambda>iov. length (iov_window iov)) (uio_iov u))"
    by (simp add: uio_window_def length_concat comp_def)
  also have "\<dots> = sum_list (map iov_len (uio_iov u))"
    using assms by (intro arg_cong [of _ _ sum_list] map_cong refl) (auto simp: uio_wf_def length_iov_window)
  finally show ?thesis using assms by (simp add: uio_wf_def)
qed

lemma uio_kinit_wf: "len \<le> length kbuf \<Longrightarrow> len < 2 ^ 32 \<Longrightarrow> uio_wf (uio_kinit kbuf len pos rw)"
  by (simp add: uio_kinit_def uio_wf_def)

lemma uio_kinit_window: "length kbuf = len \<Longrightarrow> uio_window (uio_kinit kbuf len pos rw) = kbuf"
  by (simp add: uio_kinit_def uio_window_def iov_window_def)

lemma uio_kinit_filled: "uio_filled (uio_kinit kbuf len pos rw) = []"
  by (simp add: uio_kinit_def uio_filled_def)

text \<open>How far the loop gets: as many bytes as both sides have.\<close>

definition moved_to :: "uio \<Rightarrow> nat \<Rightarrow> uio \<Rightarrow> bool" where
  "moved_to u k u' \<longleftrightarrow> uio_wf u' \<and> uio_resid u' + k = uio_resid u \<and>
     uio_offset u' = uio_offset u + of_nat k \<and> uio_segflg u' = uio_segflg u \<and>
     uio_rw u' = uio_rw u \<and> uio_space u' = uio_space u \<and>
     length (uio_done u' @ uio_iov u') = length (uio_done u @ uio_iov u) \<and> (uio_iov u' = [] \<longrightarrow> uio_iov u = [])"

text \<open>The bytes that arrived in a block of its own are at its start.\<close>

lemma filled_single:
  assumes "moved_to (uio_kinit buf len pos rw) n u" "uio_filled u = xs" "length xs = n"
  shows "take n (iov_block (hd (uio_done u @ uio_iov u))) = xs"
proof -
  have "length (uio_done u @ uio_iov u) = 1" "uio_iov u \<noteq> []"
    using assms(1) by (auto simp: moved_to_def uio_kinit_def)
  then obtain iov where iov: "uio_iov u = [iov]" "uio_done u = []" by (cases "uio_iov u") auto
  have "iov_kbase iov \<le> length (iov_block iov)" using assms(1) iov by (auto simp: moved_to_def uio_wf_def)
  then show ?thesis using assms(2,3) iov by (auto simp: uio_filled_def)
qed

lemma moved_to_refl: "uio_wf u \<Longrightarrow> moved_to u 0 u"
  by (simp add: moved_to_def)

lemma moved_to_trans: "moved_to u a u1 \<Longrightarrow> moved_to u1 b u2 \<Longrightarrow> moved_to u (a + b) u2"
  by (auto simp: moved_to_def)

lemma uiomove_loop_kernel:
  assumes "uio_segflg u = UIO_SYSSPACE" "uio_wf u" "pos + n \<le> length ptr"
  defines "k \<equiv> min n (uio_resid u)"
  shows "\<exists>ptr' u'. uiomove_loop M ptr pos n u s = Done (s, ptr', u', Inr ()) \<and> moved_to u k u' \<and>
           (uio_rw u = UIO_READ \<longrightarrow> ptr' = ptr \<and> uio_filled u' = uio_filled u @ take k (drop pos ptr)) \<and>
           (uio_rw u = UIO_WRITE \<longrightarrow> ptr' = splice ptr pos (take k (uio_window u)) \<and>
              uio_window u' = drop k (uio_window u))"
  using assms(1-3) unfolding k_def
proof (induction M ptr pos n u s rule: uiomove_loop.induct)
  case (1 M ptr pos n u s)
  show ?case
  proof (cases "n > 0 \<and> uio_resid u > 0")
    case False
    then have "min n (uio_resid u) = 0" by auto
    moreover have "uiomove_loop M ptr pos n u s = Done (s, ptr, u, Inr ())"
      using False by (subst uiomove_loop.simps) (simp only: if_False)
    ultimately show ?thesis using "1.prems" by (simp add: moved_to_refl)
  next
    case act: True
    then obtain iov iovs where iov: "uio_iov u = iov # iovs"
      using "1.prems"(2) by (cases "uio_iov u") (auto simp: uio_wf_def)
    let ?amt = "min (iov_len iov) n"
    show ?thesis
    proof (cases "?amt = 0")
      case True
      then have l0: "iov_len iov = 0" using act by auto
      then have ne: "iovs \<noteq> []" using act iov "1.prems"(2) by (auto simp: uio_wf_def)
      let ?u = "u\<lparr>uio_iov := iovs, uio_done := uio_done u @ [iov]\<rparr>"
      have wf: "uio_wf ?u" using "1.prems"(2) iov l0 by (cases iovs) (auto simp: uio_wf_def)
      have eq: "uiomove_loop M ptr pos n u s = uiomove_loop M ptr pos n ?u s"
        using act iov True ne by (subst uiomove_loop.simps) simp
      have "uio_window ?u = uio_window u" using iov l0 by (simp add: uio_window_def iov_window_def)
      moreover have "uio_filled ?u = uio_filled u"
        using iov ne "1.prems"(2) by (cases iovs) (auto simp: uio_filled_def uio_wf_def)
      moreover have "moved_to ?u k' u' = moved_to u k' u'" for k' u' using iov ne by (auto simp: moved_to_def)
      ultimately show ?thesis
        using "1.IH"(1) [OF act iov refl True ne] "1.prems" wf unfolding eq by simp
    next
      case False
      let ?rest = "min (n - ?amt) (uio_resid u - ?amt)"
      have fits: "iov_kbase iov + iov_len iov \<le> length (iov_block iov)" "iov_len iov \<le> uio_resid u"
        "uio_resid u < 2 ^ 32"
        using "1.prems"(2) iov by (auto simp: uio_wf_def)
      have k: "min n (uio_resid u) = ?amt + ?rest" using fits by auto
      have rs: "(uio_resid u + 2 ^ 32 - ?amt) mod 2 ^ 32 = uio_resid u - ?amt"
      proof -
        have "uio_resid u + 2 ^ 32 - ?amt = (uio_resid u - ?amt) + 2 ^ 32" using fits by simp
        then show ?thesis using fits by (simp only: mod_add_self2) simp
      qed
      let ?d = "take ?amt (drop pos ptr)"
      let ?iov1 = "if uio_rw u = UIO_READ
         then iov\<lparr>iov_block := splice (iov_block iov) (iov_kbase iov) ?d, iov_kbase := iov_kbase iov + ?amt\<rparr>
         else iov\<lparr>iov_kbase := iov_kbase iov + ?amt\<rparr>"
      let ?ptr1 = "if uio_rw u = UIO_READ then ptr
         else splice ptr pos (take ?amt (drop (iov_kbase iov) (iov_block iov)))"
      let ?u = "u\<lparr>uio_iov := ?iov1\<lparr>iov_len := iov_len iov - ?amt\<rparr> # iovs,
         uio_resid := uio_resid u - ?amt, uio_offset := uio_offset u + of_nat ?amt\<rparr>"
      have d: "length ?d = ?amt" using "1.prems"(3) by simp
      have cp: "uio_copy M ptr pos ?amt u iov s = Done (s, ?ptr1, ?iov1, Inr ())"
        using fits "1.prems"(1,3) by (cases "uio_rw u") (auto simp: uio_copy_def)
      have wf: "uio_wf ?u"
        using "1.prems"(2) iov fits d by (auto simp: uio_wf_def)
      have len1: "length ?ptr1 = length ptr"
        using fits "1.prems"(3) by simp
      have seg: "uio_segflg ?u = UIO_SYSSPACE" using "1.prems"(1) by simp
      have le: "pos + ?amt + (n - ?amt) \<le> length ?ptr1" using "1.prems"(3) unfolding len1 by simp
      obtain ptr2 u2 where ih:
        "uiomove_loop M ?ptr1 (pos + ?amt) (n - ?amt) ?u s = Done (s, ptr2, u2, Inr ())"
        "moved_to ?u ?rest u2"
        "uio_rw u = UIO_READ \<Longrightarrow> ptr2 = ptr \<and> uio_filled u2 = uio_filled ?u @ take ?rest (drop (pos + ?amt) ptr)"
        "uio_rw u = UIO_WRITE \<Longrightarrow> ptr2 = splice ?ptr1 (pos + ?amt) (take ?rest (uio_window ?u)) \<and>
           uio_window u2 = drop ?rest (uio_window ?u)"
        using "1.IH"(2) [OF act iov refl False cp refl refl refl, unfolded rs, OF refl seg wf le] by auto
      have eq: "uiomove_loop M ptr pos n u s = Done (s, ptr2, u2, Inr ())"
        by (subst uiomove_loop.simps)
           (simp only: act iov list.case Let_def False cp bindo.simps prod.case sum.case rs ih(1)
             if_True if_False simp_thms)
      have "moved_to u ?amt ?u" using wf fits iov by (simp add: moved_to_def)
      then have mv: "moved_to u (?amt + ?rest) u2" by (rule moved_to_trans) (rule ih(2))
      have rd: "ptr2 = ptr \<and> uio_filled u2 = uio_filled u @ take (?amt + ?rest) (drop pos ptr)"
        if r: "uio_rw u = UIO_READ"
      proof -
        have "uio_filled ?u = uio_filled u @ ?d"
          using r iov fits d by (simp add: uio_filled_def splice_def)
        then show ?thesis using ih(3) [OF r] by (simp add: take_add add.commute)
      qed
      have wr: "ptr2 = splice ptr pos (take (?amt + ?rest) (uio_window u)) \<and>
          uio_window u2 = drop (?amt + ?rest) (uio_window u)"
        if w: "uio_rw u = UIO_WRITE"
      proof -
        let ?w = "take ?amt (drop (iov_kbase iov) (iov_block iov))"
        let ?b = "drop (iov_kbase iov) (iov_block iov)"
        have "take (iov_len iov) ?b = ?w @ take (iov_len iov - ?amt) (drop ?amt ?b)"
          using take_add [of ?amt "iov_len iov - ?amt" ?b] by simp
        then have win: "uio_window u = ?w @ uio_window ?u"
          using w iov by (simp add: uio_window_def iov_window_def add.commute)
        have lw: "length ?w = ?amt" using fits by simp
        have "splice (splice ptr pos ?w) (pos + ?amt) (take ?rest (uio_window ?u)) =
            splice ptr pos (?w @ take ?rest (uio_window ?u))"
          by (rule splice_take [OF "1.prems"(3) lw min.cobounded2 min.cobounded1])
        then show ?thesis using ih(4) [OF w] w lw unfolding win by simp
      qed
      show ?thesis unfolding k using eq mv rd wr by blast
    qed
  qed
qed

lemma uiomove_kernel:
  assumes "uio_segflg u = UIO_SYSSPACE" "uio_space u = None" "uio_wf u" "n \<le> length ptr"
  defines "k \<equiv> min n (uio_resid u)"
  shows "\<exists>ptr' u'. uiomove M curas ptr n u s = Done (s, ptr', u', Inr ()) \<and> moved_to u k u' \<and>
           (uio_rw u = UIO_READ \<longrightarrow> ptr' = ptr \<and> uio_filled u' = uio_filled u @ take k ptr) \<and>
           (uio_rw u = UIO_WRITE \<longrightarrow> ptr' = splice ptr 0 (take k (uio_window u)) \<and>
              uio_window u' = drop k (uio_window u))"
  using uiomove_loop_kernel [OF assms(1,3), of 0 n ptr M s] assms(1,2,4) unfolding k_def
  by (simp add: uiomove_def)

lemma uiomovezeros_kernel:
  fixes n :: nat
  assumes "uio_rw u = UIO_READ" "uio_segflg u = UIO_SYSSPACE" "uio_space u = None" "uio_wf u"
  defines "k \<equiv> min n (uio_resid u)"
  shows "\<exists>u'. uiomovezeros M curas n u s = Done (s, u', Inr ()) \<and> moved_to u k u' \<and>
           uio_filled u' = uio_filled u @ replicate k 0"
  using assms(1-4) unfolding k_def
proof (induction M curas n u s rule: uiomovezeros.induct)
  case (1 M curas n u s)
  show ?case
  proof (cases "n = 0")
    case True
    then show ?thesis using "1.prems" by (subst uiomovezeros.simps) (simp add: moved_to_refl)
  next
    case False
    let ?a = "min 16 n" and ?z = "replicate 16 (0 :: u8)"
    let ?k = "min ?a (uio_resid u)"
    obtain u1 where u1: "uiomove M curas ?z ?a u s = Done (s, ?z, u1, Inr ())" "moved_to u ?k u1"
      "uio_filled u1 = uio_filled u @ take ?k ?z"
      using uiomove_kernel [OF "1.prems"(2-4), of ?a ?z M curas s] "1.prems"(1) by auto
    have p1: "uio_rw u1 = UIO_READ" "uio_segflg u1 = UIO_SYSSPACE" "uio_space u1 = None" "uio_wf u1"
      "uio_resid u1 = uio_resid u - ?k"
      using u1(2) "1.prems" by (auto simp: moved_to_def)
    let ?r = "min (n - ?a) (uio_resid u1)"
    obtain u2 where u2: "uiomovezeros M curas (n - ?a) u1 s = Done (s, u2, Inr ())"
      "moved_to u1 ?r u2" "uio_filled u2 = uio_filled u1 @ replicate ?r 0"
      using "1.IH" [OF _ False refl u1(1) refl refl refl refl p1(1-4)] "1.prems"(1) by auto
    have k: "min n (uio_resid u) = ?k + ?r" unfolding p1(5) by linarith
    have "uiomovezeros M curas n u s = Done (s, u2, Inr ())"
      using False "1.prems"(1) u1(1) u2(1) by (subst uiomovezeros.simps) (simp add: Let_def)
    moreover have "moved_to u (?k + ?r) u2" using moved_to_trans [OF u1(2) u2(2)] .
    moreover have "uio_filled u2 = uio_filled u @ replicate (?k + ?r) 0"
      using u1(3) u2(3) by (simp add: replicate_add)
    ultimately show ?thesis unfolding k by blast
  qed
qed

context user_memory
begin

lemma uiomove_user_read:
  assumes "inv s" and u: "uio_segflg u = UIO_USERSPACE" "uio_rw u = UIO_READ" "uio_space u = curas"
      "uio_iov u = [iov]" "iov_len iov = uio_resid u" "uio_resid u < 2 ^ 32"
    and n: "0 < n" "n \<le> uio_resid u" "n \<le> length ptr"
    and m: "iov_ubase iov + n \<le> USERSPACETOP" "mapped (view s) (iov_ubase iov) n"
  shows "\<exists>s' u'. uiomove M curas ptr n u s = Done (s', ptr, u', Inr ()) \<and> inv s' \<and>
           view s' = put_bytes (view s) (iov_ubase iov) (take n ptr) \<and>
           uio_resid u' + n = uio_resid u \<and> uio_offset u' = uio_offset u + of_nat n \<and>
           uio_iov u' = [iov\<lparr>iov_ubase := iov_ubase iov + n, iov_len := iov_len iov - n\<rparr>] \<and>
           uio_segflg u' = UIO_USERSPACE \<and> uio_rw u' = UIO_READ \<and> uio_space u' = curas"
proof -
  obtain s1 where s1: "copyout M (take n ptr) (iov_ubase iov) s = Done (s1, Inr ())" "inv s1"
    "view s1 = put_bytes (view s) (iov_ubase iov) (take n ptr)"
    using copyout_ok [OF assms(1), of "take n ptr" "iov_ubase iov"] n m by (cases ptr) auto
  let ?iov = "iov\<lparr>iov_ubase := iov_ubase iov + n\<rparr>"
  have rs: "(uio_resid u + 2 ^ 32 - n) mod 2 ^ 32 = uio_resid u - n"
  proof -
    have "uio_resid u + 2 ^ 32 - n = (uio_resid u - n) + 2 ^ 32" using n by simp
    then show ?thesis using u(6) by (simp only: mod_add_self2) simp
  qed
  have amt: "min (iov_len iov) n = n" using u(5) n(2) by simp
  have "uio_copy M ptr 0 n u iov s = Done (s1, ptr, ?iov, Inr ())"
    using u(1,2) n(3) m(1) s1(1) by (simp add: uio_copy_def)
  then have "uiomove_loop M ptr 0 n u s =
      uiomove_loop M ptr n 0 (u\<lparr>uio_iov := [?iov\<lparr>iov_len := iov_len iov - n\<rparr>],
        uio_resid := uio_resid u - n, uio_offset := uio_offset u + of_nat n\<rparr>) s1"
    using n(1,2) u(4) amt rs by (subst uiomove_loop.simps) (simp add: Let_def)
  then have "uiomove M curas ptr n u s =
      Done (s1, ptr, u\<lparr>uio_iov := [?iov\<lparr>iov_len := iov_len iov - n\<rparr>],
        uio_resid := uio_resid u - n, uio_offset := uio_offset u + of_nat n\<rparr>, Inr ())"
    using u(1,3) by (simp add: uiomove_def uiomove_loop.simps)
  then show ?thesis using s1(2,3) n(2) u(1-3) by simp
qed

end

section \<open>Properties\<close>

text \<open>
  C27. \<^verbatim>\<open>uiomove\<close> between two kernel buffers always succeeds and transfers as many bytes as both
  the caller's count and the remaining count allow, across all blocks of the transfer. Offset and
  remaining count move by exactly that amount, a read appends the bytes to what has been filled
  in so far, and a write hands out the next bytes of the blocks in order.
\<close>

theorem uiomove_conserves:
  assumes "uio_segflg u = UIO_SYSSPACE" "uio_space u = None" "uio_wf u" "n \<le> length ptr"
  shows "\<exists>ptr' u' k. uiomove M curas ptr n u s = Done (s, ptr', u', Inr ()) \<and>
           k = min n (uio_resid u) \<and> uio_resid u' + k = uio_resid u \<and>
           uio_offset u' = uio_offset u + of_nat k \<and> uio_wf u' \<and>
           (uio_rw u = UIO_READ \<longrightarrow> uio_filled u' = uio_filled u @ take k ptr) \<and>
           (uio_rw u = UIO_WRITE \<longrightarrow> take k ptr' = take k (uio_window u) \<and>
              drop k ptr' = drop k ptr \<and> uio_window u' = drop k (uio_window u))"
proof -
  note lw = length_uio_window [OF assms(3)]
  let ?k = "min n (uio_resid u)"
  have k: "length (take ?k (uio_window u)) = ?k" using lw by simp
  have sp: "take ?k (splice ptr 0 (take ?k (uio_window u))) = take ?k (uio_window u)"
    "drop ?k (splice ptr 0 (take ?k (uio_window u))) = drop ?k ptr"
    using k by (simp_all add: splice_def del: length_take)
  obtain ptr' u' where "uiomove M curas ptr n u s = Done (s, ptr', u', Inr ())" "moved_to u ?k u'"
    "uio_rw u = UIO_READ \<longrightarrow> uio_filled u' = uio_filled u @ take ?k ptr"
    "uio_rw u = UIO_WRITE \<longrightarrow> ptr' = splice ptr 0 (take ?k (uio_window u)) \<and> uio_window u' = drop ?k (uio_window u)"
    using uiomove_kernel [OF assms, of M curas s] by auto
  then show ?thesis using sp by (auto simp: moved_to_def)
qed

theorem uiomove_conserves_witness:
  "\<exists>ptr' u'. uiomove (vm_memops None) None [1, 2, 3, 4] 4 (uio_kinit [7, 8, 9] 3 10 UIO_READ) demo_vm =
     Done (demo_vm, ptr', u', Inr ()) \<and> uio_resid u' = 0 \<and> uio_offset u' = 13 \<and> uio_filled u' = [1, 2, 3]"
proof -
  let ?u = "uio_kinit [7, 8, 9] 3 10 UIO_READ"
  have "uio_segflg ?u = UIO_SYSSPACE" "uio_space ?u = None" "uio_rw ?u = UIO_READ" "uio_resid ?u = 3"
    "uio_offset ?u = 10" by (simp_all add: uio_kinit_def)
  then show ?thesis
    using uiomove_conserves [of ?u 4 "[1, 2, 3, 4]" "vm_memops None" None demo_vm]
      uio_kinit_wf [of 3 "[7, 8, 9]" 10 UIO_READ] uio_kinit_filled [of "[7, 8, 9]" 3 10 UIO_READ] by auto
qed

end
