(* ===== verification/Console.thy ===== *)
theory Console
  imports Uio Synch
begin

text \<open>
  The system console, \<^verbatim>\<open>kern/dev/generic/console.c\<close>: the ring buffer that the input interrupt
  fills, character output through the underlying device, and the \<^verbatim>\<open>con_io\<close> routine behind the
  \<^verbatim>\<open>con:\<close> device that every process has as its standard files. The ring buffer with its
  counting semaphore refines a bounded queue.
\<close>

abbreviation "CONSOLE_INPUT_BUFFER_SIZE \<equiv> 32 :: nat"
abbreviation "DELAYBUFSIZE \<equiv> 1024 :: nat"

section \<open>State\<close>

text \<open>
  The underlying device is known by what it was given: \<open>cs_out\<close> are the bytes sent to it so far,
  and \<open>cs_busy\<close> says that the last one sent with interrupts has not been acknowledged yet.
\<close>

record con_softc =
  cs_out :: "u8 list"
  cs_busy :: bool
  cs_rsem :: semaphore
  cs_wsem :: semaphore
  cs_gotchars :: "u8 list"
  cs_gotchars_head :: nat
  cs_gotchars_tail :: nat

record con_state =
  the_console :: "con_softc option"
  con_userlock_read :: "lock option"
  con_userlock_write :: "lock option"
  delayed_outbuf :: "u8 list"

section \<open>Operations\<close>

definition putch_delayed :: "u8 \<Rightarrow> con_state \<Rightarrow> con_state outcome" where
  "putch_delayed ch c =
     (if length (delayed_outbuf c) < DELAYBUFSIZE
      then Done (c\<lparr>delayed_outbuf := delayed_outbuf c @ [ch]\<rparr>) else Panic)"

definition putch_polled :: "con_softc \<Rightarrow> u8 \<Rightarrow> con_softc" where
  "putch_polled cs ch = cs\<lparr>cs_out := cs_out cs @ [ch]\<rparr>"

text \<open>The write-done interrupt.\<close>

definition con_start :: "con_softc \<Rightarrow> con_softc outcome" where
  "con_start cs = bindo (V_section (cs_wsem cs)) (\<lambda>(_, sem). Done (cs\<lparr>cs_wsem := sem, cs_busy := False\<rparr>))"

text \<open>
  \<^verbatim>\<open>putch_intr\<close>: the write-done interrupt of a byte in transmission is taken before \<^verbatim>\<open>P\<close>;
  without one, \<^verbatim>\<open>P\<close> on a taken semaphore waits.
\<close>

definition putch_intr :: "thread_id \<Rightarrow> con_softc \<Rightarrow> u8 \<Rightarrow> con_softc outcome" where
  "putch_intr t cs ch =
     bindo (if cs_busy cs then con_start cs else Done cs)
       (\<lambda>cs1. case P_section t (cs_wsem cs1) of
          (False, _) \<Rightarrow> Block
        | (True, sem) \<Rightarrow> Done (cs1\<lparr>cs_wsem := sem, cs_busy := True, cs_out := cs_out cs1 @ [ch]\<rparr>))"

definition getch_intr :: "thread_id \<Rightarrow> con_softc \<Rightarrow> (con_softc \<times> u8) outcome" where
  "getch_intr t cs =
     (case P_section t (cs_rsem cs) of
        (False, _) \<Rightarrow> Block
      | (True, sem) \<Rightarrow>
          if length (cs_gotchars cs) \<le> cs_gotchars_tail cs then Panic
          else Done (cs\<lparr>cs_rsem := sem,
                 cs_gotchars_tail := (cs_gotchars_tail cs + 1) mod CONSOLE_INPUT_BUFFER_SIZE\<rparr>,
               cs_gotchars cs ! cs_gotchars_tail cs))"

text \<open>The read-ready interrupt: a character that does not fit is dropped.\<close>

definition con_input :: "u8 \<Rightarrow> con_softc \<Rightarrow> con_softc outcome" where
  "con_input ch cs =
     (let nexthead = (cs_gotchars_head cs + 1) mod CONSOLE_INPUT_BUFFER_SIZE in
      if nexthead = cs_gotchars_tail cs then Done cs
      else bindo (V_section (cs_rsem cs))
             (\<lambda>(_, sem). Done (cs\<lparr>cs_gotchars := (cs_gotchars cs)[cs_gotchars_head cs := ch],
                                  cs_gotchars_head := nexthead, cs_rsem := sem\<rparr>)))"

text \<open>
  \<^verbatim>\<open>putch\<close> and \<^verbatim>\<open>getch\<close>: \<open>atomic\<close> is the condition that the caller is in an interrupt handler,
  has interrupts off or holds a spinlock.
\<close>

definition putch :: "thread_id \<Rightarrow> bool \<Rightarrow> u8 \<Rightarrow> con_state \<Rightarrow> con_state outcome" where
  "putch t atomic ch c =
     (case the_console c of
        None \<Rightarrow> putch_delayed ch c
      | Some cs \<Rightarrow>
          if atomic then Done (c\<lparr>the_console := Some (putch_polled cs ch)\<rparr>)
          else bindo (putch_intr t cs ch) (\<lambda>cs'. Done (c\<lparr>the_console := Some cs'\<rparr>)))"

definition getch :: "thread_id \<Rightarrow> bool \<Rightarrow> con_state \<Rightarrow> (con_state \<times> u8) outcome" where
  "getch t atomic c =
     (case the_console c of
        None \<Rightarrow> Panic
      | Some cs \<Rightarrow>
          if atomic then Panic
          else bindo (getch_intr t cs) (\<lambda>(cs', ch). Done (c\<lparr>the_console := Some cs'\<rparr>, ch)))"

fun putchs :: "thread_id \<Rightarrow> bool \<Rightarrow> u8 list \<Rightarrow> con_state \<Rightarrow> con_state outcome" where
  "putchs t atomic [] c = Done c"
| "putchs t atomic (ch # chs) c = bindo (putch t atomic ch c) (putchs t atomic chs)"

definition flush_delay_buf :: "thread_id \<Rightarrow> bool \<Rightarrow> con_state \<Rightarrow> con_state outcome" where
  "flush_delay_buf t atomic c =
     bindo (putchs t atomic (delayed_outbuf c) c) (\<lambda>c'. Done (c'\<lparr>delayed_outbuf := []\<rparr>))"

text \<open>\<^verbatim>\<open>config_con\<close> up to the registration with the file system layer.\<close>

definition config_con ::
  "thread_id \<Rightarrow> bool \<Rightarrow> nat \<Rightarrow> memsupply \<Rightarrow> con_state \<Rightarrow> (con_state \<times> memsupply \<times> unit cres) outcome" where
  "config_con t atomic unit al c =
     (if unit > 0 then (if the_console c = None then Panic else Done (c, al, Inl ENODEV))
      else if the_console c \<noteq> None then Panic
      else case sem_create ''console read'' 0 al of
        (None, al1) \<Rightarrow> Done (c, al1, Inl ENOMEM)
      | (Some rsem, al1) \<Rightarrow>
        (case sem_create ''console write'' 1 al1 of
           (None, al2) \<Rightarrow> Done (c, al2, Inl ENOMEM)
         | (Some wsem, al2) \<Rightarrow>
           (case lock_create ''console-lock-read'' al2 of
              (None, al3) \<Rightarrow> Done (c, al3, Inl ENOMEM)
            | (Some rlk, al3) \<Rightarrow>
              (case lock_create ''console-lock-write'' al3 of
                 (None, al4) \<Rightarrow> Done (c, al4, Inl ENOMEM)
               | (Some wlk, al4) \<Rightarrow>
                   bindo (flush_delay_buf t atomic
                     (c\<lparr>the_console := Some \<lparr>cs_out = [], cs_busy = False, cs_rsem = rsem, cs_wsem = wsem,
                           cs_gotchars = replicate CONSOLE_INPUT_BUFFER_SIZE 0,
                           cs_gotchars_head = 0, cs_gotchars_tail = 0\<rparr>,
                        con_userlock_read := Some rlk, con_userlock_write := Some wlk\<rparr>))
                     (\<lambda>c'. Done (c', al4, Inr ()))))))"

lemma uiomove_loop_decreases:
  assumes "uiomove_loop M ptr pos n u s = Done (s', ptr', u', Inr ())" "uio_resid u > 0" "n = 1"
  shows "uio_resid u' < uio_resid u"
  using assms
proof (induction M ptr pos n u s arbitrary: s' ptr' u' rule: uiomove_loop.induct)
  case (1 M ptr pos n u s)
  have act: "n > 0 \<and> uio_resid u > 0" using "1.prems" by simp
  obtain iov iovs where iov: "uio_iov u = iov # iovs"
    using "1.prems"(1) act by (subst (asm) uiomove_loop.simps) (auto split: list.splits)
  show ?case
  proof (cases "min (iov_len iov) n = 0")
    case True
    let ?u = "u\<lparr>uio_iov := iovs, uio_done := uio_done u @ [iov]\<rparr>"
    have eq: "uiomove_loop M ptr pos n u s = (if iovs = [] then Panic else uiomove_loop M ptr pos n ?u s)"
      by (subst uiomove_loop.simps) (simp only: act iov list.case Let_def True if_True simp_thms)
    then have ne: "iovs \<noteq> []" using "1.prems"(1) by auto
    then show ?thesis
      using "1.IH"(1) [OF act iov refl True ne, of s' ptr' u'] "1.prems" eq by simp
  next
    case False
    then have m: "min (iov_len iov) n = 1" using "1.prems"(3) by simp
    have "uiomove_loop M ptr pos n u s = bindo (uio_copy M ptr pos 1 u iov s)
        (\<lambda>(s1, ptr1, iov1, r). case r of
           Inl e \<Rightarrow> Done (s1, ptr1, u, Inl e)
         | Inr _ \<Rightarrow>
             uiomove_loop M ptr1 (pos + 1) (n - 1)
               (u\<lparr>uio_iov := iov1\<lparr>iov_len := iov_len iov - 1\<rparr> # iovs,
                  uio_resid := (uio_resid u + 2 ^ 32 - 1) mod 2 ^ 32,
                  uio_offset := uio_offset u + of_nat 1\<rparr>) s1)"
      by (subst uiomove_loop.simps)
         (simp only: act iov list.case Let_def m one_neq_zero if_True if_False simp_thms)
    then have "uio_resid u' = (uio_resid u + 2 ^ 32 - 1) mod 2 ^ 32"
      using "1.prems"(1,3) by (auto split: sum.split_asm)
    also have "\<dots> = (uio_resid u - 1) mod 2 ^ 32"
    proof -
      have "uio_resid u + 2 ^ 32 - 1 = (uio_resid u - 1) + 2 ^ 32" using act by simp
      then show ?thesis by (simp only: mod_add_self2)
    qed
    also have "\<dots> \<le> uio_resid u - 1" by simp
    finally show ?thesis using act by linarith
  qed
qed

lemma uiomove_one_decreases:
  "uiomove M curas ptr (Suc 0) u s = Done (s', ptr', u', Inr ()) \<Longrightarrow> uio_resid u > 0 \<Longrightarrow> uio_resid u' < uio_resid u"
  by (auto simp: uiomove_def split: if_splits dest: uiomove_loop_decreases)

text \<open>The loop of \<^verbatim>\<open>con_io\<close>, run with the lock held; 13 and 10 are carriage return and newline.\<close>

function con_io_loop ::
  "'s memops \<Rightarrow> addrspace option \<Rightarrow> thread_id \<Rightarrow> uio \<Rightarrow> con_state \<Rightarrow> 's \<Rightarrow>
     (con_state \<times> 's \<times> uio \<times> unit cres) outcome" where
  "con_io_loop M curas t u c s =
     (if uio_resid u = 0 then Done (c, s, u, Inr ())
      else if uio_rw u = UIO_READ then
        bindo (getch t False c)
          (\<lambda>(c1, ch0). let ch = (if ch0 = 13 then 10 else ch0) in
             bindo (uiomove M curas [ch] 1 u s)
               (\<lambda>(s1, _, u1, r). case r of
                  Inl e \<Rightarrow> Done (c1, s1, u1, Inl e)
                | Inr _ \<Rightarrow> if ch = 10 then Done (c1, s1, u1, Inr ())
                           else con_io_loop M curas t u1 c1 s1))
      else
        bindo (uiomove M curas [0] 1 u s)
          (\<lambda>(s1, p, u1, r). case r of
             Inl e \<Rightarrow> Done (c, s1, u1, Inl e)
           | Inr _ \<Rightarrow>
               bindo (putchs t False (if hd p = 10 then [13, hd p] else [hd p]) c)
                 (\<lambda>c1. con_io_loop M curas t u1 c1 s1)))"
  by pat_completeness auto
termination
  by (relation "measure (\<lambda>(M, curas, t, u, c, s). uio_resid u)") (auto dest!: uiomove_one_decreases)

declare con_io_loop.simps [simp del]

definition con_io ::
  "'s memops \<Rightarrow> addrspace option \<Rightarrow> thread_id \<Rightarrow> uio \<Rightarrow> con_state \<Rightarrow> 's \<Rightarrow>
     (con_state \<times> 's \<times> uio \<times> unit cres) outcome" where
  "con_io M curas t u c s =
     (let rd = (uio_rw u = UIO_READ);
          put = (\<lambda>l c. if rd then c\<lparr>con_userlock_read := Some l\<rparr> else c\<lparr>con_userlock_write := Some l\<rparr>)
      in case (if rd then con_userlock_read c else con_userlock_write c) of
           None \<Rightarrow> Panic
         | Some lk \<Rightarrow>
             bindo (lock_acquire t lk)
               (\<lambda>lk1. bindo (con_io_loop M curas t u (put lk1 c) s)
                 (\<lambda>(c2, s2, u2, r). bindo (lock_release_only t lk1)
                    (\<lambda>lk2. Done (put lk2 c2, s2, u2, r)))))"

section \<open>The ring buffer as a bounded queue\<close>

definition con_queue :: "con_softc \<Rightarrow> u8 list" where
  "con_queue cs = map (\<lambda>i. cs_gotchars cs ! ((cs_gotchars_tail cs + i) mod CONSOLE_INPUT_BUFFER_SIZE))
     [0..<(cs_gotchars_head cs + CONSOLE_INPUT_BUFFER_SIZE - cs_gotchars_tail cs) mod CONSOLE_INPUT_BUFFER_SIZE]"

text \<open>The semaphore counts the characters in the ring.\<close>

definition con_inv :: "con_softc \<Rightarrow> bool" where
  "con_inv cs \<longleftrightarrow> length (cs_gotchars cs) = CONSOLE_INPUT_BUFFER_SIZE \<and>
     cs_gotchars_head cs < CONSOLE_INPUT_BUFFER_SIZE \<and> cs_gotchars_tail cs < CONSOLE_INPUT_BUFFER_SIZE \<and>
     unat (sem_count (cs_rsem cs)) = length (con_queue cs)"

lemma ring_diff: "h < 32 \<Longrightarrow> t < 32 \<Longrightarrow> (h + 32 - t) mod 32 = (if t \<le> h then h - t else h + 32 - t)"
  for h t :: nat
  by (simp add: mod_if)

lemma ring_next: "h < 32 \<Longrightarrow> (h + 1) mod 32 = (if h = 31 then 0 else h + 1)" for h :: nat
  by (simp add: mod_if)

lemma ring_sum: "t < 32 \<Longrightarrow> i < 32 \<Longrightarrow> (t + i) mod 32 = (if t + i < 32 then t + i else t + i - 32)"
  for t i :: nat
  by (simp add: mod_if)

lemma ring_len:
  assumes "h < 32" "t < (32 :: nat)"
  shows "((h + 1) mod 32 + 32 - t) mod 32 = (if (h + 1) mod 32 = t then 0 else Suc ((h + 32 - t) mod 32))"
    and "(t + (h + 32 - t) mod 32) mod 32 = h"
    and "0 < (h + 32 - t) mod 32 \<Longrightarrow> Suc ((h + 32 - (t + 1) mod 32) mod 32) = (h + 32 - t) mod 32"
    and "(h + 1) mod 32 = t \<longleftrightarrow> (h + 32 - t) mod 32 = 31"
proof -
  have n: "(h + 1) mod 32 < 32" "(t + 1) mod 32 < 32" "(h + 32 - t) mod 32 < 32" by simp_all
  note ds = ring_diff [OF assms] ring_diff [OF n(1) assms(2)] ring_diff [OF assms(1) n(2)]
  note rs = ring_next [OF assms(1)] ring_next [OF assms(2)]
  show "((h + 1) mod 32 + 32 - t) mod 32 = (if (h + 1) mod 32 = t then 0 else Suc ((h + 32 - t) mod 32))"
    unfolding ds unfolding rs using assms by auto
  show "(t + (h + 32 - t) mod 32) mod 32 = h"
    unfolding ring_sum [OF assms(2) n(3)] unfolding ds unfolding rs using assms by auto
  show "0 < (h + 32 - t) mod 32 \<Longrightarrow> Suc ((h + 32 - (t + 1) mod 32) mod 32) = (h + 32 - t) mod 32"
    unfolding ds unfolding rs using assms by (auto split: if_splits)
  show "(h + 1) mod 32 = t \<longleftrightarrow> (h + 32 - t) mod 32 = 31"
    unfolding ds unfolding rs using assms by auto
qed

lemma ring_index:
  assumes "h < 32" "t < (32 :: nat)" "i < (h + 32 - t) mod 32"
  shows "(t + i) mod 32 \<noteq> h"
proof -
  have "i < 32" using assms(3) by (metis mod_less_divisor order_less_trans zero_less_numeral)
  then show ?thesis
    using assms(3) unfolding ring_sum [OF assms(2) \<open>i < 32\<close>] ring_diff [OF assms(1,2)]
    using assms(1,2) by (auto split: if_splits)
qed

lemma length_con_queue:
  "length (con_queue cs) =
     (cs_gotchars_head cs + CONSOLE_INPUT_BUFFER_SIZE - cs_gotchars_tail cs) mod CONSOLE_INPUT_BUFFER_SIZE"
  by (simp add: con_queue_def)

lemma unat_small_inc: "unat (x :: u32) < n \<Longrightarrow> n < 2 ^ 32 \<Longrightarrow> x + 1 \<noteq> 0"
proof
  assume a: "unat x < n" "n < 2 ^ 32" "x + 1 = 0"
  have "unat (x + 1) = (unat x + 1) mod 2 ^ 32" by (simp add: unat_word_ariths)
  then show False using a by simp
qed

lemma con_input_queue:
  assumes "con_inv cs"
  shows "\<exists>cs'. con_input ch cs = Done cs' \<and> con_inv cs' \<and> cs_out cs' = cs_out cs \<and>
           con_queue cs' = (if length (con_queue cs) < CONSOLE_INPUT_BUFFER_SIZE - 1
                            then con_queue cs @ [ch] else con_queue cs)"
proof -
  let ?h = "cs_gotchars_head cs" and ?t = "cs_gotchars_tail cs"
  let ?n = "(?h + 32 - ?t) mod 32"
  have b: "?h < 32" "?t < 32" and l: "length (cs_gotchars cs) = 32"
    and c: "unat (sem_count (cs_rsem cs)) = ?n"
    using assms by (auto simp: con_inv_def length_con_queue)
  note r = ring_len [OF b]
  show ?thesis
  proof (cases "(?h + 1) mod 32 = ?t")
    case True
    then show ?thesis using assms r(4) by (simp add: con_input_def length_con_queue)
  next
    case False
    have "unat (sem_count (cs_rsem cs)) < 32" unfolding c by simp
    then have nz: "sem_count (cs_rsem cs) + 1 \<noteq> 0" by (rule unat_small_inc) simp
    let ?cs = "cs\<lparr>cs_gotchars := (cs_gotchars cs)[?h := ch], cs_gotchars_head := (?h + 1) mod 32,
        cs_rsem := (cs_rsem cs)\<lparr>sem_count := sem_count (cs_rsem cs) + 1,
          sem_wchan := snd (wchan_wakeone (sem_wchan (cs_rsem cs)))\<rparr>\<rparr>"
    have run: "con_input ch cs = Done ?cs"
      using False nz by (simp add: con_input_def V_section_def Let_def split: prod.split)
    have q: "con_queue ?cs = con_queue cs @ [ch]"
    proof -
      have "(cs_gotchars cs)[?h := ch] ! ((?t + i) mod 32) = cs_gotchars cs ! ((?t + i) mod 32)" if "i < ?n" for i
        using ring_index [OF b that] by simp
      then show ?thesis
        using r(1,2) False l b by (simp add: con_queue_def)
    qed
    have "unat (sem_count (cs_rsem cs) + 1) = Suc ?n" using unat_inc [OF nz] c by simp
    then have "con_inv ?cs" using l q c b(2) by (simp add: con_inv_def length_con_queue [symmetric, of cs])
    moreover have "length (con_queue cs) < 31"
    proof -
      have "?n < 32" by simp
      then show ?thesis using r(4) False unfolding length_con_queue by linarith
    qed
    ultimately show ?thesis using run q by simp
  qed
qed

text \<open>The state after a character was taken from the ring.\<close>

definition con_take :: "con_softc \<Rightarrow> con_softc" where
  "con_take cs = cs\<lparr>cs_rsem := (cs_rsem cs)\<lparr>sem_count := sem_count (cs_rsem cs) - 1\<rparr>,
     cs_gotchars_tail := (cs_gotchars_tail cs + 1) mod CONSOLE_INPUT_BUFFER_SIZE\<rparr>"

lemma con_queue_Cons:
  assumes "con_inv cs" "con_queue cs \<noteq> []"
  shows "con_queue cs = cs_gotchars cs ! cs_gotchars_tail cs # con_queue (con_take cs)"
proof -
  let ?h = "cs_gotchars_head cs" and ?t = "cs_gotchars_tail cs" and ?g = "cs_gotchars cs"
  let ?m = "(?h + 32 - (?t + 1) mod 32) mod 32"
  have b: "?h < 32" "?t < 32" using assms(1) by (auto simp: con_inv_def)
  have "0 < length (con_queue cs)" using assms(2) by simp
  then have n: "(?h + 32 - ?t) mod 32 = Suc ?m"
    unfolding length_con_queue by (rule ring_len(3) [OF b, symmetric])
  have "con_queue cs = map (\<lambda>i. ?g ! ((?t + i) mod 32)) (0 # map Suc [0..<?m])"
    unfolding con_queue_def n by (simp only: upt_conv_Cons [OF zero_less_Suc] map_Suc_upt)
  also have "\<dots> = ?g ! ?t # map (\<lambda>i. ?g ! ((?t + Suc i) mod 32)) [0..<?m]" using b by simp
  also have "(\<lambda>i. ?g ! ((?t + Suc i) mod 32)) = (\<lambda>i. ?g ! (((?t + 1) mod 32 + i) mod 32))"
    by (simp add: mod_add_left_eq)
  finally show ?thesis by (simp add: con_take_def con_queue_def)
qed

lemma getch_intr_queue:
  assumes "con_inv cs"
  shows "getch_intr t cs = (case con_queue cs of [] \<Rightarrow> Block | ch # q \<Rightarrow> Done (con_take cs, ch))"
proof (cases "con_queue cs")
  case Nil
  then have "sem_count (cs_rsem cs) = 0" using assms by (simp add: con_inv_def unat_eq_0)
  then show ?thesis using Nil by (simp add: getch_intr_def P_section_def)
next
  case (Cons ch q)
  then have "ch = cs_gotchars cs ! cs_gotchars_tail cs" using con_queue_Cons [OF assms] by simp
  moreover have "sem_count (cs_rsem cs) \<noteq> 0" using assms Cons by (auto simp: con_inv_def)
  ultimately show ?thesis
    using Cons assms by (simp add: getch_intr_def P_section_def con_take_def con_inv_def)
qed

lemma con_take_inv:
  assumes "con_inv cs" "con_queue cs = ch # q"
  shows "con_inv (con_take cs)" "con_queue (con_take cs) = q" "cs_out (con_take cs) = cs_out cs"
proof -
  show q: "con_queue (con_take cs) = q" using con_queue_Cons [OF assms(1)] assms(2) by simp
  have "sem_count (cs_rsem cs) \<noteq> 0" using assms by (auto simp: con_inv_def)
  then show "con_inv (con_take cs)"
    using assms unat_dec [of "sem_count (cs_rsem cs)"] q by (simp add: con_inv_def con_take_def)
qed (simp add: con_take_def)

section \<open>The contract of a bounded queue\<close>

primrec feed :: "('a \<Rightarrow> 's \<Rightarrow> 's outcome) \<Rightarrow> 'a list \<Rightarrow> 's \<Rightarrow> 's outcome" where
  "feed put [] s = Done s"
| "feed put (x # xs) s = bindo (put x s) (feed put xs)"

primrec drain :: "('s \<Rightarrow> ('s \<times> 'a) outcome) \<Rightarrow> nat \<Rightarrow> 's \<Rightarrow> ('s \<times> 'a list) outcome" where
  "drain get 0 s = Done (s, [])"
| "drain get (Suc n) s =
     bindo (get s) (\<lambda>(s1, x). bindo (drain get n s1) (\<lambda>(s2, xs). Done (s2, x # xs)))"

locale bounded_queue =
  fixes inv :: "'s \<Rightarrow> bool" and que :: "'s \<Rightarrow> 'a list" and cap :: nat
    and put :: "'a \<Rightarrow> 's \<Rightarrow> 's outcome" and get :: "'s \<Rightarrow> ('s \<times> 'a) outcome"
  assumes put_law: "inv s \<Longrightarrow> \<exists>s'. put x s = Done s' \<and> inv s' \<and>
      que s' = (if length (que s) < cap then que s @ [x] else que s)"
    and get_empty: "inv s \<Longrightarrow> que s = [] \<Longrightarrow> get s = Block"
    and get_law: "inv s \<Longrightarrow> que s = x # xs \<Longrightarrow> \<exists>s'. get s = Done (s', x) \<and> inv s' \<and> que s' = xs"
    and bounded: "inv s \<Longrightarrow> length (que s) \<le> cap"
begin

lemma feed_law:
  "inv s \<Longrightarrow> \<exists>s'. feed put xs s = Done s' \<and> inv s' \<and> que s' = take cap (que s @ xs)"
proof (induction xs arbitrary: s)
  case Nil
  then show ?case using bounded by simp
next
  case (Cons x xs)
  obtain s1 where s1: "put x s = Done s1" "inv s1"
    "que s1 = (if length (que s) < cap then que s @ [x] else que s)"
    using put_law [OF Cons.prems] by blast
  obtain s2 where s2: "feed put xs s1 = Done s2" "inv s2" "que s2 = take cap (que s1 @ xs)"
    using Cons.IH [OF s1(2)] by blast
  have "take cap (que s1 @ xs) = take cap (que s @ x # xs)"
  proof (cases "length (que s) < cap")
    case True
    then have "que s1 @ xs = que s @ x # xs" using s1(3) by simp
    then show ?thesis by (rule arg_cong)
  next
    case False
    then show ?thesis using s1(3) by simp
  qed
  then show ?case using s1(1) s2 by simp
qed

lemma drain_law:
  "inv s \<Longrightarrow> n \<le> length (que s) \<Longrightarrow>
     \<exists>s'. drain get n s = Done (s', take n (que s)) \<and> inv s' \<and> que s' = drop n (que s)"
proof (induction n arbitrary: s)
  case (Suc n)
  then obtain x xs where x: "que s = x # xs" by (cases "que s") auto
  then obtain s1 where s1: "get s = Done (s1, x)" "inv s1" "que s1 = xs"
    using get_law [OF Suc.prems(1)] by blast
  then show ?case using Suc.IH [OF s1(2)] Suc.prems(2) x by auto
qed simp

end

interpretation con_ring: bounded_queue con_inv con_queue "CONSOLE_INPUT_BUFFER_SIZE - 1" con_input "getch_intr t"
  for t
proof
  fix s :: con_softc and x
  assume i: "con_inv s"
  show "\<exists>s'. con_input x s = Done s' \<and> con_inv s' \<and>
      con_queue s' = (if length (con_queue s) < CONSOLE_INPUT_BUFFER_SIZE - 1 then con_queue s @ [x] else con_queue s)"
    using con_input_queue [OF i] by blast
  show "getch_intr t s = Block" if "con_queue s = []"
    using getch_intr_queue [OF i] that by simp
  show "\<exists>s'. getch_intr t s = Done (s', x) \<and> con_inv s' \<and> con_queue s' = xs" if "con_queue s = x # xs" for xs
    using getch_intr_queue [OF i] con_take_inv [OF i that] that by simp
  show "length (con_queue s) \<le> CONSOLE_INPUT_BUFFER_SIZE - 1"
  proof -
    have "length (con_queue s) < 32" unfolding length_con_queue by simp
    then show ?thesis by simp
  qed
qed

section \<open>Output\<close>

text \<open>Either the device is idle and may be given a byte, or it works on one.\<close>

definition con_winv :: "con_softc \<Rightarrow> bool" where
  "con_winv cs \<longleftrightarrow> (if cs_busy cs then sem_count (cs_wsem cs) = 0 else sem_count (cs_wsem cs) = 1)"

text \<open>Output does not touch the input side, and input does not touch the output side.\<close>

definition same_input :: "con_softc \<Rightarrow> con_softc \<Rightarrow> bool" where
  "same_input cs cs' \<longleftrightarrow> cs_rsem cs' = cs_rsem cs \<and> cs_gotchars cs' = cs_gotchars cs \<and>
     cs_gotchars_head cs' = cs_gotchars_head cs \<and> cs_gotchars_tail cs' = cs_gotchars_tail cs"

definition same_output :: "con_softc \<Rightarrow> con_softc \<Rightarrow> bool" where
  "same_output cs cs' \<longleftrightarrow> cs_out cs' = cs_out cs \<and> cs_busy cs' = cs_busy cs \<and> cs_wsem cs' = cs_wsem cs"

lemma same_input_inv: "same_input cs cs' \<Longrightarrow> con_inv cs' = con_inv cs \<and> con_queue cs' = con_queue cs"
  by (simp add: same_input_def con_inv_def con_queue_def)

lemma same_output_inv: "same_output cs cs' \<Longrightarrow> con_winv cs' = con_winv cs"
  by (simp add: same_output_def con_winv_def)

lemma same_input_refl [simp]: "same_input cs cs" and same_output_refl [simp]: "same_output cs cs"
  by (simp_all add: same_input_def same_output_def)

lemma same_input_trans: "same_input a b \<Longrightarrow> same_input b c \<Longrightarrow> same_input a c"
  by (simp add: same_input_def)

lemma same_output_trans: "same_output a b \<Longrightarrow> same_output b c \<Longrightarrow> same_output a c"
  by (simp add: same_output_def)

lemma same_output_take: "same_output cs (con_take cs)"
  by (simp add: same_output_def con_take_def)

lemma putch_intr_ok:
  assumes "con_winv cs"
  shows "\<exists>cs'. putch_intr t cs ch = Done cs' \<and> con_winv cs' \<and> cs_out cs' = cs_out cs @ [ch] \<and> same_input cs cs'"
  using assms
  by (cases "cs_busy cs")
     (simp_all add: con_winv_def same_input_def putch_intr_def con_start_def V_section_def P_section_def Let_def
        split_beta del: bindo_Done_iff)

lemma the_console_id: "the_console c = Some cs \<Longrightarrow> c\<lparr>the_console := Some cs\<rparr> = (c :: con_state)"
  by (cases c) simp

lemma putchs_ok:
  assumes "the_console c = Some cs" "con_winv cs"
  shows "\<exists>cs'. putchs t False chs c = Done (c\<lparr>the_console := Some cs'\<rparr>) \<and> con_winv cs' \<and>
           cs_out cs' = cs_out cs @ chs \<and> same_input cs cs'"
  using assms
proof (induction chs arbitrary: c cs)
  case (Cons ch chs)
  obtain cs1 where cs1: "putch_intr t cs ch = Done cs1" "con_winv cs1" "cs_out cs1 = cs_out cs @ [ch]" "same_input cs cs1"
    using putch_intr_ok [OF Cons.prems(2)] by blast
  have "putch t False ch c = Done (c\<lparr>the_console := Some cs1\<rparr>)"
    using Cons.prems(1) cs1(1) by (simp add: putch_def)
  then show ?case
    using Cons.IH [of "c\<lparr>the_console := Some cs1\<rparr>" cs1] cs1(2,3,4) same_input_trans by fastforce
qed (auto intro: the_console_id [symmetric])

text \<open>What the terminal receives for a byte: a newline is preceded by a carriage return.\<close>

definition crlf :: "u8 \<Rightarrow> u8 list" where
  "crlf ch = (if ch = 10 then [13, ch] else [ch])"

lemma con_write_loop:
  assumes "uio_rw u = UIO_WRITE" "uio_segflg u = UIO_SYSSPACE" "uio_space u = None" "uio_wf u"
    and "the_console c = Some cs" "con_winv cs"
  shows "\<exists>cs' u'. con_io_loop M curas t u c s = Done (c\<lparr>the_console := Some cs'\<rparr>, s, u', Inr ()) \<and>
           con_winv cs' \<and> cs_out cs' = cs_out cs @ concat (map crlf (uio_window u)) \<and> same_input cs cs' \<and>
           moved_to u (uio_resid u) u'"
  using assms
proof (induction M curas t u c s arbitrary: cs rule: con_io_loop.induct)
  case (1 M curas t u c s)
  show ?case
  proof (cases "uio_resid u = 0")
    case True
    then have "uio_window u = []"
      using length_uio_window [OF "1.prems"(4)] by simp
    then show ?thesis using True "1.prems" the_console_id [OF "1.prems"(5)]
      by (subst con_io_loop.simps) (auto simp: moved_to_refl intro!: exI [of _ cs])
  next
    case False
    obtain p u1 where u1: "uiomove M curas [0] 1 u s = Done (s, p, u1, Inr ())" "moved_to u 1 u1"
      "p = splice [0] 0 (take 1 (uio_window u))" "uio_window u1 = drop 1 (uio_window u)"
      using uiomove_kernel [OF "1.prems"(2-4), of 1 "[0]" M curas s] "1.prems"(1) False by (auto simp: min_def)
    obtain ch w where w: "uio_window u = ch # w"
      using length_uio_window [OF "1.prems"(4)] False by (cases "uio_window u") auto
    have p: "p = [ch]" using u1(3) w by (simp add: splice_def)
    obtain cs1 where cs1: "putchs t False (crlf ch) c = Done (c\<lparr>the_console := Some cs1\<rparr>)"
      "con_winv cs1" "cs_out cs1 = cs_out cs @ crlf ch" "same_input cs cs1"
      using putchs_ok [OF "1.prems"(5,6)] by blast
    have pre: "uio_rw u1 = UIO_WRITE" "uio_segflg u1 = UIO_SYSSPACE" "uio_space u1 = None" "uio_wf u1"
      "uio_resid u1 + 1 = uio_resid u"
      using u1(2) "1.prems" by (auto simp: moved_to_def)
    have cf: "(if hd p = 10 then [13, hd p] else [hd p]) = crlf ch" using p by (simp add: crlf_def)
    have step: "con_io_loop M curas t u c s = con_io_loop M curas t u1 (c\<lparr>the_console := Some cs1\<rparr>) s"
      using False "1.prems"(1) u1(1) cs1(1) by (subst con_io_loop.simps) (simp add: cf del: putchs.simps)
    obtain cs2 u2 where "con_io_loop M curas t u1 (c\<lparr>the_console := Some cs1\<rparr>) s =
        Done (c\<lparr>the_console := Some cs2\<rparr>, s, u2, Inr ())" "con_winv cs2"
      "cs_out cs2 = cs_out cs1 @ concat (map crlf (uio_window u1))" "moved_to u1 (uio_resid u1) u2" "same_input cs1 cs2"
      using "1.IH"(2) [OF False _ u1(1) refl refl refl refl, unfolded cf, OF _ cs1(1) pre(1-4) _ cs1(2)]
        "1.prems"(1) by auto
    then show ?thesis
      unfolding step using cs1(3) u1(4) w pre(5) moved_to_trans [OF u1(2), of "uio_resid u1" u2]
        same_input_trans [OF cs1(4), of cs2] by auto
  qed
qed

section \<open>Input\<close>

text \<open>What one read of at most \<open>n\<close> bytes takes from the queue: a line, or a part of one.\<close>

fun con_line :: "nat \<Rightarrow> u8 list \<Rightarrow> u8 list" where
  "con_line 0 q = []"
| "con_line (Suc n) [] = []"
| "con_line (Suc n) (ch # q) =
     (let c = (if ch = 13 then 10 else ch) in if c = 10 then [c] else c # con_line n q)"

lemma length_con_line: "length (con_line n q) \<le> n"
  by (induction n q rule: con_line.induct) (auto simp: Let_def)

lemma con_read_loop:
  assumes "uio_rw u = UIO_READ" "uio_segflg u = UIO_SYSSPACE" "uio_space u = None" "uio_wf u"
    and "the_console c = Some cs" "con_inv cs"
    and "uio_resid u \<le> length (con_queue cs) \<or> 10 \<in> set (con_queue cs) \<or> 13 \<in> set (con_queue cs)"
  defines "line \<equiv> con_line (uio_resid u) (con_queue cs)"
  shows "\<exists>cs' u'. con_io_loop M curas t u c s = Done (c\<lparr>the_console := Some cs'\<rparr>, s, u', Inr ()) \<and>
           con_inv cs' \<and> con_queue cs' = drop (length line) (con_queue cs) \<and> same_output cs cs' \<and>
           uio_filled u' = uio_filled u @ line \<and> moved_to u (length line) u'"
  using assms(1-7) unfolding line_def
proof (induction M curas t u c s arbitrary: cs rule: con_io_loop.induct)
  case (1 M curas t u c s)
  show ?case
  proof (cases "uio_resid u")
    case 0
    then show ?thesis using "1.prems" the_console_id [OF "1.prems"(5)]
      by (subst con_io_loop.simps) (auto simp: moved_to_refl intro!: exI [of _ cs])
  next
    case (Suc n)
    then have nz: "uio_resid u \<noteq> 0" by simp
    obtain ch0 q where q: "con_queue cs = ch0 # q"
      using "1.prems"(7) Suc by (cases "con_queue cs") auto
    let ?ch = "if ch0 = 13 then 10 else ch0 :: u8"
    let ?cs1 = "con_take cs" and ?c1 = "c\<lparr>the_console := Some (con_take cs)\<rparr>"
    note take = con_take_inv [OF "1.prems"(6) q]
    have g: "getch t False c = Done (?c1, ch0)"
      using "1.prems"(5) getch_intr_queue [OF "1.prems"(6), of t] q by (simp add: getch_def)
    obtain u1 where u1: "uiomove M curas [?ch] 1 u s = Done (s, [?ch], u1, Inr ())" "moved_to u 1 u1"
      "uio_filled u1 = uio_filled u @ [?ch]"
      using uiomove_kernel [OF "1.prems"(2-4), of 1 "[?ch]" M curas s] "1.prems"(1) Suc by (auto simp: min_def)
    show ?thesis
    proof (cases "?ch = 10")
      case True
      then have "con_io_loop M curas t u c s = Done (?c1, s, u1, Inr ())"
        using nz "1.prems"(1) g u1(1) by (subst con_io_loop.simps) simp
      then show ?thesis using True take u1(2,3) Suc q same_output_take by (auto intro!: exI [of _ ?cs1])
    next
      case False
      have pre: "uio_rw u1 = UIO_READ" "uio_segflg u1 = UIO_SYSSPACE" "uio_space u1 = None" "uio_wf u1"
        "uio_resid u1 = n"
        using u1(2) "1.prems" Suc by (auto simp: moved_to_def)
      have rdy: "uio_resid u1 \<le> length (con_queue ?cs1) \<or> 10 \<in> set (con_queue ?cs1) \<or> 13 \<in> set (con_queue ?cs1)"
        using "1.prems"(7) take(2) q pre(5) Suc False by (auto split: if_splits)
      let ?l = "con_line n q"
      obtain cs2 u2 where r: "con_io_loop M curas t u1 ?c1 s = Done (c\<lparr>the_console := Some cs2\<rparr>, s, u2, Inr ())"
        "con_inv cs2" "con_queue cs2 = drop (length ?l) q" "same_output ?cs1 cs2"
        "uio_filled u2 = uio_filled u1 @ ?l" "moved_to u1 (length ?l) u2"
        using "1.IH"(1) [OF nz "1.prems"(1) g refl refl u1(1) refl refl refl refl False pre(1-4) _ take(1) rdy]
          take(2,3) pre(5) by auto
      have "con_io_loop M curas t u c s = con_io_loop M curas t u1 ?c1 s"
        using nz "1.prems"(1) g u1(1) False by (subst con_io_loop.simps) simp
      moreover have "con_line (uio_resid u) (con_queue cs) = ?ch # ?l"
        using Suc q False by (simp add: Let_def)
      moreover have "moved_to u (1 + length ?l) u2" using moved_to_trans [OF u1(2) r(6)] .
      ultimately show ?thesis using r u1(3) q same_output_trans [OF same_output_take r(4)] by (auto simp del: con_line.simps)
    qed
  qed
qed

text \<open>Both directions with a kernel buffer; the locks of the console are free again afterwards.\<close>

lemma lock_again:
  assumes "lk_owner lk = None" "wc_threads (lk_wchan lk) = []"
  shows "lock_release_only t (lk\<lparr>lk_owner := Some t\<rparr>) = Done lk"
proof -
  have "snd (wchan_wakeone (lk_wchan lk)) = lk_wchan lk" using assms(2) by (simp add: wchan_wakeone_def)
  then have "lk\<lparr>lk_owner := None, lk_wchan := snd (wchan_wakeone (lk_wchan lk))\<rparr> = lk" using assms(1) by (cases lk) simp
  then show ?thesis by simp
qed

lemma con_io_write_run:
  assumes "the_console c = Some cs" "con_winv cs" "con_userlock_write c = Some lk" "lk_owner lk = None"
    and "wc_threads (lk_wchan lk) = []" "length buf < 2 ^ 32"
  shows "\<exists>cs' u'. con_io M curas t (uio_kinit buf (length buf) pos UIO_WRITE) c s =
           Done (c\<lparr>the_console := Some cs'\<rparr>, s, u', Inr ()) \<and>
         cs_out cs' = cs_out cs @ concat (map crlf buf) \<and> con_winv cs' \<and> same_input cs cs' \<and>
         moved_to (uio_kinit buf (length buf) pos UIO_WRITE) (length buf) u'"
proof -
  let ?u = "uio_kinit buf (length buf) pos UIO_WRITE"
  let ?lk = "lk\<lparr>lk_owner := Some t\<rparr>" and ?c = "c\<lparr>con_userlock_write := Some (lk\<lparr>lk_owner := Some t\<rparr>)\<rparr>"
  have u: "uio_rw ?u = UIO_WRITE" "uio_segflg ?u = UIO_SYSSPACE" "uio_space ?u = None" "uio_resid ?u = length buf"
    by (simp_all add: uio_kinit_def)
  have c: "the_console ?c = Some cs" using assms(1) by simp
  obtain cs' u' where r: "con_io_loop M curas t ?u ?c s = Done (?c\<lparr>the_console := Some cs'\<rparr>, s, u', Inr ())"
    "con_winv cs'" "cs_out cs' = cs_out cs @ concat (map crlf buf)" "moved_to ?u (length buf) u'" "same_input cs cs'"
    using con_write_loop [OF u(1-3) uio_kinit_wf [OF order.refl assms(6)] c assms(2), of M curas t s]
      uio_kinit_window [of buf "length buf" pos UIO_WRITE] u(4) by auto
  have "c\<lparr>con_userlock_write := Some lk\<rparr> = c" using assms(3) by (cases c) simp
  then have "c\<lparr>the_console := Some cs', con_userlock_write := Some lk\<rparr> = c\<lparr>the_console := Some cs'\<rparr>"
    by (metis con_state.update_convs(1) con_state.surjective con_state.update_convs(3))
  then have "con_io M curas t ?u c s = Done (c\<lparr>the_console := Some cs'\<rparr>, s, u', Inr ())"
    using assms(3,4) u(1) r(1) lock_again [OF assms(4,5)] by (simp add: con_io_def Let_def)
  then show ?thesis using r by auto
qed

lemma con_io_read_run:
  assumes "the_console c = Some cs" "con_inv cs" "con_userlock_read c = Some lk" "lk_owner lk = None"
    and "wc_threads (lk_wchan lk) = []" "len < 2 ^ 32" "len \<le> length buf"
    and "len \<le> length (con_queue cs) \<or> 10 \<in> set (con_queue cs) \<or> 13 \<in> set (con_queue cs)"
  defines "line \<equiv> con_line len (con_queue cs)"
  shows "\<exists>cs' u'. con_io M curas t (uio_kinit buf len pos UIO_READ) c s =
             Done (c\<lparr>the_console := Some cs'\<rparr>, s, u', Inr ()) \<and>
           uio_filled u' = line \<and> moved_to (uio_kinit buf len pos UIO_READ) (length line) u' \<and>
           con_queue cs' = drop (length line) (con_queue cs) \<and> con_inv cs' \<and> same_output cs cs'"
proof -
  let ?u = "uio_kinit buf len pos UIO_READ"
  let ?lk = "lk\<lparr>lk_owner := Some t\<rparr>" and ?c = "c\<lparr>con_userlock_read := Some (lk\<lparr>lk_owner := Some t\<rparr>)\<rparr>"
  have u: "uio_rw ?u = UIO_READ" "uio_segflg ?u = UIO_SYSSPACE" "uio_space ?u = None" "uio_resid ?u = len"
    by (simp_all add: uio_kinit_def)
  have c: "the_console ?c = Some cs" using assms(1) by simp
  obtain cs' u' where r: "con_io_loop M curas t ?u ?c s = Done (?c\<lparr>the_console := Some cs'\<rparr>, s, u', Inr ())"
    "con_inv cs'" "con_queue cs' = drop (length line) (con_queue cs)" "uio_filled u' = line"
    "moved_to ?u (length line) u'" "same_output cs cs'"
    using con_read_loop [OF u(1-3) uio_kinit_wf [OF assms(7,6)] c assms(2), of M curas t s] assms(8)
      uio_kinit_filled [of buf len pos UIO_READ] u(4) line_def by auto
  have "c\<lparr>con_userlock_read := Some lk\<rparr> = c" using assms(3) by (cases c) simp
  then have "c\<lparr>the_console := Some cs', con_userlock_read := Some lk\<rparr> = c\<lparr>the_console := Some cs'\<rparr>"
    by (metis con_state.update_convs(1) con_state.surjective con_state.update_convs(2))
  then have "con_io M curas t ?u c s = Done (c\<lparr>the_console := Some cs'\<rparr>, s, u', Inr ())"
    using assms(3,4) u(1) r(1) lock_again [OF assms(4,5)] by (simp add: con_io_def Let_def)
  then show ?thesis using r by auto
qed

text \<open>A fresh console, as \<^verbatim>\<open>config_con\<close> leaves it.\<close>

definition demo_con :: con_state where
  "demo_con = \<lparr>the_console = Some \<lparr>cs_out = [], cs_busy = False,
       cs_rsem = \<lparr>sem_name = [], sem_wchan = \<lparr>wc_name = [], wc_threads = []\<rparr>, sem_lock = spinlock_init, sem_count = 0\<rparr>,
       cs_wsem = \<lparr>sem_name = [], sem_wchan = \<lparr>wc_name = [], wc_threads = []\<rparr>, sem_lock = spinlock_init, sem_count = 1\<rparr>,
       cs_gotchars = replicate CONSOLE_INPUT_BUFFER_SIZE 0, cs_gotchars_head = 0, cs_gotchars_tail = 0\<rparr>,
     con_userlock_read = Some \<lparr>lk_name = [], lk_wchan = \<lparr>wc_name = [], wc_threads = []\<rparr>, lk_owner = None, lk_lock = spinlock_init\<rparr>,
     con_userlock_write = Some \<lparr>lk_name = [], lk_wchan = \<lparr>wc_name = [], wc_threads = []\<rparr>, lk_owner = None, lk_lock = spinlock_init\<rparr>,
     delayed_outbuf = []\<rparr>"

lemma demo_con_inv: "con_inv (the (the_console demo_con))" "con_winv (the (the_console demo_con))"
  "con_queue (the (the_console demo_con)) = []"
  by (simp_all add: demo_con_def con_inv_def con_winv_def con_queue_def)

section \<open>Properties\<close>



text \<open>
  Writing to the console sends the whole buffer to the device, every newline preceded by a
  carriage return, consumes the transfer completely, and leaves the console lock free and the
  input untouched.
\<close>

theorem con_io_writes:
  assumes "the_console c = Some cs" "con_winv cs" "con_userlock_write c = Some lk" "lk_owner lk = None"
    and "wc_threads (lk_wchan lk) = []" "length buf < 2 ^ 32"
  shows "\<exists>cs' u'. con_io M curas t (uio_kinit buf (length buf) pos UIO_WRITE) c s =
           Done (c\<lparr>the_console := Some cs'\<rparr>, s, u', Inr ()) \<and>
         cs_out cs' = cs_out cs @ concat (map crlf buf) \<and> con_winv cs' \<and>
         uio_resid u' = 0 \<and> uio_offset u' = pos + of_nat (length buf)"
  using con_io_write_run [OF assms, of M curas t pos s] by (auto simp: moved_to_def uio_kinit_def)

theorem con_io_writes_witness:
  "\<exists>c' u'. con_io (vm_memops None) None 5 (uio_kinit [111, 107, 10] 3 0 UIO_WRITE) demo_con demo_vm =
     Done (c', demo_vm, u', Inr ()) \<and> map_option cs_out (the_console c') = Some [111, 107, 13, 10]"
  using con_io_writes [of demo_con "the (the_console demo_con)" "the (con_userlock_write demo_con)" "[111, 107, 10]"
      "vm_memops None" None 5 0 demo_vm] demo_con_inv(2)
  by (auto simp: demo_con_def crlf_def numeral_3_eq_3)

text \<open>
  Reading from the console returns one line: bytes are taken from the input queue up to and
  including the first newline or carriage return, which is handed out as a newline, or until the
  buffer is full. Exactly the bytes handed out leave the queue, and the lock is free afterwards.
\<close>

theorem con_io_reads_line:
  assumes "the_console c = Some cs" "con_inv cs" "con_userlock_read c = Some lk" "lk_owner lk = None"
    and "wc_threads (lk_wchan lk) = []" "len < 2 ^ 32" "len \<le> length buf"
    and "len \<le> length (con_queue cs) \<or> 10 \<in> set (con_queue cs) \<or> 13 \<in> set (con_queue cs)"
  shows "\<exists>cs' u' line. line = con_line len (con_queue cs) \<and>
           con_io M curas t (uio_kinit buf len pos UIO_READ) c s =
             Done (c\<lparr>the_console := Some cs'\<rparr>, s, u', Inr ()) \<and>
           uio_filled u' = line \<and> uio_resid u' + length line = len \<and>
           uio_offset u' = pos + of_nat (length line) \<and>
           con_queue cs' = drop (length line) (con_queue cs) \<and> con_inv cs'"
  using con_io_read_run [OF assms, of M curas t pos s] by (auto simp: moved_to_def uio_kinit_def)

theorem con_io_reads_line_witness:
  "\<exists>cs c' u'. feed con_input [108, 115, 13, 97] (the (the_console demo_con)) = Done cs \<and>
     con_io (vm_memops None) None 5 (uio_kinit [0, 0, 0, 0, 0, 0, 0, 0] 8 0 UIO_READ)
       (demo_con\<lparr>the_console := Some cs\<rparr>) demo_vm = Done (c', demo_vm, u', Inr ()) \<and>
     uio_filled u' = [108, 115, 10]"
proof -
  obtain cs where cs: "feed con_input [108, 115, 13, 97] (the (the_console demo_con)) = Done cs" "con_inv cs"
    "con_queue cs = [108, 115, 13, 97]"
    using con_ring.feed_law [OF demo_con_inv(1), of "[108, 115, 13, 97]"] demo_con_inv(3)
    by (auto simp del: feed.simps)
  have l: "con_line 8 [108, 115, 13, 97] = [108, 115, 10]" by code_simp
  show ?thesis
    using con_io_reads_line [of "demo_con\<lparr>the_console := Some cs\<rparr>" cs "the (con_userlock_read demo_con)" 8
        "[0, 0, 0, 0, 0, 0, 0, 0]" "vm_memops None" None 5 0 demo_vm] cs l
    by (auto simp: demo_con_def simp del: con_line.simps feed.simps)
qed

end
