(* ===== verification/Vnode.thy ===== *)
theory Vnode
  imports Console
begin

text \<open>
  Vnodes and devices: \<^verbatim>\<open>kern/vfs/vnode.c\<close>, \<^verbatim>\<open>kern/vfs/device.c\<close>, \<^verbatim>\<open>kern/vfs/devnull.c\<close>,
  \<^verbatim>\<open>kern/vfs/vfsfail.c\<close>. A vnode carries a table of functions; the table of device vnodes is the
  one in the source, and the tables of mounted file systems are a parameter of the model. The same
  holds one level down for the functions of a device: the null device and the console are
  modelled, other drivers are a parameter.
\<close>

abbreviation "O_RDONLY \<equiv> 0 :: u32"
abbreviation "O_WRONLY \<equiv> 1 :: u32"
abbreviation "O_RDWR \<equiv> 2 :: u32"
abbreviation "O_CREAT \<equiv> 4 :: u32"
abbreviation "O_EXCL \<equiv> 8 :: u32"
abbreviation "O_TRUNC \<equiv> 16 :: u32"
abbreviation "O_APPEND \<equiv> 32 :: u32"
abbreviation "O_ACCMODE \<equiv> 3 :: u32"

abbreviation "S_IFDIR \<equiv> 8192 :: u32"
abbreviation "S_IFCHR \<equiv> 24576 :: u32"
abbreviation "S_IFBLK \<equiv> 28672 :: u32"

unbundle bit_operations_syntax

section \<open>State\<close>

text \<open>Which function table a vnode or a device points to; the numbers name tables outside the model.\<close>

datatype vclass = DevVnode | FsVnode nat
datatype devclass = NullDev | ConDev | OtherDev nat

record vnode =
  vn_refcount :: int
  vn_fs :: "nat option"
  vn_data :: nat
  vn_ops :: "vclass option"

record device =
  d_ops :: devclass
  d_blocks :: u32
  d_blocksize :: u32
  d_devnumber :: u32

datatype fsref = NoFs | SwapFs | Fs nat

record knowndev =
  kd_name :: string
  kd_rawname :: "string option"
  kd_device :: "nat option"
  kd_vnode :: nat
  kd_fs :: fsref

record stat =
  st_size :: u64
  st_mode :: u32
  st_nlink :: u32
  st_blocks :: u32
  st_dev :: u32
  st_rdev :: u32

text \<open>
  The state of the file system layer: the vnodes and devices by address, the private data \<open>'d\<close> of
  the mounted file systems, the console, the machine's memory, the boot file system, the table of
  known devices, the big lock with its depth, and the answers of the allocator.
\<close>

record 'd vfs =
  v_nodes :: "nat \<Rightarrow> vnode option"
  v_devices :: "nat \<Rightarrow> device option"
  v_next :: nat
  v_fsdata :: 'd
  v_con :: con_state
  v_vm :: vmstate
  v_boot :: "nat option"
  v_knowndevs :: "knowndev list"
  v_biglock :: lock
  v_depth :: u32
  v_al :: memsupply

text \<open>The caller: current thread, address space and working directory of its process.\<close>

record ctx =
  c_thread :: thread_id
  c_as :: "addrspace option"
  c_cwd :: "nat option"

type_synonym ('d, 'r) vop = "'d vfs \<Rightarrow> ('d vfs \<times> 'r cres) outcome"
type_synonym 'd uiop = "ctx \<Rightarrow> nat \<Rightarrow> uio \<Rightarrow> 'd vfs \<Rightarrow> ('d vfs \<times> uio \<times> unit cres) outcome"

record 'd vnode_ops =
  vop_eachopen :: "ctx \<Rightarrow> nat \<Rightarrow> u32 \<Rightarrow> ('d, unit) vop"
  vop_reclaim :: "ctx \<Rightarrow> nat \<Rightarrow> ('d, unit) vop"
  vop_read :: "'d uiop"
  vop_readlink :: "'d uiop"
  vop_getdirentry :: "'d uiop"
  vop_write :: "'d uiop"
  vop_ioctl :: "ctx \<Rightarrow> nat \<Rightarrow> int \<Rightarrow> nat \<Rightarrow> ('d, unit) vop"
  vop_stat :: "ctx \<Rightarrow> nat \<Rightarrow> ('d, stat) vop"
  vop_gettype :: "ctx \<Rightarrow> nat \<Rightarrow> ('d, u32) vop"
  vop_isseekable :: "nat \<Rightarrow> 'd vfs \<Rightarrow> bool outcome"
  vop_fsync :: "ctx \<Rightarrow> nat \<Rightarrow> ('d, unit) vop"
  vop_mmap :: "ctx \<Rightarrow> nat \<Rightarrow> ('d, unit) vop"
  vop_truncate :: "ctx \<Rightarrow> nat \<Rightarrow> u64 \<Rightarrow> ('d, unit) vop"
  vop_namefile :: "'d uiop"
  vop_creat :: "ctx \<Rightarrow> nat \<Rightarrow> string \<Rightarrow> bool \<Rightarrow> u32 \<Rightarrow> ('d, nat) vop"
  vop_symlink :: "ctx \<Rightarrow> nat \<Rightarrow> string \<Rightarrow> string \<Rightarrow> ('d, unit) vop"
  vop_mkdir :: "ctx \<Rightarrow> nat \<Rightarrow> string \<Rightarrow> u32 \<Rightarrow> ('d, unit) vop"
  vop_link :: "ctx \<Rightarrow> nat \<Rightarrow> string \<Rightarrow> nat \<Rightarrow> ('d, unit) vop"
  vop_remove :: "ctx \<Rightarrow> nat \<Rightarrow> string \<Rightarrow> ('d, unit) vop"
  vop_rmdir :: "ctx \<Rightarrow> nat \<Rightarrow> string \<Rightarrow> ('d, unit) vop"
  vop_rename :: "ctx \<Rightarrow> nat \<Rightarrow> string \<Rightarrow> nat \<Rightarrow> string \<Rightarrow> ('d, unit) vop"
  vop_lookup :: "ctx \<Rightarrow> nat \<Rightarrow> string \<Rightarrow> ('d, nat) vop"
  vop_lookparent :: "ctx \<Rightarrow> nat \<Rightarrow> string \<Rightarrow> nat \<Rightarrow> ('d, nat \<times> string) vop"

record 'd device_ops =
  devop_eachopen :: "ctx \<Rightarrow> nat \<Rightarrow> u32 \<Rightarrow> ('d, unit) vop"
  devop_io :: "'d uiop"
  devop_ioctl :: "ctx \<Rightarrow> nat \<Rightarrow> int \<Rightarrow> nat \<Rightarrow> ('d, unit) vop"

record 'd fs_ops =
  fsop_sync :: "ctx \<Rightarrow> nat \<Rightarrow> ('d, unit) vop"
  fsop_getvolname :: "nat \<Rightarrow> 'd vfs \<Rightarrow> string option"
  fsop_getroot :: "ctx \<Rightarrow> nat \<Rightarrow> ('d, nat) vop"
  fsop_unmount :: "ctx \<Rightarrow> nat \<Rightarrow> ('d, unit) vop"

text \<open>The function tables outside the model.\<close>

record 'd vtables =
  vt_vnode :: "nat \<Rightarrow> 'd vnode_ops"
  vt_device :: "nat \<Rightarrow> 'd device_ops"
  vt_fs :: "nat \<Rightarrow> 'd fs_ops"

section \<open>Routines that fail (vfsfail.c)\<close>

definition vopfail_uio :: "errno \<Rightarrow> 'd uiop" where
  "vopfail_uio e c vn u v = Done (v, u, Inl e)"

definition vopfail_notdir :: "('d, 'r) vop" where
  "vopfail_notdir v = Done (v, Inl ENOTDIR)"

section \<open>The null device (devnull.c)\<close>

definition nullopen :: "ctx \<Rightarrow> nat \<Rightarrow> u32 \<Rightarrow> ('d, unit) vop" where
  "nullopen c d openflags v = Done (v, Inr ())"

definition nullio :: "'d uiop" where
  "nullio c d u v = Done (v, if uio_rw u = UIO_WRITE then u\<lparr>uio_resid := 0\<rparr> else u, Inr ())"

definition nullioctl :: "ctx \<Rightarrow> nat \<Rightarrow> int \<Rightarrow> nat \<Rightarrow> ('d, unit) vop" where
  "nullioctl c d oper data v = Done (v, Inl EINVAL)"

definition null_devops :: "'d device_ops" where
  "null_devops = \<lparr>devop_eachopen = nullopen, devop_io = nullio, devop_ioctl = nullioctl\<rparr>"

section \<open>The console as a device (console.c)\<close>

definition con_eachopen :: "ctx \<Rightarrow> nat \<Rightarrow> u32 \<Rightarrow> ('d, unit) vop" where
  "con_eachopen c d openflags v = Done (v, Inr ())"

definition con_dev_io :: "'d uiop" where
  "con_dev_io c d u v =
     bindo (con_io (vm_memops (c_as c)) (c_as c) (c_thread c) u (v_con v) (v_vm v))
       (\<lambda>(con', vm', u', r). Done (v\<lparr>v_con := con', v_vm := vm'\<rparr>, u', r))"

definition con_ioctl :: "ctx \<Rightarrow> nat \<Rightarrow> int \<Rightarrow> nat \<Rightarrow> ('d, unit) vop" where
  "con_ioctl c d oper data v = Done (v, Inl EINVAL)"

definition console_devops :: "'d device_ops" where
  "console_devops = \<lparr>devop_eachopen = con_eachopen, devop_io = con_dev_io, devop_ioctl = con_ioctl\<rparr>"

definition devops_of :: "'d vtables \<Rightarrow> devclass \<Rightarrow> 'd device_ops" where
  "devops_of T k = (case k of NullDev \<Rightarrow> null_devops | ConDev \<Rightarrow> console_devops | OtherDev n \<Rightarrow> vt_device T n)"

section \<open>Vnodes (vnode.c)\<close>

definition vnode_init :: "vclass \<Rightarrow> nat option \<Rightarrow> nat \<Rightarrow> vnode" where
  "vnode_init ops fs fsdata = \<lparr>vn_refcount = 1, vn_fs = fs, vn_data = fsdata, vn_ops = Some ops\<rparr>"

definition vnode_cleanup :: "nat \<Rightarrow> 'd vfs \<Rightarrow> 'd vfs outcome" where
  "vnode_cleanup vn v =
     (case v_nodes v vn of
        None \<Rightarrow> Panic
      | Some n \<Rightarrow> if vn_refcount n \<noteq> 1 then Panic
                  else Done (v\<lparr>v_nodes := (v_nodes v)(vn \<mapsto>
                         \<lparr>vn_refcount = 0, vn_fs = None, vn_data = 0, vn_ops = None\<rparr>)\<rparr>))"

definition vnode_incref :: "nat \<Rightarrow> 'd vfs \<Rightarrow> 'd vfs outcome" where
  "vnode_incref vn v =
     (case v_nodes v vn of
        None \<Rightarrow> Panic
      | Some n \<Rightarrow> Done (v\<lparr>v_nodes := (v_nodes v)(vn \<mapsto> n\<lparr>vn_refcount := vn_refcount n + 1\<rparr>)\<rparr>))"

text \<open>
  \<^verbatim>\<open>vnode_check\<close> before every operation: the vnode must exist, have a function table and a positive
  reference count. The checks for the fill pattern of freed memory and for the magic number of the
  table are covered by these.
\<close>

definition vnode_check :: "nat \<Rightarrow> 'd vfs \<Rightarrow> (vnode \<times> vclass) outcome" where
  "vnode_check vn v =
     (case v_nodes v vn of
        None \<Rightarrow> Panic
      | Some n \<Rightarrow> (case vn_ops n of
          None \<Rightarrow> Panic
        | Some k \<Rightarrow> if vn_refcount n \<le> 0 then Panic else Done (n, k)))"

section \<open>Device vnodes (device.c)\<close>

definition dev_of :: "nat \<Rightarrow> 'd vfs \<Rightarrow> (nat \<times> device) outcome" where
  "dev_of vn v =
     (case v_nodes v vn of
        None \<Rightarrow> Panic
      | Some n \<Rightarrow> (case v_devices v (vn_data n) of None \<Rightarrow> Panic | Some d \<Rightarrow> Done (vn_data n, d)))"

definition dev_eachopen :: "'d vtables \<Rightarrow> ctx \<Rightarrow> nat \<Rightarrow> u32 \<Rightarrow> ('d, unit) vop" where
  "dev_eachopen T c vn flags v =
     bindo (dev_of vn v)
       (\<lambda>(p, d). if flags AND (O_CREAT OR O_TRUNC OR O_EXCL OR O_APPEND) \<noteq> 0 then Done (v, Inl EINVAL)
                 else devop_eachopen (devops_of T (d_ops d)) c p flags v)"

definition dev_reclaim :: "ctx \<Rightarrow> nat \<Rightarrow> ('d, unit) vop" where
  "dev_reclaim c vn v = Done (v, Inr ())"

text \<open>A block device accepts only positions at the start of one of its blocks.\<close>

definition dev_tryseek :: "device \<Rightarrow> u64 \<Rightarrow> unit cres" where
  "dev_tryseek d pos =
     (if d_blocks d > 0 then
        (if sint pos mod int (unat (d_blocksize d)) \<noteq> 0 then Inl EINVAL
         else if sint pos div int (unat (d_blocksize d)) \<ge> int (unat (d_blocks d)) then Inl EINVAL
         else Inr ())
      else Inr ())"

definition dev_read :: "'d vtables \<Rightarrow> 'd uiop" where
  "dev_read T c vn u v =
     bindo (dev_of vn v)
       (\<lambda>(p, d). case dev_tryseek d (uio_offset u) of
          Inl e \<Rightarrow> Done (v, u, Inl e)
        | Inr _ \<Rightarrow> if uio_rw u \<noteq> UIO_READ then Panic else devop_io (devops_of T (d_ops d)) c p u v)"

definition dev_write :: "'d vtables \<Rightarrow> 'd uiop" where
  "dev_write T c vn u v =
     bindo (dev_of vn v)
       (\<lambda>(p, d). case dev_tryseek d (uio_offset u) of
          Inl e \<Rightarrow> Done (v, u, Inl e)
        | Inr _ \<Rightarrow> if uio_rw u \<noteq> UIO_WRITE then Panic else devop_io (devops_of T (d_ops d)) c p u v)"

definition dev_ioctl :: "'d vtables \<Rightarrow> ctx \<Rightarrow> nat \<Rightarrow> int \<Rightarrow> nat \<Rightarrow> ('d, unit) vop" where
  "dev_ioctl T c vn oper data v =
     bindo (dev_of vn v) (\<lambda>(p, d). devop_ioctl (devops_of T (d_ops d)) c p oper data v)"

definition dev_gettype :: "ctx \<Rightarrow> nat \<Rightarrow> ('d, u32) vop" where
  "dev_gettype c vn v =
     bindo (dev_of vn v) (\<lambda>(p, d). Done (v, Inr (if d_blocks d > 0 then S_IFBLK else S_IFCHR)))"

text \<open>The size is the 32-bit product of block count and block size.\<close>

definition dev_stat :: "ctx \<Rightarrow> nat \<Rightarrow> ('d, stat) vop" where
  "dev_stat c vn v =
     bindo (dev_of vn v)
       (\<lambda>(p, d). bindo (vnode_check vn v)
         (\<lambda>_. bindo (dev_gettype c vn v)
           (\<lambda>(v1, r). case r of
              Inl e \<Rightarrow> Done (v1, Inl e)
            | Inr m \<Rightarrow> Done (v1, Inr \<lparr>st_size = (if d_blocks d > 0 then ucast (d_blocks d * d_blocksize d) else 0),
                st_mode = m OR 384, st_nlink = 1, st_blocks = d_blocks d, st_dev = 0,
                st_rdev = d_devnumber d\<rparr>))))"

definition dev_isseekable :: "nat \<Rightarrow> 'd vfs \<Rightarrow> bool outcome" where
  "dev_isseekable vn v = bindo (dev_of vn v) (\<lambda>(p, d). Done (d_blocks d \<noteq> 0))"

definition null_fsync :: "ctx \<Rightarrow> nat \<Rightarrow> ('d, unit) vop" where
  "null_fsync c vn v = Done (v, Inr ())"

definition dev_mmap :: "ctx \<Rightarrow> nat \<Rightarrow> ('d, unit) vop" where
  "dev_mmap c vn v = Done (v, Inl ENOSYS)"

definition dev_truncate :: "ctx \<Rightarrow> nat \<Rightarrow> u64 \<Rightarrow> ('d, unit) vop" where
  "dev_truncate c vn len v =
     bindo (dev_of vn v)
       (\<lambda>(p, d). Done (v, if d_blocks d > 0 \<and> ucast (d_blocks d * d_blocksize d) = len then Inr () else Inl EINVAL))"

definition dev_namefile :: "'d uiop" where
  "dev_namefile c vn u v = Done (v, u, Inr ())"

definition dev_lookup :: "ctx \<Rightarrow> nat \<Rightarrow> string \<Rightarrow> ('d, nat) vop" where
  "dev_lookup c dir pathname v =
     (if length pathname > 0 then Done (v, Inl ENOENT)
      else bindo (vnode_incref dir v) (\<lambda>v1. Done (v1, Inr dir)))"

definition dev_vnode_ops :: "'d vtables \<Rightarrow> 'd vnode_ops" where
  "dev_vnode_ops T =
     \<lparr>vop_eachopen = dev_eachopen T, vop_reclaim = dev_reclaim, vop_read = dev_read T,
      vop_readlink = vopfail_uio EINVAL, vop_getdirentry = vopfail_uio ENOTDIR, vop_write = dev_write T,
      vop_ioctl = dev_ioctl T, vop_stat = dev_stat, vop_gettype = dev_gettype,
      vop_isseekable = dev_isseekable, vop_fsync = null_fsync, vop_mmap = dev_mmap,
      vop_truncate = dev_truncate, vop_namefile = dev_namefile,
      vop_creat = (\<lambda>c vn name excl mode. vopfail_notdir), vop_symlink = (\<lambda>c vn contents name. vopfail_notdir),
      vop_mkdir = (\<lambda>c vn name mode. vopfail_notdir), vop_link = (\<lambda>c vn name file. vopfail_notdir),
      vop_remove = (\<lambda>c vn name. vopfail_notdir), vop_rmdir = (\<lambda>c vn name. vopfail_notdir),
      vop_rename = (\<lambda>c vn name vn2 name2. vopfail_notdir), vop_lookup = dev_lookup,
      vop_lookparent = (\<lambda>c vn path len. vopfail_notdir)\<rparr>"

definition vops_of :: "'d vtables \<Rightarrow> vclass \<Rightarrow> 'd vnode_ops" where
  "vops_of T k = (case k of DevVnode \<Rightarrow> dev_vnode_ops T | FsVnode n \<Rightarrow> vt_vnode T n)"

text \<open>An operation called through the table: the \<^verbatim>\<open>VOP_\<close> macros.\<close>

definition VOP :: "'d vtables \<Rightarrow> nat \<Rightarrow> ('d vnode_ops \<Rightarrow> 'd vfs \<Rightarrow> 'r outcome) \<Rightarrow> 'd vfs \<Rightarrow> 'r outcome" where
  "VOP T vn f v = bindo (vnode_check vn v) (\<lambda>(_, k). f (vops_of T k) v)"

text \<open>\<^verbatim>\<open>vnode_decref\<close> hands the last reference to \<^verbatim>\<open>VOP_RECLAIM\<close> and only warns about its errors.\<close>

definition vnode_decref :: "'d vtables \<Rightarrow> ctx \<Rightarrow> nat \<Rightarrow> 'd vfs \<Rightarrow> 'd vfs outcome" where
  "vnode_decref T c vn v =
     (case v_nodes v vn of
        None \<Rightarrow> Panic
      | Some n \<Rightarrow>
          if vn_refcount n \<le> 0 then Panic
          else if vn_refcount n > 1
          then Done (v\<lparr>v_nodes := (v_nodes v)(vn \<mapsto> n\<lparr>vn_refcount := vn_refcount n - 1\<rparr>)\<rparr>)
          else bindo (VOP T vn (\<lambda>t. vop_reclaim t c vn) v) (\<lambda>(v1, r). Done v1))"

definition dev_create_vnode :: "nat \<Rightarrow> 'd vfs \<Rightarrow> 'd vfs \<times> nat option" where
  "dev_create_vnode dev v =
     (let (ok, al) = kmalloc (v_al v) in
      if \<not> ok then (v\<lparr>v_al := al\<rparr>, None)
      else (v\<lparr>v_al := al, v_next := Suc (v_next v),
              v_nodes := (v_nodes v)(v_next v \<mapsto> vnode_init DevVnode None dev)\<rparr>, Some (v_next v)))"

definition dev_uncreate_vnode :: "nat \<Rightarrow> 'd vfs \<Rightarrow> 'd vfs outcome" where
  "dev_uncreate_vnode vn v =
     (case v_nodes v vn of
        None \<Rightarrow> Panic
      | Some n \<Rightarrow> if vn_ops n \<noteq> Some DevVnode then Panic
                  else bindo (vnode_cleanup vn v) (\<lambda>v1. Done (v1\<lparr>v_nodes := (v_nodes v1)(vn := None)\<rparr>)))"

end
