(* ===== verification/Vfs.thy ===== *)
theory Vfs
  imports Vnode
begin

text \<open>
  The file system layer above vnodes: the table of known devices and mounts
  (\<^verbatim>\<open>kern/vfs/vfslist.c\<close>), path names (\<^verbatim>\<open>kern/vfs/vfslookup.c\<close>), the operations that system
  calls use (\<^verbatim>\<open>kern/vfs/vfspath.c\<close>) and the working directory (\<^verbatim>\<open>kern/vfs/vfscwd.c\<close>). The
  working directory belongs to the process; routines that only read it find it in the caller's
  context, and those that change it return the new one.
\<close>

abbreviation "NAMEMAX \<equiv> 255 :: nat"

section \<open>The big lock\<close>

definition vfs_biglock_acquire :: "ctx \<Rightarrow> 'd vfs \<Rightarrow> 'd vfs outcome" where
  "vfs_biglock_acquire c v =
     bindo (if \<not> lock_do_i_hold (c_thread c) (v_biglock v) then lock_acquire (c_thread c) (v_biglock v)
            else if v_depth v = 0 then lock_acquire (c_thread c) (v_biglock v)
            else Done (v_biglock v))
       (\<lambda>l. Done (v\<lparr>v_biglock := l, v_depth := v_depth v + 1\<rparr>))"

definition vfs_biglock_release :: "ctx \<Rightarrow> 'd vfs \<Rightarrow> 'd vfs outcome" where
  "vfs_biglock_release c v =
     (if \<not> lock_do_i_hold (c_thread c) (v_biglock v) then Panic
      else if v_depth v = 0 then Panic
      else if v_depth v - 1 = 0
      then bindo (lock_release_only (c_thread c) (v_biglock v))
             (\<lambda>l. Done (v\<lparr>v_biglock := l, v_depth := 0\<rparr>))
      else Done (v\<lparr>v_depth := v_depth v - 1\<rparr>))"

definition vfs_biglock_do_i_hold :: "ctx \<Rightarrow> 'd vfs \<Rightarrow> bool" where
  "vfs_biglock_do_i_hold c v = lock_do_i_hold (c_thread c) (v_biglock v)"

text \<open>A routine whose every path takes the big lock first and gives it up last.\<close>

definition locked :: "ctx \<Rightarrow> ('d vfs \<Rightarrow> ('d vfs \<times> 'r) outcome) \<Rightarrow> 'd vfs \<Rightarrow> ('d vfs \<times> 'r) outcome" where
  "locked c body v =
     bindo (vfs_biglock_acquire c v)
       (\<lambda>v1. bindo (body v1) (\<lambda>(v2, r). bindo (vfs_biglock_release c v2) (\<lambda>v3. Done (v3, r))))"

section \<open>Known devices (vfslist.c)\<close>

definition FSOP :: "'d vtables \<Rightarrow> nat \<Rightarrow> 'd fs_ops" where
  "FSOP T fs = vt_fs T fs"

fun vfs_getroot_scan ::
  "'d vtables \<Rightarrow> ctx \<Rightarrow> string \<Rightarrow> knowndev list \<Rightarrow> ('d, nat) vop" where
  "vfs_getroot_scan T c devname [] v = Done (v, Inl ENODEV)"
| "vfs_getroot_scan T c devname (kd # kds) v =
     (case kd_fs kd of
        Fs fs \<Rightarrow>
          if kd_name kd = devname \<or> fsop_getvolname (FSOP T fs) fs v = Some devname
          then fsop_getroot (FSOP T fs) c fs v
          else if kd_rawname kd = Some devname
          then (if kd_device kd = None then Panic
                else bindo (vnode_incref (kd_vnode kd) v) (\<lambda>v1. Done (v1, Inr (kd_vnode kd))))
          else vfs_getroot_scan T c devname kds v
      | _ \<Rightarrow>
          if kd_rawname kd \<noteq> None \<and> kd_name kd = devname then Done (v, Inl ENXIO)
          else if kd_name kd = devname
          then (if kd_fs kd \<noteq> NoFs \<or> kd_device kd = None then Panic
                else bindo (vnode_incref (kd_vnode kd) v) (\<lambda>v1. Done (v1, Inr (kd_vnode kd))))
          else if kd_rawname kd = Some devname
          then (if kd_device kd = None then Panic
                else bindo (vnode_incref (kd_vnode kd) v) (\<lambda>v1. Done (v1, Inr (kd_vnode kd))))
          else vfs_getroot_scan T c devname kds v)"

definition vfs_getroot :: "'d vtables \<Rightarrow> ctx \<Rightarrow> string \<Rightarrow> ('d, nat) vop" where
  "vfs_getroot T c devname v =
     (if \<not> vfs_biglock_do_i_hold c v then Panic
      else vfs_getroot_scan T c devname (v_knowndevs v) v)"

definition vfs_getdevname :: "ctx \<Rightarrow> nat \<Rightarrow> 'd vfs \<Rightarrow> string option outcome" where
  "vfs_getdevname c fs v =
     (if \<not> vfs_biglock_do_i_hold c v then Panic
      else Done (map_option kd_name (find (\<lambda>kd. kd_fs kd = Fs fs) (v_knowndevs v))))"

fun vfs_sync_scan :: "'d vtables \<Rightarrow> ctx \<Rightarrow> knowndev list \<Rightarrow> 'd vfs \<Rightarrow> 'd vfs outcome" where
  "vfs_sync_scan T c [] v = Done v"
| "vfs_sync_scan T c (kd # kds) v =
     (case kd_fs kd of
        Fs fs \<Rightarrow> bindo (fsop_sync (FSOP T fs) c fs v) (\<lambda>(v1, _). vfs_sync_scan T c kds v1)
      | _ \<Rightarrow> vfs_sync_scan T c kds v)"

definition vfs_sync :: "'d vtables \<Rightarrow> ctx \<Rightarrow> ('d, unit) vop" where
  "vfs_sync T c v = locked c (\<lambda>v. bindo (vfs_sync_scan T c (v_knowndevs v) v) (\<lambda>v1. Done (v1, Inr ()))) v"

definition mkrawname :: "string \<Rightarrow> 'd vfs \<Rightarrow> 'd vfs \<times> string option" where
  "mkrawname name v =
     (let (ok, al) = kmalloc (v_al v) in (v\<lparr>v_al := al\<rparr>, if ok then Some (name @ ''raw'') else None))"

definition samestring :: "string option \<Rightarrow> string option \<Rightarrow> bool" where
  "samestring a b = (a \<noteq> None \<and> b \<noteq> None \<and> a = b)"

definition samestring3 :: "string option \<Rightarrow> string option \<Rightarrow> string option \<Rightarrow> string option \<Rightarrow> bool" where
  "samestring3 a b c d = (samestring a b \<or> samestring a c \<or> samestring a d)"

definition volname_of :: "'d vtables \<Rightarrow> fsref \<Rightarrow> 'd vfs \<Rightarrow> string option" where
  "volname_of T f v = (case f of Fs fs \<Rightarrow> fsop_getvolname (FSOP T fs) fs v | _ \<Rightarrow> None)"

fun badnames :: "'d vtables \<Rightarrow> string option \<Rightarrow> string option \<Rightarrow> string option \<Rightarrow> knowndev list \<Rightarrow> 'd vfs \<Rightarrow> bool" where
  "badnames T n1 n2 n3 [] v = False"
| "badnames T n1 n2 n3 (kd # kds) v =
     (samestring3 (volname_of T (kd_fs kd) v) n1 n2 n3 \<or>
      samestring3 (kd_rawname kd) n1 n2 n3 \<or> samestring3 (Some (kd_name kd)) n1 n2 n3 \<or>
      badnames T n1 n2 n3 kds v)"

text \<open>
  \<^verbatim>\<open>vfs_doadd\<close>; \<^verbatim>\<open>kstrdup\<close>, the record of the device and the growing of the array each ask the
  allocator once. On a failure the vnode that was made for the device is discarded again.
\<close>

definition vfs_doadd_body ::
  "'d vtables \<Rightarrow> string \<Rightarrow> bool \<Rightarrow> nat option \<Rightarrow> nat option \<Rightarrow> ('d, unit) vop" where
  "vfs_doadd_body T dname mountable dev fs v =
     (let (ok, al) = kmalloc (v_al v); v0 = v\<lparr>v_al := al\<rparr> in
      if \<not> ok then Done (v0, Inl ENOMEM) else
      let (v1, rawname) = (if mountable then mkrawname dname v0 else (v0, None)) in
      if mountable \<and> rawname = None then Done (v1, Inl ENOMEM) else
      case dev_create_vnode (case dev of Some d \<Rightarrow> d | None \<Rightarrow> 0) v1 of
        (v2, None) \<Rightarrow> Done (v2, Inl ENOMEM)
      | (v2, Some vn) \<Rightarrow>
          let (ok, al) = kmalloc (v_al v2); v3 = v2\<lparr>v_al := al\<rparr>;
              fr = (case fs of None \<Rightarrow> NoFs | Some f \<Rightarrow> Fs f);
              kd = \<lparr>kd_name = dname, kd_rawname = rawname, kd_device = dev, kd_vnode = vn, kd_fs = fr\<rparr>;
              undo = (\<lambda>v e. bindo (dev_uncreate_vnode vn v) (\<lambda>v'. Done (v', Inl e)))
          in if \<not> ok then undo v3 ENOMEM
             else if badnames T (Some dname) rawname (volname_of T fr v3) (v_knowndevs v3) v3 then undo v3 EEXIST
             else let (ok, al) = kmalloc (v_al v3); v4 = v3\<lparr>v_al := al\<rparr> in
               if \<not> ok then undo v4 ENOMEM
               else Done (v4\<lparr>v_knowndevs := v_knowndevs v4 @ [kd],
                       v_devices := (case dev of
                          None \<Rightarrow> v_devices v4
                        | Some d \<Rightarrow> (v_devices v4)(d := map_option
                            (\<lambda>r. r\<lparr>d_devnumber := of_nat (length (v_knowndevs v4) + 1)\<rparr>) (v_devices v4 d)))\<rparr>, Inr ()))"

definition vfs_doadd ::
  "'d vtables \<Rightarrow> ctx \<Rightarrow> string \<Rightarrow> bool \<Rightarrow> nat option \<Rightarrow> nat option \<Rightarrow> ('d, unit) vop" where
  "vfs_doadd T c dname mountable dev fs v = locked c (vfs_doadd_body T dname mountable dev fs) v"

definition vfs_adddev :: "'d vtables \<Rightarrow> ctx \<Rightarrow> string \<Rightarrow> nat \<Rightarrow> bool \<Rightarrow> ('d, unit) vop" where
  "vfs_adddev T c devname dev mountable v = vfs_doadd T c devname mountable (Some dev) None v"

definition vfs_addfs :: "'d vtables \<Rightarrow> ctx \<Rightarrow> string \<Rightarrow> nat \<Rightarrow> ('d, unit) vop" where
  "vfs_addfs T c devname fs v = vfs_doadd T c devname False None (Some fs) v"

section \<open>Mounting\<close>

text \<open>\<^verbatim>\<open>findmount\<close> hands back the index of the device in the table.\<close>

definition findmount :: "ctx \<Rightarrow> string \<Rightarrow> 'd vfs \<Rightarrow> nat cres outcome" where
  "findmount c devname v =
     (if \<not> vfs_biglock_do_i_hold c v then Panic
      else Done (case find (\<lambda>i. kd_rawname (v_knowndevs v ! i) \<noteq> None \<and> devname = kd_name (v_knowndevs v ! i))
                        [0..<length (v_knowndevs v)] of
                   None \<Rightarrow> Inl ENODEV
                 | Some i \<Rightarrow> Inr i))"

definition set_kd_fs :: "nat \<Rightarrow> fsref \<Rightarrow> 'd vfs \<Rightarrow> 'd vfs" where
  "set_kd_fs i f v = v\<lparr>v_knowndevs := (v_knowndevs v)[i := (v_knowndevs v ! i)\<lparr>kd_fs := f\<rparr>]\<rparr>"

text \<open>\<open>mountfunc\<close> sets up the file system of a device and hands back its \<^verbatim>\<open>struct fs\<close>.\<close>

definition vfs_mount :: "ctx \<Rightarrow> string \<Rightarrow> (nat \<Rightarrow> ('d, nat) vop) \<Rightarrow> ('d, unit) vop" where
  "vfs_mount c devname mountfunc v = locked c (\<lambda>v.
     bindo (findmount c devname v)
       (\<lambda>r. case r of
          Inl e \<Rightarrow> Done (v, Inl e)
        | Inr i \<Rightarrow>
            let kd = v_knowndevs v ! i in
            if kd_fs kd \<noteq> NoFs then Done (v, Inl EBUSY)
            else case kd_device kd of
              None \<Rightarrow> Panic
            | Some d \<Rightarrow>
                bindo (mountfunc d v)
                  (\<lambda>(v1, q). case q of
                     Inl e \<Rightarrow> Done (v1, Inl e)
                   | Inr fs \<Rightarrow> Done (set_kd_fs i (Fs fs) v1, Inr ())))) v"

definition vfs_swapon_body :: "ctx \<Rightarrow> string \<Rightarrow> ('d, nat) vop" where
  "vfs_swapon_body c devname v =
     bindo (findmount c devname v)
       (\<lambda>r. case r of
          Inl e \<Rightarrow> Done (v, Inl e)
        | Inr i \<Rightarrow>
            let kd = v_knowndevs v ! i in
            if kd_fs kd \<noteq> NoFs then Done (v, Inl EBUSY)
            else if kd_device kd = None then Panic
            else bindo (vnode_incref (kd_vnode kd) (set_kd_fs i SwapFs v)) (\<lambda>v1. Done (v1, Inr (kd_vnode kd))))"

definition vfs_swapon :: "ctx \<Rightarrow> string \<Rightarrow> ('d, nat) vop" where
  "vfs_swapon c devname v =
     (if devname \<noteq> [] \<and> last devname = CHR '':''
      then let (ok, al) = kmalloc (v_al v); v1 = v\<lparr>v_al := al\<rparr> in
           if \<not> ok then Done (v1, Inl ENOMEM) else locked c (vfs_swapon_body c (butlast devname)) v1
      else locked c (vfs_swapon_body c devname) v)"

definition vfs_unmount :: "'d vtables \<Rightarrow> ctx \<Rightarrow> string \<Rightarrow> ('d, unit) vop" where
  "vfs_unmount T c devname v = locked c (\<lambda>v.
     bindo (findmount c devname v)
       (\<lambda>r. case r of
          Inl e \<Rightarrow> Done (v, Inl e)
        | Inr i \<Rightarrow>
            let kd = v_knowndevs v ! i in
            case kd_fs kd of
              Fs fs \<Rightarrow>
                if kd_device kd = None then Panic
                else bindo (fsop_sync (FSOP T fs) c fs v)
                  (\<lambda>(v1, q). case q of
                     Inl e \<Rightarrow> Done (v1, Inl e)
                   | Inr _ \<Rightarrow>
                       bindo (fsop_unmount (FSOP T fs) c fs v1)
                         (\<lambda>(v2, q). case q of
                            Inl e \<Rightarrow> Done (v2, Inl e)
                          | Inr _ \<Rightarrow> Done (set_kd_fs i NoFs v2, Inr ())))
            | _ \<Rightarrow> Done (v, Inl EINVAL))) v"

definition vfs_swapoff :: "ctx \<Rightarrow> string \<Rightarrow> ('d, unit) vop" where
  "vfs_swapoff c devname v = locked c (\<lambda>v.
     bindo (findmount c devname v)
       (\<lambda>r. Done (case r of
          Inl e \<Rightarrow> (v, Inl e)
        | Inr i \<Rightarrow> if kd_fs (v_knowndevs v ! i) \<noteq> SwapFs then (v, Inl EINVAL)
                   else (set_kd_fs i NoFs v, Inr ())))) v"

text \<open>The body of the loop of \<^verbatim>\<open>vfs_unmountall\<close> for the device at index \<open>i\<close>.\<close>

definition unmount_one :: "'d vtables \<Rightarrow> ctx \<Rightarrow> nat \<Rightarrow> 'd vfs \<Rightarrow> 'd vfs outcome" where
  "unmount_one T c i v =
     (let kd = v_knowndevs v ! i in
      if kd_rawname kd = None then Done v
      else case kd_fs kd of
        NoFs \<Rightarrow> Done v
      | SwapFs \<Rightarrow> Done (set_kd_fs i NoFs v)
      | Fs fs \<Rightarrow>
          bindo (fsop_sync (FSOP T fs) c fs v)
            (\<lambda>(v1, r). bindo (case r of Inr _ \<Rightarrow> Done (v1, r) | Inl _ \<Rightarrow> fsop_sync (FSOP T fs) c fs v1)
              (\<lambda>(v2, r). case r of
                 Inl _ \<Rightarrow> Done v2
               | Inr _ \<Rightarrow>
                   bindo (fsop_unmount (FSOP T fs) c fs v2)
                     (\<lambda>(v3, q). Done (case q of Inl _ \<Rightarrow> v3 | Inr _ \<Rightarrow> set_kd_fs i NoFs v3)))))"

fun unmount_from :: "'d vtables \<Rightarrow> ctx \<Rightarrow> nat list \<Rightarrow> 'd vfs \<Rightarrow> 'd vfs outcome" where
  "unmount_from T c [] v = Done v"
| "unmount_from T c (i # is) v = bindo (unmount_one T c i v) (unmount_from T c is)"

definition vfs_unmountall :: "'d vtables \<Rightarrow> ctx \<Rightarrow> ('d, unit) vop" where
  "vfs_unmountall T c v = locked c (\<lambda>v.
     bindo (unmount_from T c [0..<length (v_knowndevs v)] v) (\<lambda>v1. Done (v1, Inr ()))) v"

section \<open>The working directory (vfscwd.c)\<close>

definition vfs_getcurdir :: "ctx \<Rightarrow> ('d, nat) vop" where
  "vfs_getcurdir c v =
     (case c_cwd c of
        None \<Rightarrow> Done (v, Inl ENOENT)
      | Some d \<Rightarrow> bindo (vnode_incref d v) (\<lambda>v1. Done (v1, Inr d)))"

text \<open>The result of the next three routines carries the working directory of the process after the call.\<close>

definition vfs_setcurdir :: "'d vtables \<Rightarrow> ctx \<Rightarrow> nat \<Rightarrow> 'd vfs \<Rightarrow> ('d vfs \<times> nat option \<times> unit cres) outcome" where
  "vfs_setcurdir T c dir v =
     bindo (VOP T dir (\<lambda>t. vop_gettype t c dir) v)
       (\<lambda>(v1, r). case r of
          Inl e \<Rightarrow> Done (v1, c_cwd c, Inl e)
        | Inr vtype \<Rightarrow>
            if vtype \<noteq> S_IFDIR then Done (v1, c_cwd c, Inl ENOTDIR)
            else bindo (vnode_incref dir v1)
              (\<lambda>v2. case c_cwd c of
                 None \<Rightarrow> Done (v2, Some dir, Inr ())
               | Some old \<Rightarrow> bindo (vnode_decref T c old v2) (\<lambda>v3. Done (v3, Some dir, Inr ()))))"

definition vfs_clearcurdir :: "'d vtables \<Rightarrow> ctx \<Rightarrow> 'd vfs \<Rightarrow> ('d vfs \<times> nat option \<times> unit cres) outcome" where
  "vfs_clearcurdir T c v =
     (case c_cwd c of
        None \<Rightarrow> Done (v, None, Inr ())
      | Some old \<Rightarrow> bindo (vnode_decref T c old v) (\<lambda>v1. Done (v1, None, Inr ())))"

section \<open>Path names (vfslookup.c)\<close>

text \<open>The loop that finds the first colon or slash: their positions as \<^verbatim>\<open>(slash, colon)\<close>, or -1.\<close>

fun locate_sep :: "string \<Rightarrow> nat \<Rightarrow> int \<times> int" where
  "locate_sep [] i = (-1, -1)"
| "locate_sep (ch # path) i =
     (if ch = CHR '':'' then (-1, int i)
      else if ch = CHR ''/'' then (int i, -1)
      else locate_sep path (Suc i))"

fun skip_slashes :: "string \<Rightarrow> string" where
  "skip_slashes [] = []"
| "skip_slashes (ch # path) = (if ch = CHR ''/'' then skip_slashes path else ch # path)"

definition getdevice :: "'d vtables \<Rightarrow> ctx \<Rightarrow> string \<Rightarrow> ('d, string \<times> nat) vop" where
  "getdevice T c path v =
     (if \<not> vfs_biglock_do_i_hold c v then Panic
      else if path = [] then Done (v, Inl EINVAL)
      else let (slash, colon) = locate_sep path 0 in
        if colon < 0 \<and> slash \<noteq> 0 then
          bindo (vfs_getcurdir c v) (\<lambda>(v1, r). Done (v1, map_sum id (\<lambda>vn. (path, vn)) r))
        else if colon > 0 then
          bindo (vfs_getroot T c (take (nat colon) path) v)
            (\<lambda>(v1, r). Done (v1, map_sum id (\<lambda>vn. (skip_slashes (drop (nat colon + 1) path), vn)) r))
        else if hd path = CHR ''/'' then
          (case v_boot v of
             None \<Rightarrow> Done (v, Inl ENOENT)
           | Some b \<Rightarrow> bindo (vnode_incref b v) (\<lambda>v1. Done (v1, Inr (skip_slashes (tl path), b))))
        else
          bindo (vfs_getcurdir c v)
            (\<lambda>(v1, r). case r of
               Inl e \<Rightarrow> Done (v1, Inl e)
             | Inr d \<Rightarrow>
                 (case v_nodes v1 d of
                    None \<Rightarrow> Panic
                  | Some n \<Rightarrow> (case vn_fs n of
                      None \<Rightarrow> Panic
                    | Some fs \<Rightarrow>
                        bindo (fsop_getroot (FSOP T fs) c fs v1)
                          (\<lambda>(v2, q). bindo (vnode_decref T c d v2)
                            (\<lambda>v3. Done (v3, map_sum id (\<lambda>vn. (skip_slashes (tl path), vn)) q)))))))"

definition vfs_lookparent :: "'d vtables \<Rightarrow> ctx \<Rightarrow> string \<Rightarrow> nat \<Rightarrow> ('d, nat \<times> string) vop" where
  "vfs_lookparent T c path buflen v = locked c (\<lambda>v.
     bindo (getdevice T c path v)
       (\<lambda>(v1, r). case r of
          Inl e \<Rightarrow> Done (v1, Inl e)
        | Inr (sub, startvn) \<Rightarrow>
            bindo (if sub = [] then Done (v1, Inl EINVAL)
                   else VOP T startvn (\<lambda>t. vop_lookparent t c startvn sub buflen) v1)
              (\<lambda>(v2, q). bindo (vnode_decref T c startvn v2) (\<lambda>v3. Done (v3, q))))) v"

definition vfs_lookup :: "'d vtables \<Rightarrow> ctx \<Rightarrow> string \<Rightarrow> ('d, nat) vop" where
  "vfs_lookup T c path v = locked c (\<lambda>v.
     bindo (getdevice T c path v)
       (\<lambda>(v1, r). case r of
          Inl e \<Rightarrow> Done (v1, Inl e)
        | Inr (sub, startvn) \<Rightarrow>
            if sub = [] then Done (v1, Inr startvn)
            else bindo (VOP T startvn (\<lambda>t. vop_lookup t c startvn sub) v1)
              (\<lambda>(v2, q). bindo (vnode_decref T c startvn v2) (\<lambda>v3. Done (v3, q))))) v"

definition vfs_chdir :: "'d vtables \<Rightarrow> ctx \<Rightarrow> string \<Rightarrow> 'd vfs \<Rightarrow> ('d vfs \<times> nat option \<times> unit cres) outcome" where
  "vfs_chdir T c path v =
     bindo (vfs_lookup T c path v)
       (\<lambda>(v1, r). case r of
          Inl e \<Rightarrow> Done (v1, c_cwd c, Inl e)
        | Inr vn \<Rightarrow>
            bindo (vfs_setcurdir T c vn v1)
              (\<lambda>(v2, cwd, q). bindo (vnode_decref T c vn v2) (\<lambda>v3. Done (v3, cwd, q))))"

definition change_bootfs :: "'d vtables \<Rightarrow> ctx \<Rightarrow> nat option \<Rightarrow> 'd vfs \<Rightarrow> 'd vfs outcome" where
  "change_bootfs T c newvn v =
     (case v_boot v of
        None \<Rightarrow> Done (v\<lparr>v_boot := newvn\<rparr>)
      | Some old \<Rightarrow> vnode_decref T c old (v\<lparr>v_boot := newvn\<rparr>))"

text \<open>
  \<^verbatim>\<open>vfs_setbootfs\<close>: the name is cut to the size given to \<^verbatim>\<open>snprintf\<close>. A name with a colon is
  refused wherever the colon stands, since the string from the colon on is never empty.
\<close>

definition vfs_setbootfs ::
  "'d vtables \<Rightarrow> ctx \<Rightarrow> string \<Rightarrow> 'd vfs \<Rightarrow> ('d vfs \<times> nat option \<times> unit cres) outcome" where
  "vfs_setbootfs T c fsname v = locked c (\<lambda>v.
     let tmp = take (NAMEMAX - 1) fsname in
     if CHR '':'' \<in> set tmp then Done (v, c_cwd c, Inl EINVAL)
     else bindo (vfs_chdir T c (tmp @ '':'') v)
       (\<lambda>(v1, cwd, r). case r of
          Inl e \<Rightarrow> Done (v1, cwd, Inl e)
        | Inr _ \<Rightarrow>
            bindo (vfs_getcurdir (c\<lparr>c_cwd := cwd\<rparr>) v1)
              (\<lambda>(v2, q). case q of
                 Inl e \<Rightarrow> Done (v2, cwd, Inl e)
               | Inr newguy \<Rightarrow> bindo (change_bootfs T c (Some newguy) v2) (\<lambda>v3. Done (v3, cwd, Inr ()))))) v"

definition vfs_clearbootfs :: "'d vtables \<Rightarrow> ctx \<Rightarrow> 'd vfs \<Rightarrow> 'd vfs outcome" where
  "vfs_clearbootfs T c v =
     bindo (locked c (\<lambda>v. bindo (change_bootfs T c None v) (\<lambda>v1. Done (v1, ()))) v) (\<lambda>(v1, _). Done v1)"

definition str_bytes :: "string \<Rightarrow> u8 list" where
  "str_bytes s = map of_char s"

text \<open>\<^verbatim>\<open>uiomove\<close> called on the machine's memory by a routine of this layer.\<close>

definition vfs_uiomove :: "ctx \<Rightarrow> u8 list \<Rightarrow> uio \<Rightarrow> 'd vfs \<Rightarrow> ('d vfs \<times> uio \<times> unit cres) outcome" where
  "vfs_uiomove c bs u v =
     bindo (uiomove (vm_memops (c_as c)) (c_as c) bs (length bs) u (v_vm v))
       (\<lambda>(vm', _, u', r). Done (v\<lparr>v_vm := vm'\<rparr>, u', r))"

definition vfs_getcwd :: "'d vtables \<Rightarrow> ctx \<Rightarrow> uio \<Rightarrow> 'd vfs \<Rightarrow> ('d vfs \<times> uio \<times> unit cres) outcome" where
  "vfs_getcwd T c u v =
     (if uio_rw u \<noteq> UIO_READ then Panic
      else bindo (vfs_getcurdir c v)
        (\<lambda>(v1, r). case r of
           Inl e \<Rightarrow> Done (v1, u, Inl e)
         | Inr cwd \<Rightarrow>
             (case v_nodes v1 cwd of
                None \<Rightarrow> Panic
              | Some n \<Rightarrow> (case vn_fs n of
                  None \<Rightarrow> Panic
                | Some fs \<Rightarrow>
                    bindo (case fsop_getvolname (FSOP T fs) fs v1 of
                             Some name \<Rightarrow> Done (v1, Some name)
                           | None \<Rightarrow> locked c (\<lambda>v. bindo (vfs_getdevname c fs v) (\<lambda>nm. Done (v, nm))) v1)
                      (\<lambda>(v2, nm). case nm of
                         None \<Rightarrow> Panic
                       | Some name \<Rightarrow>
                           bindo (bindo (vfs_uiomove c (str_bytes name) u v2)
                             (\<lambda>(v3, u1, q). case q of
                                Inl e \<Rightarrow> Done (v3, u1, Inl e)
                              | Inr _ \<Rightarrow>
                                  bindo (vfs_uiomove c (str_bytes '':'') u1 v3)
                                    (\<lambda>(v4, u2, q). case q of
                                       Inl e \<Rightarrow> Done (v4, u2, Inl e)
                                     | Inr _ \<Rightarrow> VOP T cwd (\<lambda>t. vop_namefile t c cwd u2) v4)))
                             (\<lambda>(v5, u3, q). bindo (vnode_decref T c cwd v5) (\<lambda>v6. Done (v6, u3, q))))))))"

section \<open>Operations of the system calls (vfspath.c)\<close>

definition vfs_open_node :: "'d vtables \<Rightarrow> ctx \<Rightarrow> string \<Rightarrow> u32 \<Rightarrow> u32 \<Rightarrow> ('d, nat) vop" where
  "vfs_open_node T c path openflags mode v =
     (if openflags AND O_CREAT \<noteq> 0 then
        bindo (vfs_lookparent T c path (NAMEMAX + 1) v)
          (\<lambda>(v1, r). case r of
             Inl e \<Rightarrow> Done (v1, Inl e)
           | Inr (dir, name) \<Rightarrow>
               bindo (VOP T dir (\<lambda>t. vop_creat t c dir name (openflags AND O_EXCL \<noteq> 0) mode) v1)
                 (\<lambda>(v2, q). bindo (vnode_decref T c dir v2) (\<lambda>v3. Done (v3, q))))
      else vfs_lookup T c path v)"

definition vfs_open :: "'d vtables \<Rightarrow> ctx \<Rightarrow> string \<Rightarrow> u32 \<Rightarrow> u32 \<Rightarrow> ('d, nat) vop" where
  "vfs_open T c path openflags mode v =
     (let how = openflags AND O_ACCMODE in
      if how \<noteq> O_RDONLY \<and> how \<noteq> O_WRONLY \<and> how \<noteq> O_RDWR then Done (v, Inl EINVAL)
      else bindo (vfs_open_node T c path openflags mode v)
        (\<lambda>(v1, r). case r of
           Inl e \<Rightarrow> Done (v1, Inl e)
         | Inr vn \<Rightarrow>
             bindo (VOP T vn (\<lambda>t. vop_eachopen t c vn openflags) v1)
               (\<lambda>(v2, q). case q of
                  Inl e \<Rightarrow> bindo (vnode_decref T c vn v2) (\<lambda>v3. Done (v3, Inl e))
                | Inr _ \<Rightarrow>
                    if openflags AND O_TRUNC \<noteq> 0 then
                      bindo (if how = O_RDONLY then Done (v2, Inl EINVAL)
                             else VOP T vn (\<lambda>t. vop_truncate t c vn 0) v2)
                        (\<lambda>(v3, q). case q of
                           Inl e \<Rightarrow> bindo (vnode_decref T c vn v3) (\<lambda>v4. Done (v4, Inl e))
                         | Inr _ \<Rightarrow> Done (v3, Inr vn))
                    else Done (v2, Inr vn))))"

definition vfs_close :: "'d vtables \<Rightarrow> ctx \<Rightarrow> nat \<Rightarrow> 'd vfs \<Rightarrow> 'd vfs outcome" where
  "vfs_close T c vn v = vnode_decref T c vn v"

text \<open>An operation on the parent directory of a path: the shape of \<^verbatim>\<open>vfs_remove\<close> and four others.\<close>

definition with_parent ::
  "'d vtables \<Rightarrow> ctx \<Rightarrow> string \<Rightarrow> ('d vnode_ops \<Rightarrow> nat \<Rightarrow> string \<Rightarrow> ('d, unit) vop) \<Rightarrow> ('d, unit) vop" where
  "with_parent T c path f v =
     bindo (vfs_lookparent T c path (NAMEMAX + 1) v)
       (\<lambda>(v1, r). case r of
          Inl e \<Rightarrow> Done (v1, Inl e)
        | Inr (dir, name) \<Rightarrow>
            bindo (VOP T dir (\<lambda>t. f t dir name) v1)
              (\<lambda>(v2, q). bindo (vnode_decref T c dir v2) (\<lambda>v3. Done (v3, q))))"

definition vfs_remove :: "'d vtables \<Rightarrow> ctx \<Rightarrow> string \<Rightarrow> ('d, unit) vop" where
  "vfs_remove T c path v = with_parent T c path (\<lambda>t dir name. vop_remove t c dir name) v"

definition vfs_symlink :: "'d vtables \<Rightarrow> ctx \<Rightarrow> string \<Rightarrow> string \<Rightarrow> ('d, unit) vop" where
  "vfs_symlink T c contents path v = with_parent T c path (\<lambda>t dir name. vop_symlink t c dir name contents) v"

definition vfs_mkdir :: "'d vtables \<Rightarrow> ctx \<Rightarrow> string \<Rightarrow> u32 \<Rightarrow> ('d, unit) vop" where
  "vfs_mkdir T c path mode v = with_parent T c path (\<lambda>t dir name. vop_mkdir t c dir name mode) v"

definition vfs_rmdir :: "'d vtables \<Rightarrow> ctx \<Rightarrow> string \<Rightarrow> ('d, unit) vop" where
  "vfs_rmdir T c path v = with_parent T c path (\<lambda>t dir name. vop_rmdir t c dir name) v"

definition vn_fs_of :: "nat \<Rightarrow> 'd vfs \<Rightarrow> nat option" where
  "vn_fs_of vn v = (case v_nodes v vn of None \<Rightarrow> None | Some n \<Rightarrow> vn_fs n)"

text \<open>The end of \<^verbatim>\<open>vfs_rename\<close> and \<^verbatim>\<open>vfs_link\<close>: both vnodes must be on the same file system.\<close>

definition same_fs_op ::
  "'d vtables \<Rightarrow> ctx \<Rightarrow> nat \<Rightarrow> nat \<Rightarrow> ('d, unit) vop \<Rightarrow> ('d, unit) vop" where
  "same_fs_op T c vold vnew f v =
     bindo (if vn_fs_of vold v = None \<or> vn_fs_of vnew v = None \<or> vn_fs_of vold v \<noteq> vn_fs_of vnew v
            then Done (v, Inl EXDEV) else f v)
       (\<lambda>(v1, r). bindo (vnode_decref T c vnew v1)
         (\<lambda>v2. bindo (vnode_decref T c vold v2) (\<lambda>v3. Done (v3, r))))"

definition vfs_rename :: "'d vtables \<Rightarrow> ctx \<Rightarrow> string \<Rightarrow> string \<Rightarrow> ('d, unit) vop" where
  "vfs_rename T c oldpath newpath v =
     bindo (vfs_lookparent T c oldpath (NAMEMAX + 1) v)
       (\<lambda>(v1, r). case r of
          Inl e \<Rightarrow> Done (v1, Inl e)
        | Inr (olddir, oldname) \<Rightarrow>
            bindo (vfs_lookparent T c newpath (NAMEMAX + 1) v1)
              (\<lambda>(v2, q). case q of
                 Inl e \<Rightarrow> bindo (vnode_decref T c olddir v2) (\<lambda>v3. Done (v3, Inl e))
               | Inr (newdir, newname) \<Rightarrow>
                   same_fs_op T c olddir newdir
                     (VOP T olddir (\<lambda>t. vop_rename t c olddir oldname newdir newname)) v2))"

definition vfs_link :: "'d vtables \<Rightarrow> ctx \<Rightarrow> string \<Rightarrow> string \<Rightarrow> ('d, unit) vop" where
  "vfs_link T c oldpath newpath v =
     bindo (vfs_lookup T c oldpath v)
       (\<lambda>(v1, r). case r of
          Inl e \<Rightarrow> Done (v1, Inl e)
        | Inr oldfile \<Rightarrow>
            bindo (vfs_lookparent T c newpath (NAMEMAX + 1) v1)
              (\<lambda>(v2, q). case q of
                 Inl e \<Rightarrow> bindo (vnode_decref T c oldfile v2) (\<lambda>v3. Done (v3, Inl e))
               | Inr (newdir, newname) \<Rightarrow>
                   same_fs_op T c oldfile newdir
                     (VOP T newdir (\<lambda>t. vop_link t c newdir newname oldfile)) v2))"

definition vfs_readlink :: "'d vtables \<Rightarrow> ctx \<Rightarrow> string \<Rightarrow> uio \<Rightarrow> 'd vfs \<Rightarrow> ('d vfs \<times> uio \<times> unit cres) outcome" where
  "vfs_readlink T c path u v =
     bindo (vfs_lookup T c path v)
       (\<lambda>(v1, r). case r of
          Inl e \<Rightarrow> Done (v1, u, Inl e)
        | Inr vn \<Rightarrow>
            bindo (VOP T vn (\<lambda>t. vop_readlink t c vn u) v1)
              (\<lambda>(v2, u2, q). bindo (vnode_decref T c vn v2) (\<lambda>v3. Done (v3, u2, q))))"

section \<open>Start-up\<close>

text \<open>\<^verbatim>\<open>devnull_create\<close> and the registration part of \<^verbatim>\<open>attach_console_to_vfs\<close>.\<close>

definition attach_dev :: "devclass \<Rightarrow> 'd vfs \<Rightarrow> 'd vfs \<times> nat option" where
  "attach_dev k v =
     (let (ok, al) = kmalloc (v_al v) in
      if \<not> ok then (v\<lparr>v_al := al\<rparr>, None)
      else (v\<lparr>v_al := al, v_next := Suc (v_next v),
              v_devices := (v_devices v)(v_next v \<mapsto> \<lparr>d_ops = k, d_blocks = 0, d_blocksize = 1, d_devnumber = 0\<rparr>)\<rparr>,
            Some (v_next v)))"

definition devnull_create :: "'d vtables \<Rightarrow> ctx \<Rightarrow> 'd vfs \<Rightarrow> 'd vfs outcome" where
  "devnull_create T c v =
     (case attach_dev NullDev v of
        (_, None) \<Rightarrow> Panic
      | (v1, Some dev) \<Rightarrow>
          bindo (vfs_adddev T c ''null'' dev False v1)
            (\<lambda>(v2, r). case r of Inl e \<Rightarrow> Panic | Inr _ \<Rightarrow> Done v2))"

definition attach_console_to_vfs :: "'d vtables \<Rightarrow> ctx \<Rightarrow> ('d, unit) vop" where
  "attach_console_to_vfs T c v =
     (case attach_dev ConDev v of
        (v1, None) \<Rightarrow> Done (v1, Inl ENOMEM)
      | (v1, Some dev) \<Rightarrow>
          bindo (vfs_adddev T c ''con'' dev False v1)
            (\<lambda>(v2, r). case r of
               Inl e \<Rightarrow> Done (v2\<lparr>v_devices := (v_devices v2)(dev := None)\<rparr>, Inl e)
             | Inr _ \<Rightarrow> Done (v2, Inr ())))"

end
