(* ===== verification/Vfs_Laws.thy ===== *)
theory Vfs_Laws
  imports Vfs
begin

text \<open>
  Properties of the file system layer: the big lock is released on every path, path names are
  split as their reference definition says, device names stay unique, opening and closing a
  device keeps its reference count, and mounting follows its state machine.
\<close>

section \<open>Reference counts\<close>

definition vrefs :: "'d vfs \<Rightarrow> nat \<Rightarrow> int" where
  "vrefs v vn = (case v_nodes v vn of None \<Rightarrow> 0 | Some n \<Rightarrow> vn_refcount n)"

definition add_ref :: "nat \<Rightarrow> int \<Rightarrow> 'd vfs \<Rightarrow> 'd vfs" where
  "add_ref vn k v = v\<lparr>v_nodes := (v_nodes v)(vn := map_option (\<lambda>n. n\<lparr>vn_refcount := vn_refcount n + k\<rparr>) (v_nodes v vn))\<rparr>"

lemma add_ref_simps [simp]:
  "v_knowndevs (add_ref vn k v) = v_knowndevs v" "v_biglock (add_ref vn k v) = v_biglock v"
  "v_depth (add_ref vn k v) = v_depth v" "v_boot (add_ref vn k v) = v_boot v"
  "v_devices (add_ref vn k v) = v_devices v" "v_con (add_ref vn k v) = v_con v"
  "v_vm (add_ref vn k v) = v_vm v" "v_fsdata (add_ref vn k v) = v_fsdata v"
  "v_al (add_ref vn k v) = v_al v" "v_next (add_ref vn k v) = v_next v"
  by (simp_all add: add_ref_def)

lemma add_ref_0 [simp]: "add_ref vn 0 v = v"
proof -
  have "map_option (\<lambda>n. n\<lparr>vn_refcount := vn_refcount n + 0\<rparr>) (v_nodes v vn) = v_nodes v vn"
    by (cases "v_nodes v vn") auto
  then show ?thesis by (simp add: add_ref_def)
qed

lemma add_ref_add [simp]: "add_ref vn j (add_ref vn k v) = add_ref vn (k + j) v"
  by (cases "v_nodes v vn") (simp_all add: add_ref_def add.assoc)

lemma v_nodes_add_ref:
  "v_nodes (add_ref vn k v) vn = map_option (\<lambda>n. n\<lparr>vn_refcount := vn_refcount n + k\<rparr>) (v_nodes v vn)"
  "w \<noteq> vn \<Longrightarrow> v_nodes (add_ref vn k v) w = v_nodes v w"
  by (simp_all add: add_ref_def)

lemma vrefs_add_ref: "v_nodes v vn \<noteq> None \<Longrightarrow> vrefs (add_ref vn k v) w = vrefs v w + (if w = vn then k else 0)"
  by (auto simp: vrefs_def add_ref_def)

lemma vnode_incref_ok: "v_nodes v vn \<noteq> None \<Longrightarrow> vnode_incref vn v = Done (add_ref vn 1 v)"
  by (auto simp: vnode_incref_def add_ref_def)

lemma vnode_decref_ok: "1 < vrefs v vn \<Longrightarrow> vnode_decref T c vn v = Done (add_ref vn (- 1) v)"
  by (auto simp: vnode_decref_def vrefs_def add_ref_def split: option.splits)

lemma vnode_check_ok:
  "v_nodes v vn = Some n \<Longrightarrow> vn_ops n = Some k \<Longrightarrow> 0 < vn_refcount n \<Longrightarrow> vnode_check vn v = Done (n, k)"
  by (simp add: vnode_check_def)

lemma VOP_ok:
  "v_nodes v vn = Some n \<Longrightarrow> vn_ops n = Some k \<Longrightarrow> 0 < vn_refcount n \<Longrightarrow> VOP T vn f v = f (vops_of T k) v"
  by (simp add: VOP_def vnode_check_ok)

section \<open>The big lock\<close>

definition biglock_idle :: "'d vfs \<Rightarrow> bool" where
  "biglock_idle v \<longleftrightarrow> lk_owner (v_biglock v) = None \<and> v_depth v = 0 \<and> wc_threads (lk_wchan (v_biglock v)) = []"

definition with_biglock :: "ctx \<Rightarrow> 'd vfs \<Rightarrow> 'd vfs" where
  "with_biglock c v = v\<lparr>v_biglock := (v_biglock v)\<lparr>lk_owner := Some (c_thread c)\<rparr>, v_depth := 1\<rparr>"

definition biglock_as :: "'d vfs \<Rightarrow> 'd vfs \<Rightarrow> bool" where
  "biglock_as v v' \<longleftrightarrow> v_biglock v' = v_biglock v \<and> v_depth v' = v_depth v"

lemma with_biglock_simps [simp]:
  "v_knowndevs (with_biglock c v) = v_knowndevs v" "v_nodes (with_biglock c v) = v_nodes v"
  "v_boot (with_biglock c v) = v_boot v" "v_devices (with_biglock c v) = v_devices v"
  "v_con (with_biglock c v) = v_con v" "v_vm (with_biglock c v) = v_vm v"
  "v_fsdata (with_biglock c v) = v_fsdata v" "v_al (with_biglock c v) = v_al v"
  "v_next (with_biglock c v) = v_next v" "vfs_biglock_do_i_hold c (with_biglock c v)"
  by (simp_all add: with_biglock_def vfs_biglock_do_i_hold_def lock_do_i_hold_def)

lemma locked_idle:
  assumes "biglock_idle v" "body (with_biglock c v) = Done (v2, r)" "biglock_as (with_biglock c v) v2"
  shows "locked c body v = Done (v2\<lparr>v_biglock := v_biglock v, v_depth := 0\<rparr>, r)"
proof -
  have a: "vfs_biglock_acquire c v = Done (with_biglock c v)"
    using assms(1)
    by (simp add: vfs_biglock_acquire_def biglock_idle_def with_biglock_def lock_do_i_hold_def
        lock_acquire_def lock_acquire_section_def del: bindo_Done_iff)
  have "v_biglock v\<lparr>lk_owner := None, lk_wchan := lk_wchan (v_biglock v)\<rparr> = v_biglock v"
    using assms(1) by (simp add: biglock_idle_def)
  then have "vfs_biglock_release c v2 = Done (v2\<lparr>v_biglock := v_biglock v, v_depth := 0\<rparr>)"
    using assms(1,3)
    by (simp add: vfs_biglock_release_def biglock_as_def with_biglock_def lock_do_i_hold_def
        lock_release_only_def lock_release_def wchan_wakeone_def biglock_idle_def)
  then show ?thesis using a assms(2) by (simp add: locked_def)
qed

lemma locked_mine:
  assumes "lk_owner (v_biglock v) = Some (c_thread c)" "v_depth v \<noteq> 0" "v_depth v + 1 \<noteq> 0"
    and "body (v\<lparr>v_depth := v_depth v + 1\<rparr>) = Done (v2, r)" "biglock_as (v\<lparr>v_depth := v_depth v + 1\<rparr>) v2"
  shows "locked c body v = Done (v2\<lparr>v_depth := v_depth v\<rparr>, r)"
  using assms
  by (simp add: locked_def vfs_biglock_acquire_def vfs_biglock_release_def lock_do_i_hold_def biglock_as_def)

section \<open>Splitting a path\<close>

text \<open>The reference definition: what stands before the first colon or slash decides.\<close>

datatype pathkind = Relative string | OnDevice string string | FromBoot string | FromCurRoot string

definition is_sep :: "char \<Rightarrow> bool" where
  "is_sep ch \<longleftrightarrow> ch = CHR '':'' \<or> ch = CHR ''/''"

definition parse_path :: "string \<Rightarrow> pathkind" where
  "parse_path path =
     (let pre = takeWhile (\<lambda>ch. \<not> is_sep ch) path in
      case dropWhile (\<lambda>ch. \<not> is_sep ch) path of
        [] \<Rightarrow> Relative path
      | ch # sub \<Rightarrow>
          if ch = CHR '':'' then (if pre = [] then FromCurRoot (dropWhile (\<lambda>ch. ch = CHR ''/'') sub)
                                  else OnDevice pre (dropWhile (\<lambda>ch. ch = CHR ''/'') sub))
          else (if pre = [] then FromBoot (dropWhile (\<lambda>ch. ch = CHR ''/'') sub) else Relative path))"

lemma skip_slashes_dropWhile: "skip_slashes path = dropWhile (\<lambda>ch. ch = CHR ''/'') path"
  by (induction path) auto

lemma locate_sep_spec:
  "locate_sep path i =
     (case dropWhile (\<lambda>ch. \<not> is_sep ch) path of
        [] \<Rightarrow> (-1, -1)
      | ch # _ \<Rightarrow> let k = int (i + length (takeWhile (\<lambda>ch. \<not> is_sep ch) path)) in
                 if ch = CHR '':'' then (-1, k) else (k, -1))"
proof (induction path arbitrary: i)
  case (Cons ch path)
  show ?case
  proof (cases "is_sep ch")
    case True
    then show ?thesis by (cases "ch = CHR '':''") (simp_all add: is_sep_def)
  next
    case False
    then have "ch \<noteq> CHR '':''" "ch \<noteq> CHR ''/''" by (simp_all add: is_sep_def)
    then show ?thesis using Cons.IH [of "Suc i"] False by (simp add: Let_def cong: list.case_cong)
  qed
qed simp

text \<open>What the routine does for each kind of path.\<close>

definition start_lookup :: "'d vtables \<Rightarrow> ctx \<Rightarrow> pathkind \<Rightarrow> ('d, string \<times> nat) vop" where
  "start_lookup T c k v =
     (case k of
        Relative sub \<Rightarrow> bindo (vfs_getcurdir c v) (\<lambda>(v1, r). Done (v1, map_sum id (\<lambda>vn. (sub, vn)) r))
      | OnDevice dev sub \<Rightarrow> bindo (vfs_getroot T c dev v) (\<lambda>(v1, r). Done (v1, map_sum id (\<lambda>vn. (sub, vn)) r))
      | FromBoot sub \<Rightarrow>
          (case v_boot v of
             None \<Rightarrow> Done (v, Inl ENOENT)
           | Some b \<Rightarrow> bindo (vnode_incref b v) (\<lambda>v1. Done (v1, Inr (sub, b))))
      | FromCurRoot sub \<Rightarrow>
          bindo (vfs_getcurdir c v)
            (\<lambda>(v1, r). case r of
               Inl e \<Rightarrow> Done (v1, Inl e)
             | Inr d \<Rightarrow>
                 (case vn_fs_of d v1 of
                    None \<Rightarrow> Panic
                  | Some fs \<Rightarrow>
                      bindo (fsop_getroot (FSOP T fs) c fs v1)
                        (\<lambda>(v2, q). bindo (vnode_decref T c d v2)
                          (\<lambda>v3. Done (v3, map_sum id (\<lambda>vn. (sub, vn)) q))))))"

lemma curroot_fs:
  "(case vn_fs_of d v of None \<Rightarrow> Panic | Some fs \<Rightarrow> f fs) =
     (case v_nodes v d of None \<Rightarrow> Panic | Some n \<Rightarrow> (case vn_fs n of None \<Rightarrow> Panic | Some fs \<Rightarrow> f fs))"
  by (simp add: vn_fs_of_def split: option.split)

lemma getdevice_parse:
  assumes "vfs_biglock_do_i_hold c v" "path \<noteq> []"
  shows "getdevice T c path v = start_lookup T c (parse_path path) v"
proof -
  define pre where "pre = takeWhile (\<lambda>ch. \<not> is_sep ch) path"
  have split: "path = pre @ dropWhile (\<lambda>ch. \<not> is_sep ch) path" by (simp add: pre_def)
  show ?thesis
  proof (cases "dropWhile (\<lambda>ch. \<not> is_sep ch) path")
    case Nil
    have loc: "locate_sep path 0 = (-1, -1)" unfolding locate_sep_spec Nil by simp
    have "parse_path path = Relative path" unfolding parse_path_def Nil by simp
    then show ?thesis using assms loc by (simp add: getdevice_def start_lookup_def)
  next
    case (Cons ch sub)
    then have path: "path = pre @ ch # sub" using split by simp
    let ?k = "int (length pre)" and ?sub = "dropWhile (\<lambda>ch. ch = CHR ''/'') sub"
    have sep: "is_sep ch" using Cons hd_dropWhile [of "\<lambda>ch. \<not> is_sep ch" path] by simp
    have loc: "locate_sep path 0 = (if ch = CHR '':'' then (-1, ?k) else (?k, -1))"
      unfolding locate_sep_spec Cons by (simp add: pre_def)
    have pp: "parse_path path = (if ch = CHR '':'' then (if pre = [] then FromCurRoot ?sub else OnDevice pre ?sub)
        else (if pre = [] then FromBoot ?sub else Relative path))"
      unfolding parse_path_def Cons by (simp add: pre_def)
    have dr: "drop (length pre + 1) path = sub" "take (length pre) path = pre"
      by (simp_all add: path)
    have hd: "hd path = ch" "tl path = sub" if "pre = []"
      using path that by (metis append_Nil list.sel)+
    consider "ch = CHR '':''" "pre = []" | "ch = CHR '':''" "pre \<noteq> []"
      | "ch = CHR ''/''" "pre = []" | "ch = CHR ''/''" "pre \<noteq> []"
      using sep by (auto simp: is_sep_def)
    then show ?thesis
    proof cases
      case 1
      then show ?thesis using assms loc pp hd
        by (simp add: getdevice_def start_lookup_def skip_slashes_dropWhile curroot_fs
            cong: option.case_cong sum.case_cong)
    next
      case 2
      then show ?thesis using assms loc pp dr
        by (simp add: getdevice_def start_lookup_def skip_slashes_dropWhile)
    next
      case 3
      then show ?thesis using assms loc pp hd
        by (simp add: getdevice_def start_lookup_def skip_slashes_dropWhile cong: option.case_cong)
    next
      case 4
      then show ?thesis using assms loc pp by (simp add: getdevice_def start_lookup_def)
    qed
  qed
qed

section \<open>The device table\<close>

definition kd_names :: "knowndev \<Rightarrow> string list" where
  "kd_names kd = kd_name kd # (case kd_rawname kd of None \<Rightarrow> [] | Some r \<Rightarrow> [r])"

definition names_distinct :: "'d vfs \<Rightarrow> bool" where
  "names_distinct v \<longleftrightarrow> distinct (concat (map kd_names (v_knowndevs v)))"

definition no_volume :: "'d vtables \<Rightarrow> 'd vfs \<Rightarrow> string \<Rightarrow> bool" where
  "no_volume T v name \<longleftrightarrow> (\<forall>kd \<in> set (v_knowndevs v). volname_of T (kd_fs kd) v \<noteq> Some name)"

text \<open>Volume names live in the private storage of their file system.\<close>

definition volname_private :: "'d vtables \<Rightarrow> bool" where
  "volname_private T \<longleftrightarrow> (\<forall>fs v v'. v_fsdata v = v_fsdata v' \<longrightarrow>
     fsop_getvolname (FSOP T fs) fs v = fsop_getvolname (FSOP T fs) fs v')"

lemma volname_of_private:
  assumes "volname_private T" "v_fsdata v = v_fsdata v'"
  shows "volname_of T f v = volname_of T f v'"
proof (cases f)
  case (Fs fs)
  then show ?thesis
    using assms(1) [unfolded volname_private_def, rule_format, OF assms(2), of fs] by (simp add: volname_of_def)
qed (simp_all add: volname_of_def)

lemma samestring3_iff: "samestring3 a b c d \<longleftrightarrow> a \<noteq> None \<and> (a = b \<or> a = c \<or> a = d)"
  by (auto simp: samestring3_def samestring_def)

lemma badnames_iff:
  "badnames T n1 n2 n3 kds v \<longleftrightarrow>
     (\<exists>kd \<in> set kds. samestring3 (volname_of T (kd_fs kd) v) n1 n2 n3 \<or>
        samestring3 (kd_rawname kd) n1 n2 n3 \<or> samestring3 (Some (kd_name kd)) n1 n2 n3)"
  by (induction kds) simp_all

lemma getroot_scan_device:
  assumes "distinct (concat (map kd_names kds))" "kd \<in> set kds" "kd_fs kd = NoFs" "kd_device kd \<noteq> None"
    and "\<forall>k \<in> set kds. volname_of T (kd_fs k) v \<noteq> Some name"
    and "(kd_rawname kd = None \<and> name = kd_name kd) \<or> kd_rawname kd = Some name"
    and "v_nodes v (kd_vnode kd) \<noteq> None"
  shows "vfs_getroot_scan T c name kds v = Done (add_ref (kd_vnode kd) 1 v, Inr (kd_vnode kd))"
  using assms
proof (induction kds)
  case (Cons k kds)
  show ?case
  proof (cases "k = kd")
    case True
    have "kd_name kd \<noteq> name" if "kd_rawname kd = Some name"
      using Cons.prems(1) True that by (auto simp: kd_names_def)
    then show ?thesis
      using True Cons.prems(3,4,6,7) by (auto simp: vnode_incref_ok)
  next
    case False
    then have kd: "kd \<in> set kds" using Cons.prems(2) by simp
    have "name \<in> set (kd_names kd)" using Cons.prems(6) by (auto simp: kd_names_def)
    then have "name \<notin> set (kd_names k)" using Cons.prems(1) kd by auto
    then have nm: "kd_name k \<noteq> name" "kd_rawname k \<noteq> Some name" by (auto simp: kd_names_def)
    have "vfs_getroot_scan T c name (k # kds) v = vfs_getroot_scan T c name kds v"
      using nm Cons.prems(5) by (auto simp: volname_of_def split: fsref.splits)
    then show ?thesis using Cons.IH [OF _ kd] Cons.prems by auto
  qed
qed simp

text \<open>A registered character device that can be opened by name.\<close>

definition plain_device :: "'d vtables \<Rightarrow> 'd vfs \<Rightarrow> string \<Rightarrow> nat \<Rightarrow> nat \<Rightarrow> devclass \<Rightarrow> bool" where
  "plain_device T v name vn d k \<longleftrightarrow>
     names_distinct v \<and> no_volume T v name \<and> name \<noteq> [] \<and> (\<forall>ch \<in> set name. \<not> is_sep ch) \<and>
     (\<exists>kd \<in> set (v_knowndevs v). kd_name kd = name \<and> kd_rawname kd = None \<and> kd_fs kd = NoFs \<and>
        kd_device kd = Some d \<and> kd_vnode kd = vn) \<and>
     (\<exists>n. v_nodes v vn = Some n \<and> vn_ops n = Some DevVnode \<and> 0 < vn_refcount n \<and> vn_data n = d) \<and>
     (\<exists>dev. v_devices v d = Some dev \<and> d_ops dev = k \<and> d_blocks dev = 0)"

lemma parse_device_path:
  assumes "name \<noteq> []" "\<forall>ch \<in> set name. \<not> is_sep ch"
  shows "parse_path (name @ CHR '':'' # sub) = OnDevice name (dropWhile (\<lambda>ch. ch = CHR ''/'') sub)"
proof -
  have "takeWhile (\<lambda>ch. \<not> is_sep ch) (name @ CHR '':'' # sub) = name"
    "dropWhile (\<lambda>ch. \<not> is_sep ch) (name @ CHR '':'' # sub) = CHR '':'' # sub"
    using assms(2) by (simp_all add: takeWhile_append dropWhile_append is_sep_def)
  then show ?thesis using assms(1) by (simp add: parse_path_def)
qed

lemma getdevice_device:
  assumes "volname_private T" "plain_device T v name vn d k" "vfs_biglock_do_i_hold c v"
  shows "getdevice T c (name @ '':'') v = Done (add_ref vn 1 v, Inr ([], vn))"
proof -
  obtain kd where kd: "kd \<in> set (v_knowndevs v)" "kd_name kd = name" "kd_rawname kd = None" "kd_fs kd = NoFs"
    "kd_device kd = Some d" "kd_vnode kd = vn"
    using assms(2) by (auto simp: plain_device_def)
  have pl: "distinct (concat (map kd_names (v_knowndevs v)))" "name \<noteq> []" "\<forall>ch \<in> set name. \<not> is_sep ch"
    "\<forall>k \<in> set (v_knowndevs v). volname_of T (kd_fs k) v \<noteq> Some name" "v_nodes v vn \<noteq> None"
    using assms(2) by (auto simp: plain_device_def names_distinct_def no_volume_def)
  have "vfs_getroot T c name v = Done (add_ref vn 1 v, Inr vn)"
    using getroot_scan_device [OF pl(1) kd(1,4), of T v name c] kd pl(4,5) assms(3) by (simp add: vfs_getroot_def)
  then show ?thesis
    using getdevice_parse [OF assms(3), of "name @ '':''" T] parse_device_path [OF pl(2,3), of "[]"]
    by (simp add: start_lookup_def)
qed

lemma plain_device_cong:
  assumes "volname_private T" "plain_device T v name vn d k" "v_fsdata v' = v_fsdata v"
    "v_knowndevs v' = v_knowndevs v" "v_devices v' = v_devices v" "v_nodes v' = v_nodes v"
  shows "plain_device T v' name vn d k"
  using assms(2) volname_of_private [OF assms(1,3)] assms(4-6)
  by (simp add: plain_device_def names_distinct_def no_volume_def)

lemma vfs_lookup_device:
  assumes "volname_private T" "biglock_idle v" "plain_device T v name vn d k"
  shows "vfs_lookup T c (name @ '':'') v = Done (add_ref vn 1 v, Inr vn)"
proof -
  let ?v = "with_biglock c v"
  have "plain_device T ?v name vn d k" by (rule plain_device_cong [OF assms(1,3)]) simp_all
  then have "getdevice T c (name @ '':'') ?v = Done (add_ref vn 1 ?v, Inr ([], vn))"
    using getdevice_device [OF assms(1)] by simp
  then have "vfs_lookup T c (name @ '':'') v =
      Done ((add_ref vn 1 ?v)\<lparr>v_biglock := v_biglock v, v_depth := 0\<rparr>, Inr vn)"
    unfolding vfs_lookup_def by (intro locked_idle [OF assms(2)]) (simp_all add: biglock_as_def)
  also have "(add_ref vn 1 ?v)\<lparr>v_biglock := v_biglock v, v_depth := 0\<rparr> = add_ref vn 1 v"
    using assms(2) by (simp add: add_ref_def with_biglock_def biglock_idle_def)
  finally show ?thesis .
qed

text \<open>Only the access mode may be given when a device is opened.\<close>

lemma vfs_open_device:
  assumes "volname_private T" "biglock_idle v" "plain_device T v name vn d k" "k = NullDev \<or> k = ConDev"
    and "flags = O_RDONLY \<or> flags = O_WRONLY \<or> flags = O_RDWR"
  shows "vfs_open T c (name @ '':'') flags mode v = Done (add_ref vn 1 v, Inr vn)"
proof -
  obtain n dev where n: "v_nodes v vn = Some n" "vn_ops n = Some DevVnode" "0 < vn_refcount n" "vn_data n = d"
    "v_devices v d = Some dev" "d_ops dev = k"
    using assms(3) by (auto simp: plain_device_def)
  let ?v = "add_ref vn 1 v"
  have fl: "flags AND O_CREAT = 0" "flags AND O_TRUNC = 0"
    "flags AND (O_CREAT OR O_TRUNC OR O_EXCL OR O_APPEND) = 0"
    "flags AND O_ACCMODE = O_RDONLY \<or> flags AND O_ACCMODE = O_WRONLY \<or> flags AND O_ACCMODE = O_RDWR"
    using assms(5) by auto
  have "VOP T vn (\<lambda>t. vop_eachopen t c vn flags) ?v = dev_eachopen T c vn flags ?v"
    using n by (simp add: VOP_def vnode_check_def v_nodes_add_ref vops_of_def dev_vnode_ops_def)
  also have "\<dots> = Done (?v, Inr ())"
    using n fl(3) assms(4)
    by (auto simp: dev_eachopen_def dev_of_def v_nodes_add_ref devops_of_def null_devops_def
        console_devops_def nullopen_def con_eachopen_def)
  finally show ?thesis
    using fl vfs_lookup_device [OF assms(1-3), of c] by (auto simp: vfs_open_def vfs_open_node_def)
qed

section \<open>Adding devices\<close>

text \<open>The record that \<^verbatim>\<open>vfs_adddev\<close> makes, and when its names are taken already.\<close>

definition new_kd :: "string \<Rightarrow> bool \<Rightarrow> nat \<Rightarrow> nat \<Rightarrow> knowndev" where
  "new_kd name mountable dev vn = \<lparr>kd_name = name, kd_rawname = (if mountable then Some (name @ ''raw'') else None),
     kd_device = Some dev, kd_vnode = vn, kd_fs = NoFs\<rparr>"

definition name_taken :: "'d vtables \<Rightarrow> 'd vfs \<Rightarrow> string \<Rightarrow> bool" where
  "name_taken T v name \<longleftrightarrow> (\<exists>kd \<in> set (v_knowndevs v). name \<in> set (kd_names kd) \<or> volname_of T (kd_fs kd) v = Some name)"

lemma samestring3_taken:
  "samestring3 vol (Some a) n None \<or> samestring3 (kd_rawname kd) (Some a) n None \<or>
     samestring3 (Some (kd_name kd)) (Some a) n None \<longleftrightarrow>
   (a \<in> set (kd_names kd) \<or> vol = Some a) \<or> (\<exists>b. n = Some b \<and> (b \<in> set (kd_names kd) \<or> vol = Some b))"
  by (cases vol; cases "kd_rawname kd"; cases n) (auto simp: samestring3_iff kd_names_def)

lemma badnames_taken:
  "badnames T (Some name) (if m then Some (name @ ''raw'') else None) None (v_knowndevs v) v \<longleftrightarrow>
     name_taken T v name \<or> (m \<and> name_taken T v (name @ ''raw''))"
  unfolding badnames_iff samestring3_taken name_taken_def by (cases m) auto

lemma name_taken_cong:
  assumes "volname_private T" "v_fsdata v' = v_fsdata v" "v_knowndevs v' = v_knowndevs v"
  shows "name_taken T v' name = name_taken T v name"
  using volname_of_private [OF assms(1,2)] assms(3) by (simp add: name_taken_def)

lemma vfs_adddev_body:
  fixes name :: string and m :: bool
  assumes "volname_private T" "v_al v = []" "v_nodes v (v_next v) = None"
  defines "taken \<equiv> name_taken T v name \<or> (m \<and> name_taken T v (name @ ''raw''))"
  shows "vfs_doadd_body T name m (Some dev) None v =
           (if taken then Done (v\<lparr>v_next := Suc (v_next v)\<rparr>, Inl EEXIST)
            else Done (v\<lparr>v_next := Suc (v_next v),
              v_knowndevs := v_knowndevs v @ [new_kd name m dev (v_next v)],
              v_nodes := (v_nodes v)(v_next v \<mapsto> vnode_init DevVnode None dev),
              v_devices := (v_devices v)(dev := map_option
                (\<lambda>r. r\<lparr>d_devnumber := of_nat (length (v_knowndevs v) + 1)\<rparr>) (v_devices v dev))\<rparr>, Inr ()))"
proof -
  let ?v = "v\<lparr>v_next := Suc (v_next v), v_nodes := (v_nodes v)(v_next v \<mapsto> vnode_init DevVnode None dev)\<rparr>"
  have al: "v\<lparr>v_next := a, v_nodes := b, v_al := []\<rparr> = v\<lparr>v_next := a, v_nodes := b\<rparr>"
    "v\<lparr>v_next := a, v_nodes := b, v_knowndevs := k, v_devices := d, v_al := []\<rparr> =
     v\<lparr>v_next := a, v_nodes := b, v_knowndevs := k, v_devices := d\<rparr>" for a b k d
    using assms(2) by (cases v; simp)+
  have "badnames T (Some name) (if m then Some (name @ ''raw'') else None) None (v_knowndevs v) ?v = taken"
    using badnames_taken [of T name m ?v] name_taken_cong [OF assms(1), of ?v v] by (simp add: taken_def)
  moreover have "dev_uncreate_vnode (v_next v) ?v = Done (v\<lparr>v_next := Suc (v_next v)\<rparr>)"
    using assms(3) by (simp add: dev_uncreate_vnode_def vnode_init_def vnode_cleanup_def fun_upd_idem)
  ultimately show ?thesis
    using assms(2)
    by (cases m; cases taken)
       (simp_all add: al vfs_doadd_body_def mkrawname_def dev_create_vnode_def Let_def volname_of_def new_kd_def)
qed

lemma vfs_adddev_run:
  assumes "volname_private T" "biglock_idle v" "v_al v = []" "v_nodes v (v_next v) = None"
  shows "vfs_adddev T c name dev m v =
           (if name_taken T v name \<or> (m \<and> name_taken T v (name @ ''raw''))
            then Done (v\<lparr>v_next := Suc (v_next v)\<rparr>, Inl EEXIST)
            else Done (v\<lparr>v_next := Suc (v_next v),
              v_knowndevs := v_knowndevs v @ [new_kd name m dev (v_next v)],
              v_nodes := (v_nodes v)(v_next v \<mapsto> vnode_init DevVnode None dev),
              v_devices := (v_devices v)(dev := map_option
                (\<lambda>r. r\<lparr>d_devnumber := of_nat (length (v_knowndevs v) + 1)\<rparr>) (v_devices v dev))\<rparr>, Inr ()))"
proof -
  let ?w = "with_biglock c v"
  have nt: "name_taken T ?w n = name_taken T v n" for n by (rule name_taken_cong [OF assms(1)]) simp_all
  have body: "vfs_doadd_body T name m (Some dev) None ?w = Done (v2, r) \<Longrightarrow> biglock_as ?w v2 \<Longrightarrow>
      vfs_adddev T c name dev m v = Done (v2\<lparr>v_biglock := v_biglock v, v_depth := 0\<rparr>, r)" for v2 r
    unfolding vfs_adddev_def vfs_doadd_def by (rule locked_idle [OF assms(2)])
  have d: "v_depth v = 0" using assms(2) by (simp add: biglock_idle_def)
  show ?thesis
  proof (cases "name_taken T v name \<or> (m \<and> name_taken T v (name @ ''raw''))")
    case True
    then have "vfs_doadd_body T name m (Some dev) None ?w = Done (?w\<lparr>v_next := Suc (v_next v)\<rparr>, Inl EEXIST)"
      using vfs_adddev_body [OF assms(1), of ?w name m dev] assms(3,4) nt by auto
    then show ?thesis using body True d by (simp add: biglock_as_def with_biglock_def)
  next
    case False
    let ?v = "?w\<lparr>v_next := Suc (v_next v), v_knowndevs := v_knowndevs v @ [new_kd name m dev (v_next v)],
        v_nodes := (v_nodes v)(v_next v \<mapsto> vnode_init DevVnode None dev),
        v_devices := (v_devices v)(dev := map_option
          (\<lambda>r. r\<lparr>d_devnumber := of_nat (length (v_knowndevs v) + 1)\<rparr>) (v_devices v dev))\<rparr>"
    have "vfs_doadd_body T name m (Some dev) None ?w = Done (?v, Inr ())"
      using vfs_adddev_body [OF assms(1), of ?w name m dev] assms(3,4) nt False by auto
    then have "vfs_adddev T c name dev m v = Done (?v\<lparr>v_biglock := v_biglock v, v_depth := 0\<rparr>, Inr ())"
      by (rule body) (simp add: biglock_as_def)
    then show ?thesis using False d by (simp add: with_biglock_def)
  qed
qed

lemma names_distinct_snoc:
  assumes "names_distinct v" "\<not> name_taken T v name" "m \<Longrightarrow> \<not> name_taken T v (name @ ''raw'')"
  shows "distinct (concat (map kd_names (v_knowndevs v @ [new_kd name m dev vn])))"
proof -
  have "x \<notin> set (concat (map kd_names (v_knowndevs v)))" if "x \<in> set (kd_names (new_kd name m dev vn))" for x
  proof -
    have "\<not> name_taken T v x" using that assms(2,3) by (auto simp: kd_names_def new_kd_def split: if_splits)
    then show ?thesis by (auto simp: name_taken_def)
  qed
  then show ?thesis using assms(1) by (auto simp: names_distinct_def kd_names_def new_kd_def)
qed

section \<open>Mounting\<close>

definition mountable :: "'d vfs \<Rightarrow> string \<Rightarrow> nat \<Rightarrow> bool" where
  "mountable v name i \<longleftrightarrow> names_distinct v \<and> i < length (v_knowndevs v) \<and>
     kd_name (v_knowndevs v ! i) = name \<and> kd_rawname (v_knowndevs v ! i) \<noteq> None \<and>
     kd_device (v_knowndevs v ! i) \<noteq> None"

text \<open>An operation of a file system that succeeds and leaves the device table and the big lock alone.\<close>

definition quiet :: "('d, 'r) vop \<Rightarrow> bool" where
  "quiet f \<longleftrightarrow> (\<forall>w. \<exists>w' r. f w = Done (w', Inr r) \<and> biglock_as w w' \<and> v_knowndevs w' = v_knowndevs w)"

lemma distinct_names_nth:
  assumes "distinct (concat (map kd_names kds))" "i < length kds" "j < length kds" "kd_name (kds ! i) = kd_name (kds ! j)"
  shows "i = j"
proof -
  have "distinct (map kd_name kds)"
    using assms(1) by (induction kds) (auto simp: kd_names_def)
  then show ?thesis using assms(2-4) by (simp add: nth_eq_iff_index_eq [of "map kd_name kds", symmetric])
qed

lemma find_upt_unique:
  assumes "i < n" "P i" "\<And>j. j < n \<Longrightarrow> P j \<Longrightarrow> j = i"
  shows "find P [0..<n] = Some i"
proof -
  obtain x where x: "find P [0..<n] = Some x"
    using assms(1,2) by (cases "find P [0..<n]") (auto simp: find_None_iff)
  then have "P x" "x < n" by (auto simp: find_Some_iff)
  then show ?thesis using x assms(3) by simp
qed

lemma findmount_mountable:
  assumes "mountable v name i" "vfs_biglock_do_i_hold c v"
  shows "findmount c name v = Done (Inr i)"
proof -
  have "find (\<lambda>i. kd_rawname (v_knowndevs v ! i) \<noteq> None \<and> name = kd_name (v_knowndevs v ! i))
      [0..<length (v_knowndevs v)] = Some i"
    using assms(1) by (intro find_upt_unique) (auto simp: mountable_def names_distinct_def dest: distinct_names_nth)
  then show ?thesis using assms(2) by (simp add: findmount_def)
qed

lemma kd_names_fs [simp]: "kd_names (kd\<lparr>kd_fs := f\<rparr>) = kd_names kd"
  by (simp add: kd_names_def)

lemma set_kd_fs_simps [simp]:
  "v_biglock (set_kd_fs i f v) = v_biglock v" "v_depth (set_kd_fs i f v) = v_depth v"
  "v_knowndevs (set_kd_fs i f v) = (v_knowndevs v)[i := (v_knowndevs v ! i)\<lparr>kd_fs := f\<rparr>]"
  by (simp_all add: set_kd_fs_def)

lemma mountable_set: "mountable v name i \<Longrightarrow> v_knowndevs v' = (v_knowndevs v)[i := (v_knowndevs v ! i)\<lparr>kd_fs := f\<rparr>] \<Longrightarrow>
    mountable v' name i"
  using list_update_id [of "map kd_names (v_knowndevs v)" i]
  by (simp add: mountable_def names_distinct_def map_update)

lemma mountable_cong: "mountable v name i \<Longrightarrow> v_knowndevs v' = v_knowndevs v \<Longrightarrow> mountable v' name i"
  by (simp add: mountable_def names_distinct_def)

lemma set_fs_back: "i < length kds \<Longrightarrow> kd_fs (kds ! i) = f \<Longrightarrow>
    (kds[i := (kds ! i)\<lparr>kd_fs := g\<rparr>])[i := (kds[i := (kds ! i)\<lparr>kd_fs := g\<rparr>] ! i)\<lparr>kd_fs := f\<rparr>] = kds"
proof -
  assume a: "i < length kds" "kd_fs (kds ! i) = f"
  have "(kds ! i)\<lparr>kd_fs := f\<rparr> = kds ! i" using a(2) by (cases "kds ! i") simp
  then show ?thesis using a(1) by simp
qed

lemma vfs_mount_run:
  assumes "biglock_idle v" "mountable v name i" "kd_device (v_knowndevs v ! i) = Some d" "quiet (mf d)"
    and "\<forall>w w' fs'. mf d w = Done (w', Inr fs') \<longrightarrow> fs' = fs"
  shows "if kd_fs (v_knowndevs v ! i) = NoFs
         then \<exists>v'. vfs_mount c name mf v = Done (v', Inr ()) \<and> biglock_idle v' \<and>
                v_knowndevs v' = (v_knowndevs v)[i := (v_knowndevs v ! i)\<lparr>kd_fs := Fs fs\<rparr>]
         else vfs_mount c name mf v = Done (v, Inl EBUSY)"
proof -
  let ?w = "with_biglock c v"
  have find: "findmount c name ?w = Done (Inr i)"
    by (rule findmount_mountable) (use assms(2) in \<open>auto simp: mountable_def names_distinct_def\<close>)
  obtain w' where w': "mf d ?w = Done (w', Inr fs)" "biglock_as ?w w'" "v_knowndevs w' = v_knowndevs v"
    using assms(4,5) unfolding quiet_def by (metis with_biglock_simps(1))
  show ?thesis
  proof (cases "kd_fs (v_knowndevs v ! i) = NoFs")
    case True
    have "vfs_mount c name mf v = Done ((set_kd_fs i (Fs fs) w')\<lparr>v_biglock := v_biglock v, v_depth := 0\<rparr>, Inr ())"
      unfolding vfs_mount_def
      by (intro locked_idle [OF assms(1)]) (use find True assms(3) w' in \<open>simp_all add: biglock_as_def\<close>)
    then show ?thesis using True assms(1) w'(3) by (simp add: biglock_idle_def)
  next
    case False
    have "vfs_mount c name mf v = Done (?w\<lparr>v_biglock := v_biglock v, v_depth := 0\<rparr>, Inl EBUSY)"
      unfolding vfs_mount_def
      by (intro locked_idle [OF assms(1)]) (use find False in \<open>simp_all add: biglock_as_def\<close>)
    then show ?thesis using False assms(1) by (simp add: with_biglock_def biglock_idle_def)
  qed
qed

lemma vfs_unmount_run:
  assumes "biglock_idle v" "mountable v name i"
    and "\<And>fs. quiet (fsop_sync (FSOP T fs) c fs)" "\<And>fs. quiet (fsop_unmount (FSOP T fs) c fs)"
  shows "case kd_fs (v_knowndevs v ! i) of
           Fs fs \<Rightarrow> \<exists>v'. vfs_unmount T c name v = Done (v', Inr ()) \<and> biglock_idle v' \<and>
                v_knowndevs v' = (v_knowndevs v)[i := (v_knowndevs v ! i)\<lparr>kd_fs := NoFs\<rparr>]
         | _ \<Rightarrow> vfs_unmount T c name v = Done (v, Inl EINVAL)"
proof -
  let ?w = "with_biglock c v"
  have find: "findmount c name ?w = Done (Inr i)"
    by (rule findmount_mountable) (use assms(2) in \<open>auto simp: mountable_def names_distinct_def\<close>)
  have dev: "kd_device (v_knowndevs v ! i) \<noteq> None" using assms(2) by (simp add: mountable_def)
  show ?thesis
  proof (cases "kd_fs (v_knowndevs v ! i)")
    case (Fs fs)
    obtain w1 where w1: "fsop_sync (FSOP T fs) c fs ?w = Done (w1, Inr ())" "biglock_as ?w w1"
      "v_knowndevs w1 = v_knowndevs v"
      using assms(3) [of fs] unfolding quiet_def by (metis with_biglock_simps(1) old.unit.exhaust)
    obtain w2 where w2: "fsop_unmount (FSOP T fs) c fs w1 = Done (w2, Inr ())" "biglock_as w1 w2"
      "v_knowndevs w2 = v_knowndevs w1"
      using assms(4) [of fs] unfolding quiet_def by (metis old.unit.exhaust)
    have "vfs_unmount T c name v = Done ((set_kd_fs i NoFs w2)\<lparr>v_biglock := v_biglock v, v_depth := 0\<rparr>, Inr ())"
      unfolding vfs_unmount_def
      by (intro locked_idle [OF assms(1)]) (use find Fs dev w1 w2 in \<open>simp_all add: biglock_as_def\<close>)
    then show ?thesis using Fs assms(1) w1(3) w2(3) by (simp add: biglock_idle_def)
  next
    case NoFs
    have "vfs_unmount T c name v = Done (?w\<lparr>v_biglock := v_biglock v, v_depth := 0\<rparr>, Inl EINVAL)"
      unfolding vfs_unmount_def
      by (intro locked_idle [OF assms(1)]) (use find NoFs in \<open>simp_all add: biglock_as_def\<close>)
    then show ?thesis using NoFs assms(1) by (simp add: with_biglock_def biglock_idle_def)
  next
    case SwapFs
    have "vfs_unmount T c name v = Done (?w\<lparr>v_biglock := v_biglock v, v_depth := 0\<rparr>, Inl EINVAL)"
      unfolding vfs_unmount_def
      by (intro locked_idle [OF assms(1)]) (use find SwapFs in \<open>simp_all add: biglock_as_def\<close>)
    then show ?thesis using SwapFs assms(1) by (simp add: with_biglock_def biglock_idle_def)
  qed
qed

section \<open>A concrete system\<close>

text \<open>
  One file system without a name whose private data is the contents of its only file, and the state
  of the layer before any device is known. They serve as the instance of the parameters in the
  concrete examples of this and later theories.
\<close>

definition demo_file_read :: "u8 list uiop" where
  "demo_file_read c vn u v =
     bindo (vfs_uiomove c (drop (unat (uio_offset u)) (v_fsdata v)) u v) Done"

definition demo_file_write :: "u8 list uiop" where
  "demo_file_write c vn u v =
     bindo (uiomove (vm_memops (c_as c)) (c_as c) (replicate (uio_resid u) 0) (uio_resid u) u (v_vm v))
       (\<lambda>(vm', bs, u', r). Done (v\<lparr>v_vm := vm',
          v_fsdata := take (unat (uio_offset u)) (v_fsdata v) @ bs @ drop (unat (uio_offset u) + length bs) (v_fsdata v)\<rparr>, u', r))"

definition demo_vops :: "u8 list vnode_ops" where
  "demo_vops =
     \<lparr>vop_eachopen = (\<lambda>c vn fl v. Done (v, Inr ())), vop_reclaim = (\<lambda>c vn v. Done (v, Inr ())),
      vop_read = demo_file_read, vop_readlink = vopfail_uio EINVAL, vop_getdirentry = vopfail_uio ENOTDIR,
      vop_write = demo_file_write, vop_ioctl = (\<lambda>c vn oper d v. Done (v, Inl EINVAL)),
      vop_stat = (\<lambda>c vn v. Done (v, Inr \<lparr>st_size = of_nat (length (v_fsdata v)), st_mode = 4096, st_nlink = 1,
         st_blocks = 0, st_dev = 0, st_rdev = 0\<rparr>)),
      vop_gettype = (\<lambda>c vn v. Done (v, Inr 4096)), vop_isseekable = (\<lambda>vn v. Done True),
      vop_fsync = (\<lambda>c vn v. Done (v, Inr ())), vop_mmap = (\<lambda>c vn v. Done (v, Inl ENOSYS)),
      vop_truncate = (\<lambda>c vn len v. Done (v\<lparr>v_fsdata := take (unat len) (v_fsdata v)\<rparr>, Inr ())),
      vop_namefile = dev_namefile,
      vop_creat = (\<lambda>c vn name excl mode. vopfail_notdir), vop_symlink = (\<lambda>c vn contents name. vopfail_notdir),
      vop_mkdir = (\<lambda>c vn name mode. vopfail_notdir), vop_link = (\<lambda>c vn name file. vopfail_notdir),
      vop_remove = (\<lambda>c vn name. vopfail_notdir), vop_rmdir = (\<lambda>c vn name. vopfail_notdir),
      vop_rename = (\<lambda>c vn name vn2 name2. vopfail_notdir),
      vop_lookup = (\<lambda>c vn name. vopfail_notdir), vop_lookparent = (\<lambda>c vn path len. vopfail_notdir)\<rparr>"

definition demo_tables :: "u8 list vtables" where
  "demo_tables = \<lparr>vt_vnode = (\<lambda>_. demo_vops), vt_device = (\<lambda>_. null_devops),
     vt_fs = (\<lambda>_. \<lparr>fsop_sync = (\<lambda>c fs v. Done (v, Inr ())), fsop_getvolname = (\<lambda>fs v. None),
                   fsop_getroot = (\<lambda>c fs v. Done (v, Inl EIO)), fsop_unmount = (\<lambda>c fs v. Done (v, Inr ()))\<rparr>)\<rparr>"

definition demo_vfs :: "u8 list vfs" where
  "demo_vfs = \<lparr>v_nodes = Map.empty, v_devices = Map.empty, v_next = 1, v_fsdata = [], v_con = demo_con,
     v_vm = demo_vm, v_boot = None, v_knowndevs = [],
     v_biglock = \<lparr>lk_name = ''vfs_biglock'', lk_wchan = \<lparr>wc_name = ''vfs_biglock'', wc_threads = []\<rparr>,
                  lk_owner = None, lk_lock = spinlock_init\<rparr>,
     v_depth = 0, v_al = []\<rparr>"

definition demo_ctx :: ctx where
  "demo_ctx = \<lparr>c_thread = 7, c_as = None, c_cwd = None\<rparr>"

lemma demo_private: "volname_private demo_tables"
  by (simp add: volname_private_def demo_tables_def FSOP_def)

lemma demo_idle: "biglock_idle demo_vfs"
  by (simp add: biglock_idle_def demo_vfs_def)

text \<open>The state once the null device and the console are attached.\<close>

definition demo_vfs2 :: "u8 list vfs" where
  "demo_vfs2 = demo_vfs\<lparr>v_next := 5,
     v_devices := [1 \<mapsto> \<lparr>d_ops = NullDev, d_blocks = 0, d_blocksize = 1, d_devnumber = 1\<rparr>,
                   3 \<mapsto> \<lparr>d_ops = ConDev, d_blocks = 0, d_blocksize = 1, d_devnumber = 2\<rparr>],
     v_nodes := [2 \<mapsto> vnode_init DevVnode None 1, 4 \<mapsto> vnode_init DevVnode None 3],
     v_knowndevs := [new_kd ''null'' False 1 2, new_kd ''con'' False 3 4]\<rparr>"

lemma demo_boot:
  "bindo (devnull_create demo_tables demo_ctx demo_vfs) (attach_console_to_vfs demo_tables demo_ctx) =
     Done (demo_vfs2, Inr ())"
proof -
  let ?v1 = "demo_vfs\<lparr>v_next := 3,
     v_devices := [1 \<mapsto> \<lparr>d_ops = NullDev, d_blocks = 0, d_blocksize = 1, d_devnumber = 1\<rparr>],
     v_nodes := [2 \<mapsto> vnode_init DevVnode None 1], v_knowndevs := [new_kd ''null'' False 1 2]\<rparr>"
  note run = vfs_adddev_run [OF demo_private]
  have "devnull_create demo_tables demo_ctx demo_vfs = Done ?v1"
    by (simp add: devnull_create_def attach_dev_def demo_vfs_def run biglock_idle_def name_taken_def numeral_2_eq_2)
  moreover have "attach_console_to_vfs demo_tables demo_ctx ?v1 = Done (demo_vfs2, Inr ())"
    by (simp add: attach_console_to_vfs_def attach_dev_def demo_vfs_def demo_vfs2_def run
        biglock_idle_def name_taken_def kd_names_def volname_of_def new_kd_def fun_upd_twist)
  ultimately show ?thesis by simp
qed

lemma demo_console: "plain_device demo_tables demo_vfs2 ''con'' 4 3 ConDev"
  by (simp add: plain_device_def demo_vfs2_def names_distinct_def no_volume_def volname_of_def kd_names_def
      new_kd_def is_sep_def vnode_init_def)

section \<open>Claims\<close>

text \<open>
  C29. \<^verbatim>\<open>getdevice\<close> agrees with the reference splitting of a path: a name before a colon selects that
  device, a leading slash the boot volume, a leading colon the root of the current volume, anything
  else the working directory; the rest of the path is handed on without its leading slashes, and a
  path with no separator is handed on whole.
\<close>

theorem getdevice_splits_path:
  assumes "vfs_biglock_do_i_hold c v" "path \<noteq> []"
  shows "getdevice T c path v = start_lookup T c (parse_path path) v"
  using assms by (rule getdevice_parse)

theorem getdevice_splits_path_witness:
  "getdevice demo_tables demo_ctx ''con:///x'' (with_biglock demo_ctx demo_vfs2) =
     Done (add_ref 4 1 (with_biglock demo_ctx demo_vfs2), Inr (''x'', 4))"
proof -
  have "getdevice demo_tables demo_ctx ''con:///x'' (with_biglock demo_ctx demo_vfs2) =
     start_lookup demo_tables demo_ctx (parse_path ''con:///x'') (with_biglock demo_ctx demo_vfs2)"
    by (rule getdevice_splits_path) simp_all
  also have "parse_path ''con:///x'' = OnDevice ''con'' ''x''" by (simp add: parse_path_def is_sep_def)
  finally show ?thesis
    by (simp add: start_lookup_def vfs_getroot_def)
      (simp add: demo_vfs2_def new_kd_def vnode_incref_def add_ref_def with_biglock_def)
qed

text \<open>
  Registering a device: the call never blocks or panics when the big lock is free and memory is
  available. It fails with \<^verbatim>\<open>EEXIST\<close> exactly when the name (or the raw name of a mountable device) is
  already the name, raw name or volume name of a known device, and then the table, the vnodes and the
  devices are untouched. Otherwise the device is appended to the table, the names in the table stay
  pairwise distinct, and a lookup of the name it is reachable by returns its vnode with one more
  reference.
\<close>

theorem vfs_adddev_registers:
  fixes T :: "'d vtables" and v :: "'d vfs" and name :: string and m :: bool
  assumes "volname_private T" "biglock_idle v" "v_al v = []" "v_nodes v (v_next v) = None" "names_distinct v"
  defines "taken \<equiv> name_taken T v name \<or> (m \<and> name_taken T v (name @ ''raw''))"
  shows "\<exists>v' r. vfs_adddev T c name dev m v = Done (v', r) \<and> biglock_idle v' \<and> names_distinct v' \<and>
    (if taken then r = Inl EEXIST \<and> v_knowndevs v' = v_knowndevs v \<and> v_nodes v' = v_nodes v \<and> v_devices v' = v_devices v
     else r = Inr () \<and> v_knowndevs v' = v_knowndevs v @ [new_kd name m dev (v_next v)] \<and>
       vfs_getroot T c (if m then name @ ''raw'' else name) (with_biglock c v') =
         Done (add_ref (v_next v) 1 (with_biglock c v'), Inr (v_next v)))"
proof (cases taken)
  case True
  then show ?thesis
    using vfs_adddev_run [OF assms(1-4), of c name dev m] assms(2,5)
    by (auto simp: taken_def biglock_idle_def names_distinct_def)
next
  case False
  then obtain v' where v': "vfs_adddev T c name dev m v = Done (v', Inr ())" "biglock_idle v'"
    "v_knowndevs v' = v_knowndevs v @ [new_kd name m dev (v_next v)]" "v_nodes v' (v_next v) \<noteq> None"
    "v_fsdata v' = v_fsdata v"
    using vfs_adddev_run [OF assms(1-4), of c name dev m] assms(2) by (auto simp: taken_def biglock_idle_def)
  have dist: "names_distinct v'"
    using names_distinct_snoc [OF assms(5), of T name m] False v'(3) by (auto simp: taken_def names_distinct_def)
  let ?key = "if m then name @ ''raw'' else name"
  have vol: "volname_of T f (with_biglock c v') = volname_of T f v" for f
    by (rule volname_of_private [OF assms(1)]) (simp add: v'(5))
  have nv: "volname_of T (kd_fs k) (with_biglock c v') \<noteq> Some ?key" if "k \<in> set (v_knowndevs v')" for k
  proof (cases "k \<in> set (v_knowndevs v)")
    case True
    then show ?thesis using False vol by (auto simp: taken_def name_taken_def)
  next
    case False
    then show ?thesis using that v'(3) by (simp add: new_kd_def volname_of_def)
  qed
  have "vfs_getroot_scan T c ?key (v_knowndevs v') (with_biglock c v') =
      Done (add_ref (kd_vnode (new_kd name m dev (v_next v))) 1 (with_biglock c v'), Inr (kd_vnode (new_kd name m dev (v_next v))))"
    using dist nv v'(3,4) by (intro getroot_scan_device) (auto simp: names_distinct_def new_kd_def)
  then have "vfs_getroot T c ?key (with_biglock c v') = Done (add_ref (v_next v) 1 (with_biglock c v'), Inr (v_next v))"
    by (simp add: vfs_getroot_def new_kd_def)
  then show ?thesis using v' dist False by auto
qed

theorem vfs_adddev_registers_witness:
  "\<exists>v'. vfs_adddev demo_tables demo_ctx ''lhd0'' 9 True demo_vfs2 = Done (v', Inr ()) \<and> names_distinct v' \<and>
     vfs_getroot demo_tables demo_ctx ''lhd0raw'' (with_biglock demo_ctx v') =
       Done (add_ref 5 1 (with_biglock demo_ctx v'), Inr 5)"
  using vfs_adddev_registers [OF demo_private, of demo_vfs2 demo_ctx "''lhd0''" 9 True]
  by (auto simp: demo_vfs2_def demo_vfs_def biglock_idle_def names_distinct_def kd_names_def new_kd_def
      name_taken_def volname_of_def)

text \<open>
  Opening a device by its name, for reading, writing or both, and closing the vnode again is a
  round trip: the open returns the vnode of the device and adds exactly one reference to it, nothing
  else changes, and the close restores the state.
\<close>

theorem vfs_open_close_device:
  assumes "volname_private T" "biglock_idle v" "plain_device T v name vn d k" "k = NullDev \<or> k = ConDev"
    and "flags = O_RDONLY \<or> flags = O_WRONLY \<or> flags = O_RDWR"
  shows "vfs_open T c (name @ '':'') flags mode v = Done (add_ref vn 1 v, Inr vn) \<and>
         vfs_close T c vn (add_ref vn 1 v) = Done v"
proof -
  have "1 < vrefs (add_ref vn 1 v) vn"
    using assms(3) by (auto simp: plain_device_def vrefs_def v_nodes_add_ref)
  then have "vfs_close T c vn (add_ref vn 1 v) = Done v"
    by (simp add: vfs_close_def vnode_decref_ok)
  then show ?thesis using vfs_open_device [OF assms] by simp
qed

theorem vfs_open_close_device_witness:
  "vfs_open demo_tables demo_ctx ''con:'' O_RDWR 0 demo_vfs2 = Done (add_ref 4 1 demo_vfs2, Inr 4) \<and>
   vfs_close demo_tables demo_ctx 4 (add_ref 4 1 demo_vfs2) = Done demo_vfs2"
proof -
  have "biglock_idle demo_vfs2" by (simp add: biglock_idle_def demo_vfs2_def demo_vfs_def)
  then show ?thesis
    using vfs_open_close_device [OF demo_private _ demo_console, of O_RDWR demo_ctx 0] by simp
qed

text \<open>
  \<^verbatim>\<open>vfs_setbootfs\<close> refuses with \<^verbatim>\<open>EINVAL\<close> every name that has a colon within the part it copies,
  also one whose only colon is the last character, and changes nothing.
\<close>

theorem vfs_setbootfs_rejects_colon:
  assumes "biglock_idle v" "length pre < NAMEMAX - 1"
  shows "vfs_setbootfs T c (pre @ CHR '':'' # rest) v = Done (v, c_cwd c, Inl EINVAL)"
proof -
  have "CHR '':'' \<in> set (take (NAMEMAX - 1) (pre @ CHR '':'' # rest))"
    using assms(2) by (cases "NAMEMAX - 1 - length pre") auto
  then have "vfs_setbootfs T c (pre @ CHR '':'' # rest) v =
      Done ((with_biglock c v)\<lparr>v_biglock := v_biglock v, v_depth := 0\<rparr>, c_cwd c, Inl EINVAL)"
    unfolding vfs_setbootfs_def by (intro locked_idle [OF assms(1)]) (simp_all add: biglock_as_def)
  then show ?thesis using assms(1) by (simp add: with_biglock_def biglock_idle_def)
qed

theorem vfs_setbootfs_rejects_colon_witness:
  "vfs_setbootfs demo_tables demo_ctx ''con:'' demo_vfs2 = Done (demo_vfs2, None, Inl EINVAL)"
  using vfs_setbootfs_rejects_colon [of demo_vfs2 "''con''" demo_tables demo_ctx "[]"]
  by (simp add: biglock_idle_def demo_vfs2_def demo_vfs_def demo_ctx_def)

text \<open>
  Mounting a device and unmounting it again: the mount of a free device succeeds, a second mount is
  refused with \<^verbatim>\<open>EBUSY\<close> and changes nothing, the unmount succeeds and gives back the table of devices
  as it was, and a second unmount is refused with \<^verbatim>\<open>EINVAL\<close>. The file system's own mount, sync and
  unmount are assumed to succeed and to leave the device table and the big lock alone.
\<close>

theorem vfs_mount_unmount:
  assumes "biglock_idle v" "mountable v name i" "kd_fs (v_knowndevs v ! i) = NoFs"
    and "kd_device (v_knowndevs v ! i) = Some d" "quiet (mf d)"
    and "\<forall>w w' fs'. mf d w = Done (w', Inr fs') \<longrightarrow> fs' = fs"
    and "\<And>fs. quiet (fsop_sync (FSOP T fs) c fs)" "\<And>fs. quiet (fsop_unmount (FSOP T fs) c fs)"
  shows "\<exists>v1 v2. vfs_mount c name mf v = Done (v1, Inr ()) \<and> kd_fs (v_knowndevs v1 ! i) = Fs fs \<and>
           vfs_mount c name mf v1 = Done (v1, Inl EBUSY) \<and>
           vfs_unmount T c name v1 = Done (v2, Inr ()) \<and> v_knowndevs v2 = v_knowndevs v \<and>
           vfs_unmount T c name v2 = Done (v2, Inl EINVAL)"
proof -
  have i: "i < length (v_knowndevs v)" using assms(2) by (simp add: mountable_def)
  obtain v1 where v1: "vfs_mount c name mf v = Done (v1, Inr ())" "biglock_idle v1"
    "v_knowndevs v1 = (v_knowndevs v)[i := (v_knowndevs v ! i)\<lparr>kd_fs := Fs fs\<rparr>]"
    using vfs_mount_run [where mf = mf and c = c, OF assms(1,2,4,5,6)] assms(3) by auto
  have m1: "mountable v1 name i" by (rule mountable_set [OF assms(2) v1(3)])
  have fs1: "kd_fs (v_knowndevs v1 ! i) = Fs fs" "kd_device (v_knowndevs v1 ! i) = Some d"
    using v1(3) i assms(4) by simp_all
  have busy: "vfs_mount c name mf v1 = Done (v1, Inl EBUSY)"
    using vfs_mount_run [where mf = mf and c = c, OF v1(2) m1 fs1(2) assms(5,6)] fs1(1) by simp
  obtain v2 where v2: "vfs_unmount T c name v1 = Done (v2, Inr ())" "biglock_idle v2"
    "v_knowndevs v2 = (v_knowndevs v1)[i := (v_knowndevs v1 ! i)\<lparr>kd_fs := NoFs\<rparr>]"
    using vfs_unmount_run [OF v1(2) m1 assms(7,8)] fs1(1) by auto
  have same: "v_knowndevs v2 = v_knowndevs v"
    unfolding v2(3) v1(3) by (rule set_fs_back [OF i assms(3)])
  have "vfs_unmount T c name v2 = Done (v2, Inl EINVAL)"
    using vfs_unmount_run [OF v2(2) mountable_cong [OF assms(2) same] assms(7,8)] same assms(3) by simp
  then show ?thesis using v1 fs1 busy v2 same by blast
qed

theorem vfs_mount_unmount_witness:
  "\<exists>v1 v2. vfs_mount demo_ctx ''lhd0'' (\<lambda>d w. Done (w, Inr 3))
       (demo_vfs\<lparr>v_knowndevs := [new_kd ''lhd0'' True 9 5]\<rparr>) = Done (v1, Inr ()) \<and>
     vfs_unmount demo_tables demo_ctx ''lhd0'' v1 = Done (v2, Inr ()) \<and>
     v_knowndevs v2 = [new_kd ''lhd0'' True 9 5]"
proof -
  let ?v = "demo_vfs\<lparr>v_knowndevs := [new_kd ''lhd0'' True 9 5]\<rparr>"
  have "biglock_idle ?v" "mountable ?v ''lhd0'' 0"
    by (simp_all add: biglock_idle_def demo_vfs_def mountable_def names_distinct_def kd_names_def new_kd_def)
  from vfs_mount_unmount [OF this, of 9 "\<lambda>d w. Done (w, Inr 3)" 3 demo_tables demo_ctx] show ?thesis
    by (auto simp: new_kd_def quiet_def biglock_as_def demo_tables_def FSOP_def)
qed

end
