(* ===== verification/Kmalloc.thy ===== *)
theory Kmalloc
  imports Vm
begin

text \<open>
  The kernel heap, \<^verbatim>\<open>kern/vm/kmalloc.c\<close>: the pool allocator for blocks smaller than a page, and
  \<^verbatim>\<open>kmalloc\<close> and \<^verbatim>\<open>kfree\<close> on top of it and of the page allocator of \<^verbatim>\<open>dumbvm.c\<close>.

  \<open>kh_mem\<close> is the memory of the heap pages by words: the word at an address is the \<^verbatim>\<open>next\<close> pointer when a
  free block begins there.  \<open>kh_refs\<close> holds the \<^verbatim>\<open>pageref\<close> structures by address.  A null pointer is 0.
  The spinlock of the allocator is given up around the calls of \<^verbatim>\<open>alloc_kpages\<close> and \<^verbatim>\<open>free_kpages\<close>; the code
  between two such points is one section, and \<open>kpend\<close> says where a thread is between two sections,
  with its local variables.  The debugging modes of the file are off, as in the source.

  Addresses are below \<open>2 ^ 32\<close>, so that the page address and the block type, which share a word, are
  its quotient and remainder by the page size.
\<close>

section \<open>Data\<close>

definition sizes :: "nat list" where
  "sizes = [16, 32, 64, 128, 256, 512, 1024, 2048]"

abbreviation "NSIZES \<equiv> 8 :: nat"
abbreviation "LARGEST_SUBPAGE_SIZE \<equiv> 2048 :: nat"
abbreviation "INVALID_OFFSET \<equiv> 0xffff :: nat"
abbreviation "NPAGEREFS_PER_PAGE \<equiv> 256 :: nat"
abbreviation "INUSE_WORDS \<equiv> 8 :: nat"
abbreviation "NUM_PAGEREFPAGES \<equiv> 16 :: nat"

record pageref =
  next_samesize :: nat
  next_all :: nat
  pageaddr_and_blocktype :: nat
  freelist_offset :: nat
  nfree :: nat

definition PR_PAGEADDR :: "pageref \<Rightarrow> nat" where
  "PR_PAGEADDR pr = page_frame (pageaddr_and_blocktype pr)"

definition PR_BLOCKTYPE :: "pageref \<Rightarrow> nat" where
  "PR_BLOCKTYPE pr = pageaddr_and_blocktype pr mod PAGE_SIZE"

definition MKPAB :: "nat \<Rightarrow> nat \<Rightarrow> nat" where
  "MKPAB pa t = page_frame pa + t mod PAGE_SIZE"

record kheap_root =
  kr_page :: nat
  kr_inuse :: "u32 list"
  kr_numinuse :: nat

record kheap =
  kh_vm :: vmstate
  kh_mem :: "nat \<Rightarrow> nat"
  kh_refs :: "nat \<Rightarrow> pageref"
  kh_roots :: "kheap_root list"
  kh_sizebases :: "nat list"
  kh_allbase :: nat

datatype kpend =
    K_Malloc nat
  | K_GetPage nat
  | K_HavePage nat nat
  | K_GetRefPage nat nat nat nat nat
  | K_HaveRefPage nat nat nat nat nat nat
  | K_FreeVa nat nat nat nat nat nat
  | K_Relock nat nat nat nat nat
  | K_GiveUp nat
  | K_Big nat
  | K_Free nat
  | K_FreePages nat

datatype kres = Ret nat | Go kpend

text \<open>A loop over a linked list that never ends does not return.\<close>

definition returns :: "'a outcome option \<Rightarrow> 'a outcome" where
  "returns r = (case r of None \<Rightarrow> Block | Some x \<Rightarrow> x)"

section \<open>Page references\<close>

definition upd_root :: "nat \<Rightarrow> (kheap_root \<Rightarrow> kheap_root) \<Rightarrow> kheap \<Rightarrow> kheap" where
  "upd_root w f h = h\<lparr>kh_roots := (kh_roots h)[w := f (kh_roots h ! w)]\<rparr>"

function free_bit :: "u32 \<Rightarrow> nat \<Rightarrow> nat option" where
  "free_bit w j = (let k = push_bit j 1 in
     if k = 0 then None else if and w k = 0 then Some j else free_bit w (Suc j))"
  by pat_completeness auto
termination
proof (relation "measure (\<lambda>(w :: u32, j). 32 - j)")
  fix w k :: u32 and j
  assume "k = push_bit j 1" "k \<noteq> 0"
  then have "j < 32" by (auto simp: push_bit_of_1 simp flip: not_le)
  then show "((w, Suc j), w, j) \<in> measure (\<lambda>(w, j). 32 - j)" by simp
qed simp

declare free_bit.simps [simp del]

function free_slot :: "u32 list \<Rightarrow> nat \<Rightarrow> (nat \<times> nat) option outcome" where
  "free_slot inuse i =
     (if i < INUSE_WORDS then
        if inuse ! i = 0xffffffff then free_slot inuse (Suc i)
        else (case free_bit (inuse ! i) 0 of Some j \<Rightarrow> Done (Some (i, j)) | None \<Rightarrow> Panic)
      else Done None)"
  by pat_completeness auto
termination by (relation "measure (\<lambda>(inuse, i). INUSE_WORDS - i)") auto

declare free_slot.simps [simp del]

function find_root :: "kheap_root list \<Rightarrow> nat \<Rightarrow> (nat \<times> nat \<times> nat) option outcome" where
  "find_root roots w =
     (if w < NUM_PAGEREFPAGES then
        if kr_numinuse (roots ! w) \<ge> NPAGEREFS_PER_PAGE then find_root roots (Suc w)
        else bindo (free_slot (kr_inuse (roots ! w)) 0) (\<lambda>r. case r of
               Some (i, j) \<Rightarrow> Done (Some (w, i, j)) | None \<Rightarrow> find_root roots (Suc w))
      else Done None)"
  by pat_completeness auto
termination by (relation "measure (\<lambda>(roots, w). NUM_PAGEREFPAGES - w)") auto

declare find_root.simps [simp del]

definition mark_slot :: "nat \<Rightarrow> nat \<Rightarrow> kheap_root \<Rightarrow> kheap_root" where
  "mark_slot i j root = root\<lparr>kr_inuse := (kr_inuse root)[i := or (kr_inuse root ! i) (push_bit j 1)],
     kr_numinuse := kr_numinuse root + 1\<rparr>"

definition ref_addr :: "nat \<Rightarrow> nat \<Rightarrow> nat \<Rightarrow> nat" where
  "ref_addr page i j = page + 16 * (i * 32 + j)"

function freepageref_from :: "nat \<Rightarrow> nat \<Rightarrow> kheap \<Rightarrow> kheap outcome" where
  "freepageref_from w p h =
     (if w < NUM_PAGEREFPAGES then
        let root = kh_roots h ! w; page = kr_page root; j = (int p - int page) div 16 in
        if page = 0 then (if kr_numinuse root \<noteq> 0 then Panic else freepageref_from (Suc w) p h)
        else if 0 \<le> j \<and> j < int NPAGEREFS_PER_PAGE then
          let i = nat j div 32; k = push_bit (nat j mod 32) 1 in
          if and (kr_inuse root ! i) k = 0 then Panic
          else if kr_numinuse root = 0 then Panic
          else Done (upd_root w (\<lambda>root. root\<lparr>
                 kr_inuse := (kr_inuse root)[i := and (kr_inuse root ! i) (not k)],
                 kr_numinuse := kr_numinuse root - 1\<rparr>) h)
        else freepageref_from (Suc w) p h
      else Panic)"
  by pat_completeness auto
termination by (relation "measure (\<lambda>(w, p, h). NUM_PAGEREFPAGES - w)") auto

declare freepageref_from.simps [simp del]

definition freepageref :: "nat \<Rightarrow> kheap \<Rightarrow> kheap outcome" where
  "freepageref p h = freepageref_from 0 p h"

text \<open>
  \<^verbatim>\<open>remove_lists\<close>: the loop variable is the place that holds a pointer, the base of the list (\<^term>\<open>None\<close>) or the
  link field of an element.
\<close>

partial_function (option) unlink_from ::
  "nat \<Rightarrow> (nat \<Rightarrow> nat) \<Rightarrow> nat option \<Rightarrow> nat \<Rightarrow> (nat \<times> (nat \<Rightarrow> nat)) option" where
  "unlink_from base nxt guy pr =
     (let cur = (case guy of None \<Rightarrow> base | Some g \<Rightarrow> nxt g) in
      if cur = 0 then Some (base, nxt)
      else if cur = pr then
        (case guy of None \<Rightarrow> Some (nxt pr, nxt) | Some g \<Rightarrow> Some (base, nxt(g := nxt pr)))
      else unlink_from base nxt (Some cur) pr)"

definition remove_lists :: "nat \<Rightarrow> nat \<Rightarrow> kheap \<Rightarrow> kheap outcome" where
  "remove_lists pr blktype h =
     (if \<not> blktype < NSIZES then Panic
      else case unlink_from (kh_sizebases h ! blktype) (\<lambda>p. next_samesize (kh_refs h p)) None pr of
        None \<Rightarrow> Block
      | Some (base, nxt) \<Rightarrow>
          let h = h\<lparr>kh_sizebases := (kh_sizebases h)[blktype := base],
                    kh_refs := (\<lambda>p. (kh_refs h p)\<lparr>next_samesize := nxt p\<rparr>)\<rparr> in
          (case unlink_from (kh_allbase h) (\<lambda>p. next_all (kh_refs h p)) None pr of
             None \<Rightarrow> Block
           | Some (base, nxt) \<Rightarrow>
               Done (h\<lparr>kh_allbase := base, kh_refs := (\<lambda>p. (kh_refs h p)\<lparr>next_all := nxt p\<rparr>)\<rparr>)))"

section \<open>Allocation of a block\<close>

definition blocktype :: "nat \<Rightarrow> nat outcome" where
  "blocktype clientsz = (case List.find (\<lambda>i. clientsz \<le> sizes ! i) [0..<NSIZES] of
     Some i \<Rightarrow> Done i | None \<Rightarrow> Panic)"

partial_function (option) find_page :: "(nat \<Rightarrow> pageref) \<Rightarrow> nat \<Rightarrow> nat \<Rightarrow> nat outcome option" where
  "find_page refs blktype pr =
     (if pr = 0 then Some (Done 0)
      else if PR_BLOCKTYPE (refs pr) \<noteq> blktype then Some Panic
      else if 0 < nfree (refs pr) then Some (Done pr)
      else find_page refs blktype (next_samesize (refs pr)))"

text \<open>The code at the label \<^verbatim>\<open>doalloc\<close>.\<close>

definition doalloc :: "nat \<Rightarrow> kheap \<Rightarrow> (kheap \<times> kres) outcome" where
  "doalloc pr h =
     (let r = kh_refs h pr in
      if \<not> freelist_offset r < PAGE_SIZE then Panic
      else
        let prpage = PR_PAGEADDR r; fla = prpage + freelist_offset r; fl = kh_mem h fla;
            n = (nfree r + 0xffff) mod 0x10000 in
        if fl \<noteq> 0 then
          (if n = 0 \<or> fl < prpage \<or> \<not> fl - prpage < PAGE_SIZE then Panic
           else Done (h\<lparr>kh_refs := (kh_refs h)(pr := r\<lparr>nfree := n, freelist_offset := fl - prpage\<rparr>)\<rparr>, Ret fla))
        else if n \<noteq> 0 then Panic
        else Done (h\<lparr>kh_refs := (kh_refs h)(pr := r\<lparr>nfree := n, freelist_offset := INVALID_OFFSET\<rparr>)\<rparr>, Ret fla))"

text \<open>The loop that chains the blocks of a new page, \<open>i\<close> times.\<close>

primrec chain_blocks :: "nat \<Rightarrow> nat \<Rightarrow> nat \<Rightarrow> (nat \<Rightarrow> nat) \<Rightarrow> (nat \<Rightarrow> nat) outcome" where
  "chain_blocks bsize fla 0 mem = Done (mem(fla := 0))"
| "chain_blocks bsize fla (Suc i) mem = bindo (chain_blocks bsize fla i mem) (\<lambda>mem.
     let fl = fla + Suc i * bsize; nx = fla + i * bsize in
     if fl = nx then Panic else Done (mem(fl := nx)))"

definition new_page :: "nat \<Rightarrow> nat \<Rightarrow> nat \<Rightarrow> kheap \<Rightarrow> (kheap \<times> kres) outcome" where
  "new_page blktype prpage pr h =
     (let bsize = sizes ! blktype; n = PAGE_SIZE div bsize in
      bindo (chain_blocks bsize prpage (n - 1) (kh_mem h)) (\<lambda>mem.
        let off = prpage + (n - 1) * bsize - prpage in
        if off \<noteq> (n - 1) * bsize then Panic
        else doalloc pr (h\<lparr>kh_mem := mem,
          kh_refs := (kh_refs h)(pr := \<lparr>next_samesize = kh_sizebases h ! blktype, next_all = kh_allbase h,
            pageaddr_and_blocktype = MKPAB prpage blktype, freelist_offset = off, nfree = n\<rparr>),
          kh_sizebases := (kh_sizebases h)[blktype := pr], kh_allbase := pr\<rparr>)))"

text \<open>The end of \<^verbatim>\<open>allocpageref\<close>, once the page of the root has been dealt with.\<close>

definition ref_ready :: "nat \<Rightarrow> nat \<Rightarrow> nat \<Rightarrow> nat \<Rightarrow> nat \<Rightarrow> kheap \<Rightarrow> (kheap \<times> kres) outcome" where
  "ref_ready blktype prpage w i j h =
     (let page = kr_page (kh_roots h ! w) in
      if page = 0 then Done (h, Go (K_GiveUp prpage))
      else new_page blktype prpage (ref_addr page i j) h)"

definition allocpageref :: "nat \<Rightarrow> nat \<Rightarrow> kheap \<Rightarrow> (kheap \<times> kres) outcome" where
  "allocpageref blktype prpage h =
     bindo (find_root (kh_roots h) 0) (\<lambda>r. case r of
       None \<Rightarrow> Done (h, Go (K_GiveUp prpage))
     | Some (w, i, j) \<Rightarrow>
         let h = upd_root w (mark_slot i j) h in
         if kr_page (kh_roots h ! w) = 0 then Done (h, Go (K_GetRefPage blktype prpage w i j))
         else ref_ready blktype prpage w i j h)"

definition allocpagerefpage :: "nat \<Rightarrow> nat \<Rightarrow> nat \<Rightarrow> nat \<Rightarrow> nat \<Rightarrow> nat \<Rightarrow> kheap \<Rightarrow> (kheap \<times> kres) outcome" where
  "allocpagerefpage blktype prpage w i j va h =
     (if va = 0 then ref_ready blktype prpage w i j h
      else if va mod PAGE_SIZE \<noteq> 0 then Panic
      else if kr_page (kh_roots h ! w) \<noteq> 0 then Done (h, Go (K_FreeVa blktype prpage w i j va))
      else ref_ready blktype prpage w i j (upd_root w (\<lambda>root. root\<lparr>kr_page := va\<rparr>) h))"

definition subpage_kmalloc :: "nat \<Rightarrow> kheap \<Rightarrow> (kheap \<times> kres) outcome" where
  "subpage_kmalloc sz h =
     bindo (blocktype sz) (\<lambda>blktype.
       bindo (returns (find_page (kh_refs h) blktype (kh_sizebases h ! blktype))) (\<lambda>pr.
         if pr = 0 then Done (h, Go (K_GetPage blktype)) else doalloc pr h))"

section \<open>Freeing a block\<close>

primrec fill_deadbeef :: "nat \<Rightarrow> nat \<Rightarrow> (nat \<Rightarrow> nat) \<Rightarrow> nat \<Rightarrow> nat" where
  "fill_deadbeef ptr 0 mem = mem"
| "fill_deadbeef ptr (Suc i) mem = (fill_deadbeef ptr i mem)(ptr + 4 * i := 0xdeadbeef)"

partial_function (option) find_owner :: "(nat \<Rightarrow> pageref) \<Rightarrow> nat \<Rightarrow> nat \<Rightarrow> nat outcome option" where
  "find_owner refs ptraddr pr =
     (if pr = 0 then Some (Done 0)
      else if \<not> PR_BLOCKTYPE (refs pr) < NSIZES then Some Panic
      else if PR_PAGEADDR (refs pr) \<le> ptraddr \<and> ptraddr < PR_PAGEADDR (refs pr) + PAGE_SIZE
      then Some (Done pr)
      else find_owner refs ptraddr (next_all (refs pr)))"

definition subpage_kfree :: "nat \<Rightarrow> kheap \<Rightarrow> (kheap \<times> kres option) outcome" where
  "subpage_kfree ptraddr h =
     bindo (returns (find_owner (kh_refs h) ptraddr (kh_allbase h))) (\<lambda>pr.
       if pr = 0 then Done (h, None)
       else
         let r = kh_refs h pr; prpage = PR_PAGEADDR r; blktype = PR_BLOCKTYPE r; bsize = sizes ! blktype;
             offset = ptraddr - prpage in
         if PAGE_SIZE \<le> offset \<or> offset mod bsize \<noteq> 0 then Panic
         else
           let mem = fill_deadbeef ptraddr (bsize div 4) (kh_mem h);
               fla = prpage + offset;
               nx = (if freelist_offset r = INVALID_OFFSET then 0 else prpage + freelist_offset r);
               n = (nfree r + 1) mod 0x10000;
               h = h\<lparr>kh_mem := mem(fla := nx),
                     kh_refs := (kh_refs h)(pr := r\<lparr>freelist_offset := offset, nfree := n\<rparr>)\<rparr> in
           if freelist_offset r \<noteq> INVALID_OFFSET \<and> fla = nx then Panic
           else if n > PAGE_SIZE div bsize then Panic
           else if n = PAGE_SIZE div bsize then
             bindo (remove_lists pr blktype h) (\<lambda>h. bindo (freepageref pr h)
               (\<lambda>h. Done (h, Some (Go (K_FreePages prpage)))))
           else Done (h, Some (Ret 0)))"

section \<open>kmalloc and kfree\<close>

definition kfree_section :: "nat \<Rightarrow> kheap \<Rightarrow> (kheap \<times> kres) outcome" where
  "kfree_section ptr h =
     (if ptr = 0 then Done (h, Ret 0)
      else bindo (subpage_kfree ptr h) (\<lambda>(h, r). case r of
        Some r \<Rightarrow> Done (h, r)
      | None \<Rightarrow> if ptr mod PAGE_SIZE \<noteq> 0 then Panic else Done (h, Go (K_FreePages ptr))))"

definition get_pages :: "nat \<Rightarrow> kheap \<Rightarrow> kheap \<times> nat" where
  "get_pages n h = (let (vm, va) = alloc_kpages n (kh_vm h) in (h\<lparr>kh_vm := vm\<rparr>, va))"

definition put_pages :: "nat \<Rightarrow> kheap \<Rightarrow> kheap outcome" where
  "put_pages va h = bindo (free_kpages va (kh_vm h)) (\<lambda>vm. Done (h\<lparr>kh_vm := vm\<rparr>))"

text \<open>One section: what a thread at \<open>k\<close> does before it next gives up the lock or calls the page allocator.\<close>

primrec ksection :: "kpend \<Rightarrow> kheap \<Rightarrow> (kheap \<times> kres) outcome" where
  "ksection (K_Malloc sz) h = subpage_kmalloc sz h"
| "ksection (K_GetPage blktype) h =
     (let (h, prpage) = get_pages 1 h in
      if prpage = 0 then Done (h, Ret 0)
      else if prpage mod PAGE_SIZE \<noteq> 0 then Panic
      else Done (h, Go (K_HavePage blktype prpage)))"
| "ksection (K_HavePage blktype prpage) h = allocpageref blktype prpage h"
| "ksection (K_GetRefPage blktype prpage w i j) h =
     (let (h, va) = get_pages 1 h in Done (h, Go (K_HaveRefPage blktype prpage w i j va)))"
| "ksection (K_HaveRefPage blktype prpage w i j va) h = allocpagerefpage blktype prpage w i j va h"
| "ksection (K_FreeVa blktype prpage w i j va) h =
     bindo (put_pages va h) (\<lambda>h. Done (h, Go (K_Relock blktype prpage w i j)))"
| "ksection (K_Relock blktype prpage w i j) h =
     (if kr_page (kh_roots h ! w) = 0 then Panic else ref_ready blktype prpage w i j h)"
| "ksection (K_GiveUp prpage) h = bindo (put_pages prpage h) (\<lambda>h. Done (h, Ret 0))"
| "ksection (K_Big sz) h =
     (let npages = ((sz + PAGE_SIZE - 1) mod 2 ^ 32) div PAGE_SIZE; (h, address) = get_pages npages h in
      if address \<noteq> 0 \<and> address mod PAGE_SIZE \<noteq> 0 then Panic else Done (h, Ret address))"
| "ksection (K_Free ptr) h = kfree_section ptr h"
| "ksection (K_FreePages va) h = bindo (put_pages va h) (\<lambda>h. Done (h, Ret 0))"

text \<open>A call of \<^verbatim>\<open>kmalloc\<close> or \<^verbatim>\<open>kfree\<close> with no other thread in between; a call has at most seven sections.\<close>

primrec krun :: "nat \<Rightarrow> kpend \<Rightarrow> kheap \<Rightarrow> (kheap \<times> nat) outcome" where
  "krun 0 k h = Block"
| "krun (Suc n) k h = bindo (ksection k h) (\<lambda>(h, r). case r of Ret p \<Rightarrow> Done (h, p) | Go k \<Rightarrow> krun n k h)"

definition kmalloc_entry :: "nat \<Rightarrow> kpend" where
  "kmalloc_entry sz = (if sz \<ge> LARGEST_SUBPAGE_SIZE then K_Big sz else K_Malloc sz)"

definition kmalloc :: "nat \<Rightarrow> kheap \<Rightarrow> (kheap \<times> nat) outcome" where
  "kmalloc sz h = krun 7 (kmalloc_entry sz) h"

definition kfree :: "nat \<Rightarrow> kheap \<Rightarrow> kheap outcome" where
  "kfree ptr h = bindo (krun 2 (K_Free ptr) h) (\<lambda>(h, _). Done h)"

text \<open>The heap before its first use.\<close>

definition kheap_boot :: "vmstate \<Rightarrow> (nat \<Rightarrow> nat) \<Rightarrow> (nat \<Rightarrow> pageref) \<Rightarrow> kheap" where
  "kheap_boot vm mem refs = \<lparr>kh_vm = vm, kh_mem = mem, kh_refs = refs,
     kh_roots = replicate NUM_PAGEREFPAGES \<lparr>kr_page = 0, kr_inuse = replicate INUSE_WORDS 0, kr_numinuse = 0\<rparr>,
     kh_sizebases = replicate NSIZES 0, kh_allbase = 0\<rparr>"

section \<open>The printed map\<close>

partial_function (option) mark_free :: "(nat \<Rightarrow> nat) \<Rightarrow> nat \<Rightarrow> nat \<Rightarrow> nat \<Rightarrow> nat \<Rightarrow> bool list \<Rightarrow> bool list outcome option" where
  "mark_free mem prpage bsize n fl freemap =
     (if fl = 0 then Some (Done freemap)
      else let index = (fl - prpage) div bsize in
        if fl < prpage \<or> \<not> index < n then Some Panic
        else mark_free mem prpage bsize n (mem fl) (freemap[index := True]))"

text \<open>\<^verbatim>\<open>subpage_stats\<close>: page address, block size, free blocks, blocks, and which blocks print as free.\<close>

definition subpage_stats :: "nat \<Rightarrow> kheap \<Rightarrow> (nat \<times> nat \<times> nat \<times> nat \<times> bool list) outcome" where
  "subpage_stats pr h =
     (let r = kh_refs h pr; prpage = PR_PAGEADDR r; blktype = PR_BLOCKTYPE r in
      if \<not> blktype < NSIZES then Panic
      else let bsize = sizes ! blktype; n = PAGE_SIZE div bsize in
        if \<not> n \<le> 32 * 8 then Panic
        else bindo (if freelist_offset r = INVALID_OFFSET then Done (replicate 256 False)
               else returns (mark_free (kh_mem h) prpage bsize n (prpage + freelist_offset r) (replicate 256 False)))
             (\<lambda>freemap. Done (prpage, bsize, nfree r, n, take n freemap)))"

partial_function (option) print_pages :: "kheap \<Rightarrow> nat \<Rightarrow> (nat \<times> nat \<times> nat \<times> nat \<times> bool list) list outcome option" where
  "print_pages h pr =
     (if pr = 0 then Some (Done [])
      else case subpage_stats pr h of
        Done x \<Rightarrow> Option.bind (print_pages h (next_all (kh_refs h pr))) (\<lambda>r. Some (bindo r (\<lambda>xs. Done (x # xs))))
      | Panic \<Rightarrow> Some Panic
      | Block \<Rightarrow> Some Block)"

definition kheap_printstats :: "kheap \<Rightarrow> (nat \<times> nat \<times> nat \<times> nat \<times> bool list) list outcome" where
  "kheap_printstats h = returns (print_pages h (kh_allbase h))"

end
