(* ===== verification/Kmalloc_Laws.thy ===== *)
theory Kmalloc_Laws
  imports Kmalloc
begin

text \<open>
  The invariant of the kernel heap and what each section of \<^verbatim>\<open>kmalloc\<close> and \<^verbatim>\<open>kfree\<close> does to it.

  \<open>kernel_pages\<close> is what the heap relies on from the page allocator; it is interpreted on \<^verbatim>\<open>alloc_kpages\<close> and
  \<^verbatim>\<open>free_kpages\<close>.  The invariant is stated with the pages that are out of the hands of the heap
  (\<open>held\<close>) and the reference slots that a call in progress has reserved (\<open>R\<close>), so that it also holds
  between the sections of several calls.
\<close>

section \<open>What the page allocator promises\<close>

definition span :: "nat \<times> nat \<Rightarrow> nat set" where
  "span b = {fst b ..< fst b + snd b * PAGE_SIZE}"

locale kernel_pages =
  fixes pinv :: "(nat \<times> nat) set \<Rightarrow> 's \<Rightarrow> bool"
    and alloc :: "nat \<Rightarrow> 's \<Rightarrow> 's \<times> nat"
    and free :: "nat \<Rightarrow> 's \<Rightarrow> 's outcome"
  assumes alloc_some: "pinv L s \<Longrightarrow> 0 < n \<Longrightarrow> n < 2 ^ 19 \<Longrightarrow> alloc n s = (s', va) \<Longrightarrow> va \<noteq> 0 \<Longrightarrow>
      pinv (insert (va, n) L) s' \<and> (va, n) \<notin> L"
    and alloc_none: "pinv L s \<Longrightarrow> 0 < n \<Longrightarrow> n < 2 ^ 19 \<Longrightarrow> alloc n s = (s', va) \<Longrightarrow> va = 0 \<Longrightarrow> pinv L s'"
    and free_ok: "pinv L s \<Longrightarrow> (va, n) \<in> L \<Longrightarrow> \<exists>s'. free va s = Done s' \<and> pinv (L - {(va, n)}) s'"
    and place: "pinv L s \<Longrightarrow> (va, n) \<in> L \<Longrightarrow>
      va mod PAGE_SIZE = 0 \<and> MIPS_KSEG0 \<le> va \<and> 0 < n \<and> va + n * PAGE_SIZE \<le> 0xa0000000"
    and apart: "pinv L s \<Longrightarrow> b \<in> L \<Longrightarrow> c \<in> L \<Longrightarrow> b \<noteq> c \<Longrightarrow> span b \<inter> span c = {}"
begin

lemma same_start:
  assumes "pinv L s" "(va, n) \<in> L" "(va, m) \<in> L"
  shows "n = m"
proof (rule ccontr)
  assume "n \<noteq> m"
  then have "span (va, n) \<inter> span (va, m) = {}" using apart [OF assms(1) assms(2) assms(3)] by simp
  moreover have "va \<in> span (va, n) \<inter> span (va, m)"
    using place [OF assms(1,2)] place [OF assms(1,3)] by (simp add: span_def)
  ultimately show False by blast
qed

lemma page_apart:
  assumes "pinv L s" "(p, 1) \<in> L" "b \<in> L" "(p, 1) \<noteq> b" "p \<le> a" "a < p + PAGE_SIZE"
  shows "a \<notin> span b"
  using apart [OF assms(1,2,3,4)] assms(5,6) by (auto simp: span_def)

end

text \<open>A block of pages by its kernel address, as the frame allocator numbers it.\<close>

definition kpg :: "nat \<times> nat \<Rightarrow> nat \<times> nat" where
  "kpg b = ((fst b - MIPS_KSEG0) div PAGE_SIZE, snd b)"

definition kpages :: "(nat \<times> nat) set \<Rightarrow> vmstate \<Rightarrow> bool" where
  "kpages L s \<longleftrightarrow> alloc_inv (kpg ` L) s \<and> (\<forall>b\<in>L. fst b mod PAGE_SIZE = 0 \<and> MIPS_KSEG0 \<le> fst b)"

lemma kpg_addr:
  assumes "fst b mod PAGE_SIZE = 0" "MIPS_KSEG0 \<le> fst b"
  shows "fst (kpg b) * PAGE_SIZE + MIPS_KSEG0 = fst b"
proof -
  have "(fst b - MIPS_KSEG0) mod PAGE_SIZE = 0" using assms by (simp add: mod_eq_0_iff_dvd dvd_diff_nat)
  then have "(fst b - MIPS_KSEG0) div PAGE_SIZE * PAGE_SIZE = fst b - MIPS_KSEG0" by (simp add: mod_eq_0_iff_dvd)
  then show ?thesis using assms(2) by (simp add: kpg_def)
qed

lemma kpg_inj: "kpages L s \<Longrightarrow> b \<in> L \<Longrightarrow> c \<in> L \<Longrightarrow> kpg b = kpg c \<Longrightarrow> b = c"
proof -
  assume "kpages L s" "b \<in> L" "c \<in> L" and e: "kpg b = kpg c"
  then have "fst b = fst c" using kpg_addr [of b] kpg_addr [of c] by (simp add: kpages_def)
  moreover have "snd b = snd c" using arg_cong [OF e, of snd] by (simp add: kpg_def)
  ultimately show "b = c" by (rule prod_eqI)
qed

lemma kpg_of: "kpg (p * PAGE_SIZE + MIPS_KSEG0, n) = (p, n)"
  by (simp add: kpg_def)

lemma snd_kpg: "snd (kpg b) = snd b"
  by (simp add: kpg_def)

lemma span_kpg:
  assumes "fst b mod PAGE_SIZE = 0" "MIPS_KSEG0 \<le> fst b" "a \<in> span b"
  shows "(a - MIPS_KSEG0) div PAGE_SIZE \<in> blk (kpg b)"
proof -
  have b: "fst b \<le> a" "a < fst b + snd b * PAGE_SIZE" using assms(3) by (auto simp: span_def)
  then have a: "fst (kpg b) * PAGE_SIZE \<le> a - MIPS_KSEG0"
    "a - MIPS_KSEG0 < (fst (kpg b) + snd (kpg b)) * PAGE_SIZE"
    using kpg_addr [OF assms(1,2)] snd_kpg [of b] unfolding distrib_right by linarith+
  then show ?thesis
    using div_le_mono [OF a(1), of PAGE_SIZE] less_mult_imp_div_less [OF a(2)] by (simp add: blk_def)
qed

interpretation kp: kernel_pages kpages alloc_kpages free_kpages
proof
  fix L s n s' va
  assume inv: "kpages L s" and n: "0 < n" "n < 2 ^ 19" and al: "alloc_kpages n s = (s', va)"
  obtain t pa where g: "getppages n s = (t, pa)" by fastforce
  note ok = getppages_ok [OF _ n g, of "kpg ` L"]
  have ai: "alloc_inv (kpg ` L) s" using inv by (simp add: kpages_def)
  show "va \<noteq> 0 \<Longrightarrow> kpages (insert (va, n) L) s' \<and> (va, n) \<notin> L"
  proof -
    assume va: "va \<noteq> 0"
    then have pa: "pa \<noteq> 0" using al g by (auto simp: alloc_kpages_def split: if_splits)
    then have o: "pa mod PAGE_SIZE = 0" "alloc_inv (insert (pa div PAGE_SIZE, n) (kpg ` L)) t"
      "\<forall>b\<in>kpg ` L. blk b \<inter> blk (pa div PAGE_SIZE, n) = {}" "pa + n * PAGE_SIZE \<le> lastpaddr t"
      using ok [OF ai] by simp_all
    have "lastpaddr t \<le> 512 * 1024 * 1024" using o(2) by (simp add: alloc_inv_def)
    then have st: "s' = t" "va = pa + MIPS_KSEG0" using al g pa o(4) by (simp_all add: alloc_kpages_def)
    have e: "kpg (va, n) = (pa div PAGE_SIZE, n)" by (simp add: kpg_def st)
    have "(va, n) \<notin> L"
    proof
      assume "(va, n) \<in> L"
      then have "blk (pa div PAGE_SIZE, n) \<inter> blk (pa div PAGE_SIZE, n) = {}"
        using o(3) image_eqI [of _ kpg] e by metis
      then show False using n(1) by (simp add: blk_def)
    qed
    moreover have "va mod PAGE_SIZE = 0 \<and> MIPS_KSEG0 \<le> va" using o(1) by (simp add: st mod_eq_0_iff_dvd)
    then have "kpages (insert (va, n) L) s'" using inv o(2) by (simp add: kpages_def st(1) e)
    ultimately show ?thesis by simp
  qed
  show "va = 0 \<Longrightarrow> kpages L s'"
  proof -
    assume va: "va = 0"
    have "pa = 0"
    proof (rule ccontr)
      assume pa: "pa \<noteq> 0"
      then have "pa + n * PAGE_SIZE \<le> lastpaddr t" "lastpaddr t \<le> 512 * 1024 * 1024"
        using ok [OF ai] by (simp_all add: alloc_inv_def)
      then show False using al g pa va by (simp add: alloc_kpages_def)
    qed
    then show ?thesis using ok [OF ai] al g inv by (simp add: alloc_kpages_def)
  qed
next
  fix L s va n
  assume inv: "kpages L s" and b: "(va, n) \<in> L"
  have va: "va mod PAGE_SIZE = 0" "MIPS_KSEG0 \<le> va" using inv b by (auto simp: kpages_def)
  have a: "fst (kpg (va, n)) * PAGE_SIZE + MIPS_KSEG0 = va" using kpg_addr [of "(va, n)"] va by simp
  have ai: "alloc_inv (kpg ` L) s" and m: "(fst (kpg (va, n)), n) \<in> kpg ` L"
    using inv b by (auto simp: kpages_def kpg_def image_iff intro!: bexI [of _ "(va, n)"])
  have im: "kpg ` (L - {(va, n)}) = kpg ` L - {(fst (kpg (va, n)), n)}"
    using kpg_inj [OF inv _ b] by (force simp: kpg_def)
  show "\<exists>s'. free_kpages va s = Done s' \<and> kpages (L - {(va, n)}) s'"
    using free_kpages_ok [OF ai m] inv unfolding a kpages_def im by blast
  show "va mod PAGE_SIZE = 0 \<and> MIPS_KSEG0 \<le> va \<and> 0 < n \<and> va + n * PAGE_SIZE \<le> 0xa0000000"
  proof -
    have l: "0 < n" "fst (kpg (va, n)) + n \<le> firstpaddr s div PAGE_SIZE" using alloc_inv_live [OF ai m] by simp_all
    have "(fst (kpg (va, n)) + n) * PAGE_SIZE \<le> 131072 * PAGE_SIZE"
      using l(2) alloc_inv_bound [OF ai] by (intro mult_le_mono1) linarith
    then show ?thesis using va l(1) a by (simp add: distrib_right)
  qed
next
  fix L s b c
  assume inv: "kpages L s" and bc: "b \<in> L" "c \<in> L" "b \<noteq> c"
  then have ne: "kpg b \<noteq> kpg c" using kpg_inj by blast
  have "blk (kpg b) \<inter> blk (kpg c) = {}" using inv bc ne by (auto simp: kpages_def alloc_inv_def)
  moreover have "\<And>a. a \<in> span b \<Longrightarrow> (a - MIPS_KSEG0) div PAGE_SIZE \<in> blk (kpg b)"
    "\<And>a. a \<in> span c \<Longrightarrow> (a - MIPS_KSEG0) div PAGE_SIZE \<in> blk (kpg c)"
    using span_kpg inv bc by (auto simp: kpages_def)
  ultimately show "span b \<inter> span c = {}" by blast
qed

section \<open>Linked lists\<close>

primrec chain :: "(nat \<Rightarrow> nat) \<Rightarrow> nat \<Rightarrow> nat list \<Rightarrow> bool" where
  "chain nxt p [] \<longleftrightarrow> p = 0"
| "chain nxt p (x # xs) \<longleftrightarrow> p = x \<and> x \<noteq> 0 \<and> chain nxt (nxt x) xs"

lemma chain_cong: "(\<And>x. x \<in> set xs \<Longrightarrow> nxt x = nxt' x) \<Longrightarrow> chain nxt p xs \<longleftrightarrow> chain nxt' p xs"
  by (induction xs arbitrary: p) auto

lemma chain_nz: "chain nxt p xs \<Longrightarrow> 0 \<notin> set xs"
  by (induction xs arbitrary: p) auto

lemma chain_start: "chain nxt p xs \<Longrightarrow> p = (if xs = [] then 0 else hd xs)"
  by (cases xs) auto

lemma chain_remove:
  "chain nxt p (xs @ pr # ys) \<Longrightarrow> distinct (xs @ pr # ys) \<Longrightarrow> xs \<noteq> [] \<Longrightarrow>
   chain (nxt(last xs := nxt pr)) p (xs @ ys)"
proof (induction xs arbitrary: p)
  case (Cons x xs)
  show ?case
  proof (cases "xs = []")
    case True
    have "chain (nxt(x := nxt pr)) (nxt pr) ys"
      by (subst chain_cong [of ys _ nxt]) (use Cons.prems True in auto)
    then show ?thesis using Cons.prems True by (simp del: fun_upd_apply add: fun_upd_same)
  next
    case False
    then have "chain (nxt(last xs := nxt pr)) (nxt x) (xs @ ys)"
      using Cons.prems by (intro Cons.IH) auto
    moreover have "last xs \<noteq> x" using Cons.prems(2) last_in_set [OF False] by auto
    ultimately show ?thesis using Cons.prems False by (simp del: fun_upd_apply add: fun_upd_other)
  qed
qed simp

lemma unlink_from_chain:
  assumes "chain nxt (case guy of None \<Rightarrow> base | Some g \<Rightarrow> nxt g) (xs @ pr # ys)" "pr \<notin> set xs"
  shows "unlink_from base nxt guy pr = Some (
    if xs = [] then (case guy of None \<Rightarrow> (nxt pr, nxt) | Some g \<Rightarrow> (base, nxt(g := nxt pr)))
    else (base, nxt(last xs := nxt pr)))"
  using assms
proof (induction xs arbitrary: guy)
  case Nil
  then show ?case by (subst unlink_from.simps) (auto split: option.split)
next
  case (Cons x xs)
  then have x: "(case guy of None \<Rightarrow> base | Some g \<Rightarrow> nxt g) = x" "x \<noteq> 0" "x \<noteq> pr"
    "chain nxt (nxt x) (xs @ pr # ys)" by auto
  then have "unlink_from base nxt guy pr = unlink_from base nxt (Some x) pr"
    by (subst unlink_from.simps) (simp add: Let_def)
  then show ?case using Cons.IH [of "Some x"] x(4) Cons.prems(2) by simp
qed

lemma unlink_removes:
  assumes "chain nxt base (xs @ pr # ys)" "distinct (xs @ pr # ys)"
  obtains base' nxt' where "unlink_from base nxt None pr = Some (base', nxt')" "chain nxt' base' (xs @ ys)"
    "\<And>q. q \<notin> set xs \<Longrightarrow> nxt' q = nxt q"
proof (cases "xs = []")
  case True
  then show ?thesis using that unlink_from_chain [of nxt base None xs pr ys] assms by simp
next
  case False
  show ?thesis
  proof (rule that)
    show "unlink_from base nxt None pr = Some (base, nxt(last xs := nxt pr))"
      using unlink_from_chain [of nxt base None xs pr ys] assms False by simp
    show "chain (nxt(last xs := nxt pr)) base (xs @ ys)" by (rule chain_remove [OF assms False])
    show "(nxt(last xs := nxt pr)) q = nxt q" if "q \<notin> set xs" for q using last_in_set [OF False] that by auto
  qed
qed

lemma find_page_chain:
  assumes "chain (\<lambda>p. next_samesize (refs p)) p xs" "\<And>x. x \<in> set xs \<Longrightarrow> PR_BLOCKTYPE (refs x) = t"
  shows "find_page refs t p = Some (Done (case List.find (\<lambda>x. 0 < nfree (refs x)) xs of None \<Rightarrow> 0 | Some x \<Rightarrow> x))"
  using assms by (induction xs arbitrary: p) (simp_all add: find_page.simps)

lemma find_owner_chain:
  assumes "chain (\<lambda>p. next_all (refs p)) p xs" "\<And>x. x \<in> set xs \<Longrightarrow> PR_BLOCKTYPE (refs x) < NSIZES"
  shows "find_owner refs a p = Some (Done (case List.find (\<lambda>x. PR_PAGEADDR (refs x) \<le> a \<and>
    a < PR_PAGEADDR (refs x) + PAGE_SIZE) xs of None \<Rightarrow> 0 | Some x \<Rightarrow> x))"
  using assms by (induction xs arbitrary: p) (simp_all add: find_owner.simps)

section \<open>Reference slots\<close>

definition used_slots :: "kheap_root \<Rightarrow> nat set" where
  "used_slots root = {s. s < NPAGEREFS_PER_PAGE \<and> bit (kr_inuse root ! (s div 32)) (s mod 32)}"

definition root_ok :: "kheap_root \<Rightarrow> bool" where
  "root_ok root \<longleftrightarrow> length (kr_inuse root) = INUSE_WORDS \<and> kr_numinuse root = card (used_slots root)"

lemma finite_used [simp]: "finite (used_slots root)"
  by (simp add: used_slots_def)

lemmas bit_mask = push_bit_of_1 and_exp_eq_0_iff_not_bit

lemma free_bit_some: "free_bit w i = Some j \<Longrightarrow> j < 32 \<and> \<not> bit w j"
proof (induction w i rule: free_bit.induct)
  case (1 w i)
  show ?case
    using 1 free_bit.simps [of w i] by (auto simp: Let_def bit_mask split: if_splits)
qed

lemma free_bit_none: "free_bit w i = None \<Longrightarrow> i \<le> j \<Longrightarrow> j < 32 \<Longrightarrow> bit w j"
proof (induction w i rule: free_bit.induct)
  case (1 w i)
  then show ?case
    using free_bit.simps [of w i]
    by (cases "i = j") (auto simp: Let_def bit_mask split: if_splits)
qed

lemma word_full: "(\<And>j. j < 32 \<Longrightarrow> bit (w :: u32) j) \<Longrightarrow> w = 0xffffffff"
proof -
  assume "\<And>j. j < 32 \<Longrightarrow> bit w j"
  then have "w = - 1" by (intro bit_word_eqI) simp
  then show ?thesis by simp
qed

lemma full_bit: "j < 32 \<Longrightarrow> bit (0xffffffff :: u32) j"
proof -
  have "(0xffffffff :: u32) = - 1" by simp
  then show "j < 32 \<Longrightarrow> bit (0xffffffff :: u32) j" by (simp only: bit_minus_1_iff) simp
qed

lemma free_slot_spec:
  "\<exists>r. free_slot inuse i = Done r \<and> (case r of
     None \<Rightarrow> \<forall>a. i \<le> a \<and> a < INUSE_WORDS \<longrightarrow> inuse ! a = 0xffffffff
   | Some (a, j) \<Rightarrow> a < INUSE_WORDS \<and> j < 32 \<and> \<not> bit (inuse ! a) j)"
proof (induction inuse i rule: free_slot.induct)
  case (1 inuse i)
  consider "\<not> i < INUSE_WORDS" | "i < INUSE_WORDS" "inuse ! i = 0xffffffff" | "i < INUSE_WORDS" "inuse ! i \<noteq> 0xffffffff"
    by blast
  then show ?case
  proof cases
    case 1
    then show ?thesis by (auto simp: free_slot.simps [of inuse i])
  next
    case 2
    then obtain r where r: "free_slot inuse (Suc i) = Done r" "case r of
        None \<Rightarrow> \<forall>a. Suc i \<le> a \<and> a < INUSE_WORDS \<longrightarrow> inuse ! a = 0xffffffff
      | Some (a, j) \<Rightarrow> a < INUSE_WORDS \<and> j < 32 \<and> \<not> bit (inuse ! a) j"
      using "1.IH" by blast
    have "inuse ! a = 0xffffffff" if "r = None" "i \<le> a" "a < INUSE_WORDS" for a
      using r(2) 2(2) that by (cases "a = i") auto
    then show ?thesis using r 2 by (cases r) (auto simp: free_slot.simps [of inuse i])
  next
    case 3
    then obtain j where "free_bit (inuse ! i) 0 = Some j"
      using word_full free_bit_none [of "inuse ! i" 0] by (cases "free_bit (inuse ! i) 0") auto
    then show ?thesis using 3 free_bit_some by (simp add: free_slot.simps [of inuse i])
  qed
qed

lemma slot_eq: "j < 32 \<Longrightarrow> s div 32 = i \<and> s mod 32 = j \<longleftrightarrow> s = i * 32 + (j :: nat)"
  by (auto simp: div_mult_mod_eq)

lemma used_mark:
  assumes "length (kr_inuse root) = INUSE_WORDS" "i < INUSE_WORDS" "j < 32" "\<not> bit (kr_inuse root ! i) j"
  shows "used_slots (mark_slot i j root) = insert (i * 32 + j) (used_slots root)" "i * 32 + j \<notin> used_slots root"
proof -
  have b: "bit ((kr_inuse root)[i := or (kr_inuse root ! i) (push_bit j 1)] ! (s div 32)) (s mod 32) \<longleftrightarrow>
      s = i * 32 + j \<or> bit (kr_inuse root ! (s div 32)) (s mod 32)" if "s < 256" for s
  proof (cases "s div 32 = i")
    case True
    then show ?thesis using slot_eq [OF assms(3), of s i] assms(1,2)
      by (auto simp: bit_or_iff push_bit_of_1 bit_exp_iff)
  next
    case False
    then show ?thesis using slot_eq [OF assms(3), of s i] by auto
  qed
  have "i * 32 + j < 256" using assms(2,3) by simp
  then show "used_slots (mark_slot i j root) = insert (i * 32 + j) (used_slots root)"
    using b [simplified] by (auto simp: used_slots_def mark_slot_def simp del: div_mult_self1 div_mult_self2 mod_mult_self1)
  show "i * 32 + j \<notin> used_slots root" using assms(3,4) by (simp add: used_slots_def)
qed

lemma root_ok_mark:
  assumes "root_ok root" "i < INUSE_WORDS" "j < 32" "\<not> bit (kr_inuse root ! i) j"
  shows "root_ok (mark_slot i j root)"
  using assms used_mark [of root i j] by (simp add: root_ok_def) (simp add: mark_slot_def)

definition clear_slot :: "nat \<Rightarrow> kheap_root \<Rightarrow> kheap_root" where
  "clear_slot s root = root\<lparr>kr_inuse := (kr_inuse root)[s div 32 := and (kr_inuse root ! (s div 32)) (not (push_bit (s mod 32) 1))],
     kr_numinuse := kr_numinuse root - 1\<rparr>"

lemma used_clear:
  assumes "length (kr_inuse root) = INUSE_WORDS" "s < NPAGEREFS_PER_PAGE"
  shows "used_slots (clear_slot s root) = used_slots root - {s}"
proof -
  have "bit ((kr_inuse root)[s div 32 := and (kr_inuse root ! (s div 32)) (not (push_bit (s mod 32) 1))] ! (t div 32)) (t mod 32) \<longleftrightarrow>
      t \<noteq> s \<and> bit (kr_inuse root ! (t div 32)) (t mod 32)" if "t < 256" for t
  proof (cases "t div 32 = s div 32")
    case True
    then have "t mod 32 = s mod 32 \<longleftrightarrow> t = s" by (metis div_mult_mod_eq)
    then show ?thesis using True assms
      by (auto simp: bit_and_iff bit_not_iff push_bit_of_1 bit_exp_iff less_mult_imp_div_less)
  next
    case False
    then show ?thesis by auto
  qed
  then show ?thesis by (auto simp: used_slots_def clear_slot_def)
qed

lemma root_ok_clear:
  assumes "root_ok root" "s \<in> used_slots root"
  shows "root_ok (clear_slot s root)"
proof -
  have "s < NPAGEREFS_PER_PAGE" using assms(2) by (simp add: used_slots_def)
  then show ?thesis using assms used_clear [of root s] by (simp add: root_ok_def) (simp add: clear_slot_def)
qed

lemma find_root_spec:
  assumes "\<And>w. w < NUM_PAGEREFPAGES \<Longrightarrow> root_ok (roots ! w)"
  shows "\<exists>r. find_root roots v = Done r \<and> (case r of
     None \<Rightarrow> True
   | Some (w, i, j) \<Rightarrow> w < NUM_PAGEREFPAGES \<and> i < INUSE_WORDS \<and> j < 32 \<and> \<not> bit (kr_inuse (roots ! w) ! i) j \<and>
       (\<forall>u. v \<le> u \<and> u < w \<longrightarrow> kr_numinuse (roots ! u) \<ge> NPAGEREFS_PER_PAGE))"
  using assms
proof (induction roots v rule: find_root.induct)
  case (1 roots v)
  show ?case
  proof (cases "v < NUM_PAGEREFPAGES")
    case True
    show ?thesis
    proof (cases "kr_numinuse (roots ! v) \<ge> NPAGEREFS_PER_PAGE")
      case full: True
      have "find_root roots v = find_root roots (Suc v)" using True full by (simp add: find_root.simps [of roots v])
      moreover obtain r where r: "find_root roots (Suc v) = Done r" "case r of None \<Rightarrow> True
        | Some (w, i, j) \<Rightarrow> w < NUM_PAGEREFPAGES \<and> i < INUSE_WORDS \<and> j < 32 \<and> \<not> bit (kr_inuse (roots ! w) ! i) j \<and>
          (\<forall>u. Suc v \<le> u \<and> u < w \<longrightarrow> kr_numinuse (roots ! u) \<ge> NPAGEREFS_PER_PAGE)"
        using "1.IH"(1) [OF True full "1.prems"] by blast
      moreover have "kr_numinuse (roots ! u) \<ge> NPAGEREFS_PER_PAGE"
        if "r = Some (w, i, j)" "v \<le> u" "u < w" for w i j u
        using r(2) that full by (cases "u = v") auto
      ultimately show ?thesis by (cases r) auto
    next
      case False
      obtain r where r: "free_slot (kr_inuse (roots ! v)) 0 = Done r" "case r of
          None \<Rightarrow> \<forall>a. 0 \<le> a \<and> a < INUSE_WORDS \<longrightarrow> kr_inuse (roots ! v) ! a = 0xffffffff
        | Some (a, j) \<Rightarrow> a < INUSE_WORDS \<and> j < 32 \<and> \<not> bit (kr_inuse (roots ! v) ! a) j"
        using free_slot_spec by blast
      show ?thesis
      proof (cases r)
        case None
        then have "used_slots (roots ! v) = {..<256}"
          using r(2) full_bit by (auto simp: used_slots_def less_mult_imp_div_less)
        then show ?thesis using "1.prems" [OF True] False by (simp add: root_ok_def)
      next
        case (Some ij)
        then show ?thesis using True False r by (cases ij) (simp add: find_root.simps [of roots v])
      qed
    qed
  next
    case False
    then show ?thesis by (simp add: find_root.simps [of roots v])
  qed
qed

lemma freepageref_spec:
  assumes roots: "length (kh_roots h) = NUM_PAGEREFPAGES" "w < NUM_PAGEREFPAGES" "root_ok (kh_roots h ! w)"
    and slot: "s \<in> used_slots (kh_roots h ! w)" "kr_page (kh_roots h ! w) \<noteq> 0"
      "p = kr_page (kh_roots h ! w) + 16 * s"
    and before: "\<And>u. u < w \<Longrightarrow> kr_page (kh_roots h ! u) \<noteq> 0 \<and>
      \<not> (kr_page (kh_roots h ! u) \<le> p \<and> p < kr_page (kh_roots h ! u) + PAGE_SIZE)"
  shows "freepageref p h = Done (upd_root w (clear_slot s) h)"
proof -
  have "freepageref_from v p h = Done (upd_root w (clear_slot s) h)" if "v \<le> w" for v
    using that
  proof (induction rule: inc_induct)
    case base
    have s: "s < 256" "bit (kr_inuse (kh_roots h ! w) ! (s div 32)) (s mod 32)"
      using slot(1) by (auto simp: used_slots_def)
    have "kr_numinuse (kh_roots h ! w) \<noteq> 0" using roots(3) slot(1) by (auto simp: root_ok_def)
    then show ?case
      using roots slot(2,3) s
      by (simp add: freepageref_from.simps [of w] Let_def bit_mask upd_root_def clear_slot_def)
  next
    case (step v)
    have "\<not> (0 \<le> (int p - int (kr_page (kh_roots h ! v))) div 16 \<and>
        (int p - int (kr_page (kh_roots h ! v))) div 16 < int NPAGEREFS_PER_PAGE)"
      using before [of v] step(2) by linarith
    then show ?case
      using step roots(2) before [of v] by (auto simp: freepageref_from.simps [of v] Let_def)
  qed
  then show ?thesis by (simp add: freepageref_def)
qed

section \<open>The blocks of a page\<close>

lemma sizes_pow: "t < NSIZES \<Longrightarrow> sizes ! t = 2 ^ (t + 4)"
proof -
  assume "t < NSIZES"
  then have "t \<in> set [0..<8]" by simp
  then show ?thesis by (simp add: sizes_def upt_rec) (elim disjE; simp)
qed

lemma sizes_facts:
  assumes "t < NSIZES"
  shows "16 \<le> sizes ! t" "sizes ! t \<le> 2048" "sizes ! t dvd PAGE_SIZE" "16 dvd sizes ! t"
    "2 \<le> PAGE_SIZE div sizes ! t" "PAGE_SIZE div sizes ! t \<le> 256" "PAGE_SIZE div sizes ! t * sizes ! t = PAGE_SIZE"
    "0 < sizes ! t"
proof -
  have "t \<in> set [0..<8]" using assms by simp
  then show "16 \<le> sizes ! t" "sizes ! t \<le> 2048" "sizes ! t dvd PAGE_SIZE" "16 dvd sizes ! t"
    "2 \<le> PAGE_SIZE div sizes ! t" "PAGE_SIZE div sizes ! t \<le> 256" "PAGE_SIZE div sizes ! t * sizes ! t = PAGE_SIZE"
    "0 < sizes ! t"
    by (simp_all add: sizes_def upt_rec) (elim disjE; simp)+
qed

definition page_blocks :: "nat \<Rightarrow> nat \<Rightarrow> nat set" where
  "page_blocks pa t = (\<lambda>i. pa + i * sizes ! t) ` {..<PAGE_SIZE div sizes ! t}"

lemma page_blocks_range:
  assumes "t < NSIZES" "b \<in> page_blocks pa t"
  shows "pa \<le> b" "b + sizes ! t \<le> pa + PAGE_SIZE" "b < pa + PAGE_SIZE"
proof -
  obtain i where i: "b = pa + i * sizes ! t" "Suc i \<le> PAGE_SIZE div sizes ! t"
    using assms(2) by (fastforce simp: page_blocks_def Suc_le_eq)
  have "Suc i * sizes ! t \<le> PAGE_SIZE"
    using mult_le_mono1 [OF i(2), of "sizes ! t"] sizes_facts(7) [OF assms(1)] by simp
  then show "pa \<le> b" "b + sizes ! t \<le> pa + PAGE_SIZE" using i(1) by simp_all
  then show "b < pa + PAGE_SIZE" using sizes_facts(8) [OF assms(1)] by simp
qed

lemma page_blocks_apart:
  assumes "t < NSIZES" "b \<in> page_blocks pa t" "c \<in> page_blocks pa t" "b \<noteq> c"
  shows "b + sizes ! t \<le> c \<or> c + sizes ! t \<le> b"
proof -
  obtain i j where i: "b = pa + i * sizes ! t" and j: "c = pa + j * sizes ! t"
    using assms(2,3) by (auto simp: page_blocks_def)
  have "Suc i \<le> j \<or> Suc j \<le> i" using assms(4) i j by (metis not_less_eq_eq le_antisym)
  then have "Suc i * sizes ! t \<le> j * sizes ! t \<or> Suc j * sizes ! t \<le> i * sizes ! t" by (metis mult_le_mono1)
  then show ?thesis using i j by (auto simp: add.commute)
qed

lemma page_blocks_mod:
  assumes "t < NSIZES" "pa \<le> a" "a < pa + PAGE_SIZE"
  shows "a \<in> page_blocks pa t \<longleftrightarrow> (a - pa) mod sizes ! t = 0"
proof
  assume "(a - pa) mod sizes ! t = 0"
  then have "a = pa + (a - pa) div sizes ! t * sizes ! t" using assms(2) by (simp add: mod_eq_0_iff_dvd)
  moreover have "a - pa < PAGE_SIZE div sizes ! t * sizes ! t" using assms sizes_facts(7) by simp
  then have "(a - pa) div sizes ! t < PAGE_SIZE div sizes ! t" by (rule less_mult_imp_div_less)
  ultimately show "a \<in> page_blocks pa t" unfolding page_blocks_def by blast
qed (auto simp: page_blocks_def)

lemma finite_page_blocks [simp]: "finite (page_blocks pa t)"
  by (simp add: page_blocks_def)

lemma card_page_blocks: "t < NSIZES \<Longrightarrow> card (page_blocks pa t) = PAGE_SIZE div sizes ! t"
  unfolding page_blocks_def using sizes_facts(8) [of t] by (subst card_image) (auto simp: inj_on_def)

text \<open>The free list of a page: \<open>fs\<close> are the free blocks, in the order of the list.\<close>

definition ref_ok :: "(nat \<Rightarrow> nat) \<Rightarrow> pageref \<Rightarrow> nat list \<Rightarrow> bool" where
  "ref_ok mem r fs \<longleftrightarrow> PR_BLOCKTYPE r < NSIZES \<and> chain mem (if fs = [] then 0 else hd fs) fs \<and> distinct fs \<and>
     set fs \<subseteq> page_blocks (PR_PAGEADDR r) (PR_BLOCKTYPE r) \<and> nfree r = length fs \<and>
     freelist_offset r = (if fs = [] then INVALID_OFFSET else hd fs - PR_PAGEADDR r)"

lemma ref_ok_length: "ref_ok mem r fs \<Longrightarrow> length fs \<le> PAGE_SIZE div sizes ! PR_BLOCKTYPE r"
  using card_mono [OF finite_page_blocks, of "set fs" "PR_PAGEADDR r" "PR_BLOCKTYPE r"]
  by (simp add: ref_ok_def distinct_card card_page_blocks)

lemma ref_ok_mem:
  assumes "ref_ok mem r fs" "\<And>a. a \<in> set fs \<Longrightarrow> mem' a = mem a"
  shows "ref_ok mem' r fs"
  using assms chain_cong [of fs mem' mem] by (simp add: ref_ok_def)

lemma PR_of_MKPAB:
  assumes "pa mod PAGE_SIZE = 0" "t < PAGE_SIZE"
  shows "page_frame (MKPAB pa t) = pa" "MKPAB pa t mod PAGE_SIZE = t"
proof -
  have q: "pa div PAGE_SIZE * PAGE_SIZE = pa" using assms(1) by (simp add: mod_eq_0_iff_dvd)
  then have e: "MKPAB pa t = pa + t" using assms(2) by (simp add: MKPAB_def page_frame_def)
  have "(pa div PAGE_SIZE * PAGE_SIZE + t) div PAGE_SIZE = pa div PAGE_SIZE"
    "(pa div PAGE_SIZE * PAGE_SIZE + t) mod PAGE_SIZE = t" using assms(2) by simp_all
  then show "page_frame (MKPAB pa t) = pa" "MKPAB pa t mod PAGE_SIZE = t"
    unfolding e page_frame_def q by (simp_all add: q)
qed

text \<open>Taking the first block off the free list.\<close>

definition take_free :: "pageref \<Rightarrow> nat list \<Rightarrow> pageref" where
  "take_free r fs = r\<lparr>nfree := length fs, freelist_offset := (if fs = [] then INVALID_OFFSET else hd fs - PR_PAGEADDR r)\<rparr>"

lemma take_free_simps [simp]:
  "PR_PAGEADDR (take_free r fs) = PR_PAGEADDR r" "PR_BLOCKTYPE (take_free r fs) = PR_BLOCKTYPE r"
  "next_all (take_free r fs) = next_all r" "next_samesize (take_free r fs) = next_samesize r"
  by (simp_all add: take_free_def PR_PAGEADDR_def PR_BLOCKTYPE_def)

lemma doalloc_run:
  assumes "ref_ok (kh_mem h) (kh_refs h pr) (b # fs)"
  shows "doalloc pr h = Done (h\<lparr>kh_refs := (kh_refs h)(pr := take_free (kh_refs h pr) fs)\<rparr>, Ret b)"
    "ref_ok (kh_mem h) (take_free (kh_refs h pr) fs) fs"
proof -
  let ?r = "kh_refs h pr" and ?pa = "PR_PAGEADDR (kh_refs h pr)"
  have t: "PR_BLOCKTYPE ?r < NSIZES" "nfree ?r = Suc (length fs)" "freelist_offset ?r = b - ?pa"
    "b \<in> page_blocks ?pa (PR_BLOCKTYPE ?r)" "set fs \<subseteq> page_blocks ?pa (PR_BLOCKTYPE ?r)" "b \<notin> set fs" "distinct fs"
    and c: "b \<noteq> 0" "chain (kh_mem h) (kh_mem h b) fs"
    using assms by (auto simp: ref_ok_def)
  note rb = page_blocks_range [OF t(1,4)]
  have n: "length fs < 256" using ref_ok_length [OF assms] sizes_facts(6) [OF t(1)] by simp
  have w: "(nfree ?r + 0xffff) mod 0x10000 = length fs" using n t(2) by simp
  have o: "b - ?pa < PAGE_SIZE" "?pa + (b - ?pa) = b" using rb by simp_all
  have m: "kh_mem h b = (if fs = [] then 0 else hd fs)" using chain_start [OF c(2)] .
  show "ref_ok (kh_mem h) (take_free ?r fs) fs"
    using t c(2) m by (simp add: ref_ok_def) (simp add: take_free_def)
  show "doalloc pr h = Done (h\<lparr>kh_refs := (kh_refs h)(pr := take_free ?r fs)\<rparr>, Ret b)"
  proof (cases fs)
    case Nil
    then show ?thesis using t(3) o m w by (simp add: doalloc_def Let_def take_free_def)
  next
    case (Cons c cs)
    then have "c \<in> page_blocks ?pa (PR_BLOCKTYPE ?r)" "c \<noteq> 0" using t(5) c(2) by auto
    then have "?pa \<le> c" "c - ?pa < PAGE_SIZE" "c \<noteq> 0" using page_blocks_range [OF t(1)] by fastforce+
    then show ?thesis using t(3) o m w Cons by (simp add: doalloc_def Let_def take_free_def)
  qed
qed

section \<open>The invariant\<close>

text \<open>
  \<open>ps\<close> are the pages of the heap in the order of the list of all pages, by the addresses of their references, and \<open>F\<close>
  gives the free blocks of each.
\<close>

definition lists_ok :: "kheap \<Rightarrow> nat list \<Rightarrow> bool" where
  "lists_ok h ps \<longleftrightarrow> chain (\<lambda>p. next_all (kh_refs h p)) (kh_allbase h) ps \<and> distinct ps \<and>
     length (kh_sizebases h) = NSIZES \<and>
     (\<forall>t<NSIZES. chain (\<lambda>p. next_samesize (kh_refs h p)) (kh_sizebases h ! t)
        (filter (\<lambda>p. PR_BLOCKTYPE (kh_refs h p) = t) ps))"

definition frees_ok :: "kheap \<Rightarrow> nat list \<Rightarrow> (nat \<Rightarrow> nat list) \<Rightarrow> bool" where
  "frees_ok h ps F \<longleftrightarrow> (\<forall>p\<in>set ps. ref_ok (kh_mem h) (kh_refs h p) (F p))"

definition busy_ok :: "kheap \<Rightarrow> nat list \<Rightarrow> (nat \<Rightarrow> nat list) \<Rightarrow> bool" where
  "busy_ok h ps F \<longleftrightarrow> (\<forall>p\<in>set ps. length (F p) < PAGE_SIZE div sizes ! PR_BLOCKTYPE (kh_refs h p))"

definition has_slot :: "kheap_root list \<Rightarrow> (nat \<times> nat) set \<Rightarrow> nat \<Rightarrow> bool" where
  "has_slot roots R p \<longleftrightarrow> (\<exists>w s. w < NUM_PAGEREFPAGES \<and> s \<in> used_slots (roots ! w) \<and> kr_page (roots ! w) \<noteq> 0 \<and>
     p = kr_page (roots ! w) + 16 * s \<and> (w, s) \<notin> R)"

lemma has_slot_mono: "has_slot roots R p \<Longrightarrow> R' \<subseteq> R \<Longrightarrow> has_slot roots R' p"
  by (auto simp: has_slot_def)

definition slots_ok :: "kheap \<Rightarrow> nat list \<Rightarrow> (nat \<times> nat) set \<Rightarrow> bool" where
  "slots_ok h ps R \<longleftrightarrow> length (kh_roots h) = NUM_PAGEREFPAGES \<and>
     (\<forall>w<NUM_PAGEREFPAGES. root_ok (kh_roots h ! w)) \<and>
     (\<forall>w<NUM_PAGEREFPAGES. \<forall>u<w. kr_page (kh_roots h ! u) = 0 \<longrightarrow> used_slots (kh_roots h ! w) = {}) \<and>
     (\<forall>p\<in>set ps. has_slot (kh_roots h) R p) \<and>
     (\<forall>(w, s)\<in>R. w < NUM_PAGEREFPAGES \<and> s \<in> used_slots (kh_roots h ! w))"

definition heap_pages :: "kheap \<Rightarrow> nat list \<Rightarrow> (nat \<times> nat) set" where
  "heap_pages h ps = (\<lambda>p. (PR_PAGEADDR (kh_refs h p), 1)) ` set ps"

definition root_pages :: "kheap \<Rightarrow> (nat \<times> nat) set" where
  "root_pages h = {(kr_page (kh_roots h ! w), 1) | w. w < NUM_PAGEREFPAGES \<and> kr_page (kh_roots h ! w) \<noteq> 0}"

definition space_ok :: "kheap \<Rightarrow> nat list \<Rightarrow> (nat \<times> nat) set \<Rightarrow> bool" where
  "space_ok h ps held \<longleftrightarrow> kpages (heap_pages h ps \<union> root_pages h \<union> held) (kh_vm h) \<and>
     heap_pages h ps \<inter> root_pages h = {} \<and> heap_pages h ps \<inter> held = {} \<and> root_pages h \<inter> held = {} \<and>
     inj_on (\<lambda>p. PR_PAGEADDR (kh_refs h p)) (set ps) \<and>
     (\<forall>w<NUM_PAGEREFPAGES. \<forall>u<w. kr_page (kh_roots h ! w) \<noteq> 0 \<longrightarrow> kr_page (kh_roots h ! u) \<noteq> kr_page (kh_roots h ! w))"

definition kinv0 :: "kheap \<Rightarrow> nat list \<Rightarrow> (nat \<Rightarrow> nat list) \<Rightarrow> (nat \<times> nat) set \<Rightarrow> (nat \<times> nat) set \<Rightarrow> bool" where
  "kinv0 h ps F held R \<longleftrightarrow> lists_ok h ps \<and> frees_ok h ps F \<and> slots_ok h ps R \<and> space_ok h ps held"

definition page_live :: "pageref \<Rightarrow> nat list \<Rightarrow> (nat \<times> nat) set" where
  "page_live r fs = (\<lambda>b. (b, sizes ! PR_BLOCKTYPE r)) ` (page_blocks (PR_PAGEADDR r) (PR_BLOCKTYPE r) - set fs)"

definition live_blocks :: "kheap \<Rightarrow> nat list \<Rightarrow> (nat \<Rightarrow> nat list) \<Rightarrow> (nat \<times> nat) set" where
  "live_blocks h ps F = (\<Union>p\<in>set ps. page_live (kh_refs h p) (F p))"

text \<open>The heap with the blocks \<open>A\<close> in use, each with the size of its pool.\<close>

definition kabs :: "kheap \<Rightarrow> (nat \<times> nat) set \<Rightarrow> (nat \<times> nat) set \<Rightarrow> (nat \<times> nat) set \<Rightarrow> bool" where
  "kabs h held R A \<longleftrightarrow> (\<exists>ps F. kinv0 h ps F held R \<and> busy_ok h ps F \<and> A = live_blocks h ps F)"

lemma kinv0D:
  assumes "kinv0 h ps F held R"
  shows "lists_ok h ps" "frees_ok h ps F" "slots_ok h ps R" "space_ok h ps held"
  using assms by (simp_all add: kinv0_def)

lemma heap_page_apart:
  assumes "space_ok h ps held" "p \<in> set ps" "q \<in> set ps" "p \<noteq> q"
  shows "span (PR_PAGEADDR (kh_refs h p), 1) \<inter> span (PR_PAGEADDR (kh_refs h q), 1) = {}"
proof (rule kp.apart)
  show "kpages (heap_pages h ps \<union> root_pages h \<union> held) (kh_vm h)" using assms(1) by (simp add: space_ok_def)
  show "(PR_PAGEADDR (kh_refs h p), 1) \<noteq> (PR_PAGEADDR (kh_refs h q), 1)"
    using assms by (auto simp: space_ok_def inj_on_def)
qed (use assms(2,3) in \<open>auto simp: heap_pages_def\<close>)

lemma held_apart:
  assumes "space_ok h ps held" "p \<in> set ps" "b \<in> held"
  shows "span (PR_PAGEADDR (kh_refs h p), 1) \<inter> span b = {}"
proof (rule kp.apart)
  show "kpages (heap_pages h ps \<union> root_pages h \<union> held) (kh_vm h)" using assms(1) by (simp add: space_ok_def)
  have p: "(PR_PAGEADDR (kh_refs h p), 1) \<in> heap_pages h ps" using assms(2) by (simp add: heap_pages_def)
  then show "(PR_PAGEADDR (kh_refs h p), 1) \<in> heap_pages h ps \<union> root_pages h \<union> held"
    "b \<in> heap_pages h ps \<union> root_pages h \<union> held" using assms(3) by blast+
  show "(PR_PAGEADDR (kh_refs h p), 1) \<noteq> b" using p assms(1,3) by (auto simp: space_ok_def)
qed

lemma block_in_span:
  assumes "t < NSIZES" "b \<in> page_blocks pa t" "b \<le> a" "a < b + sizes ! t"
  shows "a \<in> span (pa, 1)"
  using page_blocks_range [OF assms(1,2)] assms(3,4) by (auto simp: span_def)

lemma block_start_in_span:
  assumes "t < NSIZES" "b \<in> page_blocks pa t"
  shows "b \<in> span (pa, 1)"
  using block_in_span [OF assms, of b] sizes_facts(8) [OF assms(1)] by simp

definition same_link :: "pageref \<Rightarrow> pageref \<Rightarrow> bool" where
  "same_link r r' \<longleftrightarrow> next_all r' = next_all r \<and> next_samesize r' = next_samesize r \<and>
     pageaddr_and_blocktype r' = pageaddr_and_blocktype r"

lemma same_link_PR:
  assumes "same_link r r'"
  shows "PR_PAGEADDR r' = PR_PAGEADDR r" "PR_BLOCKTYPE r' = PR_BLOCKTYPE r"
  using assms by (simp_all add: same_link_def PR_PAGEADDR_def PR_BLOCKTYPE_def)

text \<open>A change of one page's reference and of memory on that page only.\<close>

definition upd_page :: "nat \<Rightarrow> (nat \<Rightarrow> nat) \<Rightarrow> pageref \<Rightarrow> kheap \<Rightarrow> kheap" where
  "upd_page p mem' r' h = h\<lparr>kh_mem := mem', kh_refs := (kh_refs h)(p := r')\<rparr>"

lemma upd_page_refs:
  assumes "same_link (kh_refs h p) r'"
  shows "next_all (kh_refs (upd_page p mem' r' h) q) = next_all (kh_refs h q)"
    "next_samesize (kh_refs (upd_page p mem' r' h) q) = next_samesize (kh_refs h q)"
    "PR_PAGEADDR (kh_refs (upd_page p mem' r' h) q) = PR_PAGEADDR (kh_refs h q)"
    "PR_BLOCKTYPE (kh_refs (upd_page p mem' r' h) q) = PR_BLOCKTYPE (kh_refs h q)"
  using assms same_link_PR [OF assms] by (simp_all add: upd_page_def same_link_def)

lemma upd_page_fields [simp]:
  "kh_vm (upd_page p mem' r' h) = kh_vm h" "kh_mem (upd_page p mem' r' h) = mem'"
  "kh_roots (upd_page p mem' r' h) = kh_roots h" "kh_sizebases (upd_page p mem' r' h) = kh_sizebases h"
  "kh_allbase (upd_page p mem' r' h) = kh_allbase h"
  "kh_refs (upd_page p mem' r' h) = (kh_refs h)(p := r')"
  by (simp_all add: upd_page_def)

lemma kinv0_page:
  assumes inv: "kinv0 h ps F held R" and p: "p \<in> set ps" and l: "same_link (kh_refs h p) r'"
    and r: "ref_ok mem' r' fs'"
    and m: "\<And>a. a \<notin> span (PR_PAGEADDR (kh_refs h p), 1) \<Longrightarrow> mem' a = kh_mem h a"
  shows "kinv0 (upd_page p mem' r' h) ps (F(p := fs')) held R"
proof -
  note u = upd_page_refs [OF l, of mem'] and i = kinv0D [OF inv]
  have "ref_ok mem' (kh_refs h q) (F q)" if "q \<in> set ps" "q \<noteq> p" for q
  proof (rule ref_ok_mem)
    show q: "ref_ok (kh_mem h) (kh_refs h q) (F q)" using i(2) that by (simp add: frees_ok_def)
    fix a assume "a \<in> set (F q)"
    then have "a \<in> span (PR_PAGEADDR (kh_refs h q), 1)"
      using q by (intro block_start_in_span) (auto simp: ref_ok_def)
    then have "a \<notin> span (PR_PAGEADDR (kh_refs h p), 1)" using heap_page_apart [OF i(4) that(1) p that(2)] by blast
    then show "mem' a = kh_mem h a" by (rule m)
  qed
  then have "frees_ok (upd_page p mem' r' h) ps (F(p := fs'))" using r by (simp add: frees_ok_def)
  moreover have "lists_ok (upd_page p mem' r' h) ps"
    using i(1) unfolding lists_ok_def u by (simp del: fun_upd_apply)
  moreover have "heap_pages (upd_page p mem' r' h) ps = heap_pages h ps" by (simp add: heap_pages_def u del: fun_upd_apply upd_page_fields)
  then have "space_ok (upd_page p mem' r' h) ps held"
    using i(4) unfolding space_ok_def u by (simp add: root_pages_def)
  ultimately show ?thesis using i(3) by (simp add: kinv0_def slots_ok_def)
qed

section \<open>Taking a block\<close>

lemma blocktype_ok:
  assumes "sz \<le> LARGEST_SUBPAGE_SIZE"
  obtains t where "blocktype sz = Done t" "t < NSIZES" "sz \<le> sizes ! t"
proof -
  have "List.find (\<lambda>i. sz \<le> sizes ! i) [0..<NSIZES] \<noteq> None"
    using assms by (simp add: find_None_iff sizes_def) (intro exI [of _ 7], simp)
  then obtain t where t: "List.find (\<lambda>i. sz \<le> sizes ! i) [0..<NSIZES] = Some t" by blast
  then have "t < NSIZES" "sz \<le> sizes ! t" by (auto simp: find_Some_iff)
  then show ?thesis using that [of t] t by (simp add: blocktype_def)
qed

lemma page_live_in_span:
  assumes "ref_ok mem r fs" "(b, s) \<in> page_live r fs'" "b \<le> a" "a < b + s"
  shows "a \<in> span (PR_PAGEADDR r, 1)"
  using assms block_in_span [of "PR_BLOCKTYPE r" b "PR_PAGEADDR r" a] by (auto simp: page_live_def ref_ok_def)

lemma page_live_pos: "ref_ok mem r fs \<Longrightarrow> (b, s) \<in> page_live r fs' \<Longrightarrow> 0 < s"
  using sizes_facts(8) by (auto simp: page_live_def ref_ok_def)

lemma page_of_block:
  assumes inv: "kinv0 h ps F held R" and pq: "p \<in> set ps" "q \<in> set ps"
    and b: "b \<in> page_blocks (PR_PAGEADDR (kh_refs h p)) (PR_BLOCKTYPE (kh_refs h p))"
    and q: "(c, s) \<in> page_live (kh_refs h q) fs" "c \<le> b" "b < c + s"
  shows "q = p"
proof (rule ccontr)
  assume ne: "q \<noteq> p"
  note i = kinv0D [OF inv]
  have rp: "ref_ok (kh_mem h) (kh_refs h p) (F p)" "ref_ok (kh_mem h) (kh_refs h q) (F q)"
    using i(2) pq by (simp_all add: frees_ok_def)
  have "b \<in> span (PR_PAGEADDR (kh_refs h p), 1)" using rp(1) by (intro block_start_in_span [OF _ b]) (simp add: ref_ok_def)
  moreover have "b \<in> span (PR_PAGEADDR (kh_refs h q), 1)" using page_live_in_span [OF rp(2) q] .
  ultimately show False using heap_page_apart [OF i(4) pq(2,1) ne] by blast
qed

lemma take_block:
  assumes inv: "kinv0 h ps F held R" and p: "p \<in> set ps" and F: "F p = b # fs"
    and busy: "\<And>q. q \<in> set ps \<Longrightarrow> q \<noteq> p \<Longrightarrow> length (F q) < PAGE_SIZE div sizes ! PR_BLOCKTYPE (kh_refs h q)"
  defines "s \<equiv> sizes ! PR_BLOCKTYPE (kh_refs h p)"
  shows "\<exists>h'. doalloc p h = Done (h', Ret b) \<and> kabs h' held R (insert (b, s) (live_blocks h ps F)) \<and>
    b \<notin> fst ` live_blocks h ps F \<and> b \<noteq> 0"
proof -
  let ?r = "take_free (kh_refs h p) fs" and ?F = "F(p := fs)"
  have rp: "ref_ok (kh_mem h) (kh_refs h p) (b # fs)" using kinv0D(2) [OF inv] p F by (metis frees_ok_def)
  note run = doalloc_run [OF rp]
  have l: "same_link (kh_refs h p) ?r" by (simp add: same_link_def take_free_def)
  define h' where "h' = upd_page p (kh_mem h) ?r h"
  have e: "doalloc p h = Done (h', Ret b)" using run(1) by (simp add: h'_def upd_page_def)
  have k: "kinv0 h' ps ?F held R" unfolding h'_def by (rule kinv0_page [OF inv p l run(2)]) simp
  have "busy_ok h' ps ?F"
    using busy ref_ok_length [OF rp] by (auto simp: busy_ok_def h'_def)
  moreover have bb: "b \<in> page_blocks (PR_PAGEADDR (kh_refs h p)) (PR_BLOCKTYPE (kh_refs h p))" "b \<notin> set fs"
    "b \<noteq> 0" using rp by (auto simp: ref_ok_def)
  have pl: "page_live ?r fs = insert (b, s) (page_live (kh_refs h p) (b # fs))"
    using bb by (auto simp: page_live_def s_def)
  have "live_blocks h' ps ?F = insert (b, s) (live_blocks h ps F)"
  proof -
    have "live_blocks h' ps ?F = (\<Union>q\<in>set ps. if q = p then insert (b, s) (page_live (kh_refs h p) (b # fs))
        else page_live (kh_refs h q) (F q))"
      unfolding live_blocks_def by (rule SUP_cong) (simp_all add: h'_def pl)
    also have "\<dots> = insert (b, s) (live_blocks h ps F)" using p by (auto simp: live_blocks_def F)
    finally show ?thesis .
  qed
  moreover have "b \<notin> fst ` live_blocks h ps F"
  proof
    assume "b \<in> fst ` live_blocks h ps F"
    then obtain q z where q: "q \<in> set ps" "(b, z) \<in> page_live (kh_refs h q) (F q)" by (auto simp: live_blocks_def)
    then have "0 < z" using kinv0D(2) [OF inv] page_live_pos by (auto simp: frees_ok_def)
    then have "q = p" using page_of_block [OF inv p q(1) bb(1) q(2)] by simp
    then show False using q(2) F by (auto simp: page_live_def)
  qed
  ultimately show ?thesis using e k bb(3) unfolding kabs_def by blast
qed

lemma lists_nz: "lists_ok h ps \<Longrightarrow> p \<in> set ps \<Longrightarrow> p \<noteq> 0"
  unfolding lists_ok_def using chain_nz by metis

lemma subpage_kmalloc_ok:
  assumes "kabs h held R A" "sz \<le> LARGEST_SUBPAGE_SIZE"
  shows "(\<exists>h' b s. subpage_kmalloc sz h = Done (h', Ret b) \<and> kabs h' held R (insert (b, s) A) \<and>
      b \<notin> fst ` A \<and> b \<noteq> 0 \<and> sz \<le> s) \<or>
    (\<exists>t. t < NSIZES \<and> sz \<le> sizes ! t \<and> subpage_kmalloc sz h = Done (h, Go (K_GetPage t)))"
proof -
  obtain ps F where k: "kinv0 h ps F held R" "busy_ok h ps F" "A = live_blocks h ps F"
    using assms(1) by (auto simp: kabs_def)
  obtain t where t: "blocktype sz = Done t" "t < NSIZES" "sz \<le> sizes ! t" using blocktype_ok [OF assms(2)] .
  note i = kinv0D [OF k(1)]
  let ?qs = "filter (\<lambda>p. PR_BLOCKTYPE (kh_refs h p) = t) ps"
  have fp: "find_page (kh_refs h) t (kh_sizebases h ! t) =
      Some (Done (case List.find (\<lambda>x. 0 < nfree (kh_refs h x)) ?qs of None \<Rightarrow> 0 | Some x \<Rightarrow> x))"
    by (rule find_page_chain) (use i(1) t(2) in \<open>auto simp: lists_ok_def\<close>)
  show ?thesis
  proof (cases "List.find (\<lambda>x. 0 < nfree (kh_refs h x)) ?qs")
    case None
    then show ?thesis using fp t by (simp add: subpage_kmalloc_def returns_def)
  next
    case (Some p)
    then have p: "p \<in> set ps" "PR_BLOCKTYPE (kh_refs h p) = t" "0 < nfree (kh_refs h p)"
      by (auto simp: find_Some_iff dest!: nth_mem)
    have "p \<noteq> 0" using lists_nz [OF i(1) p(1)] .
    moreover have "nfree (kh_refs h p) = length (F p)" using i(2) p(1) by (simp add: frees_ok_def ref_ok_def)
    then obtain b fs where "F p = b # fs" using p(3) by (cases "F p") auto
    ultimately show ?thesis
      using take_block [OF k(1) p(1), of b fs] k(2,3) fp Some t p(2)
      by (auto simp: subpage_kmalloc_def returns_def busy_ok_def)
  qed
qed

section \<open>A new page\<close>

lemma chain_blocks_run:
  assumes "0 < z"
  shows "\<exists>mem'. chain_blocks z fla n mem = Done mem' \<and>
    (\<forall>i\<le>n. mem' (fla + i * z) = (if i = 0 then 0 else fla + (i - 1) * z)) \<and>
    (\<forall>a. (\<forall>i\<le>n. a \<noteq> fla + i * z) \<longrightarrow> mem' a = mem a)"
proof (induction n)
  case (Suc n)
  then obtain m where m: "chain_blocks z fla n mem = Done m"
    "\<forall>i\<le>n. m (fla + i * z) = (if i = 0 then 0 else fla + (i - 1) * z)"
    "\<forall>a. (\<forall>i\<le>n. a \<noteq> fla + i * z) \<longrightarrow> m a = mem a" by blast
  let ?m = "m(fla + Suc n * z := fla + n * z)"
  have "chain_blocks z fla (Suc n) mem = Done ?m" using m(1) assms by (simp add: Let_def)
  moreover have "?m (fla + i * z) = (if i = 0 then 0 else fla + (i - 1) * z)" if "i \<le> Suc n" for i
  proof (cases "i = Suc n")
    case False
    then have "fla + i * z \<noteq> fla + Suc n * z" using assms by (simp only: add_left_cancel mult_cancel2) simp
    then show ?thesis using m(2) that False by simp
  qed simp
  moreover have "?m a = mem a" if "\<forall>i\<le>Suc n. a \<noteq> fla + i * z" for a
    using m(3) that by auto
  ultimately show ?case by blast
qed simp

lemma chain_new:
  assumes "fla \<noteq> 0" "\<forall>i\<le>n. mem (fla + i * z) = (if i = 0 then 0 else fla + (i - 1) * z)"
  shows "chain mem (fla + n * z) (map (\<lambda>i. fla + i * z) (rev [0..<Suc n]))"
  using assms(2)
proof (induction n)
  case 0
  then show ?case using assms(1) by simp
next
  case (Suc n)
  have "chain mem (fla + n * z) (map (\<lambda>i. fla + i * z) (rev [0..<Suc n]))" using Suc by simp
  moreover have "mem (fla + Suc n * z) = fla + n * z" using spec [OF Suc.prems, of "Suc n"] by simp
  moreover have "rev [0..<Suc (Suc n)] = Suc n # rev [0..<Suc n]" by simp
  ultimately show ?case using assms(1) by simp
qed

lemma root_page_in: "w < NUM_PAGEREFPAGES \<Longrightarrow> kr_page (kh_roots h ! w) \<noteq> 0 \<Longrightarrow> (kr_page (kh_roots h ! w), 1) \<in> root_pages h"
  by (auto simp: root_pages_def)

lemma root_page_apart:
  assumes "space_ok h ps held" "w < NUM_PAGEREFPAGES" "u < NUM_PAGEREFPAGES" "w \<noteq> u"
    "kr_page (kh_roots h ! w) \<noteq> 0" "kr_page (kh_roots h ! u) \<noteq> 0"
  shows "span (kr_page (kh_roots h ! w), 1) \<inter> span (kr_page (kh_roots h ! u), 1) = {}"
proof (rule kp.apart)
  show "kpages (heap_pages h ps \<union> root_pages h \<union> held) (kh_vm h)" using assms(1) by (simp add: space_ok_def)
  have "kr_page (kh_roots h ! w) \<noteq> kr_page (kh_roots h ! u)"
    using assms unfolding space_ok_def by (metis nat_neq_iff)
  then show "(kr_page (kh_roots h ! w), 1) \<noteq> (kr_page (kh_roots h ! u), 1)" by simp
qed (use assms root_page_in in auto)

lemma used_bound: "s \<in> used_slots root \<Longrightarrow> s < NPAGEREFS_PER_PAGE"
  by (simp add: used_slots_def)

lemma slot_unique:
  assumes "space_ok h ps held" "w < NUM_PAGEREFPAGES" "u < NUM_PAGEREFPAGES"
    "kr_page (kh_roots h ! w) \<noteq> 0" "kr_page (kh_roots h ! u) \<noteq> 0"
    "s \<in> used_slots (kh_roots h ! w)" "v \<in> used_slots (kh_roots h ! u)"
    "kr_page (kh_roots h ! w) + 16 * s = kr_page (kh_roots h ! u) + 16 * v"
  shows "w = u" "s = v"
proof -
  have "kr_page (kh_roots h ! w) + 16 * s \<in> span (kr_page (kh_roots h ! w), 1) \<inter> span (kr_page (kh_roots h ! u), 1)"
    using used_bound [OF assms(6)] used_bound [OF assms(7)] assms(8) by (simp add: span_def)
  then show "w = u" using root_page_apart [OF assms(1-3) _ assms(4,5)] by blast
  then show "s = v" using assms(8) by simp
qed

definition fresh_page :: "nat \<Rightarrow> nat \<Rightarrow> nat \<Rightarrow> (nat \<Rightarrow> nat) \<Rightarrow> kheap \<Rightarrow> kheap" where
  "fresh_page t prpage pr mem h = h\<lparr>kh_mem := mem,
     kh_refs := (kh_refs h)(pr := \<lparr>next_samesize = kh_sizebases h ! t, next_all = kh_allbase h,
       pageaddr_and_blocktype = MKPAB prpage t, freelist_offset = (PAGE_SIZE div sizes ! t - 1) * sizes ! t,
       nfree = PAGE_SIZE div sizes ! t\<rparr>),
     kh_sizebases := (kh_sizebases h)[t := pr], kh_allbase := pr\<rparr>"

lemma fresh_lists:
  assumes "lists_ok h ps" "pr \<notin> set ps" "pr \<noteq> 0" "t < NSIZES" "prpage mod PAGE_SIZE = 0"
  shows "lists_ok (fresh_page t prpage pr mem h) (pr # ps)"
proof -
  let ?h = "fresh_page t prpage pr mem h"
  have ty: "PR_BLOCKTYPE (kh_refs ?h pr) = t" using PR_of_MKPAB [OF assms(5), of t] assms(4)
    by (simp add: fresh_page_def PR_BLOCKTYPE_def)
  have other: "kh_refs ?h p = kh_refs h p" if "p \<in> set ps" for p
    using that assms(2) by (auto simp: fresh_page_def)
  have "chain (\<lambda>p. next_all (kh_refs ?h p)) (kh_allbase h) ps"
    by (subst chain_cong [of ps _ "\<lambda>p. next_all (kh_refs h p)"]) (use assms(1) other in \<open>auto simp: lists_ok_def\<close>)
  then have all: "chain (\<lambda>p. next_all (kh_refs ?h p)) pr (pr # ps)" using assms(3) by (simp add: fresh_page_def)
  have fl: "filter (\<lambda>p. PR_BLOCKTYPE (kh_refs ?h p) = v) ps = filter (\<lambda>p. PR_BLOCKTYPE (kh_refs h p) = v) ps" for v
    by (rule filter_cong) (use other in auto)
  have one: "chain (\<lambda>p. next_samesize (kh_refs ?h p)) (kh_sizebases h ! v) (filter (\<lambda>p. PR_BLOCKTYPE (kh_refs ?h p) = v) ps)"
    if "v < NSIZES" for v unfolding fl
    by (subst chain_cong [of _ _ "\<lambda>p. next_samesize (kh_refs h p)"]) (use assms(1) that other in \<open>auto simp: lists_ok_def\<close>)
  have "chain (\<lambda>p. next_samesize (kh_refs ?h p)) (kh_sizebases ?h ! v) (filter (\<lambda>p. PR_BLOCKTYPE (kh_refs ?h p) = v) (pr # ps))"
    if "v < NSIZES" for v
  proof (cases "v = t")
    case True
    have "next_samesize (kh_refs ?h pr) = kh_sizebases h ! t" "kh_sizebases ?h ! t = pr"
      using assms(1,4) by (simp_all add: fresh_page_def lists_ok_def)
    then show ?thesis using True one [OF assms(4)] ty assms(3) by simp
  next
    case False
    then have "kh_sizebases ?h ! v = kh_sizebases h ! v" by (simp add: fresh_page_def)
    then show ?thesis using False one [OF that] ty by simp
  qed
  then show ?thesis using all assms(1,2) by (simp add: lists_ok_def) (simp add: fresh_page_def)
qed

definition all_blocks :: "nat \<Rightarrow> nat \<Rightarrow> nat list" where
  "all_blocks pa t = map (\<lambda>i. pa + i * sizes ! t) (rev [0..<PAGE_SIZE div sizes ! t])"

lemma all_blocks_facts:
  assumes "t < NSIZES"
  shows "set (all_blocks pa t) = page_blocks pa t" "distinct (all_blocks pa t)"
    "length (all_blocks pa t) = PAGE_SIZE div sizes ! t"
    "\<exists>fs. all_blocks pa t = (pa + (PAGE_SIZE div sizes ! t - 1) * sizes ! t) # fs"
proof -
  have n: "PAGE_SIZE div sizes ! t = Suc (PAGE_SIZE div sizes ! t - 1)" using sizes_facts(5) [OF assms] by simp
  show "set (all_blocks pa t) = page_blocks pa t" by (auto simp: all_blocks_def page_blocks_def)
  show "distinct (all_blocks pa t)"
    using sizes_facts(8) [OF assms] by (auto simp: all_blocks_def distinct_map inj_on_def)
  show "length (all_blocks pa t) = PAGE_SIZE div sizes ! t" by (simp add: all_blocks_def)
  show "\<exists>fs. all_blocks pa t = (pa + (PAGE_SIZE div sizes ! t - 1) * sizes ! t) # fs"
    unfolding all_blocks_def by (subst n) simp
qed

lemma fresh_kinv0:
  assumes inv: "kinv0 h ps F held R" and held: "(prpage, 1) \<in> held" and R: "(w, s) \<in> R"
    and w: "kr_page (kh_roots h ! w) \<noteq> 0" and pr: "pr = kr_page (kh_roots h ! w) + 16 * s" and t: "t < NSIZES"
    and mem: "chain mem (prpage + (PAGE_SIZE div sizes ! t - 1) * sizes ! t) (all_blocks prpage t)"
      "\<forall>a. a \<notin> span (prpage, 1) \<longrightarrow> mem a = kh_mem h a"
  shows "kinv0 (fresh_page t prpage pr mem h) (pr # ps) (F(pr := all_blocks prpage t)) (held - {(prpage, 1)}) (R - {(w, s)})"
    "pr \<notin> set ps" "PR_BLOCKTYPE (kh_refs (fresh_page t prpage pr mem h) pr) = t"
    "live_blocks (fresh_page t prpage pr mem h) (pr # ps) (F(pr := all_blocks prpage t)) = live_blocks h ps F"
proof -
  let ?h = "fresh_page t prpage pr mem h" and ?F = "F(pr := all_blocks prpage t)"
  note i = kinv0D [OF inv] and ab = all_blocks_facts [OF t, of prpage]
  have ws: "w < NUM_PAGEREFPAGES" "s \<in> used_slots (kh_roots h ! w)" using i(3) R by (auto simp: slots_ok_def)
  show new: "pr \<notin> set ps"
  proof
    assume "pr \<in> set ps"
    then obtain u v where u: "u < NUM_PAGEREFPAGES" "v \<in> used_slots (kh_roots h ! u)" "kr_page (kh_roots h ! u) \<noteq> 0"
      "pr = kr_page (kh_roots h ! u) + 16 * v" "(u, v) \<notin> R"
      using i(3) by (auto simp: slots_ok_def has_slot_def)
    then show False using slot_unique [OF i(4) ws(1) u(1) w u(3) ws(2) u(2)] pr R by simp
  qed
  have L: "kpages (heap_pages h ps \<union> root_pages h \<union> held) (kh_vm h)" using i(4) by (simp add: space_ok_def)
  have al: "prpage mod PAGE_SIZE = 0" "MIPS_KSEG0 \<le> prpage" using kp.place [OF L, of prpage 1] held by auto
  have PR: "PR_PAGEADDR (kh_refs ?h pr) = prpage" "PR_BLOCKTYPE (kh_refs ?h pr) = t"
    using PR_of_MKPAB [OF al(1), of t] t by (simp_all add: fresh_page_def PR_PAGEADDR_def PR_BLOCKTYPE_def)
  show "PR_BLOCKTYPE (kh_refs ?h pr) = t" by (rule PR(2))
  have other: "kh_refs ?h p = kh_refs h p" if "p \<in> set ps" for p using that new by (auto simp: fresh_page_def)
  have 1: "lists_ok ?h (pr # ps)" by (rule fresh_lists [OF i(1) new _ t al(1)]) (simp add: pr w)
  have 2: "frees_ok ?h (pr # ps) ?F"
  proof -
    have "ref_ok mem (kh_refs h q) (F q)" if q: "q \<in> set ps" for q
    proof (rule ref_ok_mem)
      show rq: "ref_ok (kh_mem h) (kh_refs h q) (F q)" using i(2) q by (simp add: frees_ok_def)
      fix a assume "a \<in> set (F q)"
      then have "a \<in> span (PR_PAGEADDR (kh_refs h q), 1)" using rq by (intro block_start_in_span) (auto simp: ref_ok_def)
      then show "mem a = kh_mem h a" using held_apart [OF i(4) q held] mem(2) by blast
    qed
    moreover have "ref_ok mem (kh_refs ?h pr) (all_blocks prpage t)"
      using mem(1) ab t PR by (auto simp: ref_ok_def) (simp_all add: fresh_page_def)
    ultimately show ?thesis using other new by (auto simp: frees_ok_def) (auto simp: fresh_page_def)
  qed
  have 3: "slots_ok ?h (pr # ps) (R - {(w, s)})"
  proof -
    have "has_slot (kh_roots h) (R - {(w, s)}) pr" using ws w pr by (auto simp: has_slot_def)
    moreover have "has_slot (kh_roots h) (R - {(w, s)}) p" if "p \<in> set ps" for p
      using i(3) that by (auto simp: slots_ok_def intro: has_slot_mono [of _ R])
    ultimately show ?thesis using i(3) by (auto simp: slots_ok_def fresh_page_def)
  qed
  have 4: "space_ok ?h (pr # ps) (held - {(prpage, 1)})"
  proof -
    have hp: "heap_pages ?h (pr # ps) = insert (prpage, 1) (heap_pages h ps)"
      using other PR(1) by (simp add: heap_pages_def)
    have rp: "root_pages ?h = root_pages h" by (simp add: root_pages_def fresh_page_def)
    have "heap_pages h ps \<inter> held = {}" using i(4) by (simp add: space_ok_def)
    then have "inj_on (\<lambda>p. PR_PAGEADDR (kh_refs ?h p)) (set (pr # ps))"
      using i(4) held PR(1) other by (auto simp: space_ok_def inj_on_def heap_pages_def)
    moreover have "insert (prpage, 1) (heap_pages h ps) \<union> root_pages h \<union> (held - {(prpage, 1)}) =
        heap_pages h ps \<union> root_pages h \<union> held" using held by blast
    moreover have "kh_vm ?h = kh_vm h" "kh_roots ?h = kh_roots h" by (simp_all add: fresh_page_def)
    ultimately show ?thesis using i(4) held unfolding space_ok_def hp rp by auto
  qed
  show "kinv0 ?h (pr # ps) ?F (held - {(prpage, 1)}) (R - {(w, s)})" using 1 2 3 4 by (simp add: kinv0_def)
  have "page_live (kh_refs ?h pr) (all_blocks prpage t) = {}" using ab(1) PR by (simp add: page_live_def)
  moreover have "page_live (kh_refs ?h p) (?F p) = page_live (kh_refs h p) (F p)" if "p \<in> set ps" for p
    using that other new by auto
  ultimately show "live_blocks ?h (pr # ps) ?F = live_blocks h ps F" by (simp add: live_blocks_def)
qed

lemma new_page_ok:
  assumes k: "kabs h held R A" and held: "(prpage, 1) \<in> held" and R: "(w, s) \<in> R"
    and w: "kr_page (kh_roots h ! w) \<noteq> 0" and t: "t < NSIZES"
  shows "\<exists>h' b. new_page t prpage (kr_page (kh_roots h ! w) + 16 * s) h = Done (h', Ret b) \<and>
    kabs h' (held - {(prpage, 1)}) (R - {(w, s)}) (insert (b, sizes ! t) A) \<and> b \<notin> fst ` A \<and> b \<noteq> 0"
proof -
  obtain ps F where k: "kinv0 h ps F held R" "busy_ok h ps F" "A = live_blocks h ps F"
    using k by (auto simp: kabs_def)
  let ?n = "PAGE_SIZE div sizes ! t" and ?pr = "kr_page (kh_roots h ! w) + 16 * s"
  note sf = sizes_facts [OF t]
  obtain mem where m: "chain_blocks (sizes ! t) prpage (?n - 1) (kh_mem h) = Done mem"
    "\<forall>i\<le>?n - 1. mem (prpage + i * sizes ! t) = (if i = 0 then 0 else prpage + (i - 1) * sizes ! t)"
    "\<forall>a. (\<forall>i\<le>?n - 1. a \<noteq> prpage + i * sizes ! t) \<longrightarrow> mem a = kh_mem h a"
    using chain_blocks_run [OF sf(8)] by blast
  have n: "Suc (?n - 1) = ?n" using sf(5) by simp
  have "kpages (heap_pages h ps \<union> root_pages h \<union> held) (kh_vm h)" using kinv0D(4) [OF k(1)] by (simp add: space_ok_def)
  then have "prpage \<noteq> 0" using kp.place held by fastforce
  then have ch: "chain mem (prpage + (?n - 1) * sizes ! t) (all_blocks prpage t)"
    using chain_new [OF _ m(2)] unfolding n all_blocks_def by blast
  have "prpage + i * sizes ! t \<in> span (prpage, 1)" if "i \<le> ?n - 1" for i
    by (rule block_start_in_span [OF t]) (use that n in \<open>auto simp: page_blocks_def\<close>)
  then have out: "\<forall>a. a \<notin> span (prpage, 1) \<longrightarrow> mem a = kh_mem h a" using m(3) by metis
  let ?h = "fresh_page t prpage ?pr mem h" and ?F = "F(?pr := all_blocks prpage t)"
  note fr = fresh_kinv0 [OF k(1) held R w refl t ch out]
  obtain fs where fs: "all_blocks prpage t = (prpage + (?n - 1) * sizes ! t) # fs" using all_blocks_facts(4) [OF t] by blast
  have "new_page t prpage ?pr h = doalloc ?pr ?h"
    using m(1) by (simp add: new_page_def Let_def fresh_page_def)
  moreover have "\<exists>h'. doalloc ?pr ?h = Done (h', Ret (prpage + (?n - 1) * sizes ! t)) \<and>
      kabs h' (held - {(prpage, 1)}) (R - {(w, s)}) (insert (prpage + (?n - 1) * sizes ! t, sizes ! PR_BLOCKTYPE (kh_refs ?h ?pr))
        (live_blocks ?h (?pr # ps) ?F)) \<and>
      prpage + (?n - 1) * sizes ! t \<notin> fst ` live_blocks ?h (?pr # ps) ?F \<and> prpage + (?n - 1) * sizes ! t \<noteq> 0"
  proof (rule take_block [OF fr(1)])
    show "?F ?pr = (prpage + (?n - 1) * sizes ! t) # fs" using fs by simp
    fix q assume "q \<in> set (?pr # ps)" "q \<noteq> ?pr"
    then show "length (?F q) < PAGE_SIZE div sizes ! PR_BLOCKTYPE (kh_refs ?h q)"
      using k(2) by (auto simp: busy_ok_def fresh_page_def)
  qed (rule list.set_intros(1))
  ultimately show ?thesis unfolding fr(3,4) k(3) by auto
qed

section \<open>Slots, root pages and whole pages\<close>

definition roots_open :: "kheap \<Rightarrow> bool" where
  "roots_open h \<longleftrightarrow> (\<forall>w<NUM_PAGEREFPAGES. kr_page (kh_roots h ! w) = 0 \<longrightarrow> kr_numinuse (kh_roots h ! w) < NPAGEREFS_PER_PAGE)"

lemma kabs_slots:
  assumes "kabs h held R A"
    and "\<And>ps. slots_ok h ps R \<Longrightarrow> space_ok h ps held \<Longrightarrow>
      slots_ok (h\<lparr>kh_roots := rs\<rparr>) ps R' \<and> space_ok (h\<lparr>kh_roots := rs\<rparr>) ps held'"
  shows "kabs (h\<lparr>kh_roots := rs\<rparr>) held' R' A"
proof -
  obtain ps F where k: "kinv0 h ps F held R" "busy_ok h ps F" "A = live_blocks h ps F"
    using assms(1) by (auto simp: kabs_def)
  have "kinv0 (h\<lparr>kh_roots := rs\<rparr>) ps F held' R'"
    using kinv0D [OF k(1)] assms(2) [of ps] by (simp add: kinv0_def lists_ok_def frees_ok_def)
  moreover have "busy_ok (h\<lparr>kh_roots := rs\<rparr>) ps F" using k(2) by (simp add: busy_ok_def)
  moreover have "A = live_blocks (h\<lparr>kh_roots := rs\<rparr>) ps F" using k(3) by (simp add: live_blocks_def)
  ultimately show ?thesis unfolding kabs_def by blast
qed

lemma kabs_mono: "kabs h held R A \<Longrightarrow> R' \<subseteq> R \<Longrightarrow> kabs h held R' A"
  using kabs_slots [of h held R A "kh_roots h" R' held] has_slot_mono [of "kh_roots h" R _ R']
  by (fastforce simp: slots_ok_def)

lemma kabs_roots:
  assumes "kabs h held R A"
  shows "length (kh_roots h) = NUM_PAGEREFPAGES" "w < NUM_PAGEREFPAGES \<Longrightarrow> root_ok (kh_roots h ! w)"
    "(w, s) \<in> R \<Longrightarrow> w < NUM_PAGEREFPAGES \<and> s \<in> used_slots (kh_roots h ! w)"
  using assms by (auto simp: kabs_def kinv0_def slots_ok_def)

lemma mark_ok:
  assumes k: "kabs h held R A" and ro: "roots_open h" and f: "find_root (kh_roots h) 0 = Done (Some (w, i, j))"
  shows "kabs (upd_root w (mark_slot i j) h) held (insert (w, i * 32 + j) R) A" "(w, i * 32 + j) \<notin> R"
    "w < NUM_PAGEREFPAGES"
proof -
  let ?s = "i * 32 + j" and ?r = "kh_roots h ! w"
  obtain r where "find_root (kh_roots h) 0 = Done r" "case r of None \<Rightarrow> True | Some (w, i, j) \<Rightarrow>
      w < NUM_PAGEREFPAGES \<and> i < INUSE_WORDS \<and> j < 32 \<and> \<not> bit (kr_inuse (kh_roots h ! w) ! i) j \<and>
      (\<forall>u. 0 \<le> u \<and> u < w \<longrightarrow> kr_numinuse (kh_roots h ! u) \<ge> NPAGEREFS_PER_PAGE)"
    using find_root_spec [of "kh_roots h" 0] kabs_roots(2) [OF k] by blast
  then have ij: "w < NUM_PAGEREFPAGES" "i < INUSE_WORDS" "j < 32" "\<not> bit (kr_inuse ?r ! i) j"
    and full: "\<forall>u<w. kr_numinuse (kh_roots h ! u) \<ge> NPAGEREFS_PER_PAGE" using f by auto
  note ok = kabs_roots(2) [OF k ij(1)]
  note um = used_mark [OF _ ij(2-4)] and rm = root_ok_mark [OF ok ij(2-4)]
  have len: "length (kr_inuse ?r) = INUSE_WORDS" "length (kh_roots h) = NUM_PAGEREFPAGES"
    using ok kabs_roots(1) [OF k] by (simp_all add: root_ok_def)
  have nz: "kr_page (kh_roots h ! u) \<noteq> 0" if "u < w" for u
  proof -
    have "u < NUM_PAGEREFPAGES" "\<not> kr_numinuse (kh_roots h ! u) < NPAGEREFS_PER_PAGE" using that ij(1) full by (simp_all add: not_less)
    then show ?thesis using ro by (auto simp: roots_open_def)
  qed
  show "w < NUM_PAGEREFPAGES" by (rule ij(1))
  show "(w, ?s) \<notin> R" using um(2) [OF len(1)] kabs_roots(3) [OF k] by blast
  define rs where "rs = (kh_roots h)[w := mark_slot i j ?r]"
  have rs: "kr_page (rs ! u) = kr_page (kh_roots h ! u)"
    "used_slots (rs ! u) = (if u = w then insert ?s (used_slots ?r) else used_slots (kh_roots h ! u))"
    "u < NUM_PAGEREFPAGES \<Longrightarrow> root_ok (rs ! u)" "length rs = NUM_PAGEREFPAGES" for u
    using um(1) [OF len(1)] ij(1) len(2) rm kabs_roots(2) [OF k, of u]
    by (auto simp: rs_def nth_list_update mark_slot_def)
  have "kabs (h\<lparr>kh_roots := rs\<rparr>) held (insert (w, ?s) R) A"
  proof (rule kabs_slots [OF k])
    fix ps
    assume s: "slots_ok h ps R" "space_ok h ps held"
    have "has_slot rs (insert (w, ?s) R) p" if "has_slot (kh_roots h) R p" for p
      using that um(2) [OF len(1)] unfolding has_slot_def rs by auto
    moreover have "used_slots (rs ! v) = {}" if "v < NUM_PAGEREFPAGES" "u < v" "kr_page (rs ! u) = 0" for u v
      using s(1) nz [of u] that unfolding rs slots_ok_def by (cases "v = w") auto
    ultimately have "slots_ok (h\<lparr>kh_roots := rs\<rparr>) ps (insert (w, ?s) R)"
      using s(1) rs ij(1) by (auto simp: slots_ok_def)
    moreover have "space_ok (h\<lparr>kh_roots := rs\<rparr>) ps held"
      using s(2) by (simp add: space_ok_def heap_pages_def root_pages_def rs(1))
    ultimately show "slots_ok (h\<lparr>kh_roots := rs\<rparr>) ps (insert (w, ?s) R) \<and> space_ok (h\<lparr>kh_roots := rs\<rparr>) ps held" by blast
  qed
  then show "kabs (upd_root w (mark_slot i j) h) held (insert (w, ?s) R) A" by (simp add: upd_root_def rs_def)
qed

lemma set_root_page_ok:
  assumes k: "kabs h held R A" and va: "(va, 1) \<in> held" and w: "w < NUM_PAGEREFPAGES" "kr_page (kh_roots h ! w) = 0"
  shows "kabs (upd_root w (\<lambda>root. root\<lparr>kr_page := va\<rparr>) h) (held - {(va, 1)}) R A" "va \<noteq> 0"
proof -
  define rs where "rs = (kh_roots h)[w := (kh_roots h ! w)\<lparr>kr_page := va\<rparr>]"
  obtain qs where "space_ok h qs held" using k by (auto simp: kabs_def kinv0_def)
  then show nz: "va \<noteq> 0" using kp.place [of _ "kh_vm h" va 1] va by (fastforce simp: space_ok_def)
  have rs: "kr_page (rs ! u) = (if u = w then va else kr_page (kh_roots h ! u))"
    "used_slots (rs ! u) = used_slots (kh_roots h ! u)"
    "u < NUM_PAGEREFPAGES \<Longrightarrow> root_ok (rs ! u)" "length rs = NUM_PAGEREFPAGES" for u
    using w(1) kabs_roots(1) [OF k] kabs_roots(2) [OF k, of u]
    by (auto simp: rs_def nth_list_update used_slots_def root_ok_def)
  have "kabs (h\<lparr>kh_roots := rs\<rparr>) (held - {(va, 1)}) R A"
  proof (rule kabs_slots [OF k])
    fix ps
    assume s: "slots_ok h ps R" "space_ok h ps held"
    have "has_slot rs R p" if hs: "has_slot (kh_roots h) R p" for p
    proof -
      obtain u v where u: "u < NUM_PAGEREFPAGES" "v \<in> used_slots (kh_roots h ! u)" "kr_page (kh_roots h ! u) \<noteq> 0"
        "p = kr_page (kh_roots h ! u) + 16 * v" "(u, v) \<notin> R" using hs by (auto simp: has_slot_def)
      then have "u \<noteq> w" using w(2) by blast
      then show ?thesis unfolding has_slot_def using u rs by metis
    qed
    moreover have "used_slots (rs ! v) = {}" if "v < NUM_PAGEREFPAGES" "u < v" "kr_page (rs ! u) = 0" for u v
      using s(1) that nz unfolding rs slots_ok_def by (auto split: if_splits)
    ultimately have 1: "slots_ok (h\<lparr>kh_roots := rs\<rparr>) ps R"
      using s(1) rs by (auto simp: slots_ok_def)
    have rp: "root_pages (h\<lparr>kh_roots := rs\<rparr>) = insert (va, 1) (root_pages h)"
      using w nz by (auto simp: root_pages_def rs) (metis less_numeral_extra(3))
    have hp: "heap_pages (h\<lparr>kh_roots := rs\<rparr>) ps = heap_pages h ps" by (simp add: heap_pages_def)
    have un: "heap_pages h ps \<union> insert (va, 1) (root_pages h) \<union> (held - {(va, 1)}) = heap_pages h ps \<union> root_pages h \<union> held"
      using va by blast
    have L: "kpages (heap_pages h ps \<union> root_pages h \<union> held) (kh_vm h)" "heap_pages h ps \<inter> root_pages h = {}"
      "heap_pages h ps \<inter> held = {}" "root_pages h \<inter> held = {}" "inj_on (\<lambda>p. PR_PAGEADDR (kh_refs h p)) (set ps)"
      "\<forall>w<NUM_PAGEREFPAGES. \<forall>u<w. kr_page (kh_roots h ! w) \<noteq> 0 \<longrightarrow> kr_page (kh_roots h ! u) \<noteq> kr_page (kh_roots h ! w)"
      using s(2) unfolding space_ok_def by blast+
    have ne: "kr_page (kh_roots h ! u) \<noteq> va" if "u < NUM_PAGEREFPAGES" for u
      using L(4) va nz root_page_in [OF that] by blast
    have "kr_page (rs ! u) \<noteq> kr_page (rs ! v)" if "v < NUM_PAGEREFPAGES" "u < v" "kr_page (rs ! v) \<noteq> 0" for u v
      using L(6) ne [of u] ne [of v] that w(1) by (cases "v = w"; cases "u = w") (simp_all add: rs)
    moreover have "heap_pages h ps \<inter> insert (va, 1) (root_pages h) = {}" "heap_pages h ps \<inter> (held - {(va, 1)}) = {}"
      "insert (va, 1) (root_pages h) \<inter> (held - {(va, 1)}) = {}" using L(2-4) va by blast+
    ultimately have "space_ok (h\<lparr>kh_roots := rs\<rparr>) ps (held - {(va, 1)})"
      unfolding space_ok_def hp rp un using L(1,5) by simp
    then show "slots_ok (h\<lparr>kh_roots := rs\<rparr>) ps R \<and> space_ok (h\<lparr>kh_roots := rs\<rparr>) ps (held - {(va, 1)})" using 1 by blast
  qed
  then show "kabs (upd_root w (\<lambda>root. root\<lparr>kr_page := va\<rparr>) h) (held - {(va, 1)}) R A" by (simp add: upd_root_def rs_def)
qed

end
