(* ===== verification/Kmalloc_Free.thy ===== *)
theory Kmalloc_Free
  imports Kmalloc_Laws
begin

text \<open>
  The remaining sections of the kernel heap: pages from and to the page allocator, the references of new pages, and
  \<^verbatim>\<open>kfree\<close>.  The last section collects what one section does to the heap, whatever it is.
\<close>

section \<open>Pages in and out\<close>

lemma kabs_vmI:
  assumes k: "kinv0 h ps F held R" "busy_ok h ps F" "A = live_blocks h ps F"
    and L: "kpages (heap_pages h ps \<union> root_pages h \<union> held') vm" "heap_pages h ps \<inter> held' = {}" "root_pages h \<inter> held' = {}"
  shows "kabs (h\<lparr>kh_vm := vm\<rparr>) held' R A"
proof -
  have "heap_pages (h\<lparr>kh_vm := vm\<rparr>) ps = heap_pages h ps" "root_pages (h\<lparr>kh_vm := vm\<rparr>) = root_pages h"
    by (simp_all add: heap_pages_def root_pages_def)
  then have "space_ok (h\<lparr>kh_vm := vm\<rparr>) ps held'" using kinv0D(4) [OF k(1)] L by (simp add: space_ok_def)
  then have "kinv0 (h\<lparr>kh_vm := vm\<rparr>) ps F held' R"
    using kinv0D [OF k(1)] by (simp add: kinv0_def lists_ok_def frees_ok_def slots_ok_def)
  moreover have "busy_ok (h\<lparr>kh_vm := vm\<rparr>) ps F" using k(2) by (simp add: busy_ok_def)
  moreover have "A = live_blocks (h\<lparr>kh_vm := vm\<rparr>) ps F" using k(3) by (simp add: live_blocks_def)
  ultimately show ?thesis unfolding kabs_def by blast
qed

lemma get_pages_ok:
  assumes k: "kabs h held R A" and n: "0 < n" "n < 2 ^ 19" and g: "get_pages n h = (h', va)"
  shows "va = 0 \<Longrightarrow> kabs h' held R A"
    "va \<noteq> 0 \<Longrightarrow> kabs h' (insert (va, n) held) R A \<and> (va, n) \<notin> held \<and> va mod PAGE_SIZE = 0"
    "kh_roots h' = kh_roots h"
proof -
  obtain ps F where k: "kinv0 h ps F held R" "busy_ok h ps F" "A = live_blocks h ps F"
    using k by (auto simp: kabs_def)
  let ?L = "heap_pages h ps \<union> root_pages h \<union> held"
  have L: "kpages ?L (kh_vm h)" "heap_pages h ps \<inter> held = {}" "root_pages h \<inter> held = {}"
    using kinv0D(4) [OF k(1)] by (simp_all add: space_ok_def)
  obtain vm where vm: "alloc_kpages n (kh_vm h) = (vm, va)" "h' = h\<lparr>kh_vm := vm\<rparr>"
    using g by (auto simp: get_pages_def split: prod.splits)
  then show "kh_roots h' = kh_roots h" by simp
  show "kabs h' held R A" if "va = 0"
    unfolding vm(2) by (rule kabs_vmI [OF k kp.alloc_none [OF L(1) n vm(1) that] L(2,3)])
  show "kabs h' (insert (va, n) held) R A \<and> (va, n) \<notin> held \<and> va mod PAGE_SIZE = 0" if "va \<noteq> 0"
  proof -
    note a = kp.alloc_some [OF L(1) n vm(1) that]
    have "kabs h' (insert (va, n) held) R A"
      unfolding vm(2) by (rule kabs_vmI [OF k]) (use a L(2,3) in auto)
    then show ?thesis using a kp.place [of _ vm va n] by blast
  qed
qed

lemma put_pages_ok:
  assumes k: "kabs h held R A" and va: "(va, n) \<in> held"
  shows "\<exists>h'. put_pages va h = Done h' \<and> kabs h' (held - {(va, n)}) R A \<and> kh_roots h' = kh_roots h"
proof -
  obtain ps F where k: "kinv0 h ps F held R" "busy_ok h ps F" "A = live_blocks h ps F"
    using k by (auto simp: kabs_def)
  let ?L = "heap_pages h ps \<union> root_pages h \<union> held"
  have L: "kpages ?L (kh_vm h)" "heap_pages h ps \<inter> held = {}" "root_pages h \<inter> held = {}"
    using kinv0D(4) [OF k(1)] by (simp_all add: space_ok_def)
  obtain vm where vm: "free_kpages va (kh_vm h) = Done vm" "kpages (?L - {(va, n)}) vm"
    using kp.free_ok [OF L(1), of va n] va by blast
  have e: "?L - {(va, n)} = heap_pages h ps \<union> root_pages h \<union> (held - {(va, n)})" using L(2,3) va by blast
  have "kabs (h\<lparr>kh_vm := vm\<rparr>) (held - {(va, n)}) R A"
    by (rule kabs_vmI [OF k vm(2) [unfolded e]]) (use L(2,3) in blast)+
  then show ?thesis using vm(1) by (simp add: put_pages_def)
qed

section \<open>References for a new page\<close>

lemma ref_ready_ok:
  assumes k: "kabs h held R A" and held: "(prpage, 1) \<in> held" and R: "(w, i * 32 + j) \<in> R" and t: "t < NSIZES"
  shows "(kr_page (kh_roots h ! w) = 0 \<and> ref_ready t prpage w i j h = Done (h, Go (K_GiveUp prpage))) \<or>
    (\<exists>h' b. ref_ready t prpage w i j h = Done (h', Ret b) \<and>
      kabs h' (held - {(prpage, 1)}) (R - {(w, i * 32 + j)}) (insert (b, sizes ! t) A) \<and> b \<notin> fst ` A \<and> b \<noteq> 0)"
proof (cases "kr_page (kh_roots h ! w) = 0")
  case False
  then show ?thesis using new_page_ok [OF k held R False t] by (simp add: ref_ready_def ref_addr_def Let_def)
qed (simp add: ref_ready_def)

lemma allocpageref_ok:
  assumes k: "kabs h held R A" and ro: "roots_open h" and held: "(prpage, 1) \<in> held" and t: "t < NSIZES"
  shows "allocpageref t prpage h = Done (h, Go (K_GiveUp prpage)) \<or>
    (\<exists>h' w i j. allocpageref t prpage h = Done (h', Go (K_GetRefPage t prpage w i j)) \<and>
       kabs h' held (insert (w, i * 32 + j) R) A \<and> (w, i * 32 + j) \<notin> R) \<or>
    (\<exists>h' b. allocpageref t prpage h = Done (h', Ret b) \<and>
      kabs h' (held - {(prpage, 1)}) R (insert (b, sizes ! t) A) \<and> b \<notin> fst ` A \<and> b \<noteq> 0)"
proof -
  obtain r where r: "find_root (kh_roots h) 0 = Done r" using find_root_spec [of "kh_roots h" 0] kabs_roots(2) [OF k] by blast
  show ?thesis
  proof (cases r)
    case None
    then show ?thesis using r by (simp add: allocpageref_def)
  next
    case (Some wij)
    obtain w i j where s: "wij = (w, i, j)" by (cases wij)
    let ?h = "upd_root w (mark_slot i j) h" and ?R = "insert (w, i * 32 + j) R"
    note m = mark_ok [OF k ro, of w i j]
    have m: "kabs ?h held ?R A" "(w, i * 32 + j) \<notin> R" using m r Some s by simp_all
    show ?thesis
    proof (cases "kr_page (kh_roots ?h ! w) = 0")
      case True
      then show ?thesis using r Some s m by (auto simp: allocpageref_def Let_def)
    next
      case False
      have "?R - {(w, i * 32 + j)} = R" using m(2) by blast
      then show ?thesis using ref_ready_ok [OF m(1) held _ t, of w i j] False r Some s
        by (auto simp: allocpageref_def Let_def)
    qed
  qed
qed

lemma allocpagerefpage_ok:
  assumes k: "kabs h held R A" and held: "(prpage, 1) \<in> held" and R: "(w, i * 32 + j) \<in> R" and t: "t < NSIZES"
    and va: "va \<noteq> 0 \<longrightarrow> (va, 1) \<in> held \<and> va \<noteq> prpage \<and> va mod PAGE_SIZE = 0"
  defines "held' \<equiv> if va = 0 then held else held - {(va, 1)}"
  shows "(\<exists>h'. allocpagerefpage t prpage w i j va h = Done (h', Go (K_GiveUp prpage)) \<and> va = 0 \<and> h' = h) \<or>
    (allocpagerefpage t prpage w i j va h = Done (h, Go (K_FreeVa t prpage w i j va)) \<and> va \<noteq> 0 \<and> kr_page (kh_roots h ! w) \<noteq> 0) \<or>
    (\<exists>h' b. allocpagerefpage t prpage w i j va h = Done (h', Ret b) \<and>
      kabs h' (held' - {(prpage, 1)}) (R - {(w, i * 32 + j)}) (insert (b, sizes ! t) A) \<and> b \<notin> fst ` A \<and> b \<noteq> 0)"
proof (cases "va = 0")
  case True
  then show ?thesis using ref_ready_ok [OF k held R t] by (auto simp: allocpagerefpage_def held'_def)
next
  case False
  note v = mp [OF va False] and w = kabs_roots(3) [OF k R]
  show ?thesis
  proof (cases "kr_page (kh_roots h ! w) = 0")
    case True
    let ?h = "upd_root w (\<lambda>root. root\<lparr>kr_page := va\<rparr>) h"
    have k': "kabs ?h (held - {(va, 1)}) R A" using set_root_page_ok(1) [OF k _ _ True] v w by blast
    have "kr_page (kh_roots ?h ! w) = va" using w kabs_roots(1) [OF k] by (simp add: upd_root_def)
    then show ?thesis
      using ref_ready_ok [OF k' _ R t, of prpage] held v True False by (auto simp: allocpagerefpage_def held'_def)
  next
    case page: False
    then show ?thesis using v False by (simp add: allocpagerefpage_def)
  qed
qed

section \<open>Putting a block back\<close>

lemma find_unique:
  assumes "p \<in> set xs" "P p" "\<And>x. x \<in> set xs \<Longrightarrow> P x \<Longrightarrow> x = p"
  shows "List.find P xs = Some p"
proof (cases "List.find P xs")
  case None
  then show ?thesis using assms(1,2) by (simp add: find_None_iff)
next
  case (Some x)
  then have "x \<in> set xs" "P x" by (auto simp: find_Some_iff)
  then show ?thesis using assms(3) Some by blast
qed

lemma fill_deadbeef_out: "\<not> (ptr \<le> a \<and> a < ptr + 4 * n) \<Longrightarrow> fill_deadbeef ptr n mem a = mem a"
  by (induction n) auto

text \<open>The reference of a page when the block at \<open>b\<close> has been put in front of the free list.\<close>

definition put_free :: "pageref \<Rightarrow> nat \<Rightarrow> pageref" where
  "put_free r b = r\<lparr>freelist_offset := b - PR_PAGEADDR r, nfree := Suc (nfree r)\<rparr>"

definition put_mem :: "(nat \<Rightarrow> nat) \<Rightarrow> pageref \<Rightarrow> nat list \<Rightarrow> nat \<Rightarrow> nat \<Rightarrow> nat" where
  "put_mem mem r fs b = (fill_deadbeef b (sizes ! PR_BLOCKTYPE r div 4) mem)(b := if fs = [] then 0 else hd fs)"

lemma put_free_PR [simp]: "PR_PAGEADDR (put_free r b) = PR_PAGEADDR r" "PR_BLOCKTYPE (put_free r b) = PR_BLOCKTYPE r"
  by (simp_all add: put_free_def PR_PAGEADDR_def PR_BLOCKTYPE_def)

lemma put_mem_out:
  assumes "PR_BLOCKTYPE r < NSIZES" "\<not> (b \<le> a \<and> a < b + sizes ! PR_BLOCKTYPE r)"
  shows "put_mem mem r fs b a = mem a"
proof -
  have "4 * (sizes ! PR_BLOCKTYPE r div 4) \<le> sizes ! PR_BLOCKTYPE r" by simp
  then have "\<not> (b \<le> a \<and> a < b + 4 * (sizes ! PR_BLOCKTYPE r div 4))" using assms(2) by linarith
  moreover have "a \<noteq> b" using assms sizes_facts(8) by auto
  ultimately show ?thesis using fill_deadbeef_out by (simp add: put_mem_def)
qed

lemma put_ref_ok:
  assumes r: "ref_ok mem r fs" and b: "b \<in> page_blocks (PR_PAGEADDR r) (PR_BLOCKTYPE r)" "b \<notin> set fs" "b \<noteq> 0"
  shows "ref_ok (put_mem mem r fs b) (put_free r b) (b # fs)"
proof -
  have t: "PR_BLOCKTYPE r < NSIZES" "set fs \<subseteq> page_blocks (PR_PAGEADDR r) (PR_BLOCKTYPE r)"
    "chain mem (if fs = [] then 0 else hd fs) fs" using r by (simp_all add: ref_ok_def)
  have "put_mem mem r fs b c = mem c" if "c \<in> set fs" for c
  proof (rule put_mem_out [OF t(1)])
    have "c \<in> page_blocks (PR_PAGEADDR r) (PR_BLOCKTYPE r)" "c \<noteq> b" using that b(2) t(2) by auto
    then show "\<not> (b \<le> c \<and> c < b + sizes ! PR_BLOCKTYPE r)"
      using page_blocks_apart [OF t(1) b(1)] sizes_facts(8) [OF t(1)] by fastforce
  qed
  then have "chain (put_mem mem r fs b) (if fs = [] then 0 else hd fs) fs" using t(3) chain_cong [of fs _ mem] by blast
  moreover have "put_mem mem r fs b b = (if fs = [] then 0 else hd fs)" by (simp add: put_mem_def)
  ultimately show ?thesis using r b by (simp add: ref_ok_def) (simp add: put_free_def)
qed

lemma owner_found:
  assumes inv: "kinv0 h ps F held R" and p: "p \<in> set ps" and a: "a \<in> span (PR_PAGEADDR (kh_refs h p), 1)"
  shows "find_owner (kh_refs h) a (kh_allbase h) = Some (Done p)"
proof -
  note i = kinv0D [OF inv]
  have "find_owner (kh_refs h) a (kh_allbase h) = Some (Done (case List.find (\<lambda>x. PR_PAGEADDR (kh_refs h x) \<le> a \<and>
      a < PR_PAGEADDR (kh_refs h x) + PAGE_SIZE) ps of None \<Rightarrow> 0 | Some x \<Rightarrow> x))"
    by (rule find_owner_chain) (use i(1,2) in \<open>auto simp: lists_ok_def frees_ok_def ref_ok_def\<close>)
  also have "List.find (\<lambda>x. PR_PAGEADDR (kh_refs h x) \<le> a \<and> a < PR_PAGEADDR (kh_refs h x) + PAGE_SIZE) ps = Some p"
  proof (rule find_unique [OF p])
    show "PR_PAGEADDR (kh_refs h p) \<le> a \<and> a < PR_PAGEADDR (kh_refs h p) + PAGE_SIZE" using a by (simp add: span_def)
    fix x assume x: "x \<in> set ps" "PR_PAGEADDR (kh_refs h x) \<le> a \<and> a < PR_PAGEADDR (kh_refs h x) + PAGE_SIZE"
    then have "a \<in> span (PR_PAGEADDR (kh_refs h x), 1)" by (simp add: span_def)
    then show "x = p" using a heap_page_apart [OF i(4) x(1) p] by blast
  qed
  finally show ?thesis by simp
qed

lemma no_owner:
  assumes inv: "kinv0 h ps F held R" and b: "b \<in> held" "a \<in> span b"
  shows "find_owner (kh_refs h) a (kh_allbase h) = Some (Done 0)"
proof -
  note i = kinv0D [OF inv]
  have "find_owner (kh_refs h) a (kh_allbase h) = Some (Done (case List.find (\<lambda>x. PR_PAGEADDR (kh_refs h x) \<le> a \<and>
      a < PR_PAGEADDR (kh_refs h x) + PAGE_SIZE) ps of None \<Rightarrow> 0 | Some x \<Rightarrow> x))"
    by (rule find_owner_chain) (use i(1,2) in \<open>auto simp: lists_ok_def frees_ok_def ref_ok_def\<close>)
  moreover have "\<not> (PR_PAGEADDR (kh_refs h x) \<le> a \<and> a < PR_PAGEADDR (kh_refs h x) + PAGE_SIZE)" if "x \<in> set ps" for x
  proof -
    have "a \<notin> span (PR_PAGEADDR (kh_refs h x), 1)" using held_apart [OF i(4) that b(1)] b(2) by blast
    then show ?thesis by (simp add: span_def)
  qed
  ultimately show ?thesis by (simp add: find_None_iff [THEN iffD2])
qed

lemma subpage_kfree_held:
  assumes "kabs h held R A" "(va, n) \<in> held"
  shows "subpage_kfree va h = Done (h, None)" "va \<noteq> 0" "va mod PAGE_SIZE = 0"
proof -
  obtain ps F where k: "kinv0 h ps F held R" using assms(1) by (auto simp: kabs_def)
  then have p: "va mod PAGE_SIZE = 0 \<and> MIPS_KSEG0 \<le> va \<and> 0 < n \<and> va + n * PAGE_SIZE \<le> 0xa0000000"
    using kp.place [of _ "kh_vm h" va n] assms(2) by (auto simp: kinv0_def space_ok_def)
  then show "va \<noteq> 0" "va mod PAGE_SIZE = 0" by auto
  have "va \<in> span (va, n)" using p by (simp add: span_def)
  then show "subpage_kfree va h = Done (h, None)"
    using no_owner [OF k assms(2)] by (simp add: subpage_kfree_def returns_def)
qed

lemma put_block:
  assumes inv: "kinv0 h ps F held R" and p: "p \<in> set ps"
    and b: "b \<in> page_blocks (PR_PAGEADDR (kh_refs h p)) (PR_BLOCKTYPE (kh_refs h p))" "b \<notin> set (F p)"
  defines "h' \<equiv> upd_page p (put_mem (kh_mem h) (kh_refs h p) (F p) b) (put_free (kh_refs h p) b) h"
  shows "kinv0 h' ps (F(p := b # F p)) held R"
    "live_blocks h' ps (F(p := b # F p)) = live_blocks h ps F - {(b, sizes ! PR_BLOCKTYPE (kh_refs h p))}"
proof -
  let ?r = "kh_refs h p" and ?F = "F(p := b # F p)"
  have r: "ref_ok (kh_mem h) ?r (F p)" using kinv0D(2) [OF inv] p by (simp add: frees_ok_def)
  then have t: "PR_BLOCKTYPE ?r < NSIZES" by (simp add: ref_ok_def)
  have "(PR_PAGEADDR ?r, 1) \<in> heap_pages h ps" using p by (simp add: heap_pages_def)
  then have "MIPS_KSEG0 \<le> PR_PAGEADDR ?r"
    using kinv0D(4) [OF inv] kp.place [of _ "kh_vm h" "PR_PAGEADDR ?r" 1] by (auto simp: space_ok_def)
  then have b0: "b \<noteq> 0" using page_blocks_range(1) [OF t b(1)] by auto
  note rok = put_ref_ok [OF r b b0]
  have out: "put_mem (kh_mem h) ?r (F p) b a = kh_mem h a" if "a \<notin> span (PR_PAGEADDR ?r, 1)" for a
    using that block_in_span [OF t b(1)] by (intro put_mem_out [OF t]) blast
  have "same_link ?r (put_free ?r b)" by (simp add: same_link_def put_free_def)
  then show "kinv0 h' ps ?F held R" unfolding h'_def by (rule kinv0_page [OF inv p _ rok out])
  have pl: "page_live (put_free ?r b) (b # F p) = page_live ?r (F p) - {(b, sizes ! PR_BLOCKTYPE ?r)}"
    by (auto simp: page_live_def)
  have "(b, sizes ! PR_BLOCKTYPE ?r) \<notin> page_live (kh_refs h q) (F q)" if "q \<in> set ps" "q \<noteq> p" for q
    using page_of_block [OF inv p that(1) b(1)] that(2) sizes_facts(8) [OF t] by (metis le_refl less_add_same_cancel1)
  moreover have "live_blocks h' ps ?F = (\<Union>q\<in>set ps. if q = p then page_live ?r (F p) - {(b, sizes ! PR_BLOCKTYPE ?r)}
      else page_live (kh_refs h q) (F q))"
    unfolding live_blocks_def h'_def by (rule SUP_cong) (simp_all add: pl)
  ultimately show "live_blocks h' ps ?F = live_blocks h ps F - {(b, sizes ! PR_BLOCKTYPE ?r)}"
    using p by (auto simp: live_blocks_def split: if_splits)
qed

lemma remove_lists_ok:
  assumes l: "lists_ok h (xs @ p # ys)" and t: "PR_BLOCKTYPE (kh_refs h p) < NSIZES"
  obtains sb ab refs where
    "remove_lists p (PR_BLOCKTYPE (kh_refs h p)) h = Done (h\<lparr>kh_sizebases := sb, kh_refs := refs, kh_allbase := ab\<rparr>)"
    "lists_ok (h\<lparr>kh_sizebases := sb, kh_refs := refs, kh_allbase := ab\<rparr>) (xs @ ys)"
    "\<And>q. pageaddr_and_blocktype (refs q) = pageaddr_and_blocktype (kh_refs h q)"
    "\<And>q. freelist_offset (refs q) = freelist_offset (kh_refs h q)" "\<And>q. nfree (refs q) = nfree (kh_refs h q)"
proof -
  let ?t = "PR_BLOCKTYPE (kh_refs h p)" and ?f = "\<lambda>v. filter (\<lambda>q. PR_BLOCKTYPE (kh_refs h q) = v)"
  have a: "chain (\<lambda>q. next_all (kh_refs h q)) (kh_allbase h) (xs @ p # ys)" "distinct (xs @ p # ys)"
    "length (kh_sizebases h) = NSIZES"
    "\<And>v. v < NSIZES \<Longrightarrow> chain (\<lambda>q. next_samesize (kh_refs h q)) (kh_sizebases h ! v) (?f v (xs @ p # ys))"
    using l by (simp_all add: lists_ok_def)
  have c: "chain (\<lambda>q. next_samesize (kh_refs h q)) (kh_sizebases h ! ?t) (?f ?t xs @ p # ?f ?t ys)" using a(4) [OF t] by simp
  have "distinct (?f ?t xs @ p # ?f ?t ys)" using a(2) by auto
  then obtain sb n1 where u: "unlink_from (kh_sizebases h ! ?t) (\<lambda>q. next_samesize (kh_refs h q)) None p = Some (sb, n1)"
    "chain n1 sb (?f ?t xs @ ?f ?t ys)" "\<And>q. q \<notin> set (?f ?t xs) \<Longrightarrow> n1 q = next_samesize (kh_refs h q)"
    using unlink_removes [OF c] by blast
  obtain ab n2 where v: "unlink_from (kh_allbase h) (\<lambda>q. next_all (kh_refs h q)) None p = Some (ab, n2)" "chain n2 ab (xs @ ys)"
    using unlink_removes [OF a(1,2)] by blast
  define refs where "refs = (\<lambda>q. (kh_refs h q)\<lparr>next_samesize := n1 q, next_all := n2 q\<rparr>)"
  let ?h = "h\<lparr>kh_sizebases := (kh_sizebases h)[?t := sb], kh_refs := refs, kh_allbase := ab\<rparr>"
  have PR: "PR_BLOCKTYPE (refs q) = PR_BLOCKTYPE (kh_refs h q)" for q by (simp add: refs_def PR_BLOCKTYPE_def)
  have "chain n1 ((kh_sizebases h)[?t := sb] ! w) (?f w (xs @ ys))" if w: "w < NSIZES" for w
  proof (cases "w = ?t")
    case True
    then show ?thesis using u(2) a(3) w by simp
  next
    case False
    have "chain n1 (kh_sizebases h ! w) (?f w (xs @ ys)) \<longleftrightarrow>
        chain (\<lambda>q. next_samesize (kh_refs h q)) (kh_sizebases h ! w) (?f w (xs @ ys))"
      by (rule chain_cong) (use u(3) False in auto)
    then show ?thesis using a(4) [OF w] False by simp
  qed
  then have "lists_ok ?h (xs @ ys)"
    using v(2) a(2,3) unfolding lists_ok_def by (simp add: PR) (simp add: refs_def)
  moreover have "remove_lists p ?t h = Done ?h"
    using t u(1) v(1) by (simp add: remove_lists_def refs_def)
  ultimately show ?thesis using that [of ab refs "(kh_sizebases h)[?t := sb]"] by (simp add: refs_def)
qed

lemma clear_slots_ok:
  assumes s: "slots_ok h (xs @ p # ys) R" "space_ok h (xs @ p # ys) held" "distinct (xs @ p # ys)"
    and w: "w < NUM_PAGEREFPAGES" "v \<in> used_slots (kh_roots h ! w)" "kr_page (kh_roots h ! w) \<noteq> 0"
      "p = kr_page (kh_roots h ! w) + 16 * v" "(w, v) \<notin> R"
  shows "slots_ok (upd_root w (clear_slot v) h) (xs @ ys) R"
proof -
  define rs where "rs = (kh_roots h)[w := clear_slot v (kh_roots h ! w)]"
  have len: "length (kh_roots h) = NUM_PAGEREFPAGES" "\<And>u. u < NUM_PAGEREFPAGES \<Longrightarrow> root_ok (kh_roots h ! u)"
    using s(1) by (simp_all add: slots_ok_def)
  have uc: "used_slots (clear_slot v (kh_roots h ! w)) = used_slots (kh_roots h ! w) - {v}"
    using used_clear [OF _ used_bound [OF w(2)]] len(2) [OF w(1)] by (simp add: root_ok_def)
  have rs: "kr_page (rs ! u) = kr_page (kh_roots h ! u)"
    "used_slots (rs ! u) = (if u = w then used_slots (kh_roots h ! w) - {v} else used_slots (kh_roots h ! u))"
    "u < NUM_PAGEREFPAGES \<Longrightarrow> root_ok (rs ! u)" "length rs = NUM_PAGEREFPAGES" for u
    using uc w(1,2) len root_ok_clear by (auto simp: rs_def nth_list_update clear_slot_def)
  have "has_slot rs R q" if q: "q \<in> set (xs @ ys)" for q
  proof -
    have "has_slot (kh_roots h) R q" using s(1) q by (auto simp: slots_ok_def)
    then obtain u z where u: "u < NUM_PAGEREFPAGES" "z \<in> used_slots (kh_roots h ! u)" "kr_page (kh_roots h ! u) \<noteq> 0"
      "q = kr_page (kh_roots h ! u) + 16 * z" "(u, z) \<notin> R" by (auto simp: has_slot_def)
    have "(u, z) \<noteq> (w, v)" using q s(3) u(4) w(4) by auto
    then have "z \<in> used_slots (rs ! u)" using u(2) by (auto simp: rs)
    then show ?thesis unfolding has_slot_def using u rs(1) by auto
  qed
  moreover have "used_slots (rs ! z) = {}" if "z < NUM_PAGEREFPAGES" "u < z" "kr_page (rs ! u) = 0" for u z
  proof -
    have "used_slots (kh_roots h ! z) = {}" using s(1) that by (simp add: slots_ok_def rs)
    then show ?thesis by (auto simp: rs)
  qed
  moreover have "z \<in> used_slots (rs ! u) \<and> u < NUM_PAGEREFPAGES" if "(u, z) \<in> R" for u z
    using s(1) that w(5) by (auto simp: slots_ok_def rs)
  ultimately have "slots_ok (h\<lparr>kh_roots := rs\<rparr>) (xs @ ys) R" using rs by (auto simp: slots_ok_def)
  then show ?thesis by (simp add: upd_root_def rs_def)
qed

lemma drop_page:
  assumes inv: "kinv0 h (xs @ p # ys) F held R"
    and full: "page_blocks (PR_PAGEADDR (kh_refs h p)) (PR_BLOCKTYPE (kh_refs h p)) \<subseteq> set (F p)"
  obtains h2 h3 where "remove_lists p (PR_BLOCKTYPE (kh_refs h p)) h = Done h2" "freepageref p h2 = Done h3"
    "kinv0 h3 (xs @ ys) F (insert (PR_PAGEADDR (kh_refs h p), 1) held) R" "(PR_PAGEADDR (kh_refs h p), 1) \<notin> held"
    "live_blocks h3 (xs @ ys) F = live_blocks h (xs @ p # ys) F"
    "\<And>q. PR_BLOCKTYPE (kh_refs h3 q) = PR_BLOCKTYPE (kh_refs h q)"
proof -
  let ?ps = "xs @ p # ys" and ?pa = "PR_PAGEADDR (kh_refs h p)"
  note i = kinv0D [OF inv]
  have t: "PR_BLOCKTYPE (kh_refs h p) < NSIZES" using i(2) by (simp add: frees_ok_def ref_ok_def)
  obtain sb ab refs where rm: "remove_lists p (PR_BLOCKTYPE (kh_refs h p)) h = Done (h\<lparr>kh_sizebases := sb, kh_refs := refs, kh_allbase := ab\<rparr>)"
    "lists_ok (h\<lparr>kh_sizebases := sb, kh_refs := refs, kh_allbase := ab\<rparr>) (xs @ ys)"
    and same: "\<And>q. pageaddr_and_blocktype (refs q) = pageaddr_and_blocktype (kh_refs h q)"
    "\<And>q. freelist_offset (refs q) = freelist_offset (kh_refs h q)" "\<And>q. nfree (refs q) = nfree (kh_refs h q)"
    by (rule remove_lists_ok [OF i(1) t]) (rule that; assumption)
  let ?h2 = "h\<lparr>kh_sizebases := sb, kh_refs := refs, kh_allbase := ab\<rparr>"
  have PR: "PR_PAGEADDR (refs q) = PR_PAGEADDR (kh_refs h q)" "PR_BLOCKTYPE (refs q) = PR_BLOCKTYPE (kh_refs h q)" for q
    by (simp_all add: PR_PAGEADDR_def PR_BLOCKTYPE_def same)
  have dist: "distinct ?ps" using i(1) by (simp add: lists_ok_def)
  have "has_slot (kh_roots h) R p" using i(3) by (simp add: slots_ok_def)
  then obtain w v where w: "w < NUM_PAGEREFPAGES" "v \<in> used_slots (kh_roots h ! w)" "kr_page (kh_roots h ! w) \<noteq> 0"
    "p = kr_page (kh_roots h ! w) + 16 * v" "(w, v) \<notin> R" by (auto simp: has_slot_def)
  let ?h3 = "upd_root w (clear_slot v) ?h2"
  have fr: "freepageref p ?h2 = Done ?h3"
  proof (rule freepageref_spec)
    fix u assume u: "u < w"
    have nz: "kr_page (kh_roots h ! u) \<noteq> 0" using i(3) u w(1,2) by (auto simp: slots_ok_def)
    have "p \<in> span (kr_page (kh_roots h ! w), 1)" using w(4) used_bound [OF w(2)] by (simp add: span_def)
    then have "p \<notin> span (kr_page (kh_roots h ! u), 1)"
      using root_page_apart [OF i(4) w(1) _ _ w(3) nz] u w(1) by auto
    then show "kr_page (kh_roots ?h2 ! u) \<noteq> 0 \<and> \<not> (kr_page (kh_roots ?h2 ! u) \<le> p \<and> p < kr_page (kh_roots ?h2 ! u) + PAGE_SIZE)"
      using nz by (simp add: span_def)
  qed (use w i(3) in \<open>auto simp: slots_ok_def\<close>)
  have "slots_ok ?h2 ?ps R" using i(3) by (simp add: slots_ok_def)
  moreover have hp: "heap_pages ?h2 qs = heap_pages h qs" "root_pages ?h2 = root_pages h" for qs
    by (simp_all add: heap_pages_def root_pages_def PR)
  then have "space_ok ?h2 ?ps held" using i(4) by (simp add: space_ok_def PR)
  ultimately have 3: "slots_ok ?h3 (xs @ ys) R" using clear_slots_ok [OF _ _ dist] w by simp
  have 1: "lists_ok ?h3 (xs @ ys)" using rm(2) by (simp add: lists_ok_def upd_root_def)
  have rok: "ref_ok mem (refs q) fs = ref_ok mem (kh_refs h q) fs" for mem q fs by (simp add: ref_ok_def PR same)
  have 2: "frees_ok ?h3 (xs @ ys) F" using i(2) by (simp add: frees_ok_def upd_root_def rok)
  have L: "kpages (heap_pages h ?ps \<union> root_pages h \<union> held) (kh_vm h)" "heap_pages h ?ps \<inter> root_pages h = {}"
    "heap_pages h ?ps \<inter> held = {}" "root_pages h \<inter> held = {}" "inj_on (\<lambda>p. PR_PAGEADDR (kh_refs h p)) (set ?ps)"
    using i(4) unfolding space_ok_def by blast+
  have rp: "root_pages ?h3 = root_pages h" "\<And>u. kr_page (kh_roots ?h3 ! u) = kr_page (kh_roots h ! u)"
    using w(1) i(3) by (auto simp: root_pages_def upd_root_def nth_list_update clear_slot_def slots_ok_def)
  have hp3: "heap_pages ?h3 qs = heap_pages h qs" for qs by (simp add: heap_pages_def upd_root_def PR)
  have ins: "heap_pages h ?ps = insert (?pa, 1) (heap_pages h (xs @ ys))" by (auto simp: heap_pages_def)
  have nin: "(?pa, 1) \<notin> heap_pages h (xs @ ys)" using L(5) dist by (auto simp: heap_pages_def inj_on_def)
  have 4: "space_ok ?h3 (xs @ ys) (insert (?pa, 1) held)"
  proof -
    have "heap_pages h (xs @ ys) \<union> root_pages h \<union> insert (?pa, 1) held = heap_pages h ?ps \<union> root_pages h \<union> held"
      unfolding ins by blast
    moreover have "heap_pages h (xs @ ys) \<inter> root_pages h = {}" "heap_pages h (xs @ ys) \<inter> insert (?pa, 1) held = {}"
      "root_pages h \<inter> insert (?pa, 1) held = {}" using L(2-4) nin unfolding ins by blast+
    moreover have "inj_on (\<lambda>q. PR_PAGEADDR (kh_refs ?h3 q)) (set (xs @ ys))"
      using inj_on_subset [OF L(5), of "set (xs @ ys)"] by (simp add: upd_root_def PR) blast
    moreover have "kh_vm ?h3 = kh_vm h" by (simp add: upd_root_def)
    ultimately show ?thesis using i(4) L(1) unfolding space_ok_def hp3 rp by simp
  qed
  have k: "kinv0 ?h3 (xs @ ys) F (insert (?pa, 1) held) R" using 1 2 3 4 by (simp add: kinv0_def)
  have "page_live (kh_refs h p) (F p) = {}" using full by (auto simp: page_live_def)
  moreover have "page_live (refs q) fs = page_live (kh_refs h q) fs" for q fs by (simp add: page_live_def PR)
  ultimately have "live_blocks ?h3 (xs @ ys) F = live_blocks h ?ps F" by (simp add: live_blocks_def upd_root_def)
  moreover have "(?pa, 1) \<notin> held" using L(3) unfolding ins by blast
  moreover have "PR_BLOCKTYPE (kh_refs ?h3 q) = PR_BLOCKTYPE (kh_refs h q)" for q by (simp add: upd_root_def PR)
  ultimately show ?thesis using that rm(1) fr k by blast
qed

lemma subpage_kfree_run:
  assumes inv: "kinv0 h ps F held R" and busy: "busy_ok h ps F" and p: "p \<in> set ps"
    and b: "b \<in> page_blocks (PR_PAGEADDR (kh_refs h p)) (PR_BLOCKTYPE (kh_refs h p))" "b \<notin> set (F p)"
  defines "h' \<equiv> upd_page p (put_mem (kh_mem h) (kh_refs h p) (F p) b) (put_free (kh_refs h p) b) h"
  shows "subpage_kfree b h = (if Suc (length (F p)) = PAGE_SIZE div sizes ! PR_BLOCKTYPE (kh_refs h p) then
      bindo (remove_lists p (PR_BLOCKTYPE (kh_refs h p)) h') (\<lambda>h. bindo (freepageref p h)
        (\<lambda>h. Done (h, Some (Go (K_FreePages (PR_PAGEADDR (kh_refs h' p)))))))
    else Done (h', Some (Ret 0)))"
proof -
  let ?r = "kh_refs h p" and ?pa = "PR_PAGEADDR (kh_refs h p)" and ?t = "PR_BLOCKTYPE (kh_refs h p)"
  have r: "ref_ok (kh_mem h) ?r (F p)" using kinv0D(2) [OF inv] p by (simp add: frees_ok_def)
  then have t: "?t < NSIZES" "nfree ?r = length (F p)"
    and off: "freelist_offset ?r = (if F p = [] then INVALID_OFFSET else hd (F p) - ?pa)"
    and sub: "set (F p) \<subseteq> page_blocks ?pa ?t" by (simp_all add: ref_ok_def)
  note rb = page_blocks_range [OF t(1) b(1)]
  have len: "length (F p) < PAGE_SIZE div sizes ! ?t" using busy p by (simp add: busy_ok_def)
  then have n: "(nfree ?r + 1) mod 0x10000 = Suc (length (F p))" "length (F p) < 256"
    using t(2) sizes_facts(6) [OF t(1)] by simp_all
  have own: "find_owner (kh_refs h) b (kh_allbase h) = Some (Done p)"
    by (rule owner_found [OF inv p block_start_in_span [OF t(1) b(1)]])
  have hd: "F p = [] \<or> (?pa \<le> hd (F p) \<and> hd (F p) < ?pa + PAGE_SIZE \<and> hd (F p) \<noteq> b)"
  proof (cases "F p")
    case (Cons c cs)
    then have "c \<in> page_blocks ?pa ?t" using sub by auto
    then show ?thesis using page_blocks_range [OF t(1)] Cons b(2) by auto
  qed simp
  then have nx: "(if freelist_offset ?r = INVALID_OFFSET then 0 else ?pa + freelist_offset ?r) = (if F p = [] then 0 else hd (F p))"
    "freelist_offset ?r = INVALID_OFFSET \<longleftrightarrow> F p = []" using off by auto
  have "p \<noteq> 0" by (rule lists_nz [OF kinv0D(1) [OF inv] p])
  moreover have "b - ?pa < PAGE_SIZE" "(b - ?pa) mod sizes ! ?t = 0" "?pa + (b - ?pa) = b"
    using rb page_blocks_mod [OF t(1) rb(1,3)] b(1) by auto
  moreover have "h\<lparr>kh_mem := (fill_deadbeef b (sizes ! ?t div 4) (kh_mem h))(b := if F p = [] then 0 else hd (F p)),
      kh_refs := (kh_refs h)(p := ?r\<lparr>freelist_offset := b - ?pa, nfree := Suc (length (F p))\<rparr>)\<rparr> = h'"
    by (simp add: h'_def upd_page_def put_mem_def put_free_def t(2))
  moreover have "PR_PAGEADDR (kh_refs h' p) = ?pa" by (simp add: h'_def)
  ultimately show ?thesis
    using own n(1) nx hd len t(1) unfolding subpage_kfree_def returns_def Let_def by (simp del: fun_upd_apply) auto
qed

lemma subpage_kfree_live:
  assumes k: "kabs h held R A" and b: "(b, s) \<in> A"
  shows "(\<exists>h'. subpage_kfree b h = Done (h', Some (Ret 0)) \<and> kabs h' held R (A - {(b, s)})) \<or>
    (\<exists>h' pg. subpage_kfree b h = Done (h', Some (Go (K_FreePages pg))) \<and> (pg, 1) \<notin> held \<and>
       kabs h' (insert (pg, 1) held) R (A - {(b, s)}))"
proof -
  obtain ps F where k: "kinv0 h ps F held R" "busy_ok h ps F" "A = live_blocks h ps F"
    using k by (auto simp: kabs_def)
  obtain p where p: "p \<in> set ps" "s = sizes ! PR_BLOCKTYPE (kh_refs h p)"
    "b \<in> page_blocks (PR_PAGEADDR (kh_refs h p)) (PR_BLOCKTYPE (kh_refs h p))" "b \<notin> set (F p)"
    using b k(3) by (auto simp: live_blocks_def page_live_def)
  define h' where "h' = upd_page p (put_mem (kh_mem h) (kh_refs h p) (F p) b) (put_free (kh_refs h p) b) h"
  let ?F = "F(p := b # F p)" and ?n = "PAGE_SIZE div sizes ! PR_BLOCKTYPE (kh_refs h p)"
  note run = subpage_kfree_run [OF k(1,2) p(1,3,4), folded h'_def]
  note pb = put_block [OF k(1) p(1,3,4), folded h'_def]
  have PR: "PR_BLOCKTYPE (kh_refs h' q) = PR_BLOCKTYPE (kh_refs h q)" "PR_PAGEADDR (kh_refs h' p) = PR_PAGEADDR (kh_refs h p)" for q
    by (simp_all add: h'_def)
  have A: "live_blocks h' ps ?F = A - {(b, s)}" using pb(2) k(3) p(2) by simp
  show ?thesis
  proof (cases "Suc (length (F p)) = ?n")
    case False
    have "length (F p) < ?n" using k(2) p(1) by (simp add: busy_ok_def)
    then have "busy_ok h' ps ?F" using False k(2) by (auto simp: busy_ok_def PR)
    then have "kabs h' held R (A - {(b, s)})" unfolding kabs_def using pb(1) A by blast
    then show ?thesis using run False by simp
  next
    case True
    obtain xs ys where ps: "ps = xs @ p # ys" using p(1) by (meson split_list)
    have rok: "ref_ok (kh_mem h') (kh_refs h' p) (b # F p)" using bspec [OF kinv0D(2) [OF pb(1), unfolded frees_ok_def] p(1)] by simp
    then have t: "PR_BLOCKTYPE (kh_refs h' p) < NSIZES" and sub: "set (b # F p) \<subseteq> page_blocks (PR_PAGEADDR (kh_refs h' p)) (PR_BLOCKTYPE (kh_refs h' p))"
      and d: "distinct (b # F p)" by (simp_all add: ref_ok_def)
    have "card (set (b # F p)) = ?n" using d True by (simp add: distinct_card)
    then have "set (b # F p) = page_blocks (PR_PAGEADDR (kh_refs h' p)) (PR_BLOCKTYPE (kh_refs h' p))"
      using card_page_blocks [OF t] by (intro card_subset_eq [OF finite_page_blocks sub]) (simp add: PR)
    then have full: "page_blocks (PR_PAGEADDR (kh_refs h' p)) (PR_BLOCKTYPE (kh_refs h' p)) \<subseteq> set (?F p)" by simp
    obtain h2 h3 where d: "remove_lists p (PR_BLOCKTYPE (kh_refs h' p)) h' = Done h2" "freepageref p h2 = Done h3"
      "kinv0 h3 (xs @ ys) ?F (insert (PR_PAGEADDR (kh_refs h' p), 1) held) R" "(PR_PAGEADDR (kh_refs h' p), 1) \<notin> held"
      "live_blocks h3 (xs @ ys) ?F = live_blocks h' ps ?F"
      "\<And>q. PR_BLOCKTYPE (kh_refs h3 q) = PR_BLOCKTYPE (kh_refs h' q)"
      using drop_page [OF pb(1) [unfolded ps] full] unfolding ps by metis
    have "p \<notin> set (xs @ ys)" using kinv0D(1) [OF k(1)] ps by (simp add: lists_ok_def)
    then have "busy_ok h3 (xs @ ys) ?F" using k(2) d(6) by (auto simp: busy_ok_def ps PR)
    then have "kabs h3 (insert (PR_PAGEADDR (kh_refs h' p), 1) held) R (A - {(b, s)})"
      unfolding kabs_def using d(3,5) A by metis
    then show ?thesis using run True d(1,2,4) by (simp add: PR)
  qed
qed

section \<open>What the invariant says of the blocks\<close>

lemma kabs_block:
  assumes k: "kabs h held R A" and b: "(b, s) \<in> A"
  shows "b mod 16 = 0" "MIPS_KSEG0 \<le> b" "b + s \<le> 0xa0000000" "0 < s" "b \<noteq> 0"
proof -
  obtain ps F where k: "kinv0 h ps F held R" "A = live_blocks h ps F" using k by (auto simp: kabs_def)
  note i = kinv0D [OF k(1)]
  obtain p where p: "p \<in> set ps" "s = sizes ! PR_BLOCKTYPE (kh_refs h p)"
    "b \<in> page_blocks (PR_PAGEADDR (kh_refs h p)) (PR_BLOCKTYPE (kh_refs h p))"
    using b k(2) by (auto simp: live_blocks_def page_live_def)
  have t: "PR_BLOCKTYPE (kh_refs h p) < NSIZES" using i(2) p(1) by (simp add: frees_ok_def ref_ok_def)
  have "(PR_PAGEADDR (kh_refs h p), 1) \<in> heap_pages h ps" using p(1) by (simp add: heap_pages_def)
  then have pl: "PR_PAGEADDR (kh_refs h p) mod PAGE_SIZE = 0" "MIPS_KSEG0 \<le> PR_PAGEADDR (kh_refs h p)"
    "PR_PAGEADDR (kh_refs h p) + PAGE_SIZE \<le> 0xa0000000"
    using i(4) kp.place [of _ "kh_vm h" "PR_PAGEADDR (kh_refs h p)" 1] by (auto simp: space_ok_def)
  obtain j where j: "b = PR_PAGEADDR (kh_refs h p) + j * s" using p by (auto simp: page_blocks_def)
  have "16 dvd PR_PAGEADDR (kh_refs h p)" using pl(1) by (auto simp: mod_eq_0_iff_dvd intro: dvd_trans [of 16 PAGE_SIZE])
  moreover have "16 dvd j * s" using sizes_facts(4) [OF t] p(2) by simp
  ultimately show "b mod 16 = 0" unfolding j by (simp add: mod_eq_0_iff_dvd)
  show "MIPS_KSEG0 \<le> b" "b + s \<le> 0xa0000000" "0 < s" "b \<noteq> 0"
    using page_blocks_range [OF t p(3)] pl sizes_facts(8) [OF t] p(2) by auto
qed

lemma kabs_apart:
  assumes k: "kabs h held R A" and b: "(b, s) \<in> A" "(c, z) \<in> A" "b \<noteq> c"
  shows "b + s \<le> c \<or> c + z \<le> b"
proof -
  obtain ps F where k: "kinv0 h ps F held R" "A = live_blocks h ps F" using k by (auto simp: kabs_def)
  note i = kinv0D [OF k(1)]
  obtain p q where p: "p \<in> set ps" "(b, s) \<in> page_live (kh_refs h p) (F p)" and q: "q \<in> set ps" "(c, z) \<in> page_live (kh_refs h q) (F q)"
    using b k(2) by (auto simp: live_blocks_def)
  have rp: "ref_ok (kh_mem h) (kh_refs h p) (F p)" "ref_ok (kh_mem h) (kh_refs h q) (F q)" using i(2) p(1) q(1) by (simp_all add: frees_ok_def)
  show ?thesis
  proof (cases "p = q")
    case True
    then show ?thesis using page_blocks_apart [of "PR_BLOCKTYPE (kh_refs h p)" b _ c] p q b(3) rp(1)
      by (auto simp: page_live_def ref_ok_def)
  next
    case False
    have "\<not> (a \<in> span (PR_PAGEADDR (kh_refs h p), 1) \<and> a \<in> span (PR_PAGEADDR (kh_refs h q), 1))" for a
      using heap_page_apart [OF i(4) p(1) q(1) False] by blast
    then have "\<not> (b \<le> a \<and> a < b + s \<and> c \<le> a \<and> a < c + z)" for a
      using page_live_in_span [OF rp(1) p(2)] page_live_in_span [OF rp(2) q(2)] by blast
    from this [of b] this [of c] show ?thesis using page_live_pos [OF rp(1) p(2)] page_live_pos [OF rp(2) q(2)] by linarith
  qed
qed

lemma kabs_fst_inj:
  assumes k: "kabs h held R A" and b: "(b, s) \<in> A" "(b, z) \<in> A"
  shows "s = z"
proof -
  obtain ps F where k: "kinv0 h ps F held R" "A = live_blocks h ps F" using k by (auto simp: kabs_def)
  obtain p q where p: "p \<in> set ps" "(b, s) \<in> page_live (kh_refs h p) (F p)" and q: "q \<in> set ps" "(b, z) \<in> page_live (kh_refs h q) (F q)"
    using b k(2) by (auto simp: live_blocks_def)
  have "ref_ok (kh_mem h) (kh_refs h q) (F q)" using kinv0D(2) [OF k(1)] q(1) by (simp add: frees_ok_def)
  then have "0 < z" using page_live_pos [OF _ q(2)] by blast
  then have "q = p" using page_of_block [OF k(1) p(1) q(1) _ q(2), of b] p(2) by (auto simp: page_live_def)
  then show ?thesis using p(2) q(2) by (auto simp: page_live_def)
qed

lemma kabs_block_held:
  assumes k: "kabs h held R A" and b: "(b, s) \<in> A" and q: "(va, n) \<in> held"
  shows "b + s \<le> va \<or> va + n * PAGE_SIZE \<le> b"
proof -
  obtain ps F where k: "kinv0 h ps F held R" "A = live_blocks h ps F" using k by (auto simp: kabs_def)
  note i = kinv0D [OF k(1)]
  obtain p where p: "p \<in> set ps" "(b, s) \<in> page_live (kh_refs h p) (F p)" using b k(2) by (auto simp: live_blocks_def)
  have rp: "ref_ok (kh_mem h) (kh_refs h p) (F p)" using i(2) p(1) by (simp add: frees_ok_def)
  have no: "\<not> (b \<le> a \<and> a < b + s \<and> a \<in> span (va, n))" for a
    using held_apart [OF i(4) p(1) q] page_live_in_span [OF rp p(2)] by blast
  have "0 < n" using i(4) q kp.place [of _ "kh_vm h" va n] by (auto simp: space_ok_def)
  then show ?thesis using page_live_pos [OF rp p(2)] no [of b] no [of va] by (simp add: span_def) linarith
qed

text \<open>A client may write anything to its blocks.\<close>

lemma kabs_write:
  assumes k: "kabs h held R A" and a: "((b, s) \<in> A \<and> b \<le> a \<and> a < b + s) \<or> (c \<in> held \<and> a \<in> span c)"
  shows "kabs (h\<lparr>kh_mem := (kh_mem h)(a := v)\<rparr>) held R A"
proof -
  obtain ps F where k: "kinv0 h ps F held R" "busy_ok h ps F" "A = live_blocks h ps F" using k by (auto simp: kabs_def)
  note i = kinv0D [OF k(1)]
  let ?h = "h\<lparr>kh_mem := (kh_mem h)(a := v)\<rparr>"
  have "ref_ok ((kh_mem h)(a := v)) (kh_refs h q) (F q)" if q: "q \<in> set ps" for q
  proof (rule ref_ok_mem)
    show rq: "ref_ok (kh_mem h) (kh_refs h q) (F q)" using i(2) q by (simp add: frees_ok_def)
    then have t: "PR_BLOCKTYPE (kh_refs h q) < NSIZES" by (simp add: ref_ok_def)
    fix x assume x: "x \<in> set (F q)"
    have xb: "x \<in> page_blocks (PR_PAGEADDR (kh_refs h q)) (PR_BLOCKTYPE (kh_refs h q))" using x rq by (auto simp: ref_ok_def)
    have "x \<noteq> a"
    proof
      assume e: "x = a"
      show False using a
      proof
        assume b: "(b, s) \<in> A \<and> b \<le> a \<and> a < b + s"
        then obtain p where p: "p \<in> set ps" "(b, s) \<in> page_live (kh_refs h p) (F p)" using k(3) by (auto simp: live_blocks_def)
        then have "p = q" using page_of_block [OF k(1) q p(1) xb p(2)] b e by simp
        then have "b \<in> page_blocks (PR_PAGEADDR (kh_refs h q)) (PR_BLOCKTYPE (kh_refs h q))" "b \<notin> set (F q)" "s = sizes ! PR_BLOCKTYPE (kh_refs h q)"
          using p(2) by (auto simp: page_live_def)
        then show False using page_blocks_apart [OF t xb, of b] b e x sizes_facts(8) [OF t] by fastforce
      next
        assume "c \<in> held \<and> a \<in> span c"
        then show False using held_apart [OF i(4) q, of c] block_start_in_span [OF t xb] e by blast
      qed
    qed
    then show "((kh_mem h)(a := v)) x = kh_mem h x" by simp
  qed
  then have "frees_ok ?h ps F" by (simp add: frees_ok_def)
  then have "kinv0 ?h ps F held R"
    using i by (simp add: kinv0_def lists_ok_def slots_ok_def space_ok_def heap_pages_def root_pages_def)
  moreover have "busy_ok ?h ps F" "A = live_blocks ?h ps F" using k(2,3) by (simp_all add: busy_ok_def live_blocks_def)
  ultimately show ?thesis unfolding kabs_def by blast
qed

lemma kabs_boot:
  assumes "kpages other vm"
  shows "kabs (kheap_boot vm mem refs) other {} {}" "roots_open (kheap_boot vm mem refs)"
proof -
  let ?h = "kheap_boot vm mem refs"
  have r: "kh_roots ?h ! w = \<lparr>kr_page = 0, kr_inuse = replicate INUSE_WORDS 0, kr_numinuse = 0\<rparr>" if "w < NUM_PAGEREFPAGES" for w
    using that by (simp add: kheap_boot_def)
  have us: "used_slots (kh_roots ?h ! w) = {}" if "w < NUM_PAGEREFPAGES" for w
    unfolding r [OF that] by (auto simp: used_slots_def less_mult_imp_div_less)
  have "lists_ok ?h []" by (simp add: lists_ok_def kheap_boot_def)
  moreover have "slots_ok ?h [] {}"
    using us r by (auto simp: slots_ok_def root_ok_def) (simp add: kheap_boot_def)
  moreover have "root_pages ?h = {}" using r by (auto simp: root_pages_def)
  then have "space_ok ?h [] other" using assms r by (auto simp: space_ok_def heap_pages_def) (simp add: kheap_boot_def)
  ultimately have "kinv0 ?h [] (\<lambda>p. []) other {}" by (simp add: kinv0_def frees_ok_def)
  moreover have "busy_ok ?h [] (\<lambda>p. [])" "live_blocks ?h [] (\<lambda>p. []) = {}" by (simp_all add: busy_ok_def live_blocks_def)
  ultimately show "kabs ?h other {} {}" unfolding kabs_def by metis
  show "roots_open ?h" using r by (simp add: roots_open_def)
qed

end
