(* ===== verification/Kmalloc_Sections.thy ===== *)
theory Kmalloc_Sections
  imports Kmalloc_Free
begin

text \<open>
  What one section of \<^verbatim>\<open>kmalloc\<close> or \<^verbatim>\<open>kfree\<close> does, whatever it is: it returns, and of the pages, reference slots and blocks
  only those of the calling thread change hands.
\<close>

section \<open>Who owns what\<close>

definition npages :: "nat \<Rightarrow> nat" where
  "npages sz = ((sz + PAGE_SIZE - 1) mod 2 ^ 32) div PAGE_SIZE"

abbreviation "MAX_REQUEST \<equiv> 0x7ffff000 :: nat"

lemma npages_bounds:
  assumes "LARGEST_SUBPAGE_SIZE \<le> sz" "sz \<le> MAX_REQUEST"
  shows "0 < npages sz" "npages sz < 2 ^ 19" "sz \<le> npages sz * PAGE_SIZE"
proof -
  have e: "npages sz = (sz + 4095) div 4096" using assms by (simp add: npages_def)
  show "0 < npages sz" "npages sz < 2 ^ 19" "sz \<le> npages sz * PAGE_SIZE" unfolding e using assms by simp_all
qed

text \<open>
  The whole pages, reference slots and blocks of a thread in the middle of a call; \<open>sz\<close> is the size that the caller asked for, or asked
  for when it got the block that it now frees.
\<close>

fun pages_of :: "kpend \<Rightarrow> nat \<Rightarrow> (nat \<times> nat) set" where
  "pages_of (K_HavePage t pg) sz = {(pg, 1)}"
| "pages_of (K_GetRefPage t pg w i j) sz = {(pg, 1)}"
| "pages_of (K_HaveRefPage t pg w i j va) sz = {(pg, 1)} \<union> (if va = 0 then {} else {(va, 1)})"
| "pages_of (K_FreeVa t pg w i j va) sz = {(pg, 1), (va, 1)}"
| "pages_of (K_Relock t pg w i j) sz = {(pg, 1)}"
| "pages_of (K_GiveUp pg) sz = {(pg, 1)}"
| "pages_of (K_Free p) sz = (if sz < LARGEST_SUBPAGE_SIZE then {} else {(p, npages sz)})"
| "pages_of (K_FreePages va) sz = {(va, if sz < LARGEST_SUBPAGE_SIZE then 1 else npages sz)}"
| "pages_of k sz = {}"

fun slots_of :: "kpend \<Rightarrow> (nat \<times> nat) set" where
  "slots_of (K_GetRefPage t pg w i j) = {(w, i * 32 + j)}"
| "slots_of (K_HaveRefPage t pg w i j va) = {(w, i * 32 + j)}"
| "slots_of (K_FreeVa t pg w i j va) = {(w, i * 32 + j)}"
| "slots_of (K_Relock t pg w i j) = {(w, i * 32 + j)}"
| "slots_of k = {}"

fun blocks_of :: "kpend \<Rightarrow> nat \<Rightarrow> nat set" where
  "blocks_of (K_Free p) sz = (if sz < LARGEST_SUBPAGE_SIZE then {p} else {})"
| "blocks_of k sz = {}"

definition fits_type :: "nat \<Rightarrow> nat \<Rightarrow> bool" where
  "fits_type t sz \<longleftrightarrow> t < NSIZES \<and> sz \<le> sizes ! t \<and> sz < LARGEST_SUBPAGE_SIZE"

fun thread_ok :: "kheap \<Rightarrow> kpend \<Rightarrow> nat \<Rightarrow> bool" where
  "thread_ok h (K_Malloc z) sz \<longleftrightarrow> z = sz \<and> sz < LARGEST_SUBPAGE_SIZE"
| "thread_ok h (K_GetPage t) sz \<longleftrightarrow> fits_type t sz"
| "thread_ok h (K_HavePage t pg) sz \<longleftrightarrow> fits_type t sz"
| "thread_ok h (K_GetRefPage t pg w i j) sz \<longleftrightarrow> fits_type t sz"
| "thread_ok h (K_HaveRefPage t pg w i j va) sz \<longleftrightarrow> fits_type t sz \<and> va \<noteq> pg \<and> va mod PAGE_SIZE = 0"
| "thread_ok h (K_FreeVa t pg w i j va) sz \<longleftrightarrow> fits_type t sz \<and> va \<noteq> pg \<and> kr_page (kh_roots h ! w) \<noteq> 0"
| "thread_ok h (K_Relock t pg w i j) sz \<longleftrightarrow> fits_type t sz \<and> kr_page (kh_roots h ! w) \<noteq> 0"
| "thread_ok h (K_GiveUp pg) sz \<longleftrightarrow> sz < LARGEST_SUBPAGE_SIZE"
| "thread_ok h (K_Big z) sz \<longleftrightarrow> z = sz \<and> LARGEST_SUBPAGE_SIZE \<le> sz \<and> sz \<le> MAX_REQUEST"
| "thread_ok h (K_Free p) sz \<longleftrightarrow> True"
| "thread_ok h (K_FreePages va) sz \<longleftrightarrow> True"

text \<open>A root that has a page keeps it.\<close>

definition keeps_roots :: "kheap \<Rightarrow> kheap \<Rightarrow> bool" where
  "keeps_roots h h' \<longleftrightarrow> (\<forall>w. kr_page (kh_roots h ! w) \<noteq> 0 \<longrightarrow> kr_page (kh_roots h' ! w) \<noteq> 0)"

lemma keeps_roots_refl [simp]: "keeps_roots h h"
  by (simp add: keeps_roots_def)

lemma thread_ok_keeps: "thread_ok h k sz \<Longrightarrow> keeps_roots h h' \<Longrightarrow> thread_ok h' k sz"
  by (cases k) (auto simp: keeps_roots_def)

section \<open>Every section\<close>

text \<open>What a section does to pages, slots and blocks: those of the thread change hands, all others stay as they are.\<close>

definition section_go :: "kpend \<Rightarrow> nat \<Rightarrow> kpend \<Rightarrow> (nat \<times> nat) set \<Rightarrow> (nat \<times> nat) set \<Rightarrow> (nat \<times> nat) set \<Rightarrow> kheap \<Rightarrow> bool" where
  "section_go k sz k' held R A h' \<longleftrightarrow> thread_ok h' k' sz \<and>
     (\<exists>A'. kabs h' (held - pages_of k sz \<union> pages_of k' sz) (R - slots_of k \<union> slots_of k') A' \<and>
       A' \<subseteq> A \<and> fst ` A' = fst ` A - blocks_of k sz) \<and> blocks_of k' sz = {} \<and>
     pages_of k' sz \<inter> (held - pages_of k sz) = {} \<and> slots_of k' \<inter> (R - slots_of k) = {}"

definition section_ret :: "kpend \<Rightarrow> nat \<Rightarrow> nat \<Rightarrow> (nat \<times> nat) set \<Rightarrow> (nat \<times> nat) set \<Rightarrow> (nat \<times> nat) set \<Rightarrow> kheap \<Rightarrow> bool" where
  "section_ret k sz p held R A h' \<longleftrightarrow>
     (if p = 0 then \<exists>A'. kabs h' (held - pages_of k sz) (R - slots_of k) A' \<and> A' \<subseteq> A \<and> fst ` A' = fst ` A - blocks_of k sz
      else blocks_of k sz = {} \<and>
        (if sz < LARGEST_SUBPAGE_SIZE
         then \<exists>s. kabs h' (held - pages_of k sz) (R - slots_of k) (insert (p, s) A) \<and> p \<notin> fst ` A \<and> sz \<le> s
         else kabs h' (insert (p, npages sz) held) (R - slots_of k) A \<and> (p, npages sz) \<notin> held \<and> pages_of k sz = {}))"

lemma fst_remove:
  assumes "kabs h held R A" "(b, s) \<in> A"
  shows "fst ` (A - {(b, s)}) = fst ` A - {b}"
proof -
  have one: "z = s" if "(b, z) \<in> A" for z using kabs_fst_inj [OF assms(1) that assms(2)] .
  show ?thesis
  proof (rule set_eqI, rule iffI)
    fix x assume "x \<in> fst ` (A - {(b, s)})"
    then obtain y where "y \<in> A" "y \<noteq> (b, s)" "x = fst y" by blast
    then show "x \<in> fst ` A - {b}" using one [of "snd y"] by (cases y) force
  next
    fix x assume "x \<in> fst ` A - {b}"
    then show "x \<in> fst ` (A - {(b, s)})" by force
  qed
qed

lemma upd_root_keeps:
  "(\<And>root. kr_page root \<noteq> 0 \<Longrightarrow> kr_page (f root) \<noteq> 0) \<Longrightarrow> keeps_roots h (upd_root w f h)"
  by (cases "w < length (kh_roots h)") (auto simp: keeps_roots_def upd_root_def nth_list_update not_less list_update_beyond)

lemma keeps_roots_same: "kh_roots h' = kh_roots h \<Longrightarrow> keeps_roots h h'"
  by (simp add: keeps_roots_def)

lemma doalloc_roots: "doalloc pr h = Done (h', r) \<Longrightarrow> kh_roots h' = kh_roots h"
  by (auto simp: doalloc_def Let_def split: if_splits)

lemma new_page_roots: "new_page t pg pr h = Done (h', r) \<Longrightarrow> kh_roots h' = kh_roots h"
  by (auto simp: new_page_def Let_def split: if_splits dest!: doalloc_roots)

lemma ref_ready_roots: "ref_ready t pg w i j h = Done (h', r) \<Longrightarrow> kh_roots h' = kh_roots h"
  by (auto simp: ref_ready_def Let_def split: if_splits dest: new_page_roots)

lemma remove_lists_roots: "remove_lists p t h = Done h' \<Longrightarrow> kh_roots h' = kh_roots h"
  by (auto simp: remove_lists_def Let_def split: if_splits option.splits prod.splits)

lemma freepageref_keeps: "freepageref_from w p h = Done h' \<Longrightarrow> keeps_roots h h'"
proof (induction w p h rule: freepageref_from.induct)
  case (1 w p h)
  from "1.prems" show ?case
    using "1.IH" by (subst (asm) freepageref_from.simps)
      (auto simp: Let_def split: if_splits intro!: upd_root_keeps)
qed

lemma subpage_kfree_keeps: "subpage_kfree p h = Done (h', r) \<Longrightarrow> keeps_roots h h'"
  by (auto simp: subpage_kfree_def Let_def freepageref_def bindo_Done_iff keeps_roots_def
    split: if_splits dest!: remove_lists_roots freepageref_keeps)

lemma pages_roots: "get_pages n h = (h', va) \<Longrightarrow> kh_roots h' = kh_roots h" "put_pages va h = Done h'' \<Longrightarrow> kh_roots h'' = kh_roots h"
  by (auto simp: get_pages_def put_pages_def bindo_Done_iff split: prod.splits)

lemma ref_ready_keeps: "ref_ready t pg w i j h2 = Done (h', r) \<Longrightarrow> keeps_roots h h2 \<Longrightarrow> keeps_roots h h'"
  using ref_ready_roots by (simp add: keeps_roots_def)

lemma ksection_keeps: "ksection k h = Done (h', r) \<Longrightarrow> keeps_roots h h'"
proof (cases k)
  case (K_HavePage t pg)
  assume "ksection k h = Done (h', r)"
  then have a: "allocpageref t pg h = Done (h', r)" by (simp add: K_HavePage)
  then obtain f where f: "find_root (kh_roots h) 0 = Done f" by (auto simp: allocpageref_def bindo_Done_iff)
  show ?thesis
  proof (cases f)
    case None
    then show ?thesis using a f by (simp add: allocpageref_def)
  next
    case (Some wij)
    obtain w i j where s: "wij = (w, i, j)" by (cases wij)
    have "keeps_roots h (upd_root w (mark_slot i j) h)" by (rule upd_root_keeps) (simp add: mark_slot_def)
    then show ?thesis using a f Some s by (auto simp: allocpageref_def Let_def split: if_splits elim: ref_ready_keeps)
  qed
next
  case (K_HaveRefPage t pg w i j va)
  assume "ksection k h = Done (h', r)"
  then show ?thesis unfolding K_HaveRefPage
    by (auto simp: allocpagerefpage_def split: if_splits elim!: ref_ready_keeps intro!: upd_root_keeps)
next
  case (K_Free p)
  assume "ksection k h = Done (h', r)"
  then show ?thesis unfolding K_Free
    by (auto simp: kfree_section_def bindo_Done_iff split: if_splits option.splits dest: subpage_kfree_keeps)
qed (auto simp: Let_def bindo_Done_iff subpage_kmalloc_def keeps_roots_def split: prod.splits if_splits
      dest!: doalloc_roots pages_roots ref_ready_roots)

definition section_res :: "kpend \<Rightarrow> nat \<Rightarrow> kres \<Rightarrow> (nat \<times> nat) set \<Rightarrow> (nat \<times> nat) set \<Rightarrow> (nat \<times> nat) set \<Rightarrow> kheap \<Rightarrow> bool" where
  "section_res k sz r held R A h' =
     (case r of Go k' \<Rightarrow> section_go k sz k' held R A h' | Ret p \<Rightarrow> section_ret k sz p held R A h')"

lemma held_nz: "kabs h held R A \<Longrightarrow> (va, n) \<in> held \<Longrightarrow> va \<noteq> 0 \<and> va mod PAGE_SIZE = 0"
  using subpage_kfree_held(2,3) by blast

lemma section_malloc:
  assumes k: "kabs h held R A" and sz: "sz < LARGEST_SUBPAGE_SIZE"
  shows "\<exists>h' r. ksection (K_Malloc sz) h = Done (h', r) \<and> section_res (K_Malloc sz) sz r held R A h'"
  using subpage_kmalloc_ok [OF k less_imp_le [OF sz]]
proof (elim disjE exE conjE)
  fix h' b s
  assume a: "subpage_kmalloc sz h = Done (h', Ret b)" "kabs h' held R (insert (b, s) A)" "b \<notin> fst ` A" "b \<noteq> 0" "sz \<le> s"
  then have "section_ret (K_Malloc sz) sz b held R A h'" using sz by (auto simp: section_ret_def)
  then show ?thesis using a(1) by (auto simp: section_res_def)
next
  fix t
  assume a: "t < NSIZES" "sz \<le> sizes ! t" "subpage_kmalloc sz h = Done (h, Go (K_GetPage t))"
  then have "section_go (K_Malloc sz) sz (K_GetPage t) held R A h" using k sz by (auto simp: section_go_def fits_type_def)
  then show ?thesis using a(3) by (auto simp: section_res_def)
qed

lemma section_getpage:
  assumes k: "kabs h held R A" and t: "fits_type t sz"
  shows "\<exists>h' r. ksection (K_GetPage t) h = Done (h', r) \<and> section_res (K_GetPage t) sz r held R A h'"
proof -
  obtain h' va where g: "get_pages 1 h = (h', va)" by (meson surj_pair)
  note o = get_pages_ok [OF k _ _ g]
  show ?thesis
  proof (cases "va = 0")
    case True
    then have "section_ret (K_GetPage t) sz 0 held R A h'" using o(1) by (auto simp: section_ret_def)
    then show ?thesis using g True by (simp add: section_res_def)
  next
    case False
    then have "section_go (K_GetPage t) sz (K_HavePage t va) held R A h'" using o(2) t by (auto simp: section_go_def)
    then show ?thesis using g False o(2) by (simp add: section_res_def)
  qed
qed

lemma section_havepage:
  assumes k: "kabs h held R A" and ro: "roots_open h" and t: "fits_type t sz" and pg: "(pg, 1) \<in> held"
  shows "\<exists>h' r. ksection (K_HavePage t pg) h = Done (h', r) \<and> section_res (K_HavePage t pg) sz r held R A h'"
proof -
  have ins: "insert (pg, 1) (held - {(pg, 1)}) = held" using pg by blast
  have T: "t < NSIZES" "sz < LARGEST_SUBPAGE_SIZE" "sz \<le> sizes ! t" using t by (simp_all add: fits_type_def)
  show ?thesis using allocpageref_ok [OF k ro pg T(1)]
  proof (elim disjE exE conjE)
    assume a: "allocpageref t pg h = Done (h, Go (K_GiveUp pg))"
    have "section_go (K_HavePage t pg) sz (K_GiveUp pg) held R A h" using k T ins by (auto simp: section_go_def)
    then show ?thesis using a by (auto simp: section_res_def)
  next
    fix h' w i j
    assume a: "allocpageref t pg h = Done (h', Go (K_GetRefPage t pg w i j))"
      "kabs h' held (insert (w, i * 32 + j) R) A" "(w, i * 32 + j) \<notin> R"
    then have "section_go (K_HavePage t pg) sz (K_GetRefPage t pg w i j) held R A h'" using t ins by (auto simp: section_go_def)
    then show ?thesis using a(1) by (auto simp: section_res_def)
  next
    fix h' b
    assume a: "allocpageref t pg h = Done (h', Ret b)" "kabs h' (held - {(pg, 1)}) R (insert (b, sizes ! t) A)" "b \<notin> fst ` A" "b \<noteq> 0"
    then have "section_ret (K_HavePage t pg) sz b held R A h'" using T by (auto simp: section_ret_def)
    then show ?thesis using a(1) by (auto simp: section_res_def)
  qed
qed

lemma section_getrefpage:
  assumes k: "kabs h held R A" and t: "fits_type t sz" and pg: "(pg, 1) \<in> held" and R: "(w, i * 32 + j) \<in> R"
  shows "\<exists>h' r. ksection (K_GetRefPage t pg w i j) h = Done (h', r) \<and> section_res (K_GetRefPage t pg w i j) sz r held R A h'"
proof -
  obtain h' va where g: "get_pages 1 h = (h', va)" by (meson surj_pair)
  note o = get_pages_ok [OF k _ _ g]
  have ins: "insert (pg, 1) (held - {(pg, 1)}) = held" "insert (w, i * 32 + j) (R - {(w, i * 32 + j)}) = R" using pg R by blast+
  have nz: "pg \<noteq> 0" using held_nz [OF k pg] by simp
  have "section_go (K_GetRefPage t pg w i j) sz (K_HaveRefPage t pg w i j va) held R A h'"
  proof (cases "va = 0")
    case True
    then show ?thesis using o(1) t ins nz by (auto simp: section_go_def)
  next
    case False
    have v: "kabs h' (insert (va, 1) held) R A" "(va, 1) \<notin> held" "va mod PAGE_SIZE = 0" using o(2) False by simp_all
    have "va \<noteq> pg" using v(2) pg by blast
    moreover have "held - {(pg, 1)} \<union> {(pg, 1), (va, 1)} = insert (va, 1) held" using pg by blast
    ultimately show ?thesis using v t ins(2) False unfolding section_go_def by (auto simp: insert_commute)
  qed
  then show ?thesis using g by (simp add: section_res_def)
qed

lemma section_haverefpage:
  assumes k: "kabs h held R A" and t: "fits_type t sz" and va: "va \<noteq> pg" "va mod PAGE_SIZE = 0"
    and own: "pages_of (K_HaveRefPage t pg w i j va) sz \<subseteq> held" and R: "(w, i * 32 + j) \<in> R"
  shows "\<exists>h' r. ksection (K_HaveRefPage t pg w i j va) h = Done (h', r) \<and> section_res (K_HaveRefPage t pg w i j va) sz r held R A h'"
proof -
  let ?k = "K_HaveRefPage t pg w i j va"
  have pg: "(pg, 1) \<in> held" and v: "va \<noteq> 0 \<Longrightarrow> (va, 1) \<in> held" using own by auto
  have T: "t < NSIZES" "sz < LARGEST_SUBPAGE_SIZE" "sz \<le> sizes ! t" using t by (simp_all add: fits_type_def)
  have ins: "held - pages_of ?k sz \<union> pages_of ?k sz = held" "R - {(w, i * 32 + j)} \<union> {(w, i * 32 + j)} = R" using own R by blast+
  have v': "va \<noteq> 0 \<longrightarrow> (va, 1) \<in> held \<and> va \<noteq> pg \<and> va mod PAGE_SIZE = 0" using v va by simp
  show ?thesis using allocpagerefpage_ok [OF k pg R T(1) v']
  proof (elim disjE exE conjE)
    fix h'
    assume a: "allocpagerefpage t pg w i j va h = Done (h', Go (K_GiveUp pg))" "va = 0" "h' = h"
    have "kabs h held (R - {(w, i * 32 + j)}) A" by (rule kabs_mono [OF k]) blast
    then have "section_go ?k sz (K_GiveUp pg) held R A h" using T a(2) ins(1) by (auto simp: section_go_def)
    then show ?thesis using a by (auto simp: section_res_def)
  next
    assume a: "allocpagerefpage t pg w i j va h = Done (h, Go (K_FreeVa t pg w i j va))" "va \<noteq> 0" "kr_page (kh_roots h ! w) \<noteq> 0"
    have e: "pages_of (K_FreeVa t pg w i j va) sz = pages_of ?k sz" using a(2) by auto
    have "section_go ?k sz (K_FreeVa t pg w i j va) held R A h"
      unfolding section_go_def e using k t va(1) a(3) ins by (auto simp del: pages_of.simps)
    then show ?thesis using a by (auto simp: section_res_def)
  next
    fix h' b
    assume a: "allocpagerefpage t pg w i j va h = Done (h', Ret b)"
      "kabs h' ((if va = 0 then held else held - {(va, 1)}) - {(pg, 1)}) (R - {(w, i * 32 + j)}) (insert (b, sizes ! t) A)" "b \<notin> fst ` A" "b \<noteq> 0"
    have "(if va = 0 then held else held - {(va, 1)}) - {(pg, 1)} = held - pages_of ?k sz" by auto
    then have "section_ret ?k sz b held R A h'" using a T unfolding section_ret_def by (auto simp del: pages_of.simps)
    then show ?thesis using a(1) by (auto simp: section_res_def)
  qed
qed

lemma section_freeva:
  assumes k: "kabs h held R A" and t: "fits_type t sz" and va: "va \<noteq> pg" and nz: "kr_page (kh_roots h ! w) \<noteq> 0"
    and own: "(pg, 1) \<in> held" "(va, 1) \<in> held" and R: "(w, i * 32 + j) \<in> R"
  shows "\<exists>h' r. ksection (K_FreeVa t pg w i j va) h = Done (h', r) \<and> section_res (K_FreeVa t pg w i j va) sz r held R A h'"
proof -
  obtain h' where h': "put_pages va h = Done h'" "kabs h' (held - {(va, 1)}) R A" "kh_roots h' = kh_roots h"
    using put_pages_ok [OF k own(2)] by blast
  have "held - {(pg, 1), (va, 1)} \<union> {(pg, 1)} = held - {(va, 1)}" "R - {(w, i * 32 + j)} \<union> {(w, i * 32 + j)} = R"
    using own va R by auto
  then have "section_go (K_FreeVa t pg w i j va) sz (K_Relock t pg w i j) held R A h'"
    unfolding section_go_def using h'(2,3) t nz va by auto
  then show ?thesis using h'(1) by (simp add: section_res_def)
qed

lemma section_relock:
  assumes k: "kabs h held R A" and t: "fits_type t sz" and nz: "kr_page (kh_roots h ! w) \<noteq> 0"
    and own: "(pg, 1) \<in> held" and R: "(w, i * 32 + j) \<in> R"
  shows "\<exists>h' r. ksection (K_Relock t pg w i j) h = Done (h', r) \<and> section_res (K_Relock t pg w i j) sz r held R A h'"
proof -
  have T: "t < NSIZES" "sz < LARGEST_SUBPAGE_SIZE" "sz \<le> sizes ! t" using t by (simp_all add: fits_type_def)
  obtain h' b where a: "ref_ready t pg w i j h = Done (h', Ret b)"
    "kabs h' (held - {(pg, 1)}) (R - {(w, i * 32 + j)}) (insert (b, sizes ! t) A)" "b \<notin> fst ` A" "b \<noteq> 0"
    using ref_ready_ok [OF k own R T(1)] nz by blast
  then have "section_ret (K_Relock t pg w i j) sz b held R A h'" using T by (auto simp: section_ret_def)
  then show ?thesis using a(1) nz by (simp add: section_res_def)
qed

lemma section_put:
  assumes k: "kabs h held R A" and own: "(va, n) \<in> held"
    and e: "ksection x h = bindo (put_pages va h) (\<lambda>h. Done (h, Ret 0))" "pages_of x sz = {(va, n)}" "slots_of x = {}" "blocks_of x sz = {}"
  shows "\<exists>h' r. ksection x h = Done (h', r) \<and> section_res x sz r held R A h'"
proof -
  obtain h' where h': "put_pages va h = Done h'" "kabs h' (held - {(va, n)}) R A" using put_pages_ok [OF k own] by blast
  then have "section_ret x sz 0 held R A h'" using e by (auto simp: section_ret_def)
  then show ?thesis using h'(1) e(1) by (simp add: section_res_def)
qed

lemma section_big:
  assumes k: "kabs h held R A" and sz: "LARGEST_SUBPAGE_SIZE \<le> sz" "sz \<le> MAX_REQUEST"
  shows "\<exists>h' r. ksection (K_Big sz) h = Done (h', r) \<and> section_res (K_Big sz) sz r held R A h'"
proof -
  obtain h' va where g: "get_pages (npages sz) h = (h', va)" by (meson surj_pair)
  note o = get_pages_ok [OF k npages_bounds(1,2) [OF sz] g]
  have "section_ret (K_Big sz) sz va held R A h'" using o(1,2) sz by (cases "va = 0") (auto simp: section_ret_def)
  moreover have "va \<noteq> 0 \<longrightarrow> va mod PAGE_SIZE = 0" using o(2) by simp
  then have "ksection (K_Big sz) h = Done (h', Ret va)" using g by (auto simp: npages_def Let_def)
  ultimately show ?thesis by (simp add: section_res_def)
qed

lemma section_free:
  assumes k: "kabs h held R A" and own: "pages_of (K_Free p) sz \<subseteq> held" "blocks_of (K_Free p) sz \<subseteq> fst ` A"
  shows "\<exists>h' r. ksection (K_Free p) h = Done (h', r) \<and> section_res (K_Free p) sz r held R A h'"
proof (cases "sz < LARGEST_SUBPAGE_SIZE")
  case True
  then obtain s where s: "(p, s) \<in> A" using own(2) by auto
  have nz: "p \<noteq> 0" using kabs_block(5) [OF k s] .
  note fr = fst_remove [OF k s]
  show ?thesis using subpage_kfree_live [OF k s]
  proof (elim disjE exE conjE)
    fix h'
    assume a: "subpage_kfree p h = Done (h', Some (Ret 0))" "kabs h' held R (A - {(p, s)})"
    then have "section_ret (K_Free p) sz 0 held R A h'" using True fr by (auto simp: section_ret_def)
    then show ?thesis using a(1) nz by (simp add: section_res_def kfree_section_def)
  next
    fix h' pg
    assume a: "subpage_kfree p h = Done (h', Some (Go (K_FreePages pg)))" "(pg, 1) \<notin> held" "kabs h' (insert (pg, 1) held) R (A - {(p, s)})"
    then have "section_go (K_Free p) sz (K_FreePages pg) held R A h'" using True fr by (auto simp: section_go_def)
    then show ?thesis using a(1) nz by (simp add: section_res_def kfree_section_def)
  qed
next
  case False
  then have h: "(p, npages sz) \<in> held" using own(1) by simp
  have "insert (p, npages sz) (held - {(p, npages sz)}) = held" using h by blast
  then have "section_go (K_Free p) sz (K_FreePages p) held R A h" using k False by (auto simp: section_go_def)
  then show ?thesis using subpage_kfree_held [OF k h] by (simp add: section_res_def kfree_section_def)
qed

text \<open>The section that takes a reference slot.\<close>

fun takes_ref :: "kpend \<Rightarrow> bool" where
  "takes_ref (K_HavePage t pg) = True"
| "takes_ref k = False"

lemma ksection_ok:
  assumes k: "kabs h held R A" and ro: "takes_ref x \<longrightarrow> roots_open h" and ok: "thread_ok h x sz"
    and own: "pages_of x sz \<subseteq> held" "slots_of x \<subseteq> R" "blocks_of x sz \<subseteq> fst ` A"
  shows "\<exists>h' r. ksection x h = Done (h', r) \<and> section_res x sz r held R A h'"
proof (cases x)
  case (K_Malloc z)
  then show ?thesis using section_malloc [OF k] ok by simp
next
  case (K_GetPage t)
  then show ?thesis using section_getpage [OF k] ok by simp
next
  case (K_HavePage t pg)
  then show ?thesis using section_havepage [OF k] ro ok own by simp
next
  case (K_GetRefPage t pg w i j)
  then show ?thesis using section_getrefpage [OF k] ok own by simp
next
  case (K_HaveRefPage t pg w i j va)
  then show ?thesis using section_haverefpage [OF k, of t sz va pg w i j] ok own by (simp del: ksection.simps)
next
  case (K_FreeVa t pg w i j va)
  then show ?thesis using section_freeva [OF k, of t sz va pg w i j] ok own by (simp del: ksection.simps)
next
  case (K_Relock t pg w i j)
  then show ?thesis using section_relock [OF k, of t sz w pg i j] ok own by (simp del: ksection.simps)
next
  case (K_GiveUp pg)
  then show ?thesis using section_put [OF k, of pg 1 x sz] own by simp
next
  case (K_Big z)
  then show ?thesis using section_big [OF k] ok by (simp del: ksection.simps)
next
  case (K_Free p)
  then show ?thesis using section_free [OF k] own by (simp del: ksection.simps)
next
  case (K_FreePages va)
  then show ?thesis using section_put [OF k, of va "if sz < LARGEST_SUBPAGE_SIZE then 1 else npages sz" x sz] own by simp
qed

end
