(* ===== verification/Kmalloc_Run.thy ===== *)
theory Kmalloc_Run
  imports Kmalloc_Sections
begin

text \<open>
  The kernel heap as its clients see it: any number of threads call \<^verbatim>\<open>kmalloc\<close> and \<^verbatim>\<open>kfree\<close>, write to their
  blocks, and interleave at the points where the allocator gives up its spinlock, while other parts of the kernel
  allocate and free whole pages.
\<close>

section \<open>Threads\<close>

text \<open>
  \<open>ks_pend\<close> says where each thread is in the allocator, with the size of its request; \<open>ks_live\<close> are the blocks that clients hold, with
  the size they asked for; \<open>ks_other\<close> are the pages of the rest of the kernel.
\<close>

record kstate =
  ks_heap :: kheap
  ks_pend :: "nat \<Rightarrow> (kpend \<times> nat) option"
  ks_live :: "(nat \<times> nat) set"
  ks_other :: "(nat \<times> nat) set"

inductive kheap_step :: "kstate \<Rightarrow> kstate \<Rightarrow> bool" where
  call_kmalloc: "ks_pend s t = None \<Longrightarrow> sz \<le> MAX_REQUEST \<Longrightarrow>
    kheap_step s (s\<lparr>ks_pend := (ks_pend s)(t \<mapsto> (kmalloc_entry sz, sz))\<rparr>)"
| call_kfree: "ks_pend s t = None \<Longrightarrow> (p, sz) \<in> ks_live s \<Longrightarrow>
    kheap_step s (s\<lparr>ks_pend := (ks_pend s)(t \<mapsto> (K_Free p, sz)), ks_live := ks_live s - {(p, sz)}\<rparr>)"
| go_on: "ks_pend s t = Some (k, sz) \<Longrightarrow> ksection k (ks_heap s) = Done (h', Go k') \<Longrightarrow>
    kheap_step s (s\<lparr>ks_heap := h', ks_pend := (ks_pend s)(t \<mapsto> (k', sz))\<rparr>)"
| come_back: "ks_pend s t = Some (k, sz) \<Longrightarrow> ksection k (ks_heap s) = Done (h', Ret p) \<Longrightarrow>
    kheap_step s (s\<lparr>ks_heap := h', ks_pend := (ks_pend s)(t := None),
      ks_live := (if p = 0 then ks_live s else insert (p, sz) (ks_live s))\<rparr>)"
| client_write: "(p, sz) \<in> ks_live s \<Longrightarrow> p \<le> a \<Longrightarrow> a < p + sz \<Longrightarrow>
    kheap_step s (s\<lparr>ks_heap := (ks_heap s)\<lparr>kh_mem := (kh_mem (ks_heap s))(a := v)\<rparr>\<rparr>)"
| other_alloc: "get_pages n (ks_heap s) = (h', va) \<Longrightarrow> va \<noteq> 0 \<Longrightarrow> 0 < n \<Longrightarrow> n < 2 ^ 19 \<Longrightarrow>
    kheap_step s (s\<lparr>ks_heap := h', ks_other := insert (va, n) (ks_other s)\<rparr>)"
| other_free: "(va, n) \<in> ks_other s \<Longrightarrow> put_pages va (ks_heap s) = Done h' \<Longrightarrow>
    kheap_step s (s\<lparr>ks_heap := h', ks_other := ks_other s - {(va, n)}\<rparr>)"

definition kstate_boot :: "vmstate \<Rightarrow> (nat \<Rightarrow> nat) \<Rightarrow> (nat \<Rightarrow> pageref) \<Rightarrow> (nat \<times> nat) set \<Rightarrow> kstate" where
  "kstate_boot vm mem refs other = \<lparr>ks_heap = kheap_boot vm mem refs, ks_pend = (\<lambda>t. None), ks_live = {}, ks_other = other\<rparr>"

text \<open>The states that are reached as long as no root without a page has all its slots taken.\<close>

inductive kheap_reach :: "kstate \<Rightarrow> bool" where
  boot: "kpages other vm \<Longrightarrow> kheap_reach (kstate_boot vm mem refs other)"
| step: "kheap_reach s \<Longrightarrow> roots_open (ks_heap s) \<Longrightarrow> kheap_step s s' \<Longrightarrow> kheap_reach s'"

datatype owner = Other | Client | Thread nat

definition own_pages :: "kstate \<Rightarrow> owner \<Rightarrow> (nat \<times> nat) set" where
  "own_pages s x = (case x of Other \<Rightarrow> ks_other s
     | Client \<Rightarrow> {(p, npages sz) | p sz. (p, sz) \<in> ks_live s \<and> LARGEST_SUBPAGE_SIZE \<le> sz}
     | Thread t \<Rightarrow> (case ks_pend s t of None \<Rightarrow> {} | Some (k, sz) \<Rightarrow> pages_of k sz))"

definition own_slots :: "kstate \<Rightarrow> owner \<Rightarrow> (nat \<times> nat) set" where
  "own_slots s x = (case x of Thread t \<Rightarrow> (case ks_pend s t of None \<Rightarrow> {} | Some (k, sz) \<Rightarrow> slots_of k) | _ \<Rightarrow> {})"

definition own_blocks :: "kstate \<Rightarrow> owner \<Rightarrow> nat set" where
  "own_blocks s x = (case x of Other \<Rightarrow> {}
     | Client \<Rightarrow> {p. \<exists>sz. (p, sz) \<in> ks_live s \<and> sz < LARGEST_SUBPAGE_SIZE}
     | Thread t \<Rightarrow> (case ks_pend s t of None \<Rightarrow> {} | Some (k, sz) \<Rightarrow> blocks_of k sz))"

definition splits :: "('o \<Rightarrow> 'a set) \<Rightarrow> 'a set \<Rightarrow> bool" where
  "splits own H \<longleftrightarrow> H = (\<Union>x. own x) \<and> (\<forall>x y. x \<noteq> y \<longrightarrow> own x \<inter> own y = {})"

lemma splits_upd:
  assumes "splits own H" "X \<inter> (H - own x) = {}"
  shows "splits (own(x := X)) (H - own x \<union> X)"
proof -
  have H: "H = (\<Union>y. own y)" "\<And>y z. y \<noteq> z \<Longrightarrow> own y \<inter> own z = {}" using assms(1) by (auto simp: splits_def)
  have "H - own x = (\<Union>y\<in>- {x}. own y)" using H by blast
  moreover have "(\<Union>y. (own(x := X)) y) = (\<Union>y\<in>- {x}. own y) \<union> X" by (auto split: if_splits)
  moreover have "(own(x := X)) y \<inter> (own(x := X)) z = {}" if "y \<noteq> z" for y z
    using H(2) that assms(2) calculation(1) by (cases "y = x"; cases "z = x") auto
  ultimately show ?thesis by (simp add: splits_def)
qed

lemma splits_sub: "splits own H \<Longrightarrow> own x \<subseteq> H"
  by (auto simp: splits_def)

lemma splits_move:
  assumes "splits own H" "X \<subseteq> own x" "x \<noteq> y"
  shows "splits (own(x := own x - X, y := own y \<union> X)) H"
proof -
  let ?o = "own(x := own x - X)"
  have sub: "own x \<subseteq> H" "own y \<subseteq> H" using splits_sub [OF assms(1)] by blast+
  have "H - own x \<union> (own x - X) = H - X" using sub(1) assms(2) by blast
  then have 1: "splits ?o (H - X)" using splits_upd [OF assms(1), of "own x - X" x] by auto
  have "splits (?o(y := own y \<union> X)) (H - X - ?o y \<union> (own y \<union> X))"
    by (rule splits_upd [OF 1]) (use assms(3) in auto)
  moreover have "H - X - ?o y \<union> (own y \<union> X) = H" using sub assms(2,3) by auto
  ultimately show ?thesis by simp
qed

text \<open>The invariant of the threads.\<close>

definition live_ok :: "(nat \<times> nat) set \<Rightarrow> (nat \<times> nat) set \<Rightarrow> bool" where
  "live_ok L A \<longleftrightarrow> (\<forall>p sz. (p, sz) \<in> L \<longrightarrow> sz \<le> MAX_REQUEST \<and> (sz < LARGEST_SUBPAGE_SIZE \<longrightarrow> (\<exists>s. (p, s) \<in> A \<and> sz \<le> s))) \<and>
     (\<forall>p sz sz'. (p, sz) \<in> L \<and> (p, sz') \<in> L \<longrightarrow> sz = sz')"

definition ks_inv :: "kstate \<Rightarrow> (nat \<times> nat) set \<Rightarrow> (nat \<times> nat) set \<Rightarrow> (nat \<times> nat) set \<Rightarrow> bool" where
  "ks_inv s held R A \<longleftrightarrow> kabs (ks_heap s) held R A \<and> splits (own_pages s) held \<and> splits (own_slots s) R \<and>
     splits (own_blocks s) (fst ` A) \<and> (\<forall>t k sz. ks_pend s t = Some (k, sz) \<longrightarrow> thread_ok (ks_heap s) k sz \<and> sz \<le> MAX_REQUEST) \<and>
     live_ok (ks_live s) A"

lemma ks_invD:
  assumes "ks_inv s held R A"
  shows "kabs (ks_heap s) held R A" "splits (own_pages s) held" "splits (own_slots s) R" "splits (own_blocks s) (fst ` A)"
    "\<And>t k sz. ks_pend s t = Some (k, sz) \<Longrightarrow> thread_ok (ks_heap s) k sz \<and> sz \<le> MAX_REQUEST" "live_ok (ks_live s) A"
  using assms by (auto simp: ks_inv_def)

lemma own_pend:
  "own_pages (s\<lparr>ks_heap := h, ks_pend := (ks_pend s)(t := x)\<rparr>) = (own_pages s)(Thread t := (case x of None \<Rightarrow> {} | Some (k, sz) \<Rightarrow> pages_of k sz))"
  "own_slots (s\<lparr>ks_heap := h, ks_pend := (ks_pend s)(t := x)\<rparr>) = (own_slots s)(Thread t := (case x of None \<Rightarrow> {} | Some (k, sz) \<Rightarrow> slots_of k))"
  "own_blocks (s\<lparr>ks_heap := h, ks_pend := (ks_pend s)(t := x)\<rparr>) = (own_blocks s)(Thread t := (case x of None \<Rightarrow> {} | Some (k, sz) \<Rightarrow> blocks_of k sz))"
  by (auto simp: fun_eq_iff own_pages_def own_slots_def own_blocks_def split: owner.split)

lemma own_live:
  "own_pages (s\<lparr>ks_live := L\<rparr>) = (own_pages s)(Client := {(p, npages sz) | p sz. (p, sz) \<in> L \<and> LARGEST_SUBPAGE_SIZE \<le> sz})"
  "own_slots (s\<lparr>ks_live := L\<rparr>) = own_slots s"
  "own_blocks (s\<lparr>ks_live := L\<rparr>) = (own_blocks s)(Client := {p. \<exists>sz. (p, sz) \<in> L \<and> sz < LARGEST_SUBPAGE_SIZE})"
  by (auto simp: fun_eq_iff own_pages_def own_slots_def own_blocks_def split: owner.split)

lemma own_other:
  "own_pages (s\<lparr>ks_heap := h, ks_other := X\<rparr>) = (own_pages s)(Other := X)"
  "own_slots (s\<lparr>ks_heap := h, ks_other := X\<rparr>) = own_slots s" "own_blocks (s\<lparr>ks_heap := h, ks_other := X\<rparr>) = own_blocks s"
  by (auto simp: fun_eq_iff own_pages_def own_slots_def own_blocks_def split: owner.split)

lemma own_thread:
  assumes "ks_pend s t = Some (k, sz)"
  shows "own_pages s (Thread t) = pages_of k sz" "own_slots s (Thread t) = slots_of k" "own_blocks s (Thread t) = blocks_of k sz"
  using assms by (simp_all add: own_pages_def own_slots_def own_blocks_def)

lemma own_idle:
  assumes "ks_pend s t = None"
  shows "own_pages s (Thread t) = {}" "own_slots s (Thread t) = {}" "own_blocks s (Thread t) = {}"
  using assms by (simp_all add: own_pages_def own_slots_def own_blocks_def)

lemma live_okD:
  assumes "live_ok L A" "(p, sz) \<in> L"
  shows "sz < LARGEST_SUBPAGE_SIZE \<Longrightarrow> \<exists>s. (p, s) \<in> A \<and> sz \<le> s" "sz \<le> MAX_REQUEST" "(p, sz') \<in> L \<Longrightarrow> sz' = sz"
  using assms unfolding live_ok_def by blast+

lemma live_shrink:
  assumes k: "kabs h held R A" and l: "live_ok L A" and b: "splits own (fst ` A)" "own Client = {p. \<exists>sz. (p, sz) \<in> L \<and> sz < LARGEST_SUBPAGE_SIZE}"
    and A: "A' \<subseteq> A" "fst ` A' = fst ` A - own (Thread t)"
  shows "live_ok L A'"
proof -
  have "\<exists>s. (p, s) \<in> A' \<and> sz \<le> s" if p: "(p, sz) \<in> L" "sz < LARGEST_SUBPAGE_SIZE" for p sz
  proof -
    obtain s where s: "(p, s) \<in> A" "sz \<le> s" using live_okD(1) [OF l p] by blast
    have "p \<in> own Client" using b(2) p by auto
    then have "p \<notin> own (Thread t)" using b(1) by (auto simp: splits_def)
    then have "p \<in> fst ` A'" using A(2) s(1) by force
    then obtain z where "(p, z) \<in> A'" by auto
    then show ?thesis using kabs_fst_inj [OF k s(1), of z] A(1) s(2) by auto
  qed
  then show ?thesis using l unfolding live_ok_def by blast
qed

lemma kabs_kpages:
  assumes "kabs h held R A"
  obtains L where "kpages L (kh_vm h)" "held \<subseteq> L"
proof -
  obtain ps where "space_ok h ps held" using assms by (auto simp: kabs_def kinv0_def)
  then show ?thesis using that [of "heap_pages h ps \<union> root_pages h \<union> held"] by (auto simp: space_ok_def)
qed

lemma kabs_held:
  assumes "kabs h held R A" "(va, n) \<in> held"
  shows "0 < n" "va mod PAGE_SIZE = 0" "MIPS_KSEG0 \<le> va" "va + n * PAGE_SIZE \<le> 0xa0000000" "(va, m) \<in> held \<Longrightarrow> m = n"
    "b \<in> held \<Longrightarrow> b \<noteq> (va, n) \<Longrightarrow> span (va, n) \<inter> span b = {}"
proof -
  obtain L where L: "kpages L (kh_vm h)" "held \<subseteq> L" using kabs_kpages [OF assms(1)] .
  then have v: "(va, n) \<in> L" using assms(2) by blast
  show "0 < n" "va mod PAGE_SIZE = 0" "MIPS_KSEG0 \<le> va" "va + n * PAGE_SIZE \<le> 0xa0000000"
    using kp.place [OF L(1) v] by simp_all
  show "(va, m) \<in> held \<Longrightarrow> m = n" using kp.same_start [OF L(1) v] L(2) by blast
  show "b \<in> held \<Longrightarrow> b \<noteq> (va, n) \<Longrightarrow> span (va, n) \<inter> span b = {}" using kp.apart [OF L(1) v, of b] L(2) by blast
qed

section \<open>Every step keeps the invariant\<close>

lemma inv_pend:
  assumes inv: "ks_inv s held R A" and idle: "ks_pend s t = None" and ok: "thread_ok (ks_heap s) k sz" "sz \<le> MAX_REQUEST"
    and none: "pages_of k sz = {}" "slots_of k = {}" "blocks_of k sz = {}"
  shows "ks_inv (s\<lparr>ks_pend := (ks_pend s)(t \<mapsto> (k, sz))\<rparr>) held R A"
proof -
  note i = ks_invD [OF inv] and o = own_idle [OF idle]
  have e: "s\<lparr>ks_pend := (ks_pend s)(t \<mapsto> (k, sz))\<rparr> = s\<lparr>ks_heap := ks_heap s, ks_pend := (ks_pend s)(t := Some (k, sz))\<rparr>" by simp
  have "own_pages (s\<lparr>ks_pend := (ks_pend s)(t \<mapsto> (k, sz))\<rparr>) = own_pages s" "own_slots (s\<lparr>ks_pend := (ks_pend s)(t \<mapsto> (k, sz))\<rparr>) = own_slots s"
    "own_blocks (s\<lparr>ks_pend := (ks_pend s)(t \<mapsto> (k, sz))\<rparr>) = own_blocks s"
    unfolding e own_pend using none o by (auto simp: fun_eq_iff)
  then show ?thesis using i ok by (auto simp: ks_inv_def)
qed

lemma inv_go:
  assumes inv: "ks_inv s held R A" and t: "ks_pend s t = Some (k, sz)" and keep: "keeps_roots (ks_heap s) h'"
    and go: "section_go k sz k' held R A h'"
  shows "\<exists>held' R' A'. ks_inv (s\<lparr>ks_heap := h', ks_pend := (ks_pend s)(t \<mapsto> (k', sz))\<rparr>) held' R' A'"
proof -
  let ?s = "s\<lparr>ks_heap := h', ks_pend := (ks_pend s)(t \<mapsto> (k', sz))\<rparr>"
  note i = ks_invD [OF inv] and o = own_thread [OF t]
  obtain A' where A': "kabs h' (held - pages_of k sz \<union> pages_of k' sz) (R - slots_of k \<union> slots_of k') A'" "A' \<subseteq> A"
    "fst ` A' = fst ` A - blocks_of k sz"
    and d: "pages_of k' sz \<inter> (held - pages_of k sz) = {}" "slots_of k' \<inter> (R - slots_of k) = {}" "blocks_of k' sz = {}"
    and ok: "thread_ok h' k' sz" using go by (auto simp: section_go_def)
  have "splits (own_pages ?s) (held - pages_of k sz \<union> pages_of k' sz)"
    unfolding own_pend using splits_upd [OF i(2), of "pages_of k' sz" "Thread t"] d(1) o by simp
  moreover have "splits (own_slots ?s) (R - slots_of k \<union> slots_of k')"
    unfolding own_pend using splits_upd [OF i(3), of "slots_of k'" "Thread t"] d(2) o by simp
  moreover have "splits (own_blocks ?s) (fst ` A')"
    unfolding own_pend using splits_upd [OF i(4), of "{}" "Thread t"] d(3) o A'(3) by simp
  moreover have "live_ok (ks_live ?s) A'"
    using live_shrink [OF i(1,6,4) _ A'(2), of t] A'(3) o by (simp add: own_blocks_def)
  moreover have "thread_ok h' x z \<and> z \<le> MAX_REQUEST" if "ks_pend ?s u = Some (x, z)" for u x z
    using that i(5) [of u x z] i(5) [OF t] ok thread_ok_keeps [OF _ keep] by (auto split: if_splits)
  ultimately show ?thesis using A'(1) by (auto simp: ks_inv_def)
qed

lemma inv_ret0:
  assumes inv: "ks_inv s held R A" and t: "ks_pend s t = Some (k, sz)" and keep: "keeps_roots (ks_heap s) h'"
    and ret: "section_ret k sz 0 held R A h'"
  shows "\<exists>held' R' A'. ks_inv (s\<lparr>ks_heap := h', ks_pend := (ks_pend s)(t := None)\<rparr>) held' R' A'"
proof -
  let ?s = "s\<lparr>ks_heap := h', ks_pend := (ks_pend s)(t := None)\<rparr>"
  note i = ks_invD [OF inv] and o = own_thread [OF t]
  obtain A' where A': "kabs h' (held - pages_of k sz) (R - slots_of k) A'" "A' \<subseteq> A" "fst ` A' = fst ` A - blocks_of k sz"
    using ret by (auto simp: section_ret_def)
  have "splits (own_pages ?s) (held - pages_of k sz)"
    unfolding own_pend using splits_upd [OF i(2), of "{}" "Thread t"] o by simp
  moreover have "splits (own_slots ?s) (R - slots_of k)"
    unfolding own_pend using splits_upd [OF i(3), of "{}" "Thread t"] o by simp
  moreover have "splits (own_blocks ?s) (fst ` A')"
    unfolding own_pend using splits_upd [OF i(4), of "{}" "Thread t"] o A'(3) by simp
  moreover have "live_ok (ks_live ?s) A'"
    using live_shrink [OF i(1,6,4) _ A'(2), of t] A'(3) o by (simp add: own_blocks_def)
  moreover have "thread_ok h' x z \<and> z \<le> MAX_REQUEST" if "ks_pend ?s u = Some (x, z)" for u x z
    using that i(5) [of u x z] thread_ok_keeps [OF _ keep] by (auto split: if_splits)
  ultimately show ?thesis using A'(1) by (auto simp: ks_inv_def)
qed

lemma live_at:
  assumes inv: "ks_inv s held R A" and p: "(p, sz) \<in> ks_live s"
  shows "if sz < LARGEST_SUBPAGE_SIZE then \<exists>z. (p, z) \<in> A \<and> sz \<le> z else (p, npages sz) \<in> held \<and> sz \<le> npages sz * PAGE_SIZE"
proof (cases "sz < LARGEST_SUBPAGE_SIZE")
  case True
  then show ?thesis using live_okD(1) [OF ks_invD(6) [OF inv] p] by simp
next
  case False
  then have "(p, npages sz) \<in> own_pages s Client" using p by (auto simp: own_pages_def)
  then show ?thesis using splits_sub [OF ks_invD(2) [OF inv]] npages_bounds(3) [of sz] live_okD(2) [OF ks_invD(6) [OF inv] p] False by auto
qed

lemma fresh_block:
  assumes k: "kabs h held R A" and p: "(p, z) \<in> A"
  shows "(p, n) \<notin> held"
proof
  assume h: "(p, n) \<in> held"
  show False using kabs_block_held [OF k p h] kabs_block(4) [OF k p] kabs_held(1) [OF k h] by simp
qed

lemma live_new:
  assumes l: "live_ok L A" and A: "A \<subseteq> A'" and new: "\<And>z. (p, z) \<notin> L"
    and sz: "sz \<le> MAX_REQUEST" "sz < LARGEST_SUBPAGE_SIZE \<Longrightarrow> \<exists>s. (p, s) \<in> A' \<and> sz \<le> s"
  shows "live_ok (insert (p, sz) L) A'"
  unfolding live_ok_def
proof (intro conjI allI impI; (elim conjE)?)
  fix q z assume q: "(q, z) \<in> insert (p, sz) L"
  show "z \<le> MAX_REQUEST" using q sz(1) live_okD(2) [OF l, of q z] by auto
  show "\<exists>s. (q, s) \<in> A' \<and> z \<le> s" if "z < LARGEST_SUBPAGE_SIZE"
    using q sz(2) that live_okD(1) [OF l, of q z] A by auto
  fix z' assume q': "(q, z') \<in> insert (p, sz) L"
  show "z = z'" using q q' new live_okD(3) [OF l, of q z z'] by auto
qed

lemma inv_ret_small:
  assumes inv: "ks_inv s held R A" and t: "ks_pend s t = Some (k, sz)" and keep: "keeps_roots (ks_heap s) h'"
    and p: "p \<noteq> 0" "sz < LARGEST_SUBPAGE_SIZE" and ret: "section_ret k sz p held R A h'"
  shows "\<exists>held' R' A'. ks_inv (s\<lparr>ks_heap := h', ks_pend := (ks_pend s)(t := None), ks_live := insert (p, sz) (ks_live s)\<rparr>) held' R' A'"
proof -
  let ?u = "s\<lparr>ks_heap := h', ks_pend := (ks_pend s)(t := None)\<rparr>" and ?L = "insert (p, sz) (ks_live s)"
  note i = ks_invD [OF inv] and o = own_thread [OF t]
  obtain z where z: "kabs h' (held - pages_of k sz) (R - slots_of k) (insert (p, z) A)" "p \<notin> fst ` A" "sz \<le> z" and b: "blocks_of k sz = {}"
    using ret p by (auto simp: section_ret_def)
  have pg: "splits (own_pages ?u) (held - pages_of k sz)"
    unfolding own_pend using splits_upd [OF i(2), of "{}" "Thread t"] o by simp
  have cl: "own_pages ?u Client = own_pages s Client" by (simp add: own_pages_def)
  have nolarge: "(p, x) \<notin> own_pages s Client" for x
    using fresh_block [OF z(1), of p z] splits_sub [OF pg, of Client] cl by auto
  have nosmall: "p \<notin> own_blocks s Client" using splits_sub [OF i(4), of Client] z(2) by auto
  have new: "(p, x) \<notin> ks_live s" for x
  proof
    assume x: "(p, x) \<in> ks_live s"
    show False
    proof (cases "x < LARGEST_SUBPAGE_SIZE")
      case True
      then show False using nosmall x by (auto simp: own_blocks_def)
    next
      case False
      then have "(p, npages x) \<in> own_pages s Client" using x by (auto simp: own_pages_def)
      then show False using nolarge by blast
    qed
  qed
  have "{(q, npages x) | q x. (q, x) \<in> ?L \<and> LARGEST_SUBPAGE_SIZE \<le> x} = own_pages ?u Client"
    using p(2) by (auto simp: own_pages_def)
  then have "splits (own_pages (?u\<lparr>ks_live := ?L\<rparr>)) (held - pages_of k sz)" unfolding own_live using pg by simp
  moreover have "splits (own_slots (?u\<lparr>ks_live := ?L\<rparr>)) (R - slots_of k)"
    unfolding own_live own_pend using splits_upd [OF i(3), of "{}" "Thread t"] o by simp
  moreover have "splits (own_blocks (?u\<lparr>ks_live := ?L\<rparr>)) (fst ` insert (p, z) A)"
  proof -
    have e: "own_blocks ?u = own_blocks s" unfolding own_pend using o b by (auto simp: fun_eq_iff)
    have "{q. \<exists>x. (q, x) \<in> ?L \<and> x < LARGEST_SUBPAGE_SIZE} = insert p (own_blocks s Client)"
      using p(2) by (auto simp: own_blocks_def)
    moreover have "insert p (own_blocks s Client) \<inter> (fst ` A - own_blocks s Client) = {}" using z(2) by auto
    moreover have "fst ` A - own_blocks s Client \<union> insert p (own_blocks s Client) = fst ` insert (p, z) A"
      using splits_sub [OF i(4), of Client] by auto
    ultimately show ?thesis unfolding own_live e using splits_upd [OF i(4), of "insert p (own_blocks s Client)" Client] by simp
  qed
  moreover have "live_ok ?L (insert (p, z) A)"
    using live_new [OF i(6) _ new, of "insert (p, z) A" sz] z(3) i(5) [OF t] by auto
  moreover have "thread_ok h' x y \<and> y \<le> MAX_REQUEST" if "ks_pend ?u v = Some (x, y)" for v x y
    using that i(5) [of v x y] thread_ok_keeps [OF _ keep] by (auto split: if_splits)
  ultimately have "ks_inv (?u\<lparr>ks_live := ?L\<rparr>) (held - pages_of k sz) (R - slots_of k) (insert (p, z) A)"
    unfolding ks_inv_def using z(1) by simp
  then show ?thesis by blast
qed

lemma inv_ret_large:
  assumes inv: "ks_inv s held R A" and t: "ks_pend s t = Some (k, sz)" and keep: "keeps_roots (ks_heap s) h'"
    and p: "p \<noteq> 0" "\<not> sz < LARGEST_SUBPAGE_SIZE" and ret: "section_ret k sz p held R A h'"
  shows "\<exists>held' R' A'. ks_inv (s\<lparr>ks_heap := h', ks_pend := (ks_pend s)(t := None), ks_live := insert (p, sz) (ks_live s)\<rparr>) held' R' A'"
proof -
  let ?u = "s\<lparr>ks_heap := h', ks_pend := (ks_pend s)(t := None)\<rparr>" and ?L = "insert (p, sz) (ks_live s)"
  note i = ks_invD [OF inv] and o = own_thread [OF t]
  have z: "kabs h' (insert (p, npages sz) held) (R - slots_of k) A" "(p, npages sz) \<notin> held" and b: "blocks_of k sz = {}" "pages_of k sz = {}"
    using ret p by (auto simp: section_ret_def)
  have nolarge: "(p, x) \<notin> held" for x using kabs_held(5) [OF z(1), of p "npages sz" x] z(2) by auto
  have nosmall: "(p, x) \<notin> A" for x using fresh_block [OF z(1), of p x "npages sz"] by auto
  have new: "(p, x) \<notin> ks_live s" for x
    using live_at [OF inv, of p x] nolarge nosmall by (auto split: if_splits)
  have "{(q, npages x) | q x. (q, x) \<in> ?L \<and> LARGEST_SUBPAGE_SIZE \<le> x} = insert (p, npages sz) (own_pages s Client)"
    using p(2) by (auto simp: own_pages_def not_less)
  moreover have "own_pages ?u = own_pages s" "own_blocks ?u = own_blocks s" unfolding own_pend using o b by (auto simp: fun_eq_iff)
  moreover have "{q. \<exists>x. (q, x) \<in> ?L \<and> x < LARGEST_SUBPAGE_SIZE} = own_blocks s Client"
    using p(2) by (auto simp: own_blocks_def)
  moreover have "held - own_pages s Client \<union> insert (p, npages sz) (own_pages s Client) = insert (p, npages sz) held"
    using splits_sub [OF i(2), of Client] by auto
  ultimately have "splits (own_pages (?u\<lparr>ks_live := ?L\<rparr>)) (insert (p, npages sz) held)" "splits (own_blocks (?u\<lparr>ks_live := ?L\<rparr>)) (fst ` A)"
    unfolding own_live using splits_upd [OF i(2), of "insert (p, npages sz) (own_pages s Client)" Client] z(2) i(4) by auto
  moreover have "splits (own_slots (?u\<lparr>ks_live := ?L\<rparr>)) (R - slots_of k)"
    unfolding own_live own_pend using splits_upd [OF i(3), of "{}" "Thread t"] o by simp
  moreover have "live_ok ?L A" using live_new [OF i(6) _ new, of A sz] p(2) i(5) [OF t] by auto
  moreover have "thread_ok h' x y \<and> y \<le> MAX_REQUEST" if "ks_pend ?u v = Some (x, y)" for v x y
    using that i(5) [of v x y] thread_ok_keeps [OF _ keep] by (auto split: if_splits)
  ultimately show ?thesis using z(1) by (auto simp: ks_inv_def)
qed

lemma live_remove:
  assumes one: "\<forall>z. (p, z) \<in> L \<longrightarrow> z = sz"
  shows "{(q, npages x) | q x. (q, x) \<in> L - {(p, sz)} \<and> LARGEST_SUBPAGE_SIZE \<le> x} =
      {(q, npages x) | q x. (q, x) \<in> L \<and> LARGEST_SUBPAGE_SIZE \<le> x} - pages_of (K_Free p) sz" (is "?l = ?r")
    "{q. \<exists>x. (q, x) \<in> L - {(p, sz)} \<and> x < LARGEST_SUBPAGE_SIZE} =
      {q. \<exists>x. (q, x) \<in> L \<and> x < LARGEST_SUBPAGE_SIZE} - blocks_of (K_Free p) sz" (is "?l' = ?r'")
proof -
  have "(a, b) \<in> ?l \<longleftrightarrow> (a, b) \<in> ?r" for a b
    using one by (cases "a = p") (auto split: if_splits)
  then show "?l = ?r" by (auto simp del: pages_of.simps)
  have "a \<in> ?l' \<longleftrightarrow> a \<in> ?r'" for a
    using one by (cases "a = p") (auto split: if_splits)
  then show "?l' = ?r'" by blast
qed

lemma inv_free:
  assumes inv: "ks_inv s held R A" and idle: "ks_pend s t = None" and p: "(p, sz) \<in> ks_live s"
  shows "ks_inv (s\<lparr>ks_pend := (ks_pend s)(t \<mapsto> (K_Free p, sz)), ks_live := ks_live s - {(p, sz)}\<rparr>) held R A"
proof -
  let ?u = "s\<lparr>ks_heap := ks_heap s, ks_pend := (ks_pend s)(t := Some (K_Free p, sz))\<rparr>" and ?L = "ks_live s - {(p, sz)}"
  note i = ks_invD [OF inv] and o = own_idle [OF idle]
  note one = live_okD(3) [OF i(6) p]
  have sub: "pages_of (K_Free p) sz \<subseteq> own_pages s Client" "blocks_of (K_Free p) sz \<subseteq> own_blocks s Client"
    using p by (auto simp: own_pages_def own_blocks_def not_less)
  have "{(q, npages x) | q x. (q, x) \<in> ?L \<and> LARGEST_SUBPAGE_SIZE \<le> x} = own_pages s Client - pages_of (K_Free p) sz"
    using live_remove(1) [of p "ks_live s" sz] one by (simp add: own_pages_def)
  then have "own_pages (?u\<lparr>ks_live := ?L\<rparr>) = (own_pages s)(Client := own_pages s Client - pages_of (K_Free p) sz,
      Thread t := own_pages s (Thread t) \<union> pages_of (K_Free p) sz)"
    unfolding own_live own_pend o by (auto simp: fun_eq_iff)
  then have 1: "splits (own_pages (?u\<lparr>ks_live := ?L\<rparr>)) held" using splits_move [OF i(2) sub(1)] by simp
  have "{q. \<exists>x. (q, x) \<in> ?L \<and> x < LARGEST_SUBPAGE_SIZE} = own_blocks s Client - blocks_of (K_Free p) sz"
    using live_remove(2) [of p "ks_live s" sz] one by (simp add: own_blocks_def)
  then have "own_blocks (?u\<lparr>ks_live := ?L\<rparr>) = (own_blocks s)(Client := own_blocks s Client - blocks_of (K_Free p) sz,
      Thread t := own_blocks s (Thread t) \<union> blocks_of (K_Free p) sz)"
    unfolding own_live own_pend o by (auto simp: fun_eq_iff)
  then have 2: "splits (own_blocks (?u\<lparr>ks_live := ?L\<rparr>)) (fst ` A)" using splits_move [OF i(4) sub(2)] by simp
  have "own_slots (?u\<lparr>ks_live := ?L\<rparr>) = own_slots s" unfolding own_live own_pend using o by (auto simp: fun_eq_iff)
  then have 3: "splits (own_slots (?u\<lparr>ks_live := ?L\<rparr>)) R" using i(3) by simp
  have 4: "live_ok ?L A" using i(6) unfolding live_ok_def by blast
  have "thread_ok (ks_heap s) x y \<and> y \<le> MAX_REQUEST" if "ks_pend ?u v = Some (x, y)" for v x y
    using that i(5) [of v x y] live_okD(2) [OF i(6) p] by (auto split: if_splits)
  then have "ks_inv (?u\<lparr>ks_live := ?L\<rparr>) held R A" unfolding ks_inv_def using 1 2 3 4 i(1) by simp
  then show ?thesis by simp
qed

lemma inv_heap:
  assumes inv: "ks_inv s held R A" and h: "kabs h' held R A" "keeps_roots (ks_heap s) h'"
  shows "ks_inv (s\<lparr>ks_heap := h'\<rparr>) held R A"
proof -
  have "own_pages (s\<lparr>ks_heap := h'\<rparr>) = own_pages s" "own_slots (s\<lparr>ks_heap := h'\<rparr>) = own_slots s" "own_blocks (s\<lparr>ks_heap := h'\<rparr>) = own_blocks s"
    by (auto simp: fun_eq_iff own_pages_def own_slots_def own_blocks_def split: owner.split)
  then show ?thesis using ks_invD [OF inv] h thread_ok_keeps [OF _ h(2)] unfolding ks_inv_def by simp
qed

lemma inv_write:
  assumes inv: "ks_inv s held R A" and p: "(p, sz) \<in> ks_live s" "p \<le> a" "a < p + sz"
  shows "ks_inv (s\<lparr>ks_heap := (ks_heap s)\<lparr>kh_mem := (kh_mem (ks_heap s))(a := v)\<rparr>\<rparr>) held R A"
proof (rule inv_heap [OF inv])
  show "kabs ((ks_heap s)\<lparr>kh_mem := (kh_mem (ks_heap s))(a := v)\<rparr>) held R A"
  proof (cases "sz < LARGEST_SUBPAGE_SIZE")
    case True
    then obtain z where "(p, z) \<in> A" "sz \<le> z" using live_at [OF inv p(1)] by auto
    then show ?thesis using kabs_write [OF ks_invD(1) [OF inv], of p z a] p by simp
  next
    case False
    then have "(p, npages sz) \<in> held" "a \<in> span (p, npages sz)" using live_at [OF inv p(1)] p by (auto simp: span_def)
    then show ?thesis using kabs_write [OF ks_invD(1) [OF inv], of _ _ a "(p, npages sz)"] by blast
  qed
qed (simp add: keeps_roots_def)

lemma inv_other:
  assumes inv: "ks_inv s held R A" and k: "kabs h' (held - ks_other s \<union> X) R A" "X \<inter> (held - ks_other s) = {}"
    and h: "kh_roots h' = kh_roots (ks_heap s)"
  shows "ks_inv (s\<lparr>ks_heap := h', ks_other := X\<rparr>) (held - ks_other s \<union> X) R A"
proof -
  note i = ks_invD [OF inv]
  have "own_pages s Other = ks_other s" by (simp add: own_pages_def)
  then have "splits (own_pages (s\<lparr>ks_heap := h', ks_other := X\<rparr>)) (held - ks_other s \<union> X)"
    unfolding own_other using splits_upd [OF i(2), of X Other] k(2) by simp
  then show ?thesis unfolding ks_inv_def own_other using i k(1) thread_ok_keeps [OF _ keeps_roots_same [OF h]] by simp
qed

lemma pend_section:
  assumes inv: "ks_inv s held R A" and ro: "roots_open (ks_heap s)" and t: "ks_pend s t = Some (k, sz)"
  shows "\<exists>h' r. ksection k (ks_heap s) = Done (h', r) \<and> section_res k sz r held R A h'"
  by (rule ksection_ok [OF ks_invD(1) [OF inv]])
    (use ro ks_invD(5) [OF inv t] own_thread [OF t] splits_sub [OF ks_invD(2) [OF inv], of "Thread t"]
      splits_sub [OF ks_invD(3) [OF inv], of "Thread t"] splits_sub [OF ks_invD(4) [OF inv], of "Thread t"] in auto)

lemma step_inv:
  assumes st: "kheap_step s s'" and inv: "ks_inv s held R A" and ro: "roots_open (ks_heap s)"
  shows "\<exists>held' R' A'. ks_inv s' held' R' A'"
  using st
proof cases
  case (call_kmalloc t sz)
  have "ks_inv s' held R A" unfolding call_kmalloc(1)
    by (rule inv_pend [OF inv call_kmalloc(2) _ call_kmalloc(3)])
      (use call_kmalloc(3) in \<open>auto simp: kmalloc_entry_def\<close>)
  then show ?thesis by blast
next
  case (call_kfree t p sz)
  then show ?thesis using inv_free [OF inv] by blast
next
  case (go_on t k sz h' k')
  have "section_go k sz k' held R A h'" using pend_section [OF inv ro go_on(2)] go_on(3) by (auto simp: section_res_def)
  then show ?thesis unfolding go_on(1) using inv_go [OF inv go_on(2) ksection_keeps [OF go_on(3)]] by blast
next
  case (come_back t k sz h' p)
  have ret: "section_ret k sz p held R A h'" using pend_section [OF inv ro come_back(2)] come_back(3) by (auto simp: section_res_def)
  note keep = ksection_keeps [OF come_back(3)]
  have e: "s\<lparr>ks_heap := h', ks_pend := (ks_pend s)(t := None), ks_live := ks_live s\<rparr> = s\<lparr>ks_heap := h', ks_pend := (ks_pend s)(t := None)\<rparr>"
    by simp
  consider (zero) "p = 0" | (small) "p \<noteq> 0" "sz < LARGEST_SUBPAGE_SIZE" | (large) "p \<noteq> 0" "\<not> sz < LARGEST_SUBPAGE_SIZE" by blast
  then show ?thesis
  proof cases
    case zero
    then show ?thesis unfolding come_back(1) using inv_ret0 [OF inv come_back(2) keep] ret e by simp
  next
    case small
    then show ?thesis unfolding come_back(1) using inv_ret_small [OF inv come_back(2) keep small ret] by simp
  next
    case large
    then show ?thesis unfolding come_back(1) using inv_ret_large [OF inv come_back(2) keep large ret] by simp
  qed
next
  case (client_write p sz a v)
  then show ?thesis using inv_write [OF inv] by blast
next
  case (other_alloc n h' va)
  have o: "ks_other s \<subseteq> held" using splits_sub [OF ks_invD(2) [OF inv], of Other] by (simp add: own_pages_def)
  note g = get_pages_ok [OF ks_invD(1) [OF inv] other_alloc(4,5,2)]
  have "held - ks_other s \<union> insert (va, n) (ks_other s) = insert (va, n) held" using o by auto
  then show ?thesis unfolding other_alloc(1) using inv_other [OF inv, of h' "insert (va, n) (ks_other s)"] g other_alloc(3) by auto
next
  case (other_free va n h')
  have o: "ks_other s \<subseteq> held" using splits_sub [OF ks_invD(2) [OF inv], of Other] by (simp add: own_pages_def)
  have "(va, n) \<in> held" using o other_free(2) by auto
  then have g: "kabs h' (held - {(va, n)}) R A" "kh_roots h' = kh_roots (ks_heap s)"
    using put_pages_ok [OF ks_invD(1) [OF inv], of va n] other_free(3) by auto
  have "held - ks_other s \<union> (ks_other s - {(va, n)}) = held - {(va, n)}" using o other_free(2) by auto
  then show ?thesis unfolding other_free(1) using inv_other [OF inv, of h' "ks_other s - {(va, n)}"] g by auto
qed

lemma reach_inv: "kheap_reach s \<Longrightarrow> \<exists>held R A. ks_inv s held R A"
proof (induction rule: kheap_reach.induct)
  case (boot other vm mem refs)
  let ?s = "kstate_boot vm mem refs other"
  have "own_pages ?s = (\<lambda>x. {})(Other := other)" "own_slots ?s = (\<lambda>x. {})" "own_blocks ?s = (\<lambda>x. {})"
    by (auto simp: fun_eq_iff kstate_boot_def own_pages_def own_slots_def own_blocks_def split: owner.split)
  then have "ks_inv ?s other {} {}"
    using kabs_boot(1) [OF boot] by (auto simp: ks_inv_def splits_def live_ok_def kstate_boot_def)
  then show ?case by blast
next
  case (step s s')
  then show ?case using step_inv by blast
qed

end
