(* ===== verification/Proc.thy ===== *)
theory Proc
  imports Vfs_Laws
begin

text \<open>
  Processes: the state of the kernel above the file layer, the process table and the operations of
  \<^verbatim>\<open>kern/proc/proc.c\<close>. Process structures and the open files made by \<^verbatim>\<open>kmalloc\<close> live in heaps, so
  that a pointer kept after \<^verbatim>\<open>kfree\<close> is seen as such: using it is a \<open>Panic\<close>, as is using a null
  pointer. Sections under \<^verbatim>\<open>processTable.lk\<close> and \<^verbatim>\<open>p_lock\<close> are atomic.
\<close>

section \<open>State\<close>

abbreviation "PROC_MAX \<equiv> 100 :: nat"
abbreviation "OPEN_MAX \<equiv> 128 :: nat"
abbreviation "SYSTEM_OPEN_MAX \<equiv> 1280 :: nat"

record openfile =
  of_vn :: "nat option"
  of_offset :: u64
  of_mode_open :: u32
  of_count_refs :: u32
  of_lock :: "lock option"

text \<open>A pointer to an open file: into the static table of the system, or to a heap object.\<close>

datatype fref = SysF nat | HeapF nat

record proc =
  p_name :: string
  p_numthreads :: u32
  p_addrspace :: "addrspace option"
  p_cwd :: "nat option"
  p_status :: u32
  p_pid :: int
  parent_pid :: int
  children_list :: "int list"
  p_cv :: "cv option"
  p_locklock :: "lock option"
  fileTable :: "fref option list"

text \<open>The registers saved on entry to the kernel.\<close>

record trapframe =
  tf_vaddr :: u32
  tf_status :: u32
  tf_cause :: u32
  tf_lo :: u32
  tf_hi :: u32
  tf_ra :: u32
  tf_at :: u32
  tf_v0 :: u32
  tf_v1 :: u32
  tf_a0 :: u32
  tf_a1 :: u32
  tf_a2 :: u32
  tf_a3 :: u32
  tf_t0 :: u32
  tf_t1 :: u32
  tf_t2 :: u32
  tf_t3 :: u32
  tf_t4 :: u32
  tf_t5 :: u32
  tf_t6 :: u32
  tf_t7 :: u32
  tf_s0 :: u32
  tf_s1 :: u32
  tf_s2 :: u32
  tf_s3 :: u32
  tf_s4 :: u32
  tf_s5 :: u32
  tf_s6 :: u32
  tf_s7 :: u32
  tf_t8 :: u32
  tf_t9 :: u32
  tf_gp :: u32
  tf_sp :: u32
  tf_s8 :: u32
  tf_epc :: u32

text \<open>What a new thread starts with: a forked process, or a program of the kernel menu.\<close>

datatype thread_entry = EnterForked trapframe | ProgThread string

text \<open>
  The kernel: the file layer (with the memory of the machine), the heap of processes, \<^verbatim>\<open>kproc\<close>, the
  process table, the table of open files of the system, heap-allocated open files, the process
  of every thread (\<^verbatim>\<open>t_proc\<close>), the names of the threads, the threads that were made and have not
  run yet, and the semaphore that throttles \<^verbatim>\<open>execv\<close>.
\<close>

record 'd kernel =
  k_vfs :: "'d vfs"
  k_procs :: "nat \<Rightarrow> proc option"
  k_kproc :: nat
  k_table :: "nat option list"
  k_last_pid :: int
  k_is_active :: bool
  k_sysfiles :: "openfile list"
  k_heapfiles :: "nat \<Rightarrow> openfile option"
  k_next :: nat
  k_tproc :: "thread_id \<Rightarrow> nat option"
  k_tname :: "thread_id \<Rightarrow> string option"
  k_ready :: "(thread_id \<times> thread_entry) list"
  k_execthrottle :: semaphore

section \<open>Access to the heaps\<close>

definition get_proc :: "'d kernel \<Rightarrow> nat \<Rightarrow> proc outcome" where
  "get_proc k p = (case k_procs k p of None \<Rightarrow> Panic | Some r \<Rightarrow> Done r)"

definition upd_proc :: "nat \<Rightarrow> (proc \<Rightarrow> proc) \<Rightarrow> 'd kernel \<Rightarrow> 'd kernel" where
  "upd_proc p f k = k\<lparr>k_procs := (k_procs k)(p := map_option f (k_procs k p))\<rparr>"

definition curproc :: "'d kernel \<Rightarrow> thread_id \<Rightarrow> nat outcome" where
  "curproc k me = (case k_tproc k me of None \<Rightarrow> Panic | Some p \<Rightarrow> Done p)"

text \<open>What the file layer sees of the caller.\<close>

definition ctx_of :: "'d kernel \<Rightarrow> thread_id \<Rightarrow> ctx" where
  "ctx_of k me =
     (case (case k_tproc k me of None \<Rightarrow> None | Some p \<Rightarrow> k_procs k p) of
        None \<Rightarrow> \<lparr>c_thread = me, c_as = None, c_cwd = None\<rparr>
      | Some r \<Rightarrow> \<lparr>c_thread = me, c_as = p_addrspace r, c_cwd = p_cwd r\<rparr>)"

definition on_vfs :: "('d vfs \<Rightarrow> ('d vfs \<times> 'r) outcome) \<Rightarrow> 'd kernel \<Rightarrow> ('d kernel \<times> 'r) outcome" where
  "on_vfs f k = bindo (f (k_vfs k)) (\<lambda>(v, r). Done (k\<lparr>k_vfs := v\<rparr>, r))"

definition on_vfs_only :: "('d vfs \<Rightarrow> 'd vfs outcome) \<Rightarrow> 'd kernel \<Rightarrow> 'd kernel outcome" where
  "on_vfs_only f k = bindo (f (k_vfs k)) (\<lambda>v. Done (k\<lparr>k_vfs := v\<rparr>))"

text \<open>One call of an allocating routine, on the supply kept with the file layer.\<close>

definition alloc_with :: "(memsupply \<Rightarrow> 'r \<times> memsupply) \<Rightarrow> 'd kernel \<Rightarrow> 'd kernel \<times> 'r" where
  "alloc_with f k = (let (r, al) = f (v_al (k_vfs k)) in (k\<lparr>k_vfs := (k_vfs k)\<lparr>v_al := al\<rparr>\<rparr>, r))"

definition set_heapfile :: "nat \<Rightarrow> openfile option \<Rightarrow> 'd kernel \<Rightarrow> 'd kernel" where
  "set_heapfile f x k = k\<lparr>k_heapfiles := (k_heapfiles k)(f := x)\<rparr>"

definition set_fd :: "nat \<Rightarrow> nat \<Rightarrow> fref option \<Rightarrow> 'd kernel \<Rightarrow> 'd kernel" where
  "set_fd p fd x = upd_proc p (\<lambda>r. r\<lparr>fileTable := (fileTable r)[fd := x]\<rparr>)"

section \<open>The process table\<close>

definition next_index :: "int \<Rightarrow> int" where
  "next_index i = (if i + 1 > int PROC_MAX then 1 else i + 1)"

text \<open>The circular search shared by \<^verbatim>\<open>find_valid_pid\<close> and \<^verbatim>\<open>proc_init\<close>; it need not end.\<close>

partial_function (option) pid_scan :: "nat option list \<Rightarrow> int \<Rightarrow> int \<Rightarrow> int option" where
  "pid_scan tbl lastp i =
     (if i = lastp \<or> tbl ! nat i = None then Some i else pid_scan tbl lastp (next_index i))"

definition find_valid_pid :: "'d kernel \<Rightarrow> int option" where
  "find_valid_pid k =
     (case pid_scan (k_table k) (k_last_pid k) (next_index (k_last_pid k)) of
        None \<Rightarrow> None
      | Some i \<Rightarrow> Some (if i = k_last_pid k then -1 else i))"

text \<open>The first word behind the table is \<^verbatim>\<open>last_pid\<close>; a store there is out of bounds.\<close>

definition proc_add :: "int \<Rightarrow> nat \<Rightarrow> 'd kernel \<Rightarrow> ('d kernel \<times> bool) outcome" where
  "proc_add pid p k =
     (if pid \<le> 0 \<or> pid > int PROC_MAX + 1 then Done (k, False)
      else if nat pid \<ge> length (k_table k) then Panic
      else Done (k\<lparr>k_table := (k_table k)[nat pid := Some p], k_last_pid := pid\<rparr>, True))"

definition proc_remove :: "int \<Rightarrow> 'd kernel \<Rightarrow> 'd kernel outcome" where
  "proc_remove pid k =
     (if pid < 0 \<or> nat pid \<ge> length (k_table k) then Panic
      else Done (k\<lparr>k_table := (k_table k)[nat pid := None]\<rparr>))"

definition proc_search :: "int \<Rightarrow> 'd kernel \<Rightarrow> nat option outcome" where
  "proc_search pid k =
     (if pid \<le> 0 \<or> pid > int PROC_MAX then Done None
      else case k_table k ! nat pid of
        None \<Rightarrow> Panic
      | Some p \<Rightarrow> bindo (get_proc k p) (\<lambda>r. Done (if p_pid r \<noteq> pid then None else Some p)))"

section \<open>Children\<close>

definition add_new_child :: "nat \<Rightarrow> int \<Rightarrow> 'd kernel \<Rightarrow> 'd kernel \<times> bool" where
  "add_new_child p child k =
     (let (k1, ok) = alloc_with kmalloc k in
      if \<not> ok then (k1, False)
      else (upd_proc p (\<lambda>r. r\<lparr>children_list := children_list r @ [child]\<rparr>) k1, True))"

text \<open>The list of \<open>p\<close> is taken apart from the front; each child becomes an orphan.\<close>

fun destroy_child_list :: "nat \<Rightarrow> int list \<Rightarrow> 'd kernel \<Rightarrow> ('d kernel \<times> bool) outcome" where
  "destroy_child_list p [] k = Done (k, True)"
| "destroy_child_list p (c # cs) k =
     (let k1 = upd_proc p (\<lambda>r. r\<lparr>children_list := cs\<rparr>) k in
      bindo (proc_search c k1)
        (\<lambda>q. case q of
           None \<Rightarrow> Done (k1, False)
         | Some ch \<Rightarrow> destroy_child_list p cs (upd_proc ch (\<lambda>r. r\<lparr>parent_pid := -1\<rparr>) k1)))"

fun unlink_child :: "int \<Rightarrow> int list \<Rightarrow> int list option" where
  "unlink_child child [] = None"
| "unlink_child child (c # cs) = (if c = child then Some cs else map_option (Cons c) (unlink_child child cs))"

definition remove_child_from_list :: "nat \<Rightarrow> int \<Rightarrow> 'd kernel \<Rightarrow> ('d kernel \<times> bool) outcome" where
  "remove_child_from_list p child k =
     bindo (get_proc k p)
       (\<lambda>r. case unlink_child child (children_list r) of
          None \<Rightarrow> Done (k, False)
        | Some cs \<Rightarrow> Done (upd_proc p (\<lambda>r. r\<lparr>children_list := cs\<rparr>) k, True))"

fun is_child :: "int list \<Rightarrow> int \<Rightarrow> bool" where
  "is_child [] child = False"
| "is_child (c # cs) child = (if c = child then True else is_child cs child)"

section \<open>Creation\<close>

text \<open>
  \<^verbatim>\<open>proc_init\<close>: \<open>None\<close> when the search does not end. A failure after the slot was taken leaves the
  slot pointing to the process, which its caller frees.
\<close>

definition proc_init :: "nat \<Rightarrow> string \<Rightarrow> 'd kernel \<Rightarrow> ('d kernel \<times> int) option" where
  "proc_init p name k =
     (let k0 = upd_proc p (\<lambda>r. r\<lparr>p_pid := -1\<rparr>) k in
      case pid_scan (k_table k0) (k_last_pid k0) (next_index (k_last_pid k0)) of
        None \<Rightarrow> None
      | Some i \<Rightarrow> Some
          (if i = k_last_pid k0 then (k0, -1)
           else let k1 = (upd_proc p (\<lambda>r. r\<lparr>p_pid := i\<rparr>) k0)\<lparr>k_table := (k_table k0)[nat i := Some p], k_last_pid := i\<rparr>;
                    (k2, c) = alloc_with (cv_create name) k1;
                    (k3, l) = alloc_with (lock_create name) k2;
                    k4 = upd_proc p (\<lambda>r. r\<lparr>p_status := 0, parent_pid := -1, children_list := [],
                                          p_cv := c, p_locklock := l\<rparr>) k3
                in (k4, if c = None \<or> l = None then -1 else i)))"

text \<open>\<open>junk\<close> is what the block returned by \<^verbatim>\<open>kmalloc\<close> holds in the fields that nobody sets.\<close>

definition proc_create :: "string \<Rightarrow> proc \<Rightarrow> 'd kernel \<Rightarrow> ('d kernel \<times> nat option) option" where
  "proc_create name junk k =
     (let (k1, ok) = alloc_with kmalloc k in
      if \<not> ok then Some (k1, None)
      else let (k2, ok2) = alloc_with kmalloc k1; p = k_next k2; k2 = k2\<lparr>k_next := Suc p\<rparr> in
      if \<not> ok2 then Some (k2, None)
      else let r = junk\<lparr>p_name := name, p_numthreads := 0, p_addrspace := None, p_cwd := None,
                        fileTable := replicate OPEN_MAX None\<rparr>;
               k3 = k2\<lparr>k_procs := (k_procs k2)(p \<mapsto> r)\<rparr> in
      if name \<noteq> ''[kernel]''
      then map_option (\<lambda>(k4, i). if i \<le> 0 then (k4\<lparr>k_procs := (k_procs k4)(p := None)\<rparr>, None) else (k4, Some p))
             (proc_init p name k3)
      else Some (k3, Some p))"

definition console_init ::
  "'d vtables \<Rightarrow> thread_id \<Rightarrow> string \<Rightarrow> nat \<Rightarrow> nat \<Rightarrow> u32 \<Rightarrow> 'd kernel \<Rightarrow> ('d kernel \<times> bool) outcome" where
  "console_init T me lname p fd flag k =
     (let (k1, ok) = alloc_with kmalloc k in
      if \<not> ok then Done (k1, False)
      else let (k2, ok2) = alloc_with kmalloc k1 in
      if \<not> ok2 then Done (set_fd p fd None k2, False)
      else let f = k_next k2; k3 = set_fd p fd (Some (HeapF f)) (k2\<lparr>k_next := Suc f\<rparr>) in
      bindo (on_vfs (vfs_open T (ctx_of k3 me) ''con:'' flag 420) k3)
        (\<lambda>(k4, r). case r of
           Inl e \<Rightarrow> Done (set_heapfile f None k4, False)
         | Inr vn \<Rightarrow>
             let (k5, l) = alloc_with (lock_create lname) k4 in
             case l of
               None \<Rightarrow> bindo (on_vfs_only (vfs_close T (ctx_of k5 me) vn) k5)
                         (\<lambda>k6. Done (set_heapfile f None k6, False))
             | Some l \<Rightarrow> Done (set_heapfile f (Some \<lparr>of_vn = Some vn, of_offset = 0, of_mode_open = flag,
                                                  of_count_refs = 1, of_lock = Some l\<rparr>) k5, True)))"

text \<open>A call that never returns is, for its caller, like one that waits.\<close>

definition returns :: "'a option \<Rightarrow> 'a outcome" where
  "returns x = (case x of None \<Rightarrow> Block | Some y \<Rightarrow> Done y)"

definition consoles_init :: "'d vtables \<Rightarrow> thread_id \<Rightarrow> nat \<Rightarrow> 'd kernel \<Rightarrow> ('d kernel \<times> bool) outcome" where
  "consoles_init T me p k =
     bindo (console_init T me ''STDIN'' p 0 O_RDONLY k)
       (\<lambda>(k1, ok). if \<not> ok then Done (k1, False)
        else bindo (console_init T me ''STDOUT'' p 1 O_WRONLY k1)
       (\<lambda>(k2, ok). if \<not> ok then Done (k2, False)
        else console_init T me ''STDERR'' p 2 O_WRONLY k2))"

definition proc_create_runprogram ::
  "'d vtables \<Rightarrow> thread_id \<Rightarrow> string \<Rightarrow> proc \<Rightarrow> 'd kernel \<Rightarrow> ('d kernel \<times> nat option) outcome" where
  "proc_create_runprogram T me name junk k =
     bindo (returns (proc_create name junk k))
       (\<lambda>(k1, q). case q of
          None \<Rightarrow> Done (k1, None)
        | Some p \<Rightarrow>
            bindo (consoles_init T me p (upd_proc p (\<lambda>r. r\<lparr>p_addrspace := None\<rparr>) k1))
              (\<lambda>(k2, ok). if \<not> ok then Done (k2, None)
               else bindo (curproc k2 me) (\<lambda>cur. bindo (get_proc k2 cur)
                 (\<lambda>r. case p_cwd r of
                    None \<Rightarrow> Done (k2, Some p)
                  | Some d \<Rightarrow>
                      bindo (on_vfs_only (vnode_incref d) k2)
                        (\<lambda>k3. Done (upd_proc p (\<lambda>r. r\<lparr>p_cwd := Some d\<rparr>) k3, Some p))))))"

section \<open>Threads of a process and its address space\<close>

definition proc_addthread :: "nat \<Rightarrow> thread_id \<Rightarrow> 'd kernel \<Rightarrow> 'd kernel outcome" where
  "proc_addthread p t k =
     (if k_tproc k t \<noteq> None then Panic
      else bindo (get_proc k p)
        (\<lambda>_. Done ((upd_proc p (\<lambda>r. r\<lparr>p_numthreads := p_numthreads r + 1\<rparr>) k)\<lparr>k_tproc := (k_tproc k)(t \<mapsto> p)\<rparr>)))"

definition proc_remthread :: "thread_id \<Rightarrow> 'd kernel \<Rightarrow> 'd kernel outcome" where
  "proc_remthread t k =
     (case k_tproc k t of
        None \<Rightarrow> Panic
      | Some p \<Rightarrow>
          bindo (get_proc k p)
            (\<lambda>r. if p_numthreads r = 0 then Panic
                 else Done ((upd_proc p (\<lambda>r. r\<lparr>p_numthreads := p_numthreads r - 1\<rparr>) k)\<lparr>k_tproc := (k_tproc k)(t := None)\<rparr>)))"

definition proc_getas :: "thread_id \<Rightarrow> 'd kernel \<Rightarrow> addrspace option outcome" where
  "proc_getas me k =
     (case k_tproc k me of
        None \<Rightarrow> Done None
      | Some p \<Rightarrow> bindo (get_proc k p) (\<lambda>r. Done (p_addrspace r)))"

definition proc_setas :: "thread_id \<Rightarrow> addrspace option \<Rightarrow> 'd kernel \<Rightarrow> ('d kernel \<times> addrspace option) outcome" where
  "proc_setas me newas k =
     bindo (curproc k me) (\<lambda>p. bindo (get_proc k p)
       (\<lambda>r. Done (upd_proc p (\<lambda>r. r\<lparr>p_addrspace := newas\<rparr>) k, p_addrspace r)))"

section \<open>Destruction\<close>

definition destroy_sync :: "proc \<Rightarrow> unit outcome" where
  "destroy_sync r =
     (case p_cv r of
        None \<Rightarrow> Panic
      | Some c \<Rightarrow> bindo (cv_destroy c) (\<lambda>_. case p_locklock r of None \<Rightarrow> Panic | Some l \<Rightarrow> lock_destroy l))"

definition parent_of :: "int \<Rightarrow> 'd kernel \<Rightarrow> nat option outcome" where
  "parent_of pid k =
     bindo (proc_search pid k) (\<lambda>q. bindo (get_proc k (k_kproc k))
       (\<lambda>kp. Done (if pid = p_pid kp then Some (k_kproc k) else q)))"

definition proc_deinit :: "nat \<Rightarrow> 'd kernel \<Rightarrow> ('d kernel \<times> bool) outcome" where
  "proc_deinit p k =
     bindo (get_proc k p)
       (\<lambda>r. if p_pid r \<le> 0 \<or> p_pid r > int PROC_MAX then Done (k, False)
        else let k1 = k\<lparr>k_table := (k_table k)[nat (p_pid r) := None]\<rparr> in
          bindo (destroy_sync r) (\<lambda>_. bindo (destroy_child_list p (children_list r) k1)
            (\<lambda>(k2, ok). if \<not> ok then Done (k2, False)
             else bindo (get_proc k2 p)
               (\<lambda>r. if parent_pid r = -1 then Done (k2, True)
                    else bindo (parent_of (parent_pid r) k2)
                      (\<lambda>q. case q of
                         None \<Rightarrow> Done (k2, False)
                       | Some par \<Rightarrow> remove_child_from_list par (p_pid r) k2)))))"

text \<open>The open files of the process are not touched.\<close>

definition proc_destroy :: "'d vtables \<Rightarrow> thread_id \<Rightarrow> nat \<Rightarrow> 'd kernel \<Rightarrow> 'd kernel outcome" where
  "proc_destroy T me p k =
     (if p = k_kproc k then Panic
      else bindo (get_proc k p)
       (\<lambda>r. bindo (case p_cwd r of
                     None \<Rightarrow> Done k
                   | Some d \<Rightarrow> bindo (on_vfs_only (vnode_decref T (ctx_of k me) d) k)
                       (\<lambda>k1. Done (upd_proc p (\<lambda>r. r\<lparr>p_cwd := None\<rparr>) k1)))
         (\<lambda>k1. let k2 = (case p_addrspace r of
                            None \<Rightarrow> k1
                          | Some as \<Rightarrow>
                              let k' = upd_proc p (\<lambda>r. r\<lparr>p_addrspace := None\<rparr>) k1;
                                  vm1 = v_vm (k_vfs k');
                                  vm2 = (if k_tproc k me = Some p then as_deactivate vm1 else vm1)
                              in k'\<lparr>k_vfs := (k_vfs k')\<lparr>v_vm := as_destroy as vm2\<rparr>\<rparr>) in
               if p_numthreads r \<noteq> 0 then Panic
               else bindo (proc_deinit p k2)
                 (\<lambda>(k3, ok). if \<not> ok then Panic else Done (k3\<lparr>k_procs := (k_procs k3)(p := None)\<rparr>)))))"

section \<open>Startup\<close>

definition proc_bootstrap :: "proc \<Rightarrow> 'd kernel \<Rightarrow> 'd kernel outcome" where
  "proc_bootstrap junk k =
     bindo (returns (proc_create ''[kernel]'' junk k))
       (\<lambda>(k1, q). case q of
          None \<Rightarrow> Panic
        | Some p \<Rightarrow> Done (k1\<lparr>k_kproc := p, k_table := Some p # replicate PROC_MAX None,
                             k_is_active := True, k_last_pid := 0\<rparr>))"

end
