(* ===== verification/Proc_Laws.thy ===== *)
theory Proc_Laws
  imports Proc
begin

text \<open>
  Laws of the process table and of the family relation: the circular search for a pid, the invariant
  that ties the table to the heap of processes and parents to children, and what creation and
  destruction keep of it.
\<close>

section \<open>The circular search\<close>

text \<open>How many steps the search takes from the last pid to a slot.\<close>

definition steps_from :: "int \<Rightarrow> int \<Rightarrow> int" where
  "steps_from lastp i = (if lastp < i then i - lastp else i - lastp + int PROC_MAX)"

definition slot :: "int \<Rightarrow> bool" where
  "slot i \<longleftrightarrow> 1 \<le> i \<and> i \<le> int PROC_MAX"

definition table_ok :: "nat option list \<Rightarrow> int \<Rightarrow> bool" where
  "table_ok tbl lastp \<longleftrightarrow> length tbl = PROC_MAX + 1 \<and> 0 \<le> lastp \<and> lastp \<le> int PROC_MAX \<and>
     (lastp = 0 \<longrightarrow> (\<exists>i. slot i \<and> tbl ! nat i = None))"

definition first_free :: "nat option list \<Rightarrow> int \<Rightarrow> int \<Rightarrow> bool" where
  "first_free tbl lastp i \<longleftrightarrow> slot i \<and> i \<noteq> lastp \<and> tbl ! nat i = None \<and>
     (\<forall>j. slot j \<and> steps_from lastp j < steps_from lastp i \<longrightarrow> tbl ! nat j \<noteq> None)"

lemma steps_bounds: "slot i \<Longrightarrow> 0 \<le> lastp \<Longrightarrow> lastp \<le> int PROC_MAX \<Longrightarrow> 1 \<le> steps_from lastp i \<and> steps_from lastp i \<le> int PROC_MAX"
  by (auto simp: slot_def steps_from_def)

lemma slot_next: "0 \<le> i \<Longrightarrow> i \<le> int PROC_MAX \<Longrightarrow> slot (next_index i)"
  by (auto simp: slot_def next_index_def)

lemma steps_next:
  "slot i \<Longrightarrow> 0 \<le> lastp \<Longrightarrow> lastp \<le> int PROC_MAX \<Longrightarrow> i \<noteq> lastp \<Longrightarrow> \<not> (lastp = 0 \<and> i = int PROC_MAX) \<Longrightarrow>
   steps_from lastp (next_index i) = steps_from lastp i + 1"
  by (auto simp: slot_def steps_from_def next_index_def)

lemma steps_inj: "slot i \<Longrightarrow> slot j \<Longrightarrow> steps_from lastp i = steps_from lastp j \<Longrightarrow> i = j"
  by (auto simp: slot_def steps_from_def split: if_splits)

lemma pid_scan_ends:
  assumes "table_ok tbl lastp" "slot i"
    and "\<forall>j. slot j \<and> steps_from lastp j < steps_from lastp i \<longrightarrow> tbl ! nat j \<noteq> None"
  shows "\<exists>r. pid_scan tbl lastp i = Some r \<and> slot r \<and> (r = lastp \<or> tbl ! nat r = None) \<and>
    (\<forall>j. slot j \<and> steps_from lastp j < steps_from lastp r \<longrightarrow> tbl ! nat j \<noteq> None)"
  using assms(2,3)
proof (induction "nat (int PROC_MAX - steps_from lastp i)" arbitrary: i rule: less_induct)
  case less
  have lp: "0 \<le> lastp" "lastp \<le> int PROC_MAX" using assms(1) by (auto simp: table_ok_def)
  show ?case
  proof (cases "i = lastp \<or> tbl ! nat i = None")
    case True
    then show ?thesis using less.prems by (subst pid_scan.simps) auto
  next
    case False
    have nw: "\<not> (lastp = 0 \<and> i = int PROC_MAX)"
    proof
      assume a: "lastp = 0 \<and> i = int PROC_MAX"
      obtain j where j: "slot j" "tbl ! nat j = None" using assms(1) a by (auto simp: table_ok_def)
      then have "j \<noteq> i" using False by auto
      then have "steps_from lastp j < steps_from lastp i" using a j(1) by (auto simp: steps_from_def slot_def)
      then show False using less.prems(2) j by auto
    qed
    have st: "steps_from lastp (next_index i) = steps_from lastp i + 1"
      using steps_next [OF less.prems(1) lp _ nw] False by simp
    have sl: "slot (next_index i)" using less.prems(1) by (intro slot_next) (auto simp: slot_def)
    have "steps_from lastp (next_index i) \<le> int PROC_MAX" using steps_bounds [OF sl lp] by simp
    then have dec: "nat (int PROC_MAX - steps_from lastp (next_index i)) < nat (int PROC_MAX - steps_from lastp i)"
      using st by linarith
    have occ: "\<forall>j. slot j \<and> steps_from lastp j < steps_from lastp (next_index i) \<longrightarrow> tbl ! nat j \<noteq> None"
    proof (intro allI impI)
      fix j assume j: "slot j \<and> steps_from lastp j < steps_from lastp (next_index i)"
      then have "steps_from lastp j < steps_from lastp i \<or> j = i"
        using st steps_inj [of j i lastp] less.prems(1) by linarith
      then show "tbl ! nat j \<noteq> None" using less.prems(2) False j by auto
    qed
    have "pid_scan tbl lastp i = pid_scan tbl lastp (next_index i)" using False by (subst pid_scan.simps) auto
    then show ?thesis using less.hyps [OF dec sl occ] by simp
  qed
qed

lemma pid_scan_first:
  assumes "table_ok tbl lastp"
  shows "\<exists>r. pid_scan tbl lastp (next_index lastp) = Some r \<and>
    (if r = lastp then \<forall>j. slot j \<and> j \<noteq> lastp \<longrightarrow> tbl ! nat j \<noteq> None else first_free tbl lastp r)"
proof -
  have lp: "0 \<le> lastp" "lastp \<le> int PROC_MAX" using assms by (auto simp: table_ok_def)
  have sl: "slot (next_index lastp)" by (rule slot_next [OF lp])
  have one: "steps_from lastp (next_index lastp) = 1" using lp by (auto simp: steps_from_def next_index_def)
  have "\<forall>j. slot j \<and> steps_from lastp j < steps_from lastp (next_index lastp) \<longrightarrow> tbl ! nat j \<noteq> None"
    using steps_bounds [OF _ lp] one by fastforce
  then obtain r where r: "pid_scan tbl lastp (next_index lastp) = Some r" "slot r" "r = lastp \<or> tbl ! nat r = None"
    "\<forall>j. slot j \<and> steps_from lastp j < steps_from lastp r \<longrightarrow> tbl ! nat j \<noteq> None"
    using pid_scan_ends [OF assms sl] by blast
  have "tbl ! nat j \<noteq> None" if "r = lastp" "slot j" "j \<noteq> lastp" for j
  proof -
    have "steps_from lastp j < steps_from lastp r"
      using that r(2) lp by (auto simp: steps_from_def slot_def)
    then show ?thesis using r(4) that by simp
  qed
  then show ?thesis using r by (auto simp: first_free_def)
qed

lemma first_free_unique: "first_free tbl lastp i \<Longrightarrow> first_free tbl lastp j \<Longrightarrow> i = j"
  unfolding first_free_def by (metis linorder_less_linear steps_inj)

lemma table_ok_take:
  "table_ok tbl lastp \<Longrightarrow> slot i \<Longrightarrow> table_ok (tbl[nat i := Some p]) i"
  by (auto simp: table_ok_def slot_def)

lemma table_ok_drop: "table_ok tbl lastp \<Longrightarrow> slot i \<Longrightarrow> table_ok (tbl[nat i := None]) lastp"
proof (unfold table_ok_def, elim conjE, intro conjI impI)
  assume "length tbl = PROC_MAX + 1" "slot i"
  then show "\<exists>j. slot j \<and> tbl[nat i := None] ! nat j = None" if "lastp = 0"
    by (intro exI [of _ i]) (auto simp: slot_def)
qed auto

section \<open>The table and the heap\<close>

lemma k_procs_upd [simp]: "k_procs (upd_proc p f k) q = (if q = p then map_option f (k_procs k p) else k_procs k q)"
  by (simp add: upd_proc_def)

lemma upd_proc_simps [simp]:
  "k_table (upd_proc p f k) = k_table k" "k_last_pid (upd_proc p f k) = k_last_pid k"
  "k_kproc (upd_proc p f k) = k_kproc k" "k_vfs (upd_proc p f k) = k_vfs k"
  "k_sysfiles (upd_proc p f k) = k_sysfiles k" "k_heapfiles (upd_proc p f k) = k_heapfiles k"
  "k_next (upd_proc p f k) = k_next k" "k_tproc (upd_proc p f k) = k_tproc k"
  "k_is_active (upd_proc p f k) = k_is_active k"
  by (simp_all add: upd_proc_def)

lemma get_proc_Done [simp]: "get_proc k p = Done r \<longleftrightarrow> k_procs k p = Some r"
  by (simp add: get_proc_def split: option.split)

text \<open>
  Every slot from 1 on that is in use holds a process whose pid is the number of the slot; the heap holds
  these processes and \<^verbatim>\<open>kproc\<close>, and nothing at the addresses still to be handed out.
\<close>

definition proc_inv :: "'d kernel \<Rightarrow> bool" where
  "proc_inv k \<longleftrightarrow> table_ok (k_table k) (k_last_pid k) \<and> k_procs k (k_kproc k) \<noteq> None \<and>
     (\<forall>i p. slot i \<and> k_table k ! nat i = Some p \<longrightarrow>
        p \<noteq> k_kproc k \<and> (\<exists>r. k_procs k p = Some r \<and> p_pid r = i)) \<and>
     (\<forall>p r. k_procs k p = Some r \<and> p \<noteq> k_kproc k \<longrightarrow> slot (p_pid r) \<and> k_table k ! nat (p_pid r) = Some p) \<and>
     (\<forall>p. k_next k \<le> p \<longrightarrow> k_procs k p = None)"

lemma proc_invD:
  assumes "proc_inv k"
  shows "table_ok (k_table k) (k_last_pid k)" "k_procs k (k_kproc k) \<noteq> None"
    "\<And>i p. slot i \<Longrightarrow> k_table k ! nat i = Some p \<Longrightarrow> p \<noteq> k_kproc k \<and> (\<exists>r. k_procs k p = Some r \<and> p_pid r = i)"
    "\<And>p r. k_procs k p = Some r \<Longrightarrow> p \<noteq> k_kproc k \<Longrightarrow> slot (p_pid r) \<and> k_table k ! nat (p_pid r) = Some p"
    "\<And>p. k_next k \<le> p \<Longrightarrow> k_procs k p = None"
  using assms unfolding proc_inv_def by blast+

lemma nat_slot_eq: "slot i \<Longrightarrow> slot j \<Longrightarrow> (nat i = nat j) = (i = j)"
  by (auto simp: slot_def)

lemma table_len: "proc_inv k \<Longrightarrow> length (k_table k) = 101"
  by (simp add: proc_inv_def table_ok_def)

lemma slot_upd: "slot i \<Longrightarrow> slot j \<Longrightarrow> length tbl = 101 \<Longrightarrow> tbl[nat i := x] ! nat j = (if i = j then x else tbl ! nat j)"
  by (auto simp: nth_list_update slot_def)

lemma proc_search_ok:
  assumes "proc_inv k" "slot i" "k_table k ! nat i = Some p"
  shows "proc_search i k = Done (Some p)"
proof -
  obtain r where "k_procs k p = Some r" "p_pid r = i" using proc_invD(3) [OF assms] by blast
  then show ?thesis using assms(2,3) by (simp add: proc_search_def slot_def get_proc_def)
qed

lemma alloc_with_simps [simp]:
  "k_procs (fst (alloc_with f k)) = k_procs k" "k_table (fst (alloc_with f k)) = k_table k"
  "k_last_pid (fst (alloc_with f k)) = k_last_pid k" "k_kproc (fst (alloc_with f k)) = k_kproc k"
  "k_next (fst (alloc_with f k)) = k_next k" "k_sysfiles (fst (alloc_with f k)) = k_sysfiles k"
  "k_heapfiles (fst (alloc_with f k)) = k_heapfiles k" "k_tproc (fst (alloc_with f k)) = k_tproc k"
  by (simp_all add: alloc_with_def Let_def split: prod.split)

lemma alloc_with_full: "v_al (k_vfs k) = [] \<Longrightarrow> snd (f []) = [] \<Longrightarrow> alloc_with f k = (k, fst (f []))"
  by (cases "f []") (simp add: alloc_with_def)

text \<open>With memory available every allocation succeeds.\<close>

definition new_sync :: "string \<Rightarrow> proc \<Rightarrow> proc" where
  "new_sync name r = r\<lparr>p_status := 0, parent_pid := -1, children_list := [],
     p_cv := Some \<lparr>cv_name = name, cv_wchan = \<lparr>wc_name = name, wc_threads = []\<rparr>, cv_lock = spinlock_init\<rparr>,
     p_locklock := Some \<lparr>lk_name = name, lk_wchan = \<lparr>wc_name = name, wc_threads = []\<rparr>, lk_owner = None,
       lk_lock = spinlock_init\<rparr>\<rparr>"

definition new_proc :: "string \<Rightarrow> int \<Rightarrow> proc \<Rightarrow> proc" where
  "new_proc name i junk = new_sync name (junk\<lparr>p_name := name, p_numthreads := 0, p_addrspace := None,
     p_cwd := None, fileTable := replicate OPEN_MAX None, p_pid := i\<rparr>)"

lemma lock_create_full: "lock_create n [] = (Some \<lparr>lk_name = n, lk_wchan = \<lparr>wc_name = n, wc_threads = []\<rparr>, lk_owner = None,
       lk_lock = spinlock_init\<rparr>, [])"
  by (simp add: lock_create_def wchan_create_def)

lemma cv_create_full: "cv_create n [] = (Some \<lparr>cv_name = n, cv_wchan = \<lparr>wc_name = n, wc_threads = []\<rparr>, cv_lock = spinlock_init\<rparr>, [])"
  by (simp add: cv_create_def wchan_create_def)

definition add_proc :: "nat \<Rightarrow> int \<Rightarrow> proc \<Rightarrow> 'd kernel \<Rightarrow> 'd kernel" where
  "add_proc p i r k = k\<lparr>k_next := Suc p, k_procs := (k_procs k)(p \<mapsto> r), k_table := (k_table k)[nat i := Some p], k_last_pid := i\<rparr>"

lemma proc_create_run:
  assumes "v_al (k_vfs k) = []" "name \<noteq> ''[kernel]''"
    and "pid_scan (k_table k) (k_last_pid k) (next_index (k_last_pid k)) = Some i" "i \<noteq> k_last_pid k" "slot i"
  shows "proc_create name junk k = Some (add_proc (k_next k) i (new_proc name i junk) k, Some (k_next k))"
  using assms
  by (simp add: proc_create_def proc_init_def alloc_with_full lock_create_full cv_create_full add_proc_def
      new_proc_def new_sync_def upd_proc_def slot_def Let_def)

lemma proc_create_full_table:
  assumes "v_al (k_vfs k) = []" "name \<noteq> ''[kernel]''" "k_procs k (k_next k) = None"
    and "pid_scan (k_table k) (k_last_pid k) (next_index (k_last_pid k)) = Some (k_last_pid k)"
  shows "proc_create name junk k = Some (k\<lparr>k_next := Suc (k_next k)\<rparr>, None)"
proof -
  have u: "(k_procs k)(k_next k := None) = k_procs k" using assms(3) by (auto simp: fun_eq_iff)
  show ?thesis using assms by (simp add: proc_create_def proc_init_def alloc_with_full upd_proc_def Let_def u)
qed

lemma proc_inv_add:
  assumes "proc_inv k" "slot i" "k_table k ! nat i = None" "p_pid r = i"
  shows "proc_inv (add_proc (k_next k) i r k)"
proof -
  note inv = proc_invD [OF assms(1)]
  have len: "length (k_table k) = 101" using table_len [OF assms(1)] .
  have fresh: "k_procs k (k_next k) = None" using inv(5) by simp
  then have ne: "k_next k \<noteq> k_kproc k" using inv(2) by metis
  let ?k = "add_proc (k_next k) i r k"
  have tbl: "slot j \<Longrightarrow> k_table ?k ! nat j = (if i = j then Some (k_next k) else k_table k ! nat j)" for j
    using slot_upd [OF assms(2) _ len] by (simp add: add_proc_def)
  have pr: "k_procs ?k q = (if q = k_next k then Some r else k_procs k q)" for q by (simp add: add_proc_def)
  show ?thesis
    unfolding proc_inv_def
  proof (intro conjI allI impI; (elim conjE)?)
    show "table_ok (k_table ?k) (k_last_pid ?k)" using table_ok_take [OF inv(1) assms(2)] by (simp add: add_proc_def)
    show "k_procs ?k (k_kproc ?k) \<noteq> None" using inv(2) by (simp add: add_proc_def)
  next
    fix j p assume j: "slot j" "k_table ?k ! nat j = Some p"
    have "p \<noteq> k_kproc k \<and> (\<exists>r. k_procs ?k p = Some r \<and> p_pid r = j)"
    proof (cases "i = j")
      case True
      then have "p = k_next k" using j tbl by simp
      then show ?thesis using True ne assms(4) by (auto simp: add_proc_def)
    next
      case False
      then have "k_table k ! nat j = Some p" using j tbl by simp
      then show ?thesis using inv(3) [OF j(1)] fresh by (auto simp: pr)
    qed
    then show "p \<noteq> k_kproc ?k" "\<exists>r. k_procs ?k p = Some r \<and> p_pid r = j" by (simp_all add: add_proc_def)
  next
    fix p r' assume "k_procs ?k p = Some r'" "p \<noteq> k_kproc ?k"
    then have "slot (p_pid r') \<and> k_table ?k ! nat (p_pid r') = Some p"
      using inv(4) [of p r'] tbl assms(2,3,4) by (cases "p = k_next k") (auto simp: pr, auto simp: add_proc_def)
    then show "slot (p_pid r')" "k_table ?k ! nat (p_pid r') = Some p" by simp_all
  next
    fix p assume "k_next ?k \<le> p"
    then show "k_procs ?k p = None" using inv(5) by (simp add: add_proc_def)
  qed
qed

section \<open>Parents and children\<close>

text \<open>
  A pid is in the list of children of a process exactly when the process with that pid names it as
  its parent. The pid of \<^verbatim>\<open>kproc\<close>, which nothing sets, must not look like one of the table or like the
  mark of an orphan.
\<close>

definition fam_inv :: "'d kernel \<Rightarrow> bool" where
  "fam_inv k \<longleftrightarrow> proc_inv k \<and>
     (\<forall>r. k_procs k (k_kproc k) = Some r \<longrightarrow> \<not> slot (p_pid r) \<and> p_pid r \<noteq> -1) \<and>
     (\<forall>p r c. k_procs k p = Some r \<and> c \<in> set (children_list r) \<longrightarrow>
        (\<exists>q s. k_procs k q = Some s \<and> q \<noteq> k_kproc k \<and> q \<noteq> p \<and> p_pid s = c \<and> parent_pid s = p_pid r)) \<and>
     (\<forall>p r. k_procs k p = Some r \<and> p \<noteq> k_kproc k \<and> parent_pid r \<noteq> -1 \<longrightarrow>
        (\<exists>q s. k_procs k q = Some s \<and> p_pid s = parent_pid r \<and> p_pid r \<in> set (children_list s))) \<and>
     (\<forall>p r. k_procs k p = Some r \<longrightarrow> distinct (children_list r))"

lemma fam_invD:
  assumes "fam_inv k"
  shows "proc_inv k"
    "\<And>r. k_procs k (k_kproc k) = Some r \<Longrightarrow> \<not> slot (p_pid r) \<and> p_pid r \<noteq> -1"
    "\<And>p r c. k_procs k p = Some r \<Longrightarrow> c \<in> set (children_list r) \<Longrightarrow>
        \<exists>q s. k_procs k q = Some s \<and> q \<noteq> k_kproc k \<and> q \<noteq> p \<and> p_pid s = c \<and> parent_pid s = p_pid r"
    "\<And>p r. k_procs k p = Some r \<Longrightarrow> p \<noteq> k_kproc k \<Longrightarrow> parent_pid r \<noteq> -1 \<Longrightarrow>
        \<exists>q s. k_procs k q = Some s \<and> p_pid s = parent_pid r \<and> p_pid r \<in> set (children_list s)"
    "\<And>p r. k_procs k p = Some r \<Longrightarrow> distinct (children_list r)"
  using assms unfolding fam_inv_def by blast+

lemma pid_unique:
  assumes "fam_inv k" "k_procs k p = Some r" "k_procs k q = Some s" "p_pid r = p_pid s"
  shows "p = q"
proof -
  note inv = proc_invD [OF fam_invD(1) [OF assms(1)]] and kp = fam_invD(2) [OF assms(1)]
  show ?thesis
    using inv(4) [OF assms(2)] inv(4) [OF assms(3)] kp assms(2-4)
    by (cases "p = k_kproc k"; cases "q = k_kproc k") auto
qed

text \<open>The state after a process is gone: its children are orphans and no list names it.\<close>

definition forget :: "'d kernel \<Rightarrow> int \<Rightarrow> nat \<Rightarrow> proc \<Rightarrow> proc" where
  "forget k i x s = s\<lparr>parent_pid := (if parent_pid s = i \<and> x \<noteq> k_kproc k then -1 else parent_pid s),
                    children_list := removeAll i (children_list s)\<rparr>"

definition reap :: "nat \<Rightarrow> 'd kernel \<Rightarrow> 'd kernel" where
  "reap p k = (case k_procs k p of
     None \<Rightarrow> k
   | Some r \<Rightarrow> k\<lparr>k_table := (k_table k)[nat (p_pid r) := None],
       k_procs := (\<lambda>x. if x = p then None else map_option (forget k (p_pid r) x) (k_procs k x))\<rparr>)"

lemma reap_simps:
  assumes "k_procs k p = Some r"
  shows "k_table (reap p k) = (k_table k)[nat (p_pid r) := None]" "k_kproc (reap p k) = k_kproc k"
    "k_procs (reap p k) x = (if x = p then None else map_option (forget k (p_pid r) x) (k_procs k x))"
    "k_last_pid (reap p k) = k_last_pid k" "k_next (reap p k) = k_next k" "k_vfs (reap p k) = k_vfs k"
  using assms by (simp_all add: reap_def)

lemma forget_simps [simp]: "p_pid (forget k i x s) = p_pid s"
    "children_list (forget k i x s) = removeAll i (children_list s)"
    "parent_pid (forget k i x s) = (if parent_pid s = i \<and> x \<noteq> k_kproc k then -1 else parent_pid s)"
  by (simp_all add: forget_def)

lemma proc_inv_reap:
  assumes "proc_inv k" "k_procs k p = Some r" "p \<noteq> k_kproc k"
  shows "proc_inv (reap p k)"
proof -
  note inv = proc_invD [OF assms(1)] and rs = reap_simps [OF assms(2)]
  have sp: "slot (p_pid r)" "k_table k ! nat (p_pid r) = Some p" using inv(4) [OF assms(2,3)] by auto
  have tbl: "slot j \<Longrightarrow> k_table (reap p k) ! nat j = (if p_pid r = j then None else k_table k ! nat j)" for j
    using slot_upd [OF sp(1) _ table_len [OF assms(1)]] by (simp add: rs)
  show ?thesis
    unfolding proc_inv_def
  proof (intro conjI allI impI; (elim conjE)?)
    show "table_ok (k_table (reap p k)) (k_last_pid (reap p k))"
      using table_ok_drop [OF inv(1) sp(1)] by (simp add: rs)
    show "k_procs (reap p k) (k_kproc (reap p k)) \<noteq> None" using inv(2) assms(3) by (simp add: rs)
  next
    fix i q assume i: "slot i" "k_table (reap p k) ! nat i = Some q"
    then have "p_pid r \<noteq> i" "k_table k ! nat i = Some q" using tbl [OF i(1)] by (auto split: if_splits)
    then have "q \<noteq> k_kproc k" "\<exists>s. k_procs k q = Some s \<and> p_pid s = i" "q \<noteq> p" using inv(3) [OF i(1)] assms(2) by auto
    then show "q \<noteq> k_kproc (reap p k)" "\<exists>s. k_procs (reap p k) q = Some s \<and> p_pid s = i" by (auto simp: rs)
  next
    fix q s assume "k_procs (reap p k) q = Some s" "q \<noteq> k_kproc (reap p k)"
    then obtain s0 where q: "q \<noteq> p" "k_procs k q = Some s0" "p_pid s = p_pid s0" "q \<noteq> k_kproc k"
      by (auto simp: rs split: if_splits)
    then have "slot (p_pid s)" "k_table k ! nat (p_pid s) = Some q" using inv(4) [OF q(2,4)] by auto
    moreover then have "p_pid s \<noteq> p_pid r" using sp(2) q(1) by auto
    ultimately show "slot (p_pid s)" "k_table (reap p k) ! nat (p_pid s) = Some q" using tbl by auto
  next
    fix q assume "k_next (reap p k) \<le> q"
    then show "k_procs (reap p k) q = None" using inv(5) by (simp add: rs)
  qed
qed

lemma fam_inv_reap:
  assumes "fam_inv k" "k_procs k p = Some r" "p \<noteq> k_kproc k"
  shows "fam_inv (reap p k)"
proof -
  note fam = fam_invD [OF assms(1)] and rs = reap_simps [OF assms(2)]
  have pos: "p_pid r \<noteq> -1" using proc_invD(4) [OF fam(1) assms(2,3)] by (auto simp: slot_def)
  have kproc: "p_pid s \<noteq> p_pid r" if "k_procs k x = Some s" "x \<noteq> p" for x s
    using pid_unique [OF assms(1) that(1) assms(2)] that(2) by auto
  show ?thesis
    unfolding fam_inv_def
  proof (intro conjI allI impI; (elim conjE)?)
    show "proc_inv (reap p k)" by (rule proc_inv_reap [OF fam(1) assms(2,3)])
  next
    fix s assume "k_procs (reap p k) (k_kproc (reap p k)) = Some s"
    then have "\<not> slot (p_pid s) \<and> p_pid s \<noteq> -1" using fam(2) assms(3) by (auto simp: rs)
    then show "\<not> slot (p_pid s)" "p_pid s \<noteq> -1" by auto
  next
    fix x s c assume "k_procs (reap p k) x = Some s" "c \<in> set (children_list s)"
    then obtain s0 where x: "x \<noteq> p" "k_procs k x = Some s0" "s = forget k (p_pid r) x s0"
      "c \<in> set (children_list s0)" "c \<noteq> p_pid r" by (auto simp: rs split: if_splits)
    obtain q u where q: "k_procs k q = Some u" "q \<noteq> k_kproc k" "q \<noteq> x" "p_pid u = c" "parent_pid u = p_pid s0"
      using fam(3) [OF x(2,4)] by auto
    have "q \<noteq> p" using q(1,4) x(5) assms(2) by auto
    moreover have "parent_pid u \<noteq> p_pid r" using q(5) kproc [OF x(2,1)] by simp
    ultimately show "\<exists>q t. k_procs (reap p k) q = Some t \<and> q \<noteq> k_kproc (reap p k) \<and> q \<noteq> x \<and> p_pid t = c \<and> parent_pid t = p_pid s"
      using q x(3) by (intro exI [of _ q] exI [of _ "forget k (p_pid r) q u"]) (simp add: rs)
  next
    fix x s assume "k_procs (reap p k) x = Some s" "x \<noteq> k_kproc (reap p k)" "parent_pid s \<noteq> -1"
    then obtain s0 where x: "x \<noteq> p" "k_procs k x = Some s0" "s = forget k (p_pid r) x s0" "x \<noteq> k_kproc k"
      "parent_pid s0 \<noteq> p_pid r" "parent_pid s0 \<noteq> -1" by (auto simp: rs split: if_splits)
    obtain q u where q: "k_procs k q = Some u" "p_pid u = parent_pid s0" "p_pid s0 \<in> set (children_list u)"
      using fam(4) [OF x(2,4,6)] by auto
    have "q \<noteq> p" using q(1,2) x(5) assms(2) by auto
    then show "\<exists>q t. k_procs (reap p k) q = Some t \<and> p_pid t = parent_pid s \<and> p_pid s \<in> set (children_list t)"
      using q x(3,5) kproc [OF x(2,1)] by (intro exI [of _ q] exI [of _ "forget k (p_pid r) q u"]) (simp add: rs)
  next
    fix x s assume "k_procs (reap p k) x = Some s"
    then show "distinct (children_list s)"
      using fam(5) by (auto simp: rs distinct_removeAll split: if_splits)
  qed
qed

section \<open>Destruction\<close>

definition orphan :: "nat \<Rightarrow> int list \<Rightarrow> 'd kernel \<Rightarrow> 'd kernel" where
  "orphan p cs k = k\<lparr>k_procs := (\<lambda>x. if x = p then map_option (\<lambda>r. r\<lparr>children_list := []\<rparr>) (k_procs k p)
     else map_option (\<lambda>s. if p_pid s \<in> set cs then s\<lparr>parent_pid := -1\<rparr> else s) (k_procs k x))\<rparr>"

lemma destroy_child_list_orphan:
  assumes "k_procs k p = Some r" "children_list r = cs"
    and "\<forall>c \<in> set cs. slot c \<and> (\<exists>q s. k_table k ! nat c = Some q \<and> k_procs k q = Some s \<and> p_pid s = c \<and> q \<noteq> p)"
    and "\<forall>x s. k_procs k x = Some s \<and> x \<noteq> p \<and> p_pid s \<in> set cs \<longrightarrow> k_table k ! nat (p_pid s) = Some x"
  shows "destroy_child_list p cs k = Done (orphan p cs k, True)"
  using assms
proof (induction cs arbitrary: k r)
  case Nil
  have "k_procs (orphan p [] k) x = k_procs k x" for x
    using Nil(1,2) by (cases "k_procs k x") (auto simp: orphan_def)
  then have e: "k_procs (orphan p [] k) = k_procs k" ..
  have "orphan p [] k = k\<lparr>k_procs := k_procs (orphan p [] k)\<rparr>" by (simp add: orphan_def)
  then show ?case using e by simp
next
  case (Cons c cs)
  obtain q s where q: "slot c" "k_table k ! nat c = Some q" "k_procs k q = Some s" "p_pid s = c" "q \<noteq> p"
    using Cons.prems(3) by auto
  let ?k1 = "upd_proc p (\<lambda>r. r\<lparr>children_list := cs\<rparr>) k"
  let ?k2 = "upd_proc q (\<lambda>r. r\<lparr>parent_pid := -1\<rparr>) ?k1"
  have srch: "proc_search c ?k1 = Done (Some q)"
    using q by (auto simp: proc_search_def slot_def get_proc_def)
  have IH: "destroy_child_list p cs ?k2 = Done (orphan p cs ?k2, True)"
  proof (rule Cons.IH)
    show "k_procs ?k2 p = Some (r\<lparr>children_list := cs\<rparr>)" using q(5) Cons.prems(1) by simp
    show "\<forall>c\<in>set cs. slot c \<and> (\<exists>q s. k_table ?k2 ! nat c = Some q \<and> k_procs ?k2 q = Some s \<and> p_pid s = c \<and> q \<noteq> p)"
    proof
      fix d assume "d \<in> set cs"
      then obtain x u where x: "slot d" "k_table k ! nat d = Some x" "k_procs k x = Some u" "p_pid u = d" "x \<noteq> p"
        using Cons.prems(3) by auto
      then show "slot d \<and> (\<exists>q s. k_table ?k2 ! nat d = Some q \<and> k_procs ?k2 q = Some s \<and> p_pid s = d \<and> q \<noteq> p)"
        by (cases "x = q") auto
    qed
    show "\<forall>x s. k_procs ?k2 x = Some s \<and> x \<noteq> p \<and> p_pid s \<in> set cs \<longrightarrow> k_table ?k2 ! nat (p_pid s) = Some x"
      using Cons.prems(4) q by (auto split: if_splits)
  qed simp
  have "orphan p cs ?k2 = orphan p (c # cs) k"
  proof -
    have "k_procs (orphan p cs ?k2) x = k_procs (orphan p (c # cs) k) x" for x
    proof (cases "k_procs k x")
      case None
      then show ?thesis by (auto simp: orphan_def)
    next
      case (Some u)
      then have ne: "x \<noteq> p \<Longrightarrow> x \<noteq> q \<Longrightarrow> p_pid u \<noteq> c" using Cons.prems(4) q(2) by auto
      show ?thesis
      proof (cases "x = p")
        case True
        then show ?thesis using Some q(5) by (simp add: orphan_def)
      next
        case False
        then show ?thesis using Some q(3,4) ne by (cases "x = q") (simp_all add: orphan_def)
      qed
    qed
    then have "k_procs (orphan p cs ?k2) = k_procs (orphan p (c # cs) k)" ..
    then show ?thesis by (simp add: orphan_def upd_proc_def)
  qed
  then show ?case using srch IH by (simp add: Let_def)
qed

lemma unlink_child_member: "distinct cs \<Longrightarrow> c \<in> set cs \<Longrightarrow> unlink_child c cs = Some (removeAll c cs)"
  by (induction cs) auto

lemma child_iff_parent:
  assumes "fam_inv k" "k_procs k p = Some r" "p \<noteq> k_kproc k" "k_procs k x = Some s"
  shows "p_pid s \<in> set (children_list r) \<longleftrightarrow> parent_pid s = p_pid r \<and> x \<noteq> k_kproc k"
proof
  note fam = fam_invD [OF assms(1)]
  assume "p_pid s \<in> set (children_list r)"
  then obtain q u where q: "k_procs k q = Some u" "q \<noteq> k_kproc k" "p_pid u = p_pid s" "parent_pid u = p_pid r"
    using fam(3) [OF assms(2)] by blast
  then have "q = x" using pid_unique [OF assms(1) q(1) assms(4)] by simp
  then show "parent_pid s = p_pid r \<and> x \<noteq> k_kproc k" using q assms(4) by auto
next
  note fam = fam_invD [OF assms(1)]
  assume a: "parent_pid s = p_pid r \<and> x \<noteq> k_kproc k"
  have "p_pid r \<noteq> -1" using proc_invD(4) [OF fam(1) assms(2,3)] by (auto simp: slot_def)
  then obtain q u where q: "k_procs k q = Some u" "p_pid u = parent_pid s" "p_pid s \<in> set (children_list u)"
    using fam(4) [OF assms(4)] a by auto
  then have "q = p" using pid_unique [OF assms(1) q(1) assms(2)] a by simp
  then show "p_pid s \<in> set (children_list r)" using q assms(2) by auto
qed

lemma listed_iff_parent:
  assumes "fam_inv k" "k_procs k p = Some r" "p \<noteq> k_kproc k" "k_procs k x = Some s"
  shows "p_pid r \<in> set (children_list s) \<longleftrightarrow> parent_pid r = p_pid s"
proof
  note fam = fam_invD [OF assms(1)]
  assume "p_pid r \<in> set (children_list s)"
  then obtain q u where q: "k_procs k q = Some u" "p_pid u = p_pid r" "parent_pid u = p_pid s"
    using fam(3) [OF assms(4)] by blast
  then show "parent_pid r = p_pid s" using pid_unique [OF assms(1) q(1) assms(2)] assms(2) by auto
next
  note fam = fam_invD [OF assms(1)]
  assume a: "parent_pid r = p_pid s"
  have "p_pid s \<noteq> -1" using proc_invD(4) [OF fam(1) assms(4)] fam(2) assms(4) by (cases "x = k_kproc k") (auto simp: slot_def)
  then obtain q u where q: "k_procs k q = Some u" "p_pid u = p_pid s" "p_pid r \<in> set (children_list u)"
    using fam(4) [OF assms(2,3)] a by auto
  then show "p_pid r \<in> set (children_list s)" using pid_unique [OF assms(1) q(1) assms(4)] assms(4) by auto
qed

lemma pid_not_orphan:
  assumes "fam_inv k" "k_procs k x = Some s"
  shows "p_pid s \<noteq> -1"
  using proc_invD(4) [OF fam_invD(1) [OF assms(1)] assms(2)] fam_invD(2) [OF assms(1)] assms(2)
  by (cases "x = k_kproc k") (auto simp: slot_def)

lemma reap_as_update: "k_procs k p = Some r \<Longrightarrow>
    reap p k = k\<lparr>k_table := (k_table k)[nat (p_pid r) := None], k_procs := k_procs (reap p k)\<rparr>"
  by (simp add: reap_def)

lemma orphans_of_dead:
  assumes "fam_inv k" "k_procs k p = Some r" "p \<noteq> k_kproc k"
  defines "k1 \<equiv> k\<lparr>k_table := (k_table k)[nat (p_pid r) := None]\<rparr>"
  shows "destroy_child_list p (children_list r) k1 = Done (orphan p (children_list r) k1, True)"
proof (rule destroy_child_list_orphan)
  note fam = fam_invD [OF assms(1)]
  note inv = proc_invD [OF fam(1)]
  have sp: "slot (p_pid r)" using inv(4) [OF assms(2,3)] by simp
  have tbl: "k_table k1 ! nat (p_pid s) = Some x" if "k_procs k x = Some s" "x \<noteq> k_kproc k" "x \<noteq> p" for x s
    using inv(4) [OF that(1,2)] slot_upd [OF sp, of "p_pid s" "k_table k" None] table_len [OF fam(1)]
      pid_unique [OF assms(1) that(1) assms(2)] that(3) by (auto simp: k1_def)
  show "k_procs k1 p = Some r" by (simp add: k1_def assms(2))
  show "\<forall>c\<in>set (children_list r). slot c \<and>
      (\<exists>q s. k_table k1 ! nat c = Some q \<and> k_procs k1 q = Some s \<and> p_pid s = c \<and> q \<noteq> p)"
  proof
    fix c assume "c \<in> set (children_list r)"
    then obtain q s where q: "k_procs k q = Some s" "q \<noteq> k_kproc k" "q \<noteq> p" "p_pid s = c"
      using fam(3) [OF assms(2)] by blast
    then show "slot c \<and> (\<exists>q s. k_table k1 ! nat c = Some q \<and> k_procs k1 q = Some s \<and> p_pid s = c \<and> q \<noteq> p)"
      using tbl [OF q(1,2,3)] inv(4) [OF q(1,2)] by (auto simp: k1_def)
  qed
  show "\<forall>x s. k_procs k1 x = Some s \<and> x \<noteq> p \<and> p_pid s \<in> set (children_list r) \<longrightarrow> k_table k1 ! nat (p_pid s) = Some x"
    using tbl child_iff_parent [OF assms(1,2,3)] by (auto simp: k1_def)
qed simp

lemma reap_intro:
  assumes "k_procs k p = Some r"
    and "\<And>f. k3\<lparr>k_procs := f\<rparr> = k\<lparr>k_table := (k_table k)[nat (p_pid r) := None], k_procs := f\<rparr>"
    and "\<And>x. x \<noteq> p \<Longrightarrow> k_procs k3 x = map_option (forget k (p_pid r) x) (k_procs k x)"
  shows "k3\<lparr>k_procs := (k_procs k3)(p := None)\<rparr> = reap p k"
proof -
  have "((k_procs k3)(p := None)) x = k_procs (reap p k) x" for x
    using assms(3) by (simp add: reap_simps [OF assms(1)])
  then have "(k_procs k3)(p := None) = k_procs (reap p k)" ..
  then show ?thesis using reap_as_update [OF assms(1)] assms(2) by simp
qed

lemma orphan_forget:
  assumes "fam_inv k" "k_procs k p = Some r" "p \<noteq> k_kproc k" "x \<noteq> p" "k_procs k x = Some s"
  shows "k_procs (orphan p (children_list r) (k\<lparr>k_table := tbl\<rparr>)) x =
    Some ((forget k (p_pid r) x s)\<lparr>children_list := children_list s\<rparr>)"
  using child_iff_parent [OF assms(1-3,5)] assms(4,5) by (cases s) (auto simp: orphan_def forget_def)

lemma parent_of_dead:
  assumes "fam_inv k" "k_procs k p = Some r" "p \<noteq> k_kproc k" "k_procs k q = Some s" "p_pid s = parent_pid r" "q \<noteq> p"
  defines "k2 \<equiv> orphan p (children_list r) (k\<lparr>k_table := (k_table k)[nat (p_pid r) := None]\<rparr>)"
  shows "parent_of (parent_pid r) k2 = Done (Some q)"
proof -
  note fam = fam_invD [OF assms(1)]
  note inv = proc_invD [OF fam(1)]
  have sp: "slot (p_pid r)" using inv(4) [OF assms(2,3)] by simp
  obtain kp where kp: "k_procs k (k_kproc k) = Some kp" using inv(2) by auto
  then have kp2: "\<exists>kp'. k_procs k2 (k_kproc k2) = Some kp' \<and> p_pid kp' = p_pid kp"
    using orphan_forget [OF assms(1-3) _ kp] assms(3) by (auto simp: k2_def orphan_def)
  have kpid: "\<not> slot (p_pid kp)" using fam(2) kp by blast
  have kq: "k_kproc k2 = k_kproc k" by (simp add: k2_def orphan_def)
  show ?thesis
  proof (cases "q = k_kproc k")
    case True
    then have pid: "parent_pid r = p_pid kp" using kp assms(4,5) by simp
    then have "proc_search (parent_pid r) k2 = Done None" using kpid by (auto simp: proc_search_def slot_def)
    then show ?thesis using kp2 pid True kq by (auto simp: parent_of_def get_proc_def)
  next
    case False
    have sq: "slot (p_pid s)" "k_table k ! nat (p_pid s) = Some q" using inv(4) [OF assms(4) False] by auto
    have "p_pid s \<noteq> p_pid r" using pid_unique [OF assms(1,4,2)] assms(6) by auto
    then have "k_table k2 ! nat (parent_pid r) = Some q"
      using slot_upd [OF sp sq(1) table_len [OF fam(1)]] sq(2) assms(5) by (simp add: k2_def orphan_def)
    moreover have "k_procs k2 q = Some ((forget k (p_pid r) q s)\<lparr>children_list := children_list s\<rparr>)"
      unfolding k2_def by (rule orphan_forget [OF assms(1-3,6,4)])
    ultimately have "proc_search (parent_pid r) k2 = Done (Some q)"
      using sq(1) assms(5) by (auto simp: proc_search_def slot_def get_proc_def)
    moreover have "parent_pid r \<noteq> p_pid kp" using kpid sq(1) unfolding assms(5) by metis
    ultimately show ?thesis using kp2 by (auto simp: parent_of_def get_proc_def)
  qed
qed

lemma parent_not_self:
  assumes "fam_inv k" "k_procs k p = Some r" "k_procs k q = Some s" "p_pid r \<in> set (children_list s)"
  shows "q \<noteq> p"
  using fam_invD(3) [OF assms(1,3,4)] pid_unique [OF assms(1) _ assms(2)] by metis

lemma proc_deinit_run:
  assumes "fam_inv k" "k_procs k p = Some r" "p \<noteq> k_kproc k" "destroy_sync r = Done ()"
  shows "\<exists>k3. proc_deinit p k = Done (k3, True) \<and> k3\<lparr>k_procs := (k_procs k3)(p := None)\<rparr> = reap p k"
proof -
  note fam = fam_invD [OF assms(1)]
  have "slot (p_pid r)" using proc_invD(4) [OF fam(1) assms(2,3)] by simp
  then have guard: "\<not> (p_pid r \<le> 0 \<or> p_pid r > int PROC_MAX)" by (auto simp: slot_def)
  let ?k2 = "orphan p (children_list r) (k\<lparr>k_table := (k_table k)[nat (p_pid r) := None]\<rparr>)"
  note destr = orphans_of_dead [OF assms(1-3)]
  have k2p: "k_procs ?k2 p = Some (r\<lparr>children_list := []\<rparr>)" by (simp add: orphan_def assms(2))
  note k2x = orphan_forget [OF assms(1-3), where tbl = "(k_table k)[nat (p_pid r) := None]"]
  have k2n: "k_procs ?k2 x = None" if "x \<noteq> p" "k_procs k x = None" for x using that by (simp add: orphan_def)
  have unlisted: "(forget k i x s)\<lparr>children_list := children_list s\<rparr> = forget k i x s" if "i \<notin> set (children_list s)" for i x s
    using that by (simp add: forget_def)
  show ?thesis
  proof (cases "parent_pid r = -1")
    case True
    have "proc_deinit p k = Done (?k2, True)"
      using assms(2,4) guard destr k2p True by (simp add: proc_deinit_def get_proc_def)
    moreover have "?k2\<lparr>k_procs := (k_procs ?k2)(p := None)\<rparr> = reap p k"
    proof (rule reap_intro [OF assms(2)])
      fix x assume x: "x \<noteq> p"
      have "p_pid r \<notin> set (children_list s)" if "k_procs k x = Some s" for s
        using listed_iff_parent [OF assms(1-3) that] pid_not_orphan [OF assms(1) that] True by auto
      then show "k_procs ?k2 x = map_option (forget k (p_pid r) x) (k_procs k x)"
        using k2x [OF x] k2n [OF x] unlisted by (cases "k_procs k x") auto
    qed (simp add: orphan_def)
    ultimately show ?thesis by blast
  next
    case False
    obtain q s where q: "k_procs k q = Some s" "p_pid s = parent_pid r" "p_pid r \<in> set (children_list s)"
      using fam(4) [OF assms(2,3) False] by blast
    have qp: "q \<noteq> p" by (rule parent_not_self [OF assms(1,2) q(1,3)])
    let ?k3 = "upd_proc q (\<lambda>r'. r'\<lparr>children_list := removeAll (p_pid r) (children_list s)\<rparr>) ?k2"
    have "unlink_child (p_pid r) (children_list s) = Some (removeAll (p_pid r) (children_list s))"
      by (rule unlink_child_member [OF fam(5) [OF q(1)] q(3)])
    then have "remove_child_from_list q (p_pid r) ?k2 = Done (?k3, True)"
      using k2x [OF qp q(1)] by (simp add: remove_child_from_list_def get_proc_def)
    then have "proc_deinit p k = Done (?k3, True)"
      using assms(2,4) guard destr k2p False parent_of_dead [OF assms(1-3) q(1,2) qp]
      by (simp add: proc_deinit_def get_proc_def)
    moreover have "?k3\<lparr>k_procs := (k_procs ?k3)(p := None)\<rparr> = reap p k"
    proof (rule reap_intro [OF assms(2)])
      fix x assume x: "x \<noteq> p"
      have "p_pid r \<notin> set (children_list u)" if "k_procs k x = Some u" "x \<noteq> q" for u
        using listed_iff_parent [OF assms(1-3) that(1)] pid_unique [OF assms(1) that(1) q(1)] q(2) that(2) by auto
      then show "k_procs ?k3 x = map_option (forget k (p_pid r) x) (k_procs k x)"
        using k2x [OF x] k2n [OF x] unlisted q(1) x
        by (cases "x = q"; cases "k_procs k x") (simp_all add: forget_def)
    qed (simp add: orphan_def upd_proc_def)
    ultimately show ?thesis by blast
  qed
qed

text \<open>The invariants see only the pid, the parent and the children of a process.\<close>

definition fview :: "'d kernel \<Rightarrow> nat \<Rightarrow> (int \<times> int \<times> int list) option" where
  "fview k x = map_option (\<lambda>r. (p_pid r, parent_pid r, children_list r)) (k_procs k x)"

lemma fview_Some:
  "fview k x = Some (i, par, cs) \<longleftrightarrow> (\<exists>r. k_procs k x = Some r \<and> p_pid r = i \<and> parent_pid r = par \<and> children_list r = cs)"
  by (auto simp: fview_def)

definition same_family :: "'d kernel \<Rightarrow> 'd kernel \<Rightarrow> bool" where
  "same_family k k' \<longleftrightarrow> fview k = fview k' \<and> k_table k = k_table k' \<and> k_last_pid k = k_last_pid k' \<and>
     k_kproc k = k_kproc k' \<and> k_next k = k_next k'"

lemma same_familyD:
  assumes "same_family k k'"
  shows "\<And>x r. k_procs k' x = Some r \<Longrightarrow>
    \<exists>s. k_procs k x = Some s \<and> p_pid s = p_pid r \<and> parent_pid s = parent_pid r \<and> children_list s = children_list r"
    "\<And>x r. k_procs k x = Some r \<Longrightarrow>
    \<exists>s. k_procs k' x = Some s \<and> p_pid s = p_pid r \<and> parent_pid s = parent_pid r \<and> children_list s = children_list r"
  using assms unfolding same_family_def by (metis fview_Some)+

lemma proc_inv_cong:
  assumes "proc_inv k" "same_family k k'"
  shows "proc_inv k'"
proof -
  note inv = proc_invD [OF assms(1)] and sf = same_familyD [OF assms(2)]
  have eq: "k_table k' = k_table k" "k_last_pid k' = k_last_pid k" "k_kproc k' = k_kproc k" "k_next k' = k_next k"
    using assms(2) by (auto simp: same_family_def)
  show ?thesis
    unfolding proc_inv_def eq
  proof (intro conjI allI impI; (elim conjE)?)
    show "table_ok (k_table k) (k_last_pid k)" by (rule inv(1))
    show "k_procs k' (k_kproc k) \<noteq> None" using inv(2) sf(2) by fastforce
  next
    fix i p assume "slot i" "k_table k ! nat i = Some p"
    then show "p \<noteq> k_kproc k" "\<exists>r. k_procs k' p = Some r \<and> p_pid r = i" using inv(3) sf(2) by fastforce+
  next
    fix p r assume "k_procs k' p = Some r" "p \<noteq> k_kproc k"
    then show "slot (p_pid r)" "k_table k ! nat (p_pid r) = Some p" using inv(4) sf(1) by fastforce+
  next
    fix p assume "k_next k \<le> p"
    then show "k_procs k' p = None" using inv(5) sf(1) by (cases "k_procs k' p") fastforce+
  qed
qed

lemma fam_inv_cong:
  assumes "fam_inv k" "same_family k k'"
  shows "fam_inv k'"
proof -
  note fam = fam_invD [OF assms(1)] and sf = same_familyD [OF assms(2)]
  have eq: "k_kproc k' = k_kproc k" using assms(2) by (auto simp: same_family_def)
  show ?thesis
    unfolding fam_inv_def eq
  proof (intro conjI allI impI; (elim conjE)?)
    show "proc_inv k'" by (rule proc_inv_cong [OF fam(1) assms(2)])
  next
    fix r assume "k_procs k' (k_kproc k) = Some r"
    then show "\<not> slot (p_pid r)" "p_pid r \<noteq> -1" using fam(2) sf(1) by fastforce+
  next
    fix p r c assume "k_procs k' p = Some r" "c \<in> set (children_list r)"
    then obtain s where s: "k_procs k p = Some s" "p_pid s = p_pid r" "c \<in> set (children_list s)" using sf(1) by fastforce
    obtain q u where q: "k_procs k q = Some u" "q \<noteq> k_kproc k" "q \<noteq> p" "p_pid u = c" "parent_pid u = p_pid s"
      using fam(3) [OF s(1,3)] by blast
    then show "\<exists>q s. k_procs k' q = Some s \<and> q \<noteq> k_kproc k \<and> q \<noteq> p \<and> p_pid s = c \<and> parent_pid s = p_pid r"
      using sf(2) [OF q(1)] s(2) by auto
  next
    fix p r assume "k_procs k' p = Some r" "p \<noteq> k_kproc k" "parent_pid r \<noteq> -1"
    then obtain s where s: "k_procs k p = Some s" "p_pid s = p_pid r" "parent_pid s = parent_pid r" using sf(1) by fastforce
    obtain q u where q: "k_procs k q = Some u" "p_pid u = parent_pid s" "p_pid s \<in> set (children_list u)"
      using fam(4) [OF s(1)] s(3) \<open>p \<noteq> k_kproc k\<close> \<open>parent_pid r \<noteq> -1\<close> by auto
    obtain t where "k_procs k' q = Some t" "p_pid t = p_pid u" "children_list t = children_list u" using sf(2) [OF q(1)] by auto
    then show "\<exists>q s. k_procs k' q = Some s \<and> p_pid s = parent_pid r \<and> p_pid r \<in> set (children_list s)"
      using q(2,3) s(2,3) by (intro exI [of _ q] exI [of _ t]) simp
  next
    fix p r assume "k_procs k' p = Some r"
    then show "distinct (children_list r)" using fam(5) sf(1) by fastforce
  qed
qed

lemma same_family_upd:
  assumes "\<And>r. p_pid (f r) = p_pid r \<and> parent_pid (f r) = parent_pid r \<and> children_list (f r) = children_list r"
  shows "same_family k (upd_proc p f k)"
proof -
  have "fview (upd_proc p f k) x = fview k x" for x
    using assms by (cases "k_procs k x") (auto simp: fview_def)
  then show ?thesis by (auto simp: same_family_def)
qed

lemma same_family_vfs: "same_family k (k\<lparr>k_vfs := v\<rparr>)"
  by (simp add: same_family_def fview_def fun_eq_iff)

lemma same_family_trans: "same_family a b \<Longrightarrow> same_family b c \<Longrightarrow> same_family a c"
  by (simp add: same_family_def)

text \<open>Taking the working directory and the address space away before the process itself.\<close>

definition bare :: "nat \<Rightarrow> 'd vfs \<Rightarrow> 'd kernel \<Rightarrow> 'd kernel" where
  "bare p v k = (upd_proc p (\<lambda>r. r\<lparr>p_cwd := None, p_addrspace := None\<rparr>) k)\<lparr>k_vfs := v\<rparr>"

lemma same_family_bare: "same_family k (bare p v k)"
  unfolding bare_def by (rule same_family_trans [OF same_family_upd same_family_vfs]) simp

lemma reap_bare:
  assumes "k_procs k p = Some r"
  shows "reap p (bare p v k) = (reap p k)\<lparr>k_vfs := v\<rparr>"
proof -
  let ?b = "bare p v k" and ?r = "r\<lparr>p_cwd := None, p_addrspace := None\<rparr>"
  have f: "forget ?b = forget k" by (simp add: fun_eq_iff forget_def bare_def)
  have b: "k_procs ?b p = Some ?r" using assms by (simp add: bare_def)
  have "k_procs (reap p ?b) x = k_procs (reap p k) x" for x
    unfolding reap_simps [OF b] reap_simps [OF assms] f by (simp add: bare_def)
  then have e: "k_procs (reap p ?b) = k_procs (reap p k)" ..
  have "reap p ?b = ?b\<lparr>k_table := (k_table ?b)[nat (p_pid r) := None], k_procs := k_procs (reap p k)\<rparr>"
    using reap_as_update [OF b] unfolding e by simp
  also have "\<dots> = k\<lparr>k_table := (k_table k)[nat (p_pid r) := None], k_procs := k_procs (reap p k), k_vfs := v\<rparr>"
    by (simp add: bare_def upd_proc_def)
  finally show ?thesis using reap_as_update [OF assms] by simp
qed

definition cwd_released :: "'d vtables \<Rightarrow> thread_id \<Rightarrow> 'd kernel \<Rightarrow> proc \<Rightarrow> 'd vfs \<Rightarrow> bool" where
  "cwd_released T me k r v \<longleftrightarrow>
     (case p_cwd r of None \<Rightarrow> v = k_vfs k | Some d \<Rightarrow> vnode_decref T (ctx_of k me) d (k_vfs k) = Done v)"

lemma kernel_vfs_same [simp]: "k\<lparr>k_vfs := k_vfs k\<rparr> = k"
  by (cases k) simp

lemma vfs_vm_same [simp]: "v\<lparr>v_vm := v_vm v\<rparr> = v"
  by (cases v) simp

lemma proc_destroy_run:
  assumes "fam_inv k" "k_procs k p = Some r" "p \<noteq> k_kproc k" "destroy_sync r = Done ()"
    and "p_numthreads r = 0" "cwd_released T me k r v"
  shows "proc_destroy T me p k = Done ((reap p k)\<lparr>k_vfs := v\<rparr>)"
proof -
  let ?r = "r\<lparr>p_cwd := None, p_addrspace := None\<rparr>" and ?k = "bare p v k"
  have "fam_inv ?k" by (rule fam_inv_cong [OF assms(1) same_family_bare])
  moreover have "k_procs ?k p = Some ?r" "p \<noteq> k_kproc ?k" using assms(2,3) by (simp_all add: bare_def)
  moreover have "destroy_sync ?r = Done ()" using assms(4) by (simp add: destroy_sync_def cong: option.case_cong)
  ultimately obtain k3 where k3: "proc_deinit p ?k = Done (k3, True)"
    "k3\<lparr>k_procs := (k_procs k3)(p := None)\<rparr> = reap p ?k"
    using proc_deinit_run by blast
  have same: "p_cwd r = None \<Longrightarrow> ?r = r\<lparr>p_addrspace := None\<rparr>" "p_addrspace r = None \<Longrightarrow> ?r = r\<lparr>p_cwd := None\<rparr>"
    "p_addrspace r = None \<Longrightarrow> r\<lparr>p_addrspace := None\<rparr> = r" by (cases r, simp)+
  have swap: "k'\<lparr>k_vfs := w, k_procs := f\<rparr> = k'\<lparr>k_procs := f, k_vfs := w\<rparr>" for k' :: "'a kernel" and w f by simp
  have id: "(k_procs k)(p \<mapsto> r) = k_procs k" using assms(2) by auto
  have "proc_destroy T me p k = bindo (proc_deinit p ?k)
      (\<lambda>(k3, ok). if \<not> ok then Panic else Done (k3\<lparr>k_procs := (k_procs k3)(p := None)\<rparr>))"
    using assms(2,3,5,6) id
    by (cases "p_cwd r"; cases "p_addrspace r")
      (simp_all add: proc_destroy_def cwd_released_def get_proc_def bare_def upd_proc_def as_destroy_def
        as_deactivate_def on_vfs_only_def same swap Let_def)
  then show ?thesis using k3 reap_bare [OF assms(2)] by simp
qed

section \<open>Creation\<close>

lemma fam_inv_add:
  assumes "fam_inv k" "slot i" "k_table k ! nat i = None" "p_pid r = i" "parent_pid r = -1" "children_list r = []"
  shows "fam_inv (add_proc (k_next k) i r k)"
proof -
  note fam = fam_invD [OF assms(1)]
  have fresh: "k_procs k (k_next k) = None" using proc_invD(5) [OF fam(1)] by simp
  have ne: "k_next k \<noteq> k_kproc k" using fresh proc_invD(2) [OF fam(1)] by metis
  let ?k = "add_proc (k_next k) i r k"
  have pr: "k_procs ?k q = (if q = k_next k then Some r else k_procs k q)" for q by (simp add: add_proc_def)
  have keep: "k_procs ?k q = Some s" if "k_procs k q = Some s" for q s using that fresh by (auto simp: pr)
  have kp: "k_kproc ?k = k_kproc k" by (simp add: add_proc_def)
  show ?thesis
    unfolding fam_inv_def kp
  proof (intro conjI allI impI; (elim conjE)?)
    show "proc_inv ?k" by (rule proc_inv_add [OF fam(1) assms(2-4)])
  next
    fix s assume "k_procs ?k (k_kproc k) = Some s"
    then show "\<not> slot (p_pid s)" "p_pid s \<noteq> -1" using fam(2) ne by (simp_all add: pr split: if_splits)
  next
    fix p s c assume "k_procs ?k p = Some s" "c \<in> set (children_list s)"
    then have "k_procs k p = Some s" "c \<in> set (children_list s)" using assms(6) by (auto simp: pr split: if_splits)
    then show "\<exists>q u. k_procs ?k q = Some u \<and> q \<noteq> k_kproc k \<and> q \<noteq> p \<and> p_pid u = c \<and> parent_pid u = p_pid s"
      using fam(3) keep by meson
  next
    fix p s assume "k_procs ?k p = Some s" "p \<noteq> k_kproc k" "parent_pid s \<noteq> -1"
    then have "k_procs k p = Some s" "p \<noteq> k_kproc k" "parent_pid s \<noteq> -1" using assms(5) by (auto simp: pr split: if_splits)
    then show "\<exists>q u. k_procs ?k q = Some u \<and> p_pid u = parent_pid s \<and> p_pid s \<in> set (children_list u)"
      using fam(4) keep by meson
  next
    fix p s assume "k_procs ?k p = Some s"
    then show "distinct (children_list s)" using fam(5) assms(6) by (auto simp: pr split: if_splits)
  qed
qed

lemma find_valid_pid_scan:
  assumes "proc_inv k"
  shows "(\<exists>i. find_valid_pid k = Some i \<and> first_free (k_table k) (k_last_pid k) i \<and>
            pid_scan (k_table k) (k_last_pid k) (next_index (k_last_pid k)) = Some i) \<or>
         (find_valid_pid k = Some (-1) \<and> (\<forall>j. slot j \<and> j \<noteq> k_last_pid k \<longrightarrow> k_table k ! nat j \<noteq> None) \<and>
            pid_scan (k_table k) (k_last_pid k) (next_index (k_last_pid k)) = Some (k_last_pid k))"
proof -
  obtain r where r: "pid_scan (k_table k) (k_last_pid k) (next_index (k_last_pid k)) = Some r"
    "if r = k_last_pid k then \<forall>j. slot j \<and> j \<noteq> k_last_pid k \<longrightarrow> k_table k ! nat j \<noteq> None
     else first_free (k_table k) (k_last_pid k) r"
    using pid_scan_first [OF proc_invD(1) [OF assms]] by blast
  then show ?thesis by (cases "r = k_last_pid k") (simp_all add: find_valid_pid_def)
qed

lemma proc_create_cases:
  assumes "fam_inv k" "v_al (k_vfs k) = []" "name \<noteq> ''[kernel]''" "find_valid_pid k = Some i"
  shows "if i = -1 then proc_create name junk k = Some (k\<lparr>k_next := Suc (k_next k)\<rparr>, None)
    else proc_create name junk k = Some (add_proc (k_next k) i (new_proc name i junk) k, Some (k_next k)) \<and>
         slot i \<and> k_table k ! nat i = None"
proof -
  note inv = fam_invD(1) [OF assms(1)]
  have fresh: "k_procs k (k_next k) = None" using proc_invD(5) [OF inv] by simp
  show ?thesis
    using find_valid_pid_scan [OF inv] assms(4)
      proc_create_run [OF assms(2,3), where i = i and junk = junk] proc_create_full_table [OF assms(2,3) fresh, where junk = junk]
    by (auto simp: first_free_def slot_def)
qed

lemma new_proc_fields [simp]:
  "p_pid (new_proc n i j) = i" "parent_pid (new_proc n i j) = -1" "children_list (new_proc n i j) = []"
  "fileTable (new_proc n i j) = replicate OPEN_MAX None" "p_cwd (new_proc n i j) = None"
  "p_addrspace (new_proc n i j) = None" "p_numthreads (new_proc n i j) = 0"
  by (simp_all add: new_proc_def new_sync_def)

lemma proc_inv_next: "proc_inv k \<Longrightarrow> proc_inv (k\<lparr>k_next := Suc (k_next k)\<rparr>)"
  unfolding proc_inv_def by simp

lemma fam_inv_next: "fam_inv k \<Longrightarrow> fam_inv (k\<lparr>k_next := Suc (k_next k)\<rparr>)"
  using proc_inv_next [of k] unfolding fam_inv_def by simp blast

section \<open>A concrete system\<close>

text \<open>The kernel after \<^verbatim>\<open>proc_bootstrap\<close> on zeroed memory, run by the boot thread.\<close>

definition zero_proc :: proc where
  "zero_proc = \<lparr>p_name = [], p_numthreads = 0, p_addrspace = None, p_cwd = None, p_status = 0, p_pid = 0,
     parent_pid = 0, children_list = [], p_cv = None, p_locklock = None, fileTable = []\<rparr>"

definition demo_kproc :: proc where
  "demo_kproc = zero_proc\<lparr>p_name := ''[kernel]'', fileTable := replicate OPEN_MAX None\<rparr>"

definition demo_raw :: "u8 list kernel" where
  "demo_raw = \<lparr>k_vfs = demo_vfs2, k_procs = Map.empty, k_kproc = 0, k_table = [], k_last_pid = 0,
     k_is_active = False, k_sysfiles = replicate SYSTEM_OPEN_MAX \<lparr>of_vn = None, of_offset = 0, of_mode_open = 0,
       of_count_refs = 0, of_lock = None\<rparr>, k_heapfiles = Map.empty, k_next = 10, k_tproc = Map.empty,
     k_tname = [7 \<mapsto> ''menu'', 8 \<mapsto> ''sh''], k_ready = [],
     k_execthrottle = \<lparr>sem_name = ''exec'', sem_wchan = \<lparr>wc_name = ''exec'', wc_threads = []\<rparr>,
       sem_lock = spinlock_init, sem_count = 1\<rparr>\<rparr>"

definition demo_kernel :: "u8 list kernel" where
  "demo_kernel = demo_raw\<lparr>k_procs := [10 \<mapsto> demo_kproc], k_kproc := 10, k_table := Some 10 # replicate PROC_MAX None,
     k_is_active := True, k_next := 11, k_tproc := [7 \<mapsto> 10]\<rparr>"

lemma demo_kernel_boot: "proc_bootstrap zero_proc demo_raw = Done (demo_kernel\<lparr>k_tproc := Map.empty\<rparr>)"
  by (simp add: proc_bootstrap_def returns_def proc_create_def alloc_with_def demo_raw_def demo_vfs2_def demo_vfs_def
      demo_kernel_def demo_kproc_def zero_proc_def)

lemma demo_table: "slot i \<Longrightarrow> k_table demo_kernel ! nat i = None"
  by (cases "nat i") (auto simp: demo_kernel_def slot_def)

lemma demo_kernel_fields [simp]:
  "k_kproc demo_kernel = 10" "k_last_pid demo_kernel = 0" "k_next demo_kernel = 11"
  "k_procs demo_kernel x = (if x = 10 then Some demo_kproc else None)" "length (k_table demo_kernel) = 101"
  "v_al (k_vfs demo_kernel) = []" "k_tproc demo_kernel = [7 \<mapsto> 10]"
  by (simp_all add: demo_kernel_def demo_raw_def demo_vfs2_def demo_vfs_def)

lemma demo_proc_inv: "proc_inv demo_kernel"
proof -
  have "table_ok (k_table demo_kernel) (k_last_pid demo_kernel)"
    using demo_table [of 1] by (auto simp: table_ok_def slot_def intro!: exI [of _ 1])
  then show ?thesis using demo_table by (auto simp: proc_inv_def)
qed

lemma demo_fam_inv: "fam_inv demo_kernel"
  using demo_proc_inv by (auto simp: fam_inv_def demo_kproc_def zero_proc_def slot_def)

lemma demo_find: "find_valid_pid demo_kernel = Some 1"
proof -
  have "next_index 0 = 1" by (simp add: next_index_def)
  moreover have "pid_scan (k_table demo_kernel) 0 1 = Some 1"
    using demo_table [of 1] by (subst pid_scan.simps) (simp add: slot_def)
  ultimately show ?thesis by (simp add: find_valid_pid_def)
qed

section \<open>Claims\<close>

text \<open>
  C26. The search for a pid always ends, although nothing in its loop says so, and finds the first
  free slot after the last pid given out, in circular order. It fails exactly when every slot other
  than that of the last pid is in use; that slot is never tried, even when it is free.
\<close>

theorem find_valid_pid_first_free:
  assumes "proc_inv k"
  shows "\<exists>i. find_valid_pid k = Some i \<and>
    (if i = -1 then \<forall>j. slot j \<and> j \<noteq> k_last_pid k \<longrightarrow> k_table k ! nat j \<noteq> None
     else first_free (k_table k) (k_last_pid k) i)"
  using find_valid_pid_scan [OF assms]
proof (elim disjE exE conjE)
  fix i assume "find_valid_pid k = Some i" "first_free (k_table k) (k_last_pid k) i"
  moreover then have "i \<noteq> -1" by (auto simp: first_free_def slot_def)
  ultimately show ?thesis by auto
qed auto

theorem find_valid_pid_first_free_witness:
  "find_valid_pid demo_kernel = Some 1 \<and> first_free (k_table demo_kernel) 0 1"
  using find_valid_pid_first_free [OF demo_proc_inv] demo_find by auto



text \<open>
  C13. Destroying a process with no thread left never panics as long as the family invariant holds: its
  slot is free again, its children have become orphans, its parent has forgotten it, every other
  process is unchanged, and the invariant is kept.
\<close>

theorem proc_destroy_reaps:
  assumes "fam_inv k" "k_procs k p = Some r" "p \<noteq> k_kproc k" "destroy_sync r = Done ()"
    and "p_numthreads r = 0" "cwd_released T me k r v"
  shows "\<exists>k'. proc_destroy T me p k = Done k' \<and> fam_inv k' \<and> k_vfs k' = v \<and>
    k_table k' = (k_table k)[nat (p_pid r) := None] \<and> k_procs k' p = None \<and>
    (\<forall>x s. x \<noteq> p \<and> k_procs k x = Some s \<longrightarrow> k_procs k' x =
       Some (s\<lparr>parent_pid := (if p_pid s \<in> set (children_list r) then -1 else parent_pid s),
               children_list := removeAll (p_pid r) (children_list s)\<rparr>))"
proof -
  have fg: "forget k (p_pid r) x s = s\<lparr>parent_pid := (if p_pid s \<in> set (children_list r) then -1 else parent_pid s),
      children_list := removeAll (p_pid r) (children_list s)\<rparr>" if "k_procs k x = Some s" for x s
    using child_iff_parent [OF assms(1-3) that] by (simp add: forget_def)
  have "fam_inv ((reap p k)\<lparr>k_vfs := v\<rparr>)"
    by (rule fam_inv_cong [OF fam_inv_reap [OF assms(1-3)] same_family_vfs])
  then show ?thesis
    using proc_destroy_run [OF assms] fg
    by (intro exI [of _ "(reap p k)\<lparr>k_vfs := v\<rparr>"]) (simp add: reap_simps [OF assms(2)])
qed

text \<open>The first user process of the concrete system, a child of the kernel process.\<close>

definition demo_child :: proc where
  "demo_child = (new_proc ''sh'' 1 zero_proc)\<lparr>parent_pid := 0\<rparr>"

definition demo_two :: "u8 list kernel" where
  "demo_two = demo_kernel\<lparr>k_procs := [10 \<mapsto> demo_kproc\<lparr>children_list := [1]\<rparr>, 11 \<mapsto> demo_child],
     k_table := (k_table demo_kernel)[1 := Some 11], k_last_pid := 1, k_next := 12\<rparr>"

lemma demo_two_inv: "fam_inv demo_two"
proof -
  have tbl: "slot i \<Longrightarrow> k_table demo_two ! nat i = (if i = 1 then Some 11 else None)" for i
    using demo_table [of i] slot_upd [of 1 i "k_table demo_kernel" "Some 11"]
    by (auto simp: demo_two_def slot_def)
  have "table_ok (k_table demo_two) (k_last_pid demo_two)" by (simp add: demo_two_def table_ok_def)
  then have "proc_inv demo_two"
    using tbl demo_table unfolding proc_inv_def by (auto simp: demo_child_def slot_def demo_two_def)
  then show ?thesis
    by (auto simp: fam_inv_def demo_two_def demo_child_def demo_kproc_def zero_proc_def slot_def split: if_splits)
      (rule exI [of _ 11]; simp)
qed

theorem proc_destroy_reaps_witness:
  "\<exists>k'. proc_destroy demo_tables 7 11 demo_two = Done k' \<and> fam_inv k' \<and> k_procs k' 11 = None"
proof -
  have "k_procs demo_two 11 = Some demo_child" "11 \<noteq> k_kproc demo_two" "destroy_sync demo_child = Done ()"
    "p_numthreads demo_child = 0" "cwd_released demo_tables 7 demo_two demo_child (k_vfs demo_two)"
    by (simp_all add: demo_two_def demo_child_def cwd_released_def destroy_sync_def new_proc_def new_sync_def
        cv_destroy_def lock_destroy_def spinlock_cleanup_def spinlock_init_def wchan_destroy_def)
  from proc_destroy_reaps [OF demo_two_inv this] show ?thesis by blast
qed

text \<open>
  When memory runs out while the condition variable of a new process is allocated, the creation
  fails and the structure is freed, but the slot keeps pointing to it: from then on a search for that
  pid uses freed memory, and the pid is lost.
\<close>

theorem proc_create_dangling:
  assumes "fam_inv k" "v_al (k_vfs k) = [True, True, False]" "name \<noteq> ''[kernel]''" "find_valid_pid k = Some i" "i \<noteq> -1"
  shows "\<exists>k' p. proc_create name junk k = Some (k', None) \<and> k_table k' ! nat i = Some p \<and> k_procs k' p = None \<and>
    proc_search i k' = Panic"
proof -
  note inv = fam_invD(1) [OF assms(1)]
  have i: "pid_scan (k_table k) (k_last_pid k) (next_index (k_last_pid k)) = Some i" "i \<noteq> k_last_pid k" "slot i"
    using find_valid_pid_scan [OF inv] assms(4,5) by (auto simp: first_free_def)
  then have "nat i < length (k_table k)" using table_len [OF inv] by (auto simp: slot_def)
  then show ?thesis
    using assms(2,3) i
    by (simp add: proc_create_def proc_init_def alloc_with_def cv_create_def lock_create_def wchan_create_def
        proc_search_def slot_def get_proc_def upd_proc_def Let_def)
qed

theorem proc_create_dangling_witness:
  "\<exists>k' p. proc_create ''sh'' zero_proc (demo_kernel\<lparr>k_vfs := (k_vfs demo_kernel)\<lparr>v_al := [True, True, False]\<rparr>\<rparr>) =
     Some (k', None) \<and> k_table k' ! nat 1 = Some p \<and> k_procs k' p = None \<and> proc_search 1 k' = Panic"
proof -
  let ?k = "demo_kernel\<lparr>k_vfs := (k_vfs demo_kernel)\<lparr>v_al := [True, True, False]\<rparr>\<rparr>"
  have "fam_inv ?k" by (rule fam_inv_cong [OF demo_fam_inv same_family_vfs])
  moreover have "find_valid_pid ?k = Some 1" using demo_find by (simp add: find_valid_pid_def cong: option.case_cong)
  ultimately show ?thesis using proc_create_dangling [of ?k "''sh''" 1 zero_proc] by simp
qed

end
