(* ===== verification/Files.thy ===== *)
theory Files
  imports Proc_Laws
begin

text \<open>
  The system calls on files, \<^verbatim>\<open>kern/syscall/syscall_FILE.c\<close>. Each is a function of the calling
  thread, its arguments and the kernel; a call that returns 0 gives \<open>Inr\<close> of the value it stores
  through its result pointer. Freeing a pointer into the static table of open files fails the
  assertion of \<^verbatim>\<open>kfree\<close> and is a \<open>Panic\<close>, as is an access beyond the file table of a process.
\<close>

type_synonym ('d, 'r) kop = "'d kernel \<Rightarrow> ('d kernel \<times> 'r cres) outcome"

abbreviation "PATH_MAX \<equiv> 1024 :: nat"
abbreviation "SEEK_SET \<equiv> 0 :: int"
abbreviation "SEEK_CUR \<equiv> 1 :: int"
abbreviation "SEEK_END \<equiv> 2 :: int"

section \<open>Open files\<close>

definition get_file :: "'d kernel \<Rightarrow> fref \<Rightarrow> openfile outcome" where
  "get_file k f =
     (case f of
        SysF i \<Rightarrow> if i < length (k_sysfiles k) then Done (k_sysfiles k ! i) else Panic
      | HeapF h \<Rightarrow> (case k_heapfiles k h of None \<Rightarrow> Panic | Some x \<Rightarrow> Done x))"

definition upd_file :: "fref \<Rightarrow> (openfile \<Rightarrow> openfile) \<Rightarrow> 'd kernel \<Rightarrow> 'd kernel" where
  "upd_file f g k =
     (case f of
        SysF i \<Rightarrow> k\<lparr>k_sysfiles := (k_sysfiles k)[i := g (k_sysfiles k ! i)]\<rparr>
      | HeapF h \<Rightarrow> k\<lparr>k_heapfiles := (k_heapfiles k)(h := map_option g (k_heapfiles k h))\<rparr>)"

definition file_lock :: "thread_id \<Rightarrow> fref \<Rightarrow> 'd kernel \<Rightarrow> 'd kernel outcome" where
  "file_lock me f k =
     bindo (get_file k f)
       (\<lambda>x. case of_lock x of
          None \<Rightarrow> Panic
        | Some l \<Rightarrow> bindo (lock_acquire me l) (\<lambda>l'. Done (upd_file f (\<lambda>x. x\<lparr>of_lock := Some l'\<rparr>) k)))"

definition file_unlock :: "thread_id \<Rightarrow> fref \<Rightarrow> 'd kernel \<Rightarrow> 'd kernel outcome" where
  "file_unlock me f k =
     bindo (get_file k f)
       (\<lambda>x. case of_lock x of
          None \<Rightarrow> Panic
        | Some l \<Rightarrow> bindo (lock_release_only me l) (\<lambda>l'. Done (upd_file f (\<lambda>x. x\<lparr>of_lock := Some l'\<rparr>) k)))"

text \<open>The file behind a descriptor of the current process, if the descriptor is valid.\<close>

definition fd_file :: "thread_id \<Rightarrow> int \<Rightarrow> 'd kernel \<Rightarrow> (nat \<times> fref) option outcome" where
  "fd_file me fd k =
     bindo (curproc k me) (\<lambda>p. bindo (get_proc k p)
       (\<lambda>r. Done (if fd < 0 \<or> fd \<ge> int OPEN_MAX then None
                  else map_option (\<lambda>f. (p, f)) (fileTable r ! nat fd))))"

section \<open>User memory of the caller\<close>

definition user_copyin :: "thread_id \<Rightarrow> nat \<Rightarrow> nat \<Rightarrow> ('d, u8 list) kop" where
  "user_copyin me src len k =
     bindo (copyin (vm_memops (c_as (ctx_of k me))) src len (v_vm (k_vfs k)))
       (\<lambda>(vm, r). Done (k\<lparr>k_vfs := (k_vfs k)\<lparr>v_vm := vm\<rparr>\<rparr>, r))"

definition user_copyout :: "thread_id \<Rightarrow> u8 list \<Rightarrow> nat \<Rightarrow> ('d, unit) kop" where
  "user_copyout me bs dst k =
     bindo (copyout (vm_memops (c_as (ctx_of k me))) bs dst (v_vm (k_vfs k)))
       (\<lambda>(vm, r). Done (k\<lparr>k_vfs := (k_vfs k)\<lparr>v_vm := vm\<rparr>\<rparr>, r))"

definition user_copyinstr :: "thread_id \<Rightarrow> nat \<Rightarrow> nat \<Rightarrow> ('d, u8 list) kop" where
  "user_copyinstr me src len k =
     bindo (copyinstr (vm_memops (c_as (ctx_of k me))) src len (v_vm (k_vfs k)))
       (\<lambda>(vm, r). Done (k\<lparr>k_vfs := (k_vfs k)\<lparr>v_vm := vm\<rparr>\<rparr>, r))"

definition cstr :: "u8 list \<Rightarrow> string" where
  "cstr bs = map (\<lambda>b. char_of (unat b)) (takeWhile (\<lambda>b. b \<noteq> 0) bs)"

text \<open>A block of \<open>n\<close> bytes whose contents are what \<^verbatim>\<open>kmalloc\<close> happened to return.\<close>

definition fresh_block :: "nat \<Rightarrow> u8 list \<Rightarrow> u8 list" where
  "fresh_block n junk = take n (junk @ replicate n 0)"

definition file_vop :: "'d vtables \<Rightarrow> thread_id \<Rightarrow> openfile \<Rightarrow> ('d vnode_ops \<Rightarrow> 'd uiop) \<Rightarrow> uio \<Rightarrow>
    'd kernel \<Rightarrow> ('d kernel \<times> uio \<times> unit cres) outcome" where
  "file_vop T me x sel u k =
     (case of_vn x of
        None \<Rightarrow> Panic
      | Some vn \<Rightarrow> on_vfs (VOP T vn (\<lambda>t. sel t (ctx_of k me) vn u)) k)"

section \<open>Reading and writing\<close>

text \<open>An error of \<^verbatim>\<open>VOP_WRITE\<close> returns without releasing the lock of the file.\<close>

definition sys_write :: "'d vtables \<Rightarrow> thread_id \<Rightarrow> int \<Rightarrow> nat \<Rightarrow> nat \<Rightarrow> ('d, u32) kop" where
  "sys_write T me fd buf buflen k =
     bindo (fd_file me fd k)
       (\<lambda>q. case q of
          None \<Rightarrow> Done (k, Inl EBADF)
        | Some (p, f) \<Rightarrow>
            bindo (get_file k f)
              (\<lambda>x. if of_mode_open x = O_RDONLY then Done (k, Inl EBADF)
               else let (k1, ok) = alloc_with kmalloc k in
               if \<not> ok then Done (k1, Inl ENOMEM)
               else bindo (user_copyin me buf buflen k1)
                 (\<lambda>(k2, r). case r of
                    Inl _ \<Rightarrow> Done (k2, Inl EFAULT)
                  | Inr kbuffer \<Rightarrow>
                      bindo (file_lock me f k2) (\<lambda>k3. bindo (get_file k3 f)
                        (\<lambda>x. bindo (file_vop T me x vop_write (uio_kinit kbuffer buflen (of_offset x) UIO_WRITE) k3)
                          (\<lambda>(k4, u, r). case r of
                             Inl e \<Rightarrow> Done (k4, Inl e)
                           | Inr _ \<Rightarrow>
                               let nbytes = uio_offset u - of_offset x;
                                   k5 = upd_file f (\<lambda>x. x\<lparr>of_offset := uio_offset u\<rparr>) k4
                               in bindo (file_unlock me f k5) (\<lambda>k6. Done (k6, Inr (ucast nbytes)))))))))"

text \<open>The kernel buffer is one byte longer than asked for; that length is a 32-bit number.\<close>

definition sys_read :: "'d vtables \<Rightarrow> thread_id \<Rightarrow> u8 list \<Rightarrow> int \<Rightarrow> nat \<Rightarrow> nat \<Rightarrow> ('d, u32) kop" where
  "sys_read T me junk fd buf buflen k =
     bindo (fd_file me fd k)
       (\<lambda>q. case q of
          None \<Rightarrow> Done (k, Inl EBADF)
        | Some (p, f) \<Rightarrow>
            bindo (get_file k f)
              (\<lambda>x. if of_mode_open x = O_WRONLY then Done (k, Inl EBADF)
               else if buf = 0 then Done (k, Inl EFAULT)
               else let (k1, ok) = alloc_with kmalloc k in
               if \<not> ok then Done (k1, Inl ENOMEM)
               else let kbuffer = fresh_block ((buflen + 1) mod 2 ^ 32) junk in
               bindo (file_lock me f k1) (\<lambda>k2. bindo (get_file k2 f)
                 (\<lambda>x. bindo (file_vop T me x vop_read (uio_kinit kbuffer buflen (of_offset x) UIO_READ) k2)
                   (\<lambda>(k3, u, r). case r of
                      Inl e \<Rightarrow> bindo (file_unlock me f k3) (\<lambda>k4. Done (k4, Inl e))
                    | Inr _ \<Rightarrow>
                        let k4 = upd_file f (\<lambda>x. x\<lparr>of_offset := uio_offset u\<rparr>) k3;
                            n = (buflen + 2 ^ 32 - uio_resid u) mod 2 ^ 32;
                            bs = take n (iov_block (hd (uio_done u @ uio_iov u)))
                        in if length bs < n then Panic
                           else bindo (user_copyout me bs buf k4)
                             (\<lambda>(k5, r). bindo (file_unlock me f k5)
                               (\<lambda>k6. Done (k6, case r of Inl _ \<Rightarrow> Inl EFAULT | Inr _ \<Rightarrow> Inr (of_nat n)))))))))"

section \<open>Opening and closing\<close>

text \<open>The search for a descriptor from 3 on; \<open>OPEN_MAX\<close> when there is none.\<close>

definition free_fd :: "proc \<Rightarrow> nat" where
  "free_fd r = (case find (\<lambda>i. fileTable r ! i = None) [3..<OPEN_MAX] of None \<Rightarrow> OPEN_MAX | Some i \<Rightarrow> i)"

definition free_sys :: "'d kernel \<Rightarrow> nat option" where
  "free_sys k = find (\<lambda>i. of_vn (k_sysfiles k ! i) = None) [0..<SYSTEM_OPEN_MAX]"

text \<open>What follows the choice of the slot \<open>i\<close> and the descriptor \<open>fd\<close>.\<close>

definition open_finish :: "'d vtables \<Rightarrow> thread_id \<Rightarrow> nat \<Rightarrow> nat \<Rightarrow> nat \<Rightarrow> u32 \<Rightarrow> ('d, u32) kop" where
  "open_finish T me i fd vn openflags k =
     bindo (if openflags AND O_APPEND \<noteq> 0
            then on_vfs (VOP T vn (\<lambda>t. vop_stat t (ctx_of k me) vn)) k
            else Done (k, Inr \<lparr>st_size = 0, st_mode = 0, st_nlink = 0, st_blocks = 0, st_dev = 0, st_rdev = 0\<rparr>))
       (\<lambda>(k1, r). case r of
          Inl _ \<Rightarrow> Panic
        | Inr info \<Rightarrow>
            let how = openflags AND O_ACCMODE;
                k2 = upd_file (SysF i) (\<lambda>x. x\<lparr>of_offset := st_size info, of_count_refs := 1\<rparr>) k1 in
            if how \<noteq> O_RDONLY \<and> how \<noteq> O_WRONLY \<and> how \<noteq> O_RDWR then Panic
            else let (k3, l) = alloc_with (lock_create ''FILE_LOCK'') (upd_file (SysF i) (\<lambda>x. x\<lparr>of_mode_open := how\<rparr>) k2) in
            if l = None then Panic
            else Done (upd_file (SysF i) (\<lambda>x. x\<lparr>of_lock := l\<rparr>) k3, Inr (of_nat fd)))"

definition sys_open :: "'d vtables \<Rightarrow> thread_id \<Rightarrow> nat \<Rightarrow> u32 \<Rightarrow> u32 \<Rightarrow> ('d, u32) kop" where
  "sys_open T me pathname openflags mode k =
     (if pathname = 0 then Done (k, Inl EFAULT)
      else let (k1, ok) = alloc_with kmalloc k in
      if \<not> ok then Done (k1, Inl ENOMEM)
      else bindo (user_copyinstr me pathname PATH_MAX k1)
        (\<lambda>(k2, r). case r of
           Inl _ \<Rightarrow> Done (k2, Inl EFAULT)
         | Inr kbuffer \<Rightarrow>
             bindo (on_vfs (vfs_open T (ctx_of k2 me) (cstr kbuffer) openflags mode) k2)
               (\<lambda>(k3, r). case r of
                  Inl e \<Rightarrow> Done (k3, Inl e)
                | Inr vn \<Rightarrow>
                    (case free_sys k3 of
                       None \<Rightarrow> Done (k3, Inl ENFILE)
                     | Some i \<Rightarrow>
                         let k4 = upd_file (SysF i) (\<lambda>x. x\<lparr>of_vn := Some vn\<rparr>) k3 in
                         bindo (curproc k4 me) (\<lambda>p. bindo (get_proc k4 p)
                           (\<lambda>r. let fd = free_fd r;
                                    k5 = (if fd < OPEN_MAX then set_fd p fd (Some (SysF i)) k4 else k4)
                                in if fd = OPEN_MAX - 1 then Done (k5, Inl EMFILE)
                                   else if fd = OPEN_MAX then Panic
                                   else open_finish T me i fd vn openflags k5))))))"

text \<open>Giving up one reference to an open file, shared by \<^verbatim>\<open>close\<close> and \<^verbatim>\<open>dup2\<close>.\<close>

definition drop_file :: "'d vtables \<Rightarrow> thread_id \<Rightarrow> nat \<Rightarrow> nat \<Rightarrow> fref \<Rightarrow> 'd kernel \<Rightarrow> 'd kernel outcome" where
  "drop_file T me p fd f k =
     bindo (file_lock me f k)
       (\<lambda>k1. let k2 = upd_file f (\<lambda>x. x\<lparr>of_count_refs := of_count_refs x - 1\<rparr>) (set_fd p fd None k1) in
        bindo (get_file k2 f)
          (\<lambda>x. if of_count_refs x > 0 then file_unlock me f k2
               else case of_vn x of
                 None \<Rightarrow> Panic
               | Some vn \<Rightarrow>
                   bindo (on_vfs_only (vfs_close T (ctx_of k2 me) vn) (upd_file f (\<lambda>x. x\<lparr>of_vn := None\<rparr>) k2))
                     (file_unlock me f)))"

definition sys_close :: "'d vtables \<Rightarrow> thread_id \<Rightarrow> int \<Rightarrow> ('d, unit) kop" where
  "sys_close T me fd k =
     bindo (fd_file me fd k)
       (\<lambda>q. case q of
          None \<Rightarrow> Done (k, Inl EBADF)
        | Some (p, f) \<Rightarrow> bindo (drop_file T me p (nat fd) f k) (\<lambda>k1. Done (k1, Inr ())))"

definition sys_dup2 :: "'d vtables \<Rightarrow> thread_id \<Rightarrow> int \<Rightarrow> int \<Rightarrow> ('d, u32) kop" where
  "sys_dup2 T me oldfd newfd k =
     (if newfd < 0 \<or> newfd \<ge> int OPEN_MAX then Done (k, Inl EBADF)
      else bindo (fd_file me oldfd k)
       (\<lambda>q. case q of
          None \<Rightarrow> Done (k, Inl EBADF)
        | Some (p, f) \<Rightarrow>
            if oldfd = newfd then Done (k, Inr (of_int newfd))
            else bindo (get_proc k p)
              (\<lambda>r. bindo (case fileTable r ! nat newfd of
                            None \<Rightarrow> Done k
                          | Some g \<Rightarrow> drop_file T me p (nat newfd) g k)
                (\<lambda>k1. bindo (file_lock me f k1)
                  (\<lambda>k2. bindo (file_unlock me f (upd_file f (\<lambda>x. x\<lparr>of_count_refs := of_count_refs x + 1\<rparr>) k2))
                    (\<lambda>k3. Done (set_fd p (nat newfd) (Some f) k3, Inr (of_int newfd))))))))"

section \<open>The other calls\<close>

definition sys_remove :: "nat \<Rightarrow> ('d, unit) kop" where
  "sys_remove pathname k = Done (k, Inr ())"

definition sys_chdir :: "'d vtables \<Rightarrow> thread_id \<Rightarrow> nat \<Rightarrow> ('d, unit) kop" where
  "sys_chdir T me pathname k =
     bindo (curproc k me)
       (\<lambda>p. let (k1, ok) = alloc_with kmalloc k in
        if \<not> ok then Done (k1, Inl ENOMEM)
        else bindo (user_copyinstr me pathname PATH_MAX k1)
          (\<lambda>(k2, r). case r of
             Inl e \<Rightarrow> Done (k2, Inl e)
           | Inr kbuffer \<Rightarrow>
               bindo (on_vfs (vfs_open T (ctx_of k2 me) (cstr kbuffer) O_RDONLY 420) k2)
                 (\<lambda>(k3, r). case r of
                    Inl e \<Rightarrow> Done (k3, Inl e)
                  | Inr vn \<Rightarrow>
                      bindo (on_vfs (vfs_setcurdir T (ctx_of k3 me) vn) k3)
                        (\<lambda>(k4, cwd, r). let k5 = upd_proc p (\<lambda>s. s\<lparr>p_cwd := cwd\<rparr>) k4 in
                           bindo (on_vfs_only (vfs_close T (ctx_of k5 me) vn) k5) (\<lambda>k6. Done (k6, r))))))"

definition sys_getcwd :: "'d vtables \<Rightarrow> thread_id \<Rightarrow> nat \<Rightarrow> nat \<Rightarrow> ('d, u32) kop" where
  "sys_getcwd T me buf buflen k =
     bindo (curproc k me) (\<lambda>p. bindo (get_proc k p)
       (\<lambda>s. let u = \<lparr>uio_iov = [\<lparr>iov_block = [], iov_kbase = 0, iov_ubase = buf, iov_len = buflen\<rparr>], uio_done = [],
                     uio_offset = 0, uio_resid = buflen, uio_segflg = UIO_USERSPACE, uio_rw = UIO_READ,
                     uio_space = p_addrspace s\<rparr> in
            bindo (on_vfs (vfs_getcwd T (ctx_of k me) u) k)
              (\<lambda>(k1, u1, r). Done (k1, case r of Inl e \<Rightarrow> Inl e | Inr _ \<Rightarrow> Inr (of_nat buflen - of_nat (uio_resid u1))))))"

text \<open>
  The new position of a seek from \<open>base\<close>; signed 64-bit numbers that wrap. The value returned for
  \<^verbatim>\<open>SEEK_END\<close> subtracts the distance from the size.
\<close>

definition seek_to :: "int \<Rightarrow> u64 \<Rightarrow> u64 \<Rightarrow> u64 \<Rightarrow> u64 cres" where
  "seek_to whence pos offset eof =
     (if whence = SEEK_SET then (if pos <s 0 then Inl EINVAL else Inr pos)
      else if whence = SEEK_CUR then (if pos <s 0 \<and> offset <s - pos then Inl EINVAL else Inr (offset + pos))
      else if whence = SEEK_END then (if pos <s 0 \<and> eof <s - pos then Inl EINVAL else Inr (eof - pos))
      else Inl EINVAL)"

definition sys_lseek :: "'d vtables \<Rightarrow> thread_id \<Rightarrow> int \<Rightarrow> u64 \<Rightarrow> int \<Rightarrow> ('d, u32 \<times> u32) kop" where
  "sys_lseek T me fd pos whence k =
     bindo (fd_file me fd k)
       (\<lambda>q. case q of
          None \<Rightarrow> Done (k, Inl EBADF)
        | Some (p, f) \<Rightarrow>
            bindo (get_file k f)
              (\<lambda>x. case of_vn x of
                 None \<Rightarrow> Panic
               | Some vn \<Rightarrow>
                   bindo (VOP T vn (\<lambda>t. vop_isseekable t vn) (k_vfs k))
                     (\<lambda>ok. if \<not> ok then Done (k, Inl ESPIPE)
                      else bindo (file_lock me f k)
                       (\<lambda>k1. bindo (if whence = SEEK_END
                                    then bindo (on_vfs (VOP T vn (\<lambda>t. vop_stat t (ctx_of k1 me) vn)) k1)
                                           (\<lambda>(k2, r). Done (k2, map_sum id st_size r))
                                    else Done (k1, Inr 0))
                         (\<lambda>(k2, r). case (case r of Inl e \<Rightarrow> Inl e | Inr eof \<Rightarrow> seek_to whence pos (of_offset x) eof) of
                            Inl e \<Rightarrow> bindo (file_unlock me f k2) (\<lambda>k3. Done (k3, Inl e))
                          | Inr retval \<Rightarrow>
                              bindo (file_unlock me f (upd_file f (\<lambda>x. x\<lparr>of_offset := retval\<rparr>) k2))
                                (\<lambda>k3. Done (k3, Inr (ucast (drop_bit 32 retval), ucast retval))))))))"

end
