(* ===== verification/Files_Laws.thy ===== *)
theory Files_Laws
  imports Files
begin

text \<open>
  Laws of the file calls: locks of open files, transfers between user memory and the devices through a
  descriptor, reference counts under \<^verbatim>\<open>close\<close> and \<^verbatim>\<open>dup2\<close>, seeking, and the cases the calls get wrong.
\<close>

section \<open>Open files and their locks\<close>

definition lock_idle :: "lock \<Rightarrow> bool" where
  "lock_idle l \<longleftrightarrow> lk_owner l = None \<and> wc_threads (lk_wchan l) = []"

lemma get_file_upd:
  assumes "get_file k f = Done x"
  shows "get_file (upd_file f g k) f' = (if f' = f then Done (g x) else get_file k f')"
  using assms by (cases f; cases f') (auto simp: get_file_def upd_file_def split: if_splits option.splits)

lemma upd_file_simps [simp]:
  "k_procs (upd_file f g k) = k_procs k" "k_vfs (upd_file f g k) = k_vfs k" "k_tproc (upd_file f g k) = k_tproc k"
  "k_table (upd_file f g k) = k_table k" "k_kproc (upd_file f g k) = k_kproc k" "k_next (upd_file f g k) = k_next k"
  "k_last_pid (upd_file f g k) = k_last_pid k"
  by (cases f; simp add: upd_file_def)+

lemma get_file_simps [simp]:
  "get_file (upd_proc p h k) f = get_file k f" "get_file (set_fd p fd y k) f = get_file k f"
  "get_file (k\<lparr>k_vfs := v\<rparr>) f = get_file k f"
  by (cases f; simp add: get_file_def set_fd_def upd_proc_def)+

lemma upd_file_upd_file:
  assumes "get_file k f = Done x"
  shows "upd_file f g (upd_file f h k) = upd_file f (g \<circ> h) k"
  using assms by (cases f) (auto simp: upd_file_def get_file_def split: if_splits option.splits)

lemma upd_file_id:
  assumes "get_file k f = Done x" "g x = x"
  shows "upd_file f g k = k"
  using assms by (cases f) (auto simp: upd_file_def get_file_def fun_upd_idem split: if_splits option.splits)

lemma upd_file_cong:
  assumes "get_file k f = Done x" "g x = h x"
  shows "upd_file f g k = upd_file f h k"
  using assms by (cases f) (auto simp: upd_file_def get_file_def split: if_splits option.splits)

lemma upd_file_vfs: "upd_file f g (k\<lparr>k_vfs := v\<rparr>) = (upd_file f g k)\<lparr>k_vfs := v\<rparr>"
  by (cases f) (simp_all add: upd_file_def)

lemma ctx_of_simps [simp]: "ctx_of (upd_file f g k) me = ctx_of k me" "ctx_of (k\<lparr>k_vfs := v\<rparr>) me = ctx_of k me"
  by (simp_all add: ctx_of_def cong: option.case_cong)

lemma ctx_of_set_fd [simp]: "ctx_of (set_fd p fd y k) me = ctx_of k me"
  by (auto simp: ctx_of_def set_fd_def split: option.splits)

lemma file_lock_idle:
  assumes "get_file k f = Done x" "of_lock x = Some l" "lock_idle l"
  shows "file_lock me f k = Done (upd_file f (\<lambda>x. x\<lparr>of_lock := Some (l\<lparr>lk_owner := Some me\<rparr>)\<rparr>) k)"
  using assms by (simp add: file_lock_def lock_idle_def)

lemma file_unlock_mine:
  assumes "get_file k f = Done x" "of_lock x = Some (l\<lparr>lk_owner := Some me\<rparr>)" "lock_idle l"
  shows "file_unlock me f k = Done (upd_file f (\<lambda>x. x\<lparr>of_lock := Some l\<rparr>) k)"
  using assms lock_again [of l me] by (simp add: file_unlock_def lock_idle_def del: lock_release_only_Done)

lemma file_busy:
  assumes "get_file k f = Done x" "of_lock x = Some l" "lk_owner l = Some t"
  shows "file_lock me f k = (if t = me then Panic else Block)"
  using assms by (simp add: file_lock_def lock_acquire_def lock_do_i_hold_def lock_acquire_section_def)

section \<open>Transfers\<close>

text \<open>A descriptor of the caller that refers to an open file nobody is using.\<close>

definition ready :: "'d kernel \<Rightarrow> thread_id \<Rightarrow> int \<Rightarrow> fref \<Rightarrow> openfile \<Rightarrow> nat \<Rightarrow> bool" where
  "ready k me fd f x vn \<longleftrightarrow> (\<exists>p. fd_file me fd k = Done (Some (p, f))) \<and> get_file k f = Done x \<and> of_vn x = Some vn \<and>
     (\<exists>l. of_lock x = Some l \<and> lock_idle l)"

lemma relock:
  assumes "get_file k f = Done x" "of_lock x = Some l"
  shows "upd_file f (\<lambda>x. x\<lparr>of_lock := Some l\<rparr>) (upd_file f (\<lambda>x. x\<lparr>of_offset := pos\<rparr>)
           ((upd_file f (\<lambda>x. x\<lparr>of_lock := Some l'\<rparr>) k)\<lparr>k_vfs := v\<rparr>)) =
         upd_file f (\<lambda>x. x\<lparr>of_offset := pos\<rparr>) (k\<lparr>k_vfs := v\<rparr>)"
proof -
  have s: "s\<lparr>of_lock := Some l', of_offset := pos, of_lock := Some l\<rparr> = s\<lparr>of_offset := pos\<rparr>"
    if "of_lock s = Some l" for s :: openfile using that by (cases s) simp
  have g: "get_file (k\<lparr>k_vfs := v\<rparr>) f = Done x" using assms(1) by simp
  note u = upd_file_upd_file [OF g]
  show ?thesis unfolding upd_file_vfs [symmetric] u by (rule upd_file_cong [OF g]) (simp add: s assms(2))
qed

lemma sys_write_run:
  assumes "ready k me fd f x vn" "of_mode_open x \<noteq> O_RDONLY" "v_al (k_vfs k) = []"
    and "copyin (vm_memops (c_as (ctx_of k me))) buf buflen (v_vm (k_vfs k)) = Done (vm, Inr bs)"
    and "VOP T vn (\<lambda>t. vop_write t (ctx_of k me) vn (uio_kinit bs buflen (of_offset x) UIO_WRITE))
           ((k_vfs k)\<lparr>v_vm := vm\<rparr>) = Done (v, u, Inr ())"
  shows "sys_write T me fd buf buflen k =
    Done (upd_file f (\<lambda>x. x\<lparr>of_offset := uio_offset u\<rparr>) (k\<lparr>k_vfs := v\<rparr>), Inr (ucast (uio_offset u - of_offset x)))"
proof -
  obtain p l where r: "fd_file me fd k = Done (Some (p, f))" "get_file k f = Done x" "of_vn x = Some vn"
    "of_lock x = Some l" "lock_idle l" using assms(1) by (auto simp: ready_def)
  let ?k2 = "k\<lparr>k_vfs := (k_vfs k)\<lparr>v_vm := vm\<rparr>\<rparr>" and ?l = "l\<lparr>lk_owner := Some me\<rparr>"
  let ?k3 = "upd_file f (\<lambda>x. x\<lparr>of_lock := Some ?l\<rparr>) ?k2" and ?x = "x\<lparr>of_lock := Some ?l\<rparr>"
  let ?k5 = "upd_file f (\<lambda>x. x\<lparr>of_offset := uio_offset u\<rparr>) (?k3\<lparr>k_vfs := v\<rparr>)"
  have k2: "user_copyin me buf buflen k = Done (?k2, Inr bs)" using assms(4) by (simp add: user_copyin_def)
  have g2: "get_file ?k2 f = Done x" using r(2) by simp
  have k3: "file_lock me f ?k2 = Done ?k3" by (rule file_lock_idle [OF g2 r(4,5)])
  have g3: "get_file ?k3 f = Done ?x" by (simp add: get_file_upd [OF g2])
  have op: "file_vop T me ?x vop_write (uio_kinit bs buflen (of_offset x) UIO_WRITE) ?k3 = Done (?k3\<lparr>k_vfs := v\<rparr>, u, Inr ())"
    using assms(5) r(3) by (simp add: file_vop_def on_vfs_def)
  have g5: "get_file ?k5 f = Done (?x\<lparr>of_offset := uio_offset u\<rparr>)"
    by (subst get_file_upd [where x = ?x]) (simp_all add: g3)
  have "file_unlock me f ?k5 = Done (upd_file f (\<lambda>x. x\<lparr>of_lock := Some l\<rparr>) ?k5)"
    by (rule file_unlock_mine [OF g5 _ r(5)]) simp
  also have "upd_file f (\<lambda>x. x\<lparr>of_lock := Some l\<rparr>) ?k5 = upd_file f (\<lambda>x. x\<lparr>of_offset := uio_offset u\<rparr>) (k\<lparr>k_vfs := v\<rparr>)"
    using relock [OF g2 r(4), where pos = "uio_offset u" and l' = ?l and v = v] by simp
  finally show ?thesis
    using r(1,2) assms(2,3) k2 k3 g3 op by (simp add: sys_write_def alloc_with_full)
qed

lemma sys_read_run:
  assumes "ready k me fd f x vn" "of_mode_open x \<noteq> O_WRONLY" "buf \<noteq> 0" "v_al (k_vfs k) = []"
    and "VOP T vn (\<lambda>t. vop_read t (ctx_of k me) vn
           (uio_kinit (fresh_block ((buflen + 1) mod 2 ^ 32) junk) buflen (of_offset x) UIO_READ)) (k_vfs k) = Done (v, u, Inr ())"
    and "uio_resid u + n = buflen" "buflen < 2 ^ 32" "take n (iov_block (hd (uio_done u @ uio_iov u))) = bs" "length bs = n"
    and "copyout (vm_memops (c_as (ctx_of k me))) bs buf (v_vm v) = Done (vm, r)"
  shows "sys_read T me junk fd buf buflen k =
    Done (upd_file f (\<lambda>x. x\<lparr>of_offset := uio_offset u\<rparr>) (k\<lparr>k_vfs := v\<lparr>v_vm := vm\<rparr>\<rparr>),
          case r of Inl _ \<Rightarrow> Inl EFAULT | Inr _ \<Rightarrow> Inr (of_nat n))"
proof -
  obtain p l where h: "fd_file me fd k = Done (Some (p, f))" "get_file k f = Done x" "of_vn x = Some vn"
    "of_lock x = Some l" "lock_idle l" using assms(1) by (auto simp: ready_def)
  let ?l = "l\<lparr>lk_owner := Some me\<rparr>" and ?v = "v\<lparr>v_vm := vm\<rparr>"
  let ?k2 = "upd_file f (\<lambda>x. x\<lparr>of_lock := Some ?l\<rparr>) k" and ?x = "x\<lparr>of_lock := Some ?l\<rparr>"
  let ?k4 = "upd_file f (\<lambda>x. x\<lparr>of_offset := uio_offset u\<rparr>) (?k2\<lparr>k_vfs := v\<rparr>)"
  let ?k5 = "upd_file f (\<lambda>x. x\<lparr>of_offset := uio_offset u\<rparr>) (?k2\<lparr>k_vfs := ?v\<rparr>)"
  let ?u0 = "uio_kinit (fresh_block ((buflen + 1) mod 2 ^ 32) junk) buflen (of_offset x) UIO_READ"
  have k2: "file_lock me f k = Done ?k2" by (rule file_lock_idle [OF h(2,4,5)])
  have g2: "get_file ?k2 f = Done ?x" by (simp add: get_file_upd [OF h(2)])
  have op: "file_vop T me ?x vop_read ?u0 ?k2 = Done (?k2\<lparr>k_vfs := v\<rparr>, u, Inr ())"
    using assms(5) h(3) by (simp add: file_vop_def on_vfs_def)
  have n: "(buflen + 2 ^ 32 - uio_resid u) mod 2 ^ 32 = n"
  proof -
    have "buflen + 2 ^ 32 - uio_resid u = n + 2 ^ 32" using assms(6) by simp
    then show ?thesis using assms(6,7) by (simp only: mod_add_self2) simp
  qed
  have co: "user_copyout me bs buf ?k4 = Done (?k5, r)"
    using assms(10) by (simp add: user_copyout_def upd_file_vfs)
  have g5: "get_file ?k5 f = Done (?x\<lparr>of_offset := uio_offset u\<rparr>)"
    by (subst get_file_upd [where x = ?x]) (simp_all add: g2)
  have "file_unlock me f ?k5 = Done (upd_file f (\<lambda>x. x\<lparr>of_lock := Some l\<rparr>) ?k5)"
    by (rule file_unlock_mine [OF g5 _ h(5)]) simp
  also have "upd_file f (\<lambda>x. x\<lparr>of_lock := Some l\<rparr>) ?k5 = upd_file f (\<lambda>x. x\<lparr>of_offset := uio_offset u\<rparr>) (k\<lparr>k_vfs := ?v\<rparr>)"
    by (rule relock [OF h(2,4)])
  finally have ul: "file_unlock me f ?k5 = Done (upd_file f (\<lambda>x. x\<lparr>of_offset := uio_offset u\<rparr>) (k\<lparr>k_vfs := ?v\<rparr>))" .
  have off: "of_offset ?x = of_offset x" by simp
  have al: "alloc_with kmalloc k = (k, True)" using assms(4) by (simp add: alloc_with_full)
  show ?thesis
    unfolding sys_read_def h(1) bindo.simps option.case prod.case h(2) al Let_def k2 g2 off op sum.case n assms(8) co ul
    using assms(2,3,9) by (simp split: sum.split)
qed

section \<open>Devices behind a descriptor\<close>

lemma VOP_device:
  assumes "v_nodes v vn = Some nd" "vn_ops nd = Some DevVnode" "0 < vn_refcount nd"
  shows "VOP T vn g v = g (dev_vnode_ops T) v"
  using assms by (simp add: VOP_ok vops_of_def)

text \<open>A character device: no blocks, so every position is accepted.\<close>

definition char_device :: "'d vfs \<Rightarrow> nat \<Rightarrow> devclass \<Rightarrow> bool" where
  "char_device v vn kd \<longleftrightarrow> (\<exists>nd dev. v_nodes v vn = Some nd \<and> vn_ops nd = Some DevVnode \<and> 0 < vn_refcount nd \<and>
     v_devices v (vn_data nd) = Some dev \<and> d_ops dev = kd \<and> d_blocks dev = 0)"

lemma char_device_io:
  assumes "char_device v vn kd"
  defines "d \<equiv> vn_data (the (v_nodes v vn))"
  shows "uio_rw u = UIO_WRITE \<Longrightarrow> VOP T vn (\<lambda>t. vop_write t c vn u) v = devop_io (devops_of T kd) c d u v"
    "uio_rw u = UIO_READ \<Longrightarrow> VOP T vn (\<lambda>t. vop_read t c vn u) v = devop_io (devops_of T kd) c d u v"
  using assms
  by (auto simp: char_device_def VOP_device dev_vnode_ops_def dev_write_def dev_read_def dev_of_def dev_tryseek_def)

lemma char_device_vm: "char_device (v\<lparr>v_vm := m\<rparr>) vn kd = char_device v vn kd"
  by (simp add: char_device_def)

text \<open>A console that is set up, with its locks free.\<close>

definition console_at :: "con_state \<Rightarrow> con_softc \<Rightarrow> bool" where
  "console_at c cs \<longleftrightarrow> the_console c = Some cs \<and> con_inv cs \<and> con_winv cs \<and>
     (\<exists>l. con_userlock_read c = Some l \<and> lock_idle l) \<and> (\<exists>l. con_userlock_write c = Some l \<and> lock_idle l)"

lemma console_at_output: "console_at c cs \<Longrightarrow> same_input cs cs' \<Longrightarrow> con_winv cs' \<Longrightarrow> console_at (c\<lparr>the_console := Some cs'\<rparr>) cs'"
  using same_input_inv [of cs cs'] by (auto simp: console_at_def)

lemma console_at_input: "console_at c cs \<Longrightarrow> same_output cs cs' \<Longrightarrow> con_inv cs' \<Longrightarrow> console_at (c\<lparr>the_console := Some cs'\<rparr>) cs'"
  using same_output_inv [of cs cs'] by (auto simp: console_at_def)

lemma fd_file_stable [simp]:
  "fd_file me fd (upd_file f g k) = fd_file me fd k" "fd_file me fd (k\<lparr>k_vfs := v\<rparr>) = fd_file me fd k"
  by (simp_all add: fd_file_def curproc_def get_proc_def cong: option.case_cong)

lemma ready_moved:
  assumes "ready k me fd f x vn"
  shows "ready (upd_file f (\<lambda>x. x\<lparr>of_offset := pos\<rparr>) (k\<lparr>k_vfs := v\<rparr>)) me fd f (x\<lparr>of_offset := pos\<rparr>) vn"
  using assms by (auto simp: ready_def get_file_upd [where x = x])

lemma con_dev_io_write:
  assumes "console_at (v_con v) cs" "length bs < 2 ^ 32"
  shows "\<exists>cs' u. devop_io (devops_of T ConDev) c d (uio_kinit bs (length bs) pos UIO_WRITE) v =
      Done (v\<lparr>v_con := (v_con v)\<lparr>the_console := Some cs'\<rparr>\<rparr>, u, Inr ()) \<and>
    console_at ((v_con v)\<lparr>the_console := Some cs'\<rparr>) cs' \<and> con_queue cs' = con_queue cs \<and>
    cs_out cs' = cs_out cs @ concat (map crlf bs) \<and> uio_offset u = pos + of_nat (length bs)"
proof -
  obtain l where c: "the_console (v_con v) = Some cs" "con_winv cs" "con_userlock_write (v_con v) = Some l" "lk_owner l = None"
    "wc_threads (lk_wchan l) = []" using assms(1) by (auto simp: console_at_def lock_idle_def)
  obtain cs' u where r: "con_io (vm_memops (c_as c)) (c_as c) (c_thread c) (uio_kinit bs (length bs) pos UIO_WRITE) (v_con v) (v_vm v) =
      Done ((v_con v)\<lparr>the_console := Some cs'\<rparr>, v_vm v, u, Inr ())" "con_winv cs'" "same_input cs cs'"
    "cs_out cs' = cs_out cs @ concat (map crlf bs)" "uio_offset u = pos + of_nat (length bs)"
    using con_io_write_run [OF c assms(2), of "vm_memops (c_as c)" "c_as c" "c_thread c" pos "v_vm v"]
    by (auto simp: moved_to_def uio_kinit_def)
  show ?thesis
    using r console_at_output [OF assms(1) r(3,2)] same_input_inv [OF r(3)]
    by (intro exI [of _ cs'] exI [of _ u]) (simp add: devops_of_def console_devops_def con_dev_io_def)
qed

lemma con_dev_io_read:
  assumes "console_at (v_con v) cs" "len < 2 ^ 32" "len \<le> length buf"
    and "len \<le> length (con_queue cs) \<or> 10 \<in> set (con_queue cs) \<or> 13 \<in> set (con_queue cs)"
  defines "line \<equiv> con_line len (con_queue cs)"
  shows "\<exists>cs' u. devop_io (devops_of T ConDev) c d (uio_kinit buf len pos UIO_READ) v =
      Done (v\<lparr>v_con := (v_con v)\<lparr>the_console := Some cs'\<rparr>\<rparr>, u, Inr ()) \<and>
    console_at ((v_con v)\<lparr>the_console := Some cs'\<rparr>) cs' \<and> con_queue cs' = drop (length line) (con_queue cs) \<and>
    cs_out cs' = cs_out cs \<and> uio_offset u = pos + of_nat (length line) \<and> uio_resid u + length line = len \<and>
    take (length line) (iov_block (hd (uio_done u @ uio_iov u))) = line"
proof -
  obtain l where c: "the_console (v_con v) = Some cs" "con_inv cs" "con_userlock_read (v_con v) = Some l" "lk_owner l = None"
    "wc_threads (lk_wchan l) = []" using assms(1) by (auto simp: console_at_def lock_idle_def)
  obtain cs' u where r: "con_io (vm_memops (c_as c)) (c_as c) (c_thread c) (uio_kinit buf len pos UIO_READ) (v_con v) (v_vm v) =
      Done ((v_con v)\<lparr>the_console := Some cs'\<rparr>, v_vm v, u, Inr ())" "con_inv cs'" "same_output cs cs'"
    "uio_filled u = line" "moved_to (uio_kinit buf len pos UIO_READ) (length line) u"
    "con_queue cs' = drop (length line) (con_queue cs)"
    using con_io_read_run [OF c assms(2-4), of "vm_memops (c_as c)" "c_as c" "c_thread c" pos "v_vm v"] line_def by auto
  have "uio_offset u = pos + of_nat (length line)" "uio_resid u + length line = len"
    using r(5) by (auto simp: moved_to_def uio_kinit_def)
  moreover have "cs_out cs' = cs_out cs" using r(3) by (simp add: same_output_def)
  ultimately show ?thesis
    using r console_at_input [OF assms(1) r(3,2)] filled_single [OF r(5,4) refl]
    by (intro exI [of _ cs'] exI [of _ u]) (simp add: devops_of_def console_devops_def con_dev_io_def)
qed

lemma ucast_small: "n < 2 ^ 32 \<Longrightarrow> ucast (of_nat n :: u64) = (of_nat n :: u32)"
  by (simp add: unsigned_of_nat take_bit_nat_eq_self)

lemma length_fresh_block [simp]: "length (fresh_block n junk) = n"
  by (simp add: fresh_block_def)

lemma con_line_nonempty: "0 < n \<Longrightarrow> q \<noteq> [] \<Longrightarrow> con_line n q \<noteq> []"
  by (cases n; cases q) (auto simp: Let_def)

section \<open>A concrete process\<close>

text \<open>
  The first user process of the concrete system with an address space, the console on descriptors 0
  and 1 and the null device on descriptor 3.
\<close>

definition idle_lock :: lock where
  "idle_lock = \<lparr>lk_name = [], lk_wchan = \<lparr>wc_name = [], wc_threads = []\<rparr>, lk_owner = None, lk_lock = spinlock_init\<rparr>"

definition demo_of :: "nat \<Rightarrow> u32 \<Rightarrow> openfile" where
  "demo_of vn mode = \<lparr>of_vn = Some vn, of_offset = 0, of_mode_open = mode, of_count_refs = 1, of_lock = Some idle_lock\<rparr>"

definition demo_queue :: con_softc where
  "demo_queue = (the (the_console demo_con))\<lparr>
     cs_gotchars := [108, 115, 13] @ replicate 29 0, cs_gotchars_head := 3,
     cs_rsem := (cs_rsem (the (the_console demo_con)))\<lparr>sem_count := 3\<rparr>\<rparr>"

definition demo_user :: "u8 list kernel" where
  "demo_user = demo_two\<lparr>
     k_vfs := (add_ref 2 1 (add_ref 4 2 demo_vfs2))\<lparr>v_vm := as_activate (Some demo_as) demo_vm,
       v_con := demo_con\<lparr>the_console := Some demo_queue\<rparr>\<rparr>,
     k_procs := (k_procs demo_two)(11 \<mapsto> demo_child\<lparr>p_numthreads := 1, p_addrspace := Some demo_as,
       fileTable := (replicate OPEN_MAX None)[0 := Some (HeapF 20), 1 := Some (HeapF 21), 3 := Some (SysF 0)]\<rparr>),
     k_sysfiles := (k_sysfiles demo_kernel)[0 := demo_of 2 O_RDWR],
     k_heapfiles := [20 \<mapsto> demo_of 4 O_RDONLY, 21 \<mapsto> demo_of 4 O_WRONLY],
     k_tproc := [7 \<mapsto> 10, 8 \<mapsto> 11], k_next := 30\<rparr>"

lemma demo_user_fields:
  "ready demo_user 8 0 (HeapF 20) (demo_of 4 O_RDONLY) 4" "ready demo_user 8 1 (HeapF 21) (demo_of 4 O_WRONLY) 4"
  "ready demo_user 8 3 (SysF 0) (demo_of 2 O_RDWR) 2" "v_al (k_vfs demo_user) = []"
  "c_as (ctx_of demo_user 8) = Some demo_as" "v_vm (k_vfs demo_user) = as_activate (Some demo_as) demo_vm"
  by (simp_all add: demo_user_def ready_def fd_file_def curproc_def get_proc_def get_file_def demo_of_def idle_lock_def
      lock_idle_def demo_vfs2_def demo_vfs_def ctx_of_def demo_kernel_def demo_raw_def)

lemma demo_user_devices: "char_device (k_vfs demo_user) 4 ConDev" "char_device (k_vfs demo_user) 2 NullDev"
  by (simp_all add: char_device_def demo_user_def add_ref_def demo_vfs2_def demo_vfs_def vnode_init_def)

lemma demo_user_console: "console_at (v_con (k_vfs demo_user)) demo_queue" "con_queue demo_queue = [108, 115, 13]"
proof -
  show q: "con_queue demo_queue = [108, 115, 13]" by (simp add: demo_queue_def demo_con_def con_queue_def upt_rec)
  show "console_at (v_con (k_vfs demo_user)) demo_queue"
    using demo_con_inv q
    by (simp add: console_at_def demo_user_def con_inv_def con_winv_def lock_idle_def) (simp add: demo_queue_def demo_con_def)
qed

section \<open>Claims\<close>

text \<open>
  C7. A \<^verbatim>\<open>write\<close> to a descriptor of the console carries a non-empty buffer from user memory to the terminal: the
  bytes appear in order behind what was sent before, each newline preceded by a carriage return. The
  call returns the number of bytes, the seek position moves by it, and user memory, the input queue and
  all locks are as before.
\<close>

theorem sys_write_console:
  assumes "ready k me fd f x vn" "of_mode_open x \<noteq> O_RDONLY" "v_al (k_vfs k) = []"
    and "char_device (k_vfs k) vn ConDev" "console_at (v_con (k_vfs k)) cs"
    and "c_as (ctx_of k me) = Some as" "vm_user_inv as (v_vm (k_vfs k))"
    and "0 < n" "buf + n \<le> USERSPACETOP" "mapped (vm_user_view as (v_vm (k_vfs k))) buf n"
  shows "\<exists>k' cs'. sys_write T me fd buf n k = Done (k', Inr (of_nat n)) \<and>
    cs_out cs' = cs_out cs @ concat (map crlf (bytes_at (vm_user_view as (v_vm (k_vfs k))) buf n)) \<and>
    console_at (v_con (k_vfs k')) cs' \<and> con_queue cs' = con_queue cs \<and>
    vm_user_inv as (v_vm (k_vfs k')) \<and> vm_user_view as (v_vm (k_vfs k')) = vm_user_view as (v_vm (k_vfs k)) \<and>
    ready k' me fd f (x\<lparr>of_offset := of_offset x + of_nat n\<rparr>) vn"
proof -
  let ?v = "k_vfs k" and ?bs = "bytes_at (vm_user_view as (v_vm (k_vfs k))) buf n"
  obtain vm where vm: "copyin (vm_memops (Some as)) buf n (v_vm ?v) = Done (vm, Inr ?bs)" "vm_user_inv as vm"
    "vm_user_view as vm = vm_user_view as (v_vm ?v)"
    using vm.copyin_ok [OF assms(7-10)] by blast
  let ?v1 = "?v\<lparr>v_vm := vm\<rparr>"
  have n: "n < 2 ^ 32" "length ?bs = n" using assms(9) by simp_all
  have con: "console_at (v_con ?v1) cs" using assms(5) by simp
  obtain cs' u where io: "devop_io (devops_of T ConDev) (ctx_of k me) (vn_data (the (v_nodes ?v1 vn)))
      (uio_kinit ?bs n (of_offset x) UIO_WRITE) ?v1 =
      Done (?v1\<lparr>v_con := (v_con ?v1)\<lparr>the_console := Some cs'\<rparr>\<rparr>, u, Inr ())"
    "console_at ((v_con ?v1)\<lparr>the_console := Some cs'\<rparr>) cs'" "con_queue cs' = con_queue cs"
    "cs_out cs' = cs_out cs @ concat (map crlf ?bs)" "uio_offset u = of_offset x + of_nat n"
    using con_dev_io_write [OF con, of ?bs T "ctx_of k me" "vn_data (the (v_nodes ?v1 vn))" "of_offset x"] n by auto
  let ?v2 = "?v1\<lparr>v_con := (v_con ?v1)\<lparr>the_console := Some cs'\<rparr>\<rparr>"
  have "VOP T vn (\<lambda>t. vop_write t (ctx_of k me) vn (uio_kinit ?bs n (of_offset x) UIO_WRITE)) ?v1 = Done (?v2, u, Inr ())"
    using char_device_io(1) [of ?v1 vn ConDev] assms(4) io(1) by (simp add: char_device_vm uio_kinit_def)
  note run = sys_write_run [OF assms(1-3) _ this]
  have "sys_write T me fd buf n k = Done (upd_file f (\<lambda>x. x\<lparr>of_offset := uio_offset u\<rparr>) (k\<lparr>k_vfs := ?v2\<rparr>), Inr (of_nat n))"
    using run vm(1) assms(6) io(5) ucast_small [OF n(1)] by simp
  then show ?thesis
    using io(2-5) vm(2,3) ready_moved [OF assms(1), of "uio_offset u" ?v2]
    by (intro exI [of _ "upd_file f (\<lambda>x. x\<lparr>of_offset := uio_offset u\<rparr>) (k\<lparr>k_vfs := ?v2\<rparr>)"] exI [of _ cs']) simp
qed

theorem sys_write_console_witness:
  "\<exists>k' cs'. sys_write demo_tables 8 1 0x7fffff00 4 demo_user = Done (k', Inr 4) \<and>
     console_at (v_con (k_vfs k')) cs' \<and>
     cs_out cs' = concat (map crlf (bytes_at (vm_user_view demo_as (as_activate (Some demo_as) demo_vm)) 0x7fffff00 4))"
proof -
  let ?s = "as_activate (Some demo_as) demo_vm"
  note f = demo_user_fields
  have m: "mapped (vm_user_view demo_as (v_vm (k_vfs demo_user))) 0x7fffff00 4"
    using demo_stack_mapped [of "0x7fffff00" 4] by simp
  have "vm_user_inv demo_as (v_vm (k_vfs demo_user))" using f(6) demo_user_inv by simp
  then obtain k' cs' where "sys_write demo_tables 8 1 0x7fffff00 4 demo_user = Done (k', Inr (of_nat 4))"
    "cs_out cs' = cs_out demo_queue @ concat (map crlf (bytes_at (vm_user_view demo_as ?s) 0x7fffff00 4))"
    "console_at (v_con (k_vfs k')) cs'"
    using sys_write_console [OF f(2) _ f(4) demo_user_devices(1) demo_user_console(1) f(5) _ _ _ m, of demo_tables] f(6)
    by (auto simp: demo_of_def)
  then show ?thesis by (auto simp: demo_queue_def demo_con_def)
qed

text \<open>
  C8. A \<^verbatim>\<open>read\<close> from a descriptor of the console with a line waiting, or enough characters, delivers that
  line to user memory: it returns its length, stores exactly its bytes at the buffer and nothing
  elsewhere, takes exactly those characters from the queue, and leaves all locks free.
\<close>

theorem sys_read_console:
  assumes "ready k me fd f x vn" "of_mode_open x \<noteq> O_WRONLY" "v_al (k_vfs k) = []"
    and "char_device (k_vfs k) vn ConDev" "console_at (v_con (k_vfs k)) cs"
    and "c_as (ctx_of k me) = Some as" "vm_user_inv as (v_vm (k_vfs k))"
    and "0 < n" "buf \<noteq> 0" "buf + n \<le> USERSPACETOP" "mapped (vm_user_view as (v_vm (k_vfs k))) buf n"
    and "n \<le> length (con_queue cs) \<or> 10 \<in> set (con_queue cs) \<or> 13 \<in> set (con_queue cs)"
  defines "line \<equiv> con_line n (con_queue cs)"
  shows "\<exists>k' cs'. sys_read T me junk fd buf n k = Done (k', Inr (of_nat (length line))) \<and>
    vm_user_view as (v_vm (k_vfs k')) = put_bytes (vm_user_view as (v_vm (k_vfs k))) buf line \<and>
    console_at (v_con (k_vfs k')) cs' \<and> con_queue cs' = drop (length line) (con_queue cs) \<and> cs_out cs' = cs_out cs \<and>
    vm_user_inv as (v_vm (k_vfs k')) \<and> ready k' me fd f (x\<lparr>of_offset := of_offset x + of_nat (length line)\<rparr>) vn"
proof -
  let ?v = "k_vfs k" and ?buf = "fresh_block ((n + 1) mod 2 ^ 32) junk"
  have n: "n < 2 ^ 32" "n \<le> length ?buf" using assms(10) by simp_all
  obtain cs' u where io: "devop_io (devops_of T ConDev) (ctx_of k me) (vn_data (the (v_nodes ?v vn)))
      (uio_kinit ?buf n (of_offset x) UIO_READ) ?v = Done (?v\<lparr>v_con := (v_con ?v)\<lparr>the_console := Some cs'\<rparr>\<rparr>, u, Inr ())"
    "console_at ((v_con ?v)\<lparr>the_console := Some cs'\<rparr>) cs'" "con_queue cs' = drop (length line) (con_queue cs)"
    "cs_out cs' = cs_out cs" "uio_offset u = of_offset x + of_nat (length line)" "uio_resid u + length line = n"
    "take (length line) (iov_block (hd (uio_done u @ uio_iov u))) = line"
    using con_dev_io_read [OF assms(5) n assms(12), of T "ctx_of k me" "vn_data (the (v_nodes ?v vn))" "of_offset x"]
    unfolding line_def by blast
  let ?v1 = "?v\<lparr>v_con := (v_con ?v)\<lparr>the_console := Some cs'\<rparr>\<rparr>"
  have op: "VOP T vn (\<lambda>t. vop_read t (ctx_of k me) vn (uio_kinit ?buf n (of_offset x) UIO_READ)) ?v = Done (?v1, u, Inr ())"
    using char_device_io(2) [OF assms(4)] io(1) by (simp add: uio_kinit_def)
  have ne: "con_queue cs \<noteq> []" using assms(8,12) by auto
  have line: "line \<noteq> []" "length line \<le> n"
    using con_line_nonempty [OF assms(8) ne] length_con_line unfolding line_def by auto
  then have "buf + length line \<le> USERSPACETOP" "mapped (vm_user_view as (v_vm ?v)) buf (length line)"
    using assms(10) mapped_mono [OF assms(11), of buf "length line"] by simp_all
  then obtain vm where vm: "copyout (vm_memops (Some as)) line buf (v_vm ?v) = Done (vm, Inr ())" "vm_user_inv as vm"
    "vm_user_view as vm = put_bytes (vm_user_view as (v_vm ?v)) buf line"
    using vm.copyout_ok [OF assms(7) line(1)] by blast
  let ?v2 = "?v1\<lparr>v_vm := vm\<rparr>"
  have "sys_read T me junk fd buf n k =
      Done (upd_file f (\<lambda>x. x\<lparr>of_offset := uio_offset u\<rparr>) (k\<lparr>k_vfs := ?v2\<rparr>), Inr (of_nat (length line)))"
    using sys_read_run [OF assms(1,2,9,3) op io(6) n(1) io(7) refl, of vm "Inr ()"] vm(1) assms(6) by simp
  then show ?thesis
    using io(2-5) vm(2,3) ready_moved [OF assms(1), of "uio_offset u" ?v2]
    by (intro exI [of _ "upd_file f (\<lambda>x. x\<lparr>of_offset := uio_offset u\<rparr>) (k\<lparr>k_vfs := ?v2\<rparr>)"] exI [of _ cs']) simp
qed

theorem sys_read_console_witness:
  "\<exists>k'. sys_read demo_tables 8 [] 0 0x7fffff00 8 demo_user = Done (k', Inr 3) \<and>
     bytes_at (vm_user_view demo_as (v_vm (k_vfs k'))) 0x7fffff00 3 = [108, 115, 10]"
proof -
  note f = demo_user_fields
  have m: "mapped (vm_user_view demo_as (v_vm (k_vfs demo_user))) 0x7fffff00 8"
    using demo_stack_mapped [of "0x7fffff00" 8] by simp
  have inv: "vm_user_inv demo_as (v_vm (k_vfs demo_user))" using f(6) demo_user_inv by simp
  have l: "con_line 8 [108, 115, 13] = [108, 115, 10]" by code_simp
  obtain k' where k': "sys_read demo_tables 8 [] 0 0x7fffff00 8 demo_user = Done (k', Inr (of_nat (length [108, 115, 10 :: u8])))"
    "vm_user_view demo_as (v_vm (k_vfs k')) =
       put_bytes (vm_user_view demo_as (v_vm (k_vfs demo_user))) 0x7fffff00 [108, 115, 10]"
    using sys_read_console [OF f(1) _ f(4) demo_user_devices(1) demo_user_console(1) f(5) inv _ _ _ m, of demo_tables "[]"]
    unfolding demo_user_console(2) l by (auto simp: demo_of_def simp del: put_bytes_Cons)
  have "bytes_at (vm_user_view demo_as (v_vm (k_vfs k'))) 0x7fffff00 (length [108, 115, 10 :: u8]) = [108, 115, 10]"
    unfolding k'(2) by (rule bytes_at_put_same)
  then show ?thesis using k'(1) by (auto simp: numeral_3_eq_3)
qed

text \<open>
  The null device through a descriptor. A \<^verbatim>\<open>write\<close> succeeds but reports that 0 bytes were written,
  because the call derives the count from the position, which the device does not move. A \<^verbatim>\<open>read\<close>,
  which is at end of file at once, fails with \<^verbatim>\<open>EFAULT\<close> instead of returning 0, because the empty
  result is copied out as an empty block.
\<close>

theorem null_device_calls:
  assumes "ready k me fd f x vn" "of_mode_open x = O_RDWR" "v_al (k_vfs k) = []" "char_device (k_vfs k) vn NullDev"
    and "c_as (ctx_of k me) = Some as" "vm_user_inv as (v_vm (k_vfs k))"
    and "0 < n" "0 < buf" "buf + n \<le> USERSPACETOP" "mapped (vm_user_view as (v_vm (k_vfs k))) buf n"
  shows "(\<exists>k'. sys_write T me fd buf n k = Done (k', Inr 0)) \<and> (\<exists>k'. sys_read T me junk fd buf n k = Done (k', Inl EFAULT))"
proof
  let ?v = "k_vfs k" and ?bs = "bytes_at (vm_user_view as (v_vm (k_vfs k))) buf n"
  obtain vm where vm: "copyin (vm_memops (Some as)) buf n (v_vm ?v) = Done (vm, Inr ?bs)"
    using vm.copyin_ok [OF assms(6,7,9,10)] by blast
  have "VOP T vn (\<lambda>t. vop_write t (ctx_of k me) vn (uio_kinit ?bs n (of_offset x) UIO_WRITE)) (?v\<lparr>v_vm := vm\<rparr>) =
      Done (?v\<lparr>v_vm := vm\<rparr>, (uio_kinit ?bs n (of_offset x) UIO_WRITE)\<lparr>uio_resid := 0\<rparr>, Inr ())"
    using char_device_io(1) [of "?v\<lparr>v_vm := vm\<rparr>" vn NullDev] assms(4)
    by (simp add: char_device_vm uio_kinit_def devops_of_def null_devops_def nullio_def)
  from sys_write_run [OF assms(1) _ assms(3) _ this, of buf] show "\<exists>k'. sys_write T me fd buf n k = Done (k', Inr 0)"
    using vm assms(2,5) by (simp add: uio_kinit_def)
  let ?u = "uio_kinit (fresh_block ((n + 1) mod 2 ^ 32) junk) n (of_offset x) UIO_READ"
  have op: "VOP T vn (\<lambda>t. vop_read t (ctx_of k me) vn ?u) ?v = Done (?v, ?u, Inr ())"
    using char_device_io(2) [OF assms(4)] by (simp add: uio_kinit_def devops_of_def null_devops_def nullio_def)
  have "(4294967295 + buf) mod 4294967296 = buf - 1"
    using assms(7-9) by (simp add: mod_if)
  then have "copyout (vm_memops (Some as)) [] buf (v_vm ?v) = Done (v_vm ?v, Inl EFAULT)"
    using assms(8) by (simp add: copyout_def copycheck_def Let_def)
  then show "\<exists>k'. sys_read T me junk fd buf n k = Done (k', Inl EFAULT)"
    using sys_read_run [OF assms(1) _ _ assms(3) op, of buf 0 "[]" "v_vm ?v" "Inl EFAULT"] assms(2,5,7-9)
    by (simp add: uio_kinit_def)
qed

theorem null_device_calls_witness:
  "(\<exists>k'. sys_write demo_tables 8 3 0x7fffff00 4 demo_user = Done (k', Inr 0)) \<and>
   (\<exists>k'. sys_read demo_tables 8 [] 3 0x7fffff00 4 demo_user = Done (k', Inl EFAULT))"
proof -
  note f = demo_user_fields
  have m: "mapped (vm_user_view demo_as (v_vm (k_vfs demo_user))) 0x7fffff00 4"
    using demo_stack_mapped [of "0x7fffff00" 4] by simp
  have inv: "vm_user_inv demo_as (v_vm (k_vfs demo_user))" using f(6) demo_user_inv by simp
  show ?thesis
    using null_device_calls [OF f(3) _ f(4) demo_user_devices(2) f(5) inv _ _ _ m, of demo_tables "[]"]
    by (simp add: demo_of_def)
qed

text \<open>
  C38. When the vnode reports an error on a \<^verbatim>\<open>write\<close>, the call hands the error on but keeps the lock of
  the open file: every other thread that uses the file waits for ever, and the same thread fails an
  assertion when it next uses it.
\<close>

theorem sys_write_error_keeps_lock:
  assumes "ready k me fd f x vn" "of_mode_open x \<noteq> O_RDONLY" "v_al (k_vfs k) = []"
    and "copyin (vm_memops (c_as (ctx_of k me))) buf buflen (v_vm (k_vfs k)) = Done (vm, Inr bs)"
    and "VOP T vn (\<lambda>t. vop_write t (ctx_of k me) vn (uio_kinit bs buflen (of_offset x) UIO_WRITE))
           ((k_vfs k)\<lparr>v_vm := vm\<rparr>) = Done (v, u, Inl e)"
  shows "\<exists>k'. sys_write T me fd buf buflen k = Done (k', Inl e) \<and>
    (\<forall>t. file_lock t f k' = (if t = me then Panic else Block))"
proof -
  obtain p l where r: "fd_file me fd k = Done (Some (p, f))" "get_file k f = Done x" "of_vn x = Some vn"
    "of_lock x = Some l" "lock_idle l" using assms(1) by (auto simp: ready_def)
  let ?k2 = "k\<lparr>k_vfs := (k_vfs k)\<lparr>v_vm := vm\<rparr>\<rparr>" and ?l = "l\<lparr>lk_owner := Some me\<rparr>"
  let ?k3 = "upd_file f (\<lambda>x. x\<lparr>of_lock := Some ?l\<rparr>) ?k2" and ?x = "x\<lparr>of_lock := Some ?l\<rparr>"
  have k2: "user_copyin me buf buflen k = Done (?k2, Inr bs)" using assms(4) by (simp add: user_copyin_def)
  have g2: "get_file ?k2 f = Done x" using r(2) by simp
  have k3: "file_lock me f ?k2 = Done ?k3" by (rule file_lock_idle [OF g2 r(4,5)])
  have g3: "get_file ?k3 f = Done ?x" by (simp add: get_file_upd [OF g2])
  have op: "file_vop T me ?x vop_write (uio_kinit bs buflen (of_offset x) UIO_WRITE) ?k3 = Done (?k3\<lparr>k_vfs := v\<rparr>, u, Inl e)"
    using assms(5) r(3) by (simp add: file_vop_def on_vfs_def)
  have "sys_write T me fd buf buflen k = Done (?k3\<lparr>k_vfs := v\<rparr>, Inl e)"
    using r(1,2) assms(2,3) k2 k3 g3 op by (simp add: sys_write_def alloc_with_full)
  moreover have "file_lock t f (?k3\<lparr>k_vfs := v\<rparr>) = (if t = me then Panic else Block)" for t
    using file_busy [of "?k3\<lparr>k_vfs := v\<rparr>" f ?x ?l me t] g3 by auto
  ultimately show ?thesis by blast
qed

text \<open>A file system whose file rejects every write stands for a full disk.\<close>

definition full_tables :: "u8 list vtables" where
  "full_tables = demo_tables\<lparr>vt_vnode := (\<lambda>_. demo_vops\<lparr>vop_write := vopfail_uio ENOSPC\<rparr>)\<rparr>"

definition demo_full :: "u8 list kernel" where
  "demo_full = demo_user\<lparr>k_vfs := (k_vfs demo_user)\<lparr>v_nodes := (v_nodes (k_vfs demo_user))(40 \<mapsto> vnode_init (FsVnode 0) (Some 1) 0)\<rparr>,
     k_sysfiles := (k_sysfiles demo_user)[0 := demo_of 40 O_RDWR]\<rparr>"

theorem sys_write_error_keeps_lock_witness:
  "\<exists>k'. sys_write full_tables 8 3 0x7fffff00 4 demo_full = Done (k', Inl ENOSPC) \<and> file_lock 9 (SysF 0) k' = Block"
proof -
  let ?s = "as_activate (Some demo_as) demo_vm"
  have v: "v_vm (k_vfs demo_full) = ?s" "v_al (k_vfs demo_full) = []" "c_as (ctx_of demo_full 8) = Some demo_as"
    by (simp_all add: demo_full_def demo_user_def demo_vfs2_def demo_vfs_def ctx_of_def)
  have r: "ready demo_full 8 3 (SysF 0) (demo_of 40 O_RDWR) 40"
    by (simp add: demo_full_def demo_user_def ready_def fd_file_def curproc_def get_proc_def get_file_def demo_of_def
        idle_lock_def lock_idle_def demo_kernel_def demo_raw_def)
  obtain vm where cp: "copyin (vm_memops (c_as (ctx_of demo_full 8))) 0x7fffff00 4 (v_vm (k_vfs demo_full)) =
      Done (vm, Inr (bytes_at (vm_user_view demo_as ?s) 0x7fffff00 4))"
    using vm.copyin_ok [OF demo_user_inv, of 4 "0x7fffff00"] demo_stack_mapped [of "0x7fffff00" 4] v by auto
  have op: "VOP full_tables 40 (\<lambda>t. vop_write t c 40 u) ((k_vfs demo_full)\<lparr>v_vm := vm\<rparr>) =
      Done ((k_vfs demo_full)\<lparr>v_vm := vm\<rparr>, u, Inl ENOSPC)" for c u
    by (simp add: VOP_def vnode_check_def demo_full_def vnode_init_def vops_of_def full_tables_def vopfail_uio_def)
  have "of_mode_open (demo_of 40 O_RDWR) \<noteq> O_RDONLY" by (simp add: demo_of_def)
  from sys_write_error_keeps_lock [OF r this v(2) cp op] show ?thesis by auto
qed

end
