(* ===== verification/Files_Refs.thy ===== *)
theory Files_Refs
  imports Files_Laws
begin

text \<open>
  Reference counts of open files: the count kept in an open file is the number of descriptors that
  refer to it. The invariant is kept by opening, closing and duplicating.
\<close>

section \<open>The invariant\<close>

definition file_ok :: "'d kernel \<Rightarrow> fref \<Rightarrow> nat \<Rightarrow> bool" where
  "file_ok k f n \<longleftrightarrow> (\<exists>x l. get_file k f = Done x \<and> of_vn x \<noteq> None \<and> of_lock x = Some l \<and> lock_idle l \<and>
     unat (of_count_refs x) = n)"

text \<open>Every descriptor refers to a live file with the right count, and no two processes share one.\<close>

definition files_inv :: "'d kernel \<Rightarrow> bool" where
  "files_inv k \<longleftrightarrow>
     (\<forall>p r. k_procs k p = Some r \<longrightarrow> length (fileTable r) = OPEN_MAX \<and>
        (\<forall>f. Some f \<in> set (fileTable r) \<longrightarrow> file_ok k f (count_list (fileTable r) (Some f)))) \<and>
     (\<forall>p q r s f. k_procs k p = Some r \<and> k_procs k q = Some s \<and> Some f \<in> set (fileTable r) \<and>
        Some f \<in> set (fileTable s) \<longrightarrow> p = q)"

lemma files_invD:
  assumes "files_inv k"
  shows "\<And>p r. k_procs k p = Some r \<Longrightarrow> length (fileTable r) = OPEN_MAX"
    "\<And>p r f. k_procs k p = Some r \<Longrightarrow> Some f \<in> set (fileTable r) \<Longrightarrow> file_ok k f (count_list (fileTable r) (Some f))"
    "\<And>p q r s f. k_procs k p = Some r \<Longrightarrow> k_procs k q = Some s \<Longrightarrow> Some f \<in> set (fileTable r) \<Longrightarrow>
       Some f \<in> set (fileTable s) \<Longrightarrow> p = q"
  using assms unfolding files_inv_def by blast+

lemma files_inv_step:
  assumes "files_inv k" "k_procs k' = (k_procs k)(p \<mapsto> s)" "length (fileTable s) = OPEN_MAX"
    and "\<And>f. Some f \<in> set (fileTable s) \<Longrightarrow> file_ok k' f (count_list (fileTable s) (Some f))"
    and "\<And>f q u. Some f \<in> set (fileTable s) \<Longrightarrow> q \<noteq> p \<Longrightarrow> k_procs k q = Some u \<Longrightarrow> Some f \<notin> set (fileTable u)"
    and "\<And>f q u. q \<noteq> p \<Longrightarrow> k_procs k q = Some u \<Longrightarrow> Some f \<in> set (fileTable u) \<Longrightarrow> get_file k' f = get_file k f"
  shows "files_inv k'"
proof -
  note inv = files_invD [OF assms(1)]
  have pr: "k_procs k' x = (if x = p then Some s else k_procs k x)" for x using assms(2) by simp
  show ?thesis
    unfolding files_inv_def
  proof (intro conjI allI impI; (elim conjE)?)
    fix q u assume q: "k_procs k' q = Some u"
    then show "length (fileTable u) = OPEN_MAX" using inv(1) assms(3) by (auto simp: pr split: if_splits)
    fix f assume f: "Some f \<in> set (fileTable u)"
    show "file_ok k' f (count_list (fileTable u) (Some f))"
    proof (cases "q = p")
      case True
      then show ?thesis using q f assms(4) by (simp add: pr)
    next
      case False
      then have "k_procs k q = Some u" using q by (simp add: pr)
      then show ?thesis using inv(2) [of q u f] f assms(6) [OF False] by (simp add: file_ok_def)
    qed
  next
    fix q1 q2 r1 r2 f
    assume "k_procs k' q1 = Some r1" "k_procs k' q2 = Some r2" "Some f \<in> set (fileTable r1)" "Some f \<in> set (fileTable r2)"
    then show "q1 = q2" using inv(3) assms(5) by (auto simp: pr split: if_splits)
  qed
qed

lemma count_list_update:
  assumes "i < length xs"
  shows "count_list (xs[i := y]) z + (if xs ! i = z then 1 else 0) = count_list xs z + (if y = z then 1 else 0)"
  using assms
proof (induction xs arbitrary: i)
  case (Cons x xs)
  show ?case
  proof (cases i)
    case (Suc j)
    then show ?thesis using Cons.IH [of j] Cons.prems by (simp split: if_splits)
  qed simp
qed simp

lemma count_list_pos: "x \<in> set xs \<Longrightarrow> 0 < count_list xs x"
  by (induction xs) auto

lemma count_list_less: "count_list xs x \<le> length xs"
  by (rule count_le_length)

section \<open>Giving up a reference\<close>

lemma unat_dec1: "0 < unat (c :: u32) \<Longrightarrow> unat (c - 1) = unat c - 1"
  by (simp add: unat_minus_one unat_gt_0)

lemma k_procs_set_fd: "k_procs k p = Some r \<Longrightarrow>
    k_procs (set_fd p fd y k) = (k_procs k)(p \<mapsto> r\<lparr>fileTable := (fileTable r)[fd := y]\<rparr>)"
  by (auto simp: set_fd_def upd_proc_def)

lemma set_fd_simps [simp]: "k_vfs (set_fd p fd y k) = k_vfs k" "k_tproc (set_fd p fd y k) = k_tproc k"
  by (simp_all add: set_fd_def)

lemma upd_file_set_fd: "upd_file f g (set_fd p fd y k) = set_fd p fd y (upd_file f g k)"
  by (cases f) (simp_all add: upd_file_def set_fd_def upd_proc_def)

lemma set_fd_vfs: "set_fd p fd y (k\<lparr>k_vfs := v\<rparr>) = (set_fd p fd y k)\<lparr>k_vfs := v\<rparr>"
  by (simp add: set_fd_def upd_proc_def)

text \<open>The state after descriptor \<open>fd\<close> of \<open>p\<close> has given up its reference to \<open>f\<close>.\<close>

definition dropped :: "nat \<Rightarrow> nat \<Rightarrow> fref \<Rightarrow> 'd vfs \<Rightarrow> 'd kernel \<Rightarrow> 'd kernel" where
  "dropped p fd f v k =
     (upd_file f (\<lambda>x. x\<lparr>of_count_refs := of_count_refs x - 1,
          of_vn := (if of_count_refs x = 1 then None else of_vn x)\<rparr>) (set_fd p fd None k))\<lparr>k_vfs := v\<rparr>"

definition closed_if_last :: "'d vtables \<Rightarrow> thread_id \<Rightarrow> 'd kernel \<Rightarrow> openfile \<Rightarrow> 'd vfs \<Rightarrow> bool" where
  "closed_if_last T me k x v \<longleftrightarrow>
     (if of_count_refs x = 1 then vfs_close T (ctx_of k me) (the (of_vn x)) (k_vfs k) = Done v else v = k_vfs k)"

lemma drop_file_run:
  assumes "get_file k f = Done x" "of_vn x = Some vn" "of_lock x = Some l" "lock_idle l" "of_count_refs x \<noteq> 0"
    and "closed_if_last T me k x v"
  shows "drop_file T me p fd f k = Done (dropped p fd f v k)"
proof -
  let ?l = "l\<lparr>lk_owner := Some me\<rparr>" and ?c = "of_count_refs x - 1"
  let ?k1 = "upd_file f (\<lambda>x. x\<lparr>of_lock := Some ?l\<rparr>) k"
  let ?k2 = "upd_file f (\<lambda>x. x\<lparr>of_count_refs := of_count_refs x - 1\<rparr>) (set_fd p fd None ?k1)"
  have k1: "file_lock me f k = Done ?k1" by (rule file_lock_idle [OF assms(1,3,4)])
  have g1: "get_file (set_fd p fd None ?k1) f = Done (x\<lparr>of_lock := Some ?l\<rparr>)" by (simp add: get_file_upd [OF assms(1)])
  have g2: "get_file ?k2 f = Done (x\<lparr>of_lock := Some ?l, of_count_refs := ?c\<rparr>)" by (simp add: get_file_upd [OF g1])
  have gs: "get_file (set_fd p fd None k) f = Done x" using assms(1) by simp
  show ?thesis
  proof (cases "of_count_refs x = 1")
    case False
    then have pos: "?c > 0" using assms(5) by (simp add: word_gt_0)
    have "file_unlock me f ?k2 = Done (upd_file f (\<lambda>x. x\<lparr>of_lock := Some l\<rparr>) ?k2)"
      by (rule file_unlock_mine [OF g2 _ assms(4)]) simp
    also have "upd_file f (\<lambda>x. x\<lparr>of_lock := Some l\<rparr>) ?k2 = dropped p fd f v k"
    proof -
      let ?S = "set_fd p fd None k" and ?H = "\<lambda>x. x\<lparr>of_count_refs := of_count_refs x - 1,
          of_vn := (if of_count_refs x = 1 then None else of_vn x)\<rparr>"
      have k2: "?k2 = upd_file f ((\<lambda>x. x\<lparr>of_count_refs := of_count_refs x - 1\<rparr>) \<circ> (\<lambda>x. x\<lparr>of_lock := Some ?l\<rparr>)) ?S"
        by (simp add: upd_file_set_fd [symmetric] upd_file_upd_file [OF gs])
      have "upd_file f (\<lambda>x. x\<lparr>of_lock := Some l\<rparr>) ?k2 = upd_file f ?H ?S"
        unfolding k2 upd_file_upd_file [OF gs]
        by (rule upd_file_cong [OF gs]) (use False assms(3) in \<open>cases x; simp\<close>)
      also have "\<dots> = upd_file f ?H ?S\<lparr>k_vfs := k_vfs k\<rparr>" using kernel_vfs_same [of "upd_file f ?H ?S"] by simp
      finally show ?thesis using False assms(6) by (simp only: dropped_def closed_if_last_def if_False)
    qed
    finally show ?thesis using k1 g2 pos by (simp add: drop_file_def Let_def)
  next
    case True
    let ?k3 = "upd_file f (\<lambda>x. x\<lparr>of_vn := None\<rparr>) ?k2" and ?x3 = "x\<lparr>of_lock := Some ?l, of_count_refs := ?c, of_vn := None\<rparr>"
    have g3: "get_file (?k3\<lparr>k_vfs := v\<rparr>) f = Done ?x3" by (simp add: get_file_upd [OF g2])
    have cl: "on_vfs_only (vfs_close T (ctx_of ?k2 me) vn) ?k3 = Done (?k3\<lparr>k_vfs := v\<rparr>)"
      using True assms(2,6) by (simp add: on_vfs_only_def closed_if_last_def)
    have "file_unlock me f (?k3\<lparr>k_vfs := v\<rparr>) = Done (upd_file f (\<lambda>x. x\<lparr>of_lock := Some l\<rparr>) (?k3\<lparr>k_vfs := v\<rparr>))"
      by (rule file_unlock_mine [OF g3 _ assms(4)]) simp
    also have "upd_file f (\<lambda>x. x\<lparr>of_lock := Some l\<rparr>) (?k3\<lparr>k_vfs := v\<rparr>) = dropped p fd f v k"
    proof -
      have "?k3 = upd_file f ((\<lambda>x. x\<lparr>of_vn := None\<rparr>) \<circ> ((\<lambda>x. x\<lparr>of_count_refs := of_count_refs x - 1\<rparr>) \<circ>
          (\<lambda>x. x\<lparr>of_lock := Some ?l\<rparr>))) (set_fd p fd None k)"
        by (simp add: upd_file_set_fd [symmetric] upd_file_upd_file [OF gs])
      then have "upd_file f (\<lambda>x. x\<lparr>of_lock := Some l\<rparr>) ?k3 = upd_file f (\<lambda>x. x\<lparr>of_count_refs := of_count_refs x - 1,
          of_vn := (if of_count_refs x = 1 then None else of_vn x)\<rparr>) (set_fd p fd None k)"
        using True assms(3) by (simp add: upd_file_upd_file [OF gs]) (rule upd_file_cong [OF gs], cases x, simp)
      then show ?thesis by (simp add: dropped_def upd_file_vfs)
    qed
    finally show ?thesis using k1 g2 True cl assms(2) by (simp add: drop_file_def Let_def)
  qed
qed

lemma get_file_dropped:
  assumes "get_file k f = Done x"
  shows "get_file (dropped p fd f v k) g = (if g = f then Done (x\<lparr>of_count_refs := of_count_refs x - 1,
          of_vn := (if of_count_refs x = 1 then None else of_vn x)\<rparr>) else get_file k g)"
  using get_file_upd [of "set_fd p fd None k" f x] assms by (simp add: dropped_def)

lemma dropped_simps [simp]: "k_vfs (dropped p fd f v k) = v" "k_tproc (dropped p fd f v k) = k_tproc k"
  by (simp_all add: dropped_def)

lemma k_procs_dropped:
  assumes "k_procs k p = Some r"
  shows "k_procs (dropped p fd f v k) = (k_procs k)(p \<mapsto> r\<lparr>fileTable := (fileTable r)[fd := None]\<rparr>)"
  using k_procs_set_fd [OF assms] by (simp add: dropped_def)

lemma files_inv_dropped:
  assumes "files_inv k" "k_procs k p = Some r" "fd < OPEN_MAX" "fileTable r ! fd = Some f"
  shows "files_inv (dropped p fd f v k)"
proof -
  note inv = files_invD [OF assms(1)]
  let ?t = "fileTable r" and ?s = "r\<lparr>fileTable := (fileTable r)[fd := None]\<rparr>"
  have len: "length ?t = OPEN_MAX" using inv(1) [OF assms(2)] .
  have fin: "Some f \<in> set ?t" using assms(3,4) len nth_mem [of fd ?t] by simp
  obtain x where x: "get_file k f = Done x" "unat (of_count_refs x) = count_list ?t (Some f)"
    using inv(2) [OF assms(2) fin] by (auto simp: file_ok_def)
  have cnt: "count_list (?t[fd := None]) (Some g) = count_list ?t (Some g) - (if g = f then 1 else 0)" for g
    using count_list_update [of fd ?t None "Some g"] assms(3,4) len by (auto split: if_splits)
  have sub: "Some g \<in> set ?t" if "Some g \<in> set (?t[fd := None])" for g
    using that set_update_subset_insert [of ?t fd None] by auto
  show ?thesis
  proof (rule files_inv_step [OF assms(1), where s = ?s and p = p])
    show "k_procs (dropped p fd f v k) = (k_procs k)(p \<mapsto> ?s)" by (rule k_procs_dropped [OF assms(2)])
    show "length (fileTable ?s) = OPEN_MAX" using len by simp
  next
    fix g assume g: "Some g \<in> set (fileTable ?s)"
    then have "0 < count_list (?t[fd := None]) (Some g)" by (simp add: count_list_pos)
    then have pos: "0 < count_list ?t (Some g) - (if g = f then 1 else 0)" unfolding cnt .
    have y: "file_ok k g (count_list ?t (Some g))" using inv(2) [OF assms(2) sub] g by simp
    show "file_ok (dropped p fd f v k) g (count_list (fileTable ?s) (Some g))"
    proof (cases "g = f")
      case True
      then have "of_count_refs x \<noteq> 1" "0 < unat (of_count_refs x)" using pos x(2) by auto
      then show ?thesis using y x True cnt [of g] unat_dec1 [of "of_count_refs x"]
        by (auto simp: file_ok_def get_file_dropped [OF x(1)])
    next
      case False
      then show ?thesis using y cnt [of g] by (simp add: file_ok_def get_file_dropped [OF x(1)])
    qed
    fix q u assume "q \<noteq> p" "k_procs k q = Some u"
    then show "Some g \<notin> set (fileTable u)" using inv(3) [OF assms(2), of q u g] sub g by auto
  next
    fix g q u assume "q \<noteq> p" "k_procs k q = Some u" "Some g \<in> set (fileTable u)"
    then have "g \<noteq> f" using inv(3) [OF assms(2), of q u f] fin by auto
    then show "get_file (dropped p fd f v k) g = get_file k g" by (simp add: get_file_dropped [OF x(1)])
  qed
qed

section \<open>Taking a reference\<close>

definition shared :: "nat \<Rightarrow> nat \<Rightarrow> fref \<Rightarrow> 'd kernel \<Rightarrow> 'd kernel" where
  "shared p fd f k = set_fd p fd (Some f) (upd_file f (\<lambda>x. x\<lparr>of_count_refs := of_count_refs x + 1\<rparr>) k)"

lemma share_run:
  assumes "get_file k f = Done x" "of_lock x = Some l" "lock_idle l"
  shows "bindo (file_lock me f k) (\<lambda>k2. bindo (file_unlock me f (upd_file f (\<lambda>x. x\<lparr>of_count_refs := of_count_refs x + 1\<rparr>) k2))
     (\<lambda>k3. Done (set_fd p fd (Some f) k3, r))) = Done (shared p fd f k, r)"
proof -
  let ?l = "l\<lparr>lk_owner := Some me\<rparr>"
  let ?k1 = "upd_file f (\<lambda>x. x\<lparr>of_lock := Some ?l\<rparr>) k"
  let ?k2 = "upd_file f (\<lambda>x. x\<lparr>of_count_refs := of_count_refs x + 1\<rparr>) ?k1"
  have g1: "get_file ?k1 f = Done (x\<lparr>of_lock := Some ?l\<rparr>)" by (simp add: get_file_upd [OF assms(1)])
  have g2: "get_file ?k2 f = Done (x\<lparr>of_lock := Some ?l, of_count_refs := of_count_refs x + 1\<rparr>)"
    by (simp add: get_file_upd [OF g1])
  have "file_unlock me f ?k2 = Done (upd_file f (\<lambda>x. x\<lparr>of_lock := Some l\<rparr>) ?k2)"
    by (rule file_unlock_mine [OF g2 _ assms(3)]) simp
  also have "upd_file f (\<lambda>x. x\<lparr>of_lock := Some l\<rparr>) ?k2 = upd_file f (\<lambda>x. x\<lparr>of_count_refs := of_count_refs x + 1\<rparr>) k"
    unfolding upd_file_upd_file [OF assms(1)]
    by (rule upd_file_cong [OF assms(1)]) (use assms(2) in \<open>cases x; simp\<close>)
  finally show ?thesis using file_lock_idle [OF assms, of me] by (simp add: shared_def)
qed

lemma get_file_shared:
  assumes "get_file k f = Done x"
  shows "get_file (shared p fd f k) g = (if g = f then Done (x\<lparr>of_count_refs := of_count_refs x + 1\<rparr>) else get_file k g)"
  using get_file_upd [OF assms] by (simp add: shared_def)

lemma unat_inc_small: "unat (c :: u32) < 1000 \<Longrightarrow> unat (c + 1) = unat c + 1"
  by (simp add: unat_word_ariths)

lemma files_inv_shared:
  assumes "files_inv k" "k_procs k p = Some r" "fd < OPEN_MAX" "fileTable r ! fd = None" "Some f \<in> set (fileTable r)"
  shows "files_inv (shared p fd f k)"
proof -
  note inv = files_invD [OF assms(1)]
  let ?t = "fileTable r" and ?s = "r\<lparr>fileTable := (fileTable r)[fd := Some f]\<rparr>"
  have len: "length ?t = OPEN_MAX" using inv(1) [OF assms(2)] .
  obtain x where x: "get_file k f = Done x" "unat (of_count_refs x) = count_list ?t (Some f)"
    using inv(2) [OF assms(2,5)] by (auto simp: file_ok_def)
  have cnt: "count_list (?t[fd := Some f]) (Some g) = count_list ?t (Some g) + (if g = f then 1 else 0)" for g
    using count_list_update [of fd ?t "Some f" "Some g"] assms(3,4) len by (auto split: if_splits)
  have sub: "Some g \<in> set ?t" if "Some g \<in> set (?t[fd := Some f])" for g
    using that set_update_subset_insert [of ?t fd "Some f"] assms(5) by auto
  have small: "unat (of_count_refs x) < 1000" using x(2) count_list_less [of ?t "Some f"] len by simp
  show ?thesis
  proof (rule files_inv_step [OF assms(1), where s = ?s and p = p])
    show "k_procs (shared p fd f k) = (k_procs k)(p \<mapsto> ?s)"
      using k_procs_set_fd [of "upd_file f (\<lambda>x. x\<lparr>of_count_refs := of_count_refs x + 1\<rparr>) k" p r] assms(2) by (simp add: shared_def)
    show "length (fileTable ?s) = OPEN_MAX" using len by simp
  next
    fix g assume g: "Some g \<in> set (fileTable ?s)"
    have ok: "file_ok k g (count_list ?t (Some g))" using inv(2) [OF assms(2) sub] g by simp
    then show "file_ok (shared p fd f k) g (count_list (fileTable ?s) (Some g))"
      using cnt [of g] x unat_inc_small [OF small] by (auto simp: file_ok_def get_file_shared [OF x(1)])
    fix q u assume "q \<noteq> p" "k_procs k q = Some u"
    then show "Some g \<notin> set (fileTable u)" using inv(3) [OF assms(2), of q u g] sub g by auto
  next
    fix g q u assume "q \<noteq> p" "k_procs k q = Some u" "Some g \<in> set (fileTable u)"
    then have "g \<noteq> f" using inv(3) [OF assms(2), of q u f] assms(5) by auto
    then show "get_file (shared p fd f k) g = get_file k g" by (simp add: get_file_shared [OF x(1)])
  qed
qed

section \<open>Descriptors\<close>

lemma fd_file_run:
  assumes "k_tproc k me = Some p" "k_procs k p = Some r" "0 \<le> fd" "fd < int OPEN_MAX"
  shows "fd_file me fd k = Done (map_option (\<lambda>f. (p, f)) (fileTable r ! nat fd))"
  using assms by (simp add: fd_file_def curproc_def get_proc_def)

lemma file_ok_run:
  assumes "files_inv k" "k_procs k p = Some r" "fd < OPEN_MAX" "fileTable r ! fd = Some f"
  shows "\<exists>x vn l. get_file k f = Done x \<and> of_vn x = Some vn \<and> of_lock x = Some l \<and> lock_idle l \<and>
    of_count_refs x \<noteq> 0 \<and> unat (of_count_refs x) = count_list (fileTable r) (Some f) \<and> Some f \<in> set (fileTable r)"
proof -
  have fin: "Some f \<in> set (fileTable r)"
    using assms(3,4) files_invD(1) [OF assms(1,2)] nth_mem [of fd "fileTable r"] by simp
  then show ?thesis
    using files_invD(2) [OF assms(1,2) fin] count_list_pos [OF fin] by (auto simp: file_ok_def)
qed

section \<open>Claims\<close>

text \<open>
  C11. Closing a descriptor never fails on an open one: the descriptor is free afterwards, the count of
  its file goes down by one, and with the last reference the vnode is closed and the slot of the file is
  free again. Counts stay equal to the number of descriptors, for all files of all processes, and a
  second close of the same descriptor is refused with \<^verbatim>\<open>EBADF\<close>.
\<close>

theorem sys_close_releases:
  assumes "files_inv k" "k_tproc k me = Some p" "k_procs k p = Some r" "0 \<le> fd" "fd < int OPEN_MAX"
    and "fileTable r ! nat fd = Some f" "get_file k f = Done x" "closed_if_last T me k x v"
  shows "\<exists>k'. sys_close T me fd k = Done (k', Inr ()) \<and> files_inv k' \<and> k_vfs k' = v \<and>
    k_procs k' = (k_procs k)(p \<mapsto> r\<lparr>fileTable := (fileTable r)[nat fd := None]\<rparr>) \<and>
    get_file k' f = Done (x\<lparr>of_count_refs := of_count_refs x - 1, of_vn := (if of_count_refs x = 1 then None else of_vn x)\<rparr>) \<and>
    sys_close T me fd k' = Done (k', Inl EBADF)"
proof -
  have fd: "nat fd < OPEN_MAX" using assms(4,5) by simp
  obtain vn l where x: "of_vn x = Some vn" "of_lock x = Some l" "lock_idle l" "of_count_refs x \<noteq> 0"
    using file_ok_run [OF assms(1,3) fd assms(6)] assms(7) by auto
  let ?k = "dropped p (nat fd) f v k"
  have run: "sys_close T me fd k = Done (?k, Inr ())"
    using fd_file_run [OF assms(2-5)] drop_file_run [OF assms(7) x assms(8)] assms(6) by (simp add: sys_close_def)
  have pr: "k_procs ?k = (k_procs k)(p \<mapsto> r\<lparr>fileTable := (fileTable r)[nat fd := None]\<rparr>)" by (rule k_procs_dropped [OF assms(3)])
  have "k_tproc ?k me = Some p" "k_vfs ?k = v" using assms(2) by simp_all
  then have "fd_file me fd ?k = Done None"
    using fd_file_run [of ?k me p "r\<lparr>fileTable := (fileTable r)[nat fd := None]\<rparr>" fd] pr assms(4,5) fd
      files_invD(1) [OF assms(1,3)] by simp
  then have "sys_close T me fd ?k = Done (?k, Inl EBADF)" by (simp add: sys_close_def)
  then show ?thesis
    using run pr files_inv_dropped [OF assms(1,3) fd assms(6)] get_file_dropped [OF assms(7)] \<open>k_vfs ?k = v\<close> by auto
qed

text \<open>
  C12. \<^verbatim>\<open>dup2\<close> makes both descriptors refer to the same open file, so that they share its position: the
  count of the file grows by one, whatever \<open>newfd\<close> referred to before is given up (and closed if that
  was its last reference), and the counts stay right, also when both already shared the file.
\<close>

theorem sys_dup2_shares:
  assumes "files_inv k" "k_tproc k me = Some p" "k_procs k p = Some r" "0 \<le> oldfd" "oldfd < int OPEN_MAX"
    and "0 \<le> newfd" "newfd < int OPEN_MAX" "oldfd \<noteq> newfd" "fileTable r ! nat oldfd = Some f"
    and "case fileTable r ! nat newfd of None \<Rightarrow> v = k_vfs k | Some g \<Rightarrow> \<exists>y. get_file k g = Done y \<and> closed_if_last T me k y v"
  shows "\<exists>k' x x'. sys_dup2 T me oldfd newfd k = Done (k', Inr (of_int newfd)) \<and> files_inv k' \<and> k_vfs k' = v \<and>
    k_procs k' = (k_procs k)(p \<mapsto> r\<lparr>fileTable := (fileTable r)[nat newfd := Some f]\<rparr>) \<and>
    get_file k f = Done x \<and> get_file k' f = Done x' \<and> of_vn x' = of_vn x \<and> of_offset x' = of_offset x"
proof -
  have fds: "nat oldfd < OPEN_MAX" "nat newfd < OPEN_MAX" "nat oldfd \<noteq> nat newfd" using assms(4-8) by auto
  have len: "length (fileTable r) = OPEN_MAX" by (rule files_invD(1) [OF assms(1,3)])
  obtain x where x: "get_file k f = Done x" using file_ok_run [OF assms(1,3) fds(1) assms(9)] by auto
  have "\<exists>k1. (case fileTable r ! nat newfd of None \<Rightarrow> Done k | Some g \<Rightarrow> drop_file T me p (nat newfd) g k) = Done k1 \<and>
      files_inv k1 \<and> k_vfs k1 = v \<and> k_procs k1 = (k_procs k)(p \<mapsto> r\<lparr>fileTable := (fileTable r)[nat newfd := None]\<rparr>) \<and>
      (\<forall>g y. get_file k g = Done y \<longrightarrow> (\<exists>y'. get_file k1 g = Done y' \<and> of_offset y' = of_offset y \<and> (of_vn y' = None \<or> of_vn y' = of_vn y)))"
  proof (cases "fileTable r ! nat newfd")
    case None
    then have "(fileTable r)[nat newfd := None] = fileTable r" by (metis list_update_id)
    then have "r\<lparr>fileTable := (fileTable r)[nat newfd := None]\<rparr> = r" by simp
    then show ?thesis using None assms(1,3,10) by (auto simp: fun_upd_idem)
  next
    case (Some g)
    then obtain y where y: "get_file k g = Done y" "closed_if_last T me k y v" using assms(10) by auto
    obtain vn l where yk: "of_vn y = Some vn" "of_lock y = Some l" "lock_idle l" "of_count_refs y \<noteq> 0"
      using file_ok_run [OF assms(1,3) fds(2) Some] y(1) by auto
    show ?thesis
      using Some y(1) drop_file_run [OF y(1) yk y(2)] files_inv_dropped [OF assms(1,3) fds(2) Some] k_procs_dropped [OF assms(3)]
      by (intro exI [of _ "dropped p (nat newfd) g v k"]) (auto simp: get_file_dropped [OF y(1)])
  qed
  then obtain k1 where k1: "(case fileTable r ! nat newfd of None \<Rightarrow> Done k | Some g \<Rightarrow> drop_file T me p (nat newfd) g k) = Done k1"
    "files_inv k1" "k_vfs k1 = v" "k_procs k1 = (k_procs k)(p \<mapsto> r\<lparr>fileTable := (fileTable r)[nat newfd := None]\<rparr>)"
    "\<exists>y'. get_file k1 f = Done y' \<and> of_offset y' = of_offset x \<and> (of_vn y' = None \<or> of_vn y' = of_vn x)"
    using x by blast
  let ?r1 = "r\<lparr>fileTable := (fileTable r)[nat newfd := None]\<rparr>"
  have r1: "k_procs k1 p = Some ?r1" "fileTable ?r1 ! nat oldfd = Some f" "fileTable ?r1 ! nat newfd = None"
    using k1(4) assms(9) fds len by simp_all
  obtain y vn l where y: "get_file k1 f = Done y" "of_vn y = Some vn" "of_lock y = Some l" "lock_idle l" "Some f \<in> set (fileTable ?r1)"
    using file_ok_run [OF k1(2) r1(1) fds(1) r1(2)] by blast
  have "sys_dup2 T me oldfd newfd k = Done (shared p (nat newfd) f k1, Inr (of_int newfd))"
    using fd_file_run [OF assms(2-5)] assms(3,6-9) k1(1) share_run [OF y(1,3,4), of me p "nat newfd" "Inr (of_int newfd)"]
    by (simp add: sys_dup2_def get_proc_def)
  moreover have "k_procs (shared p (nat newfd) f k1) = (k_procs k)(p \<mapsto> r\<lparr>fileTable := (fileTable r)[nat newfd := Some f]\<rparr>)"
    using k_procs_set_fd [of "upd_file f (\<lambda>x. x\<lparr>of_count_refs := of_count_refs x + 1\<rparr>) k1" p ?r1] k1(4) by (simp add: shared_def)
  moreover have "k_vfs (shared p (nat newfd) f k1) = v" using k1(3) by (simp add: shared_def)
  moreover have "files_inv (shared p (nat newfd) f k1)" by (rule files_inv_shared [OF k1(2) r1(1) fds(2) r1(3) y(5)])
  ultimately show ?thesis using x k1(5) y(1,2) get_file_shared [OF y(1)] by auto
qed

section \<open>Witnesses\<close>

lemma demo_user_procs: "k_tproc demo_user 8 = Some 11"
  "\<exists>r. k_procs demo_user 11 = Some r \<and> fileTable r = (replicate OPEN_MAX None)[0 := Some (HeapF 20), 1 := Some (HeapF 21), 3 := Some (SysF 0)]"
  by (simp_all add: demo_user_def)

lemma count_list_replicate_other: "x \<noteq> y \<Longrightarrow> count_list (replicate n x) y = 0"
  by (induction n) auto

lemma demo_user_files: "files_inv demo_user"
proof -
  let ?t = "(replicate OPEN_MAX None)[0 := Some (HeapF 20), 1 := Some (HeapF 21), 3 := Some (SysF 0)]"
  have tab: "length ?t = OPEN_MAX" by simp
  have mem: "f = HeapF 20 \<or> f = HeapF 21 \<or> f = SysF 0" if "Some f \<in> set ?t" for f
    using that by (auto dest!: set_update_subset_insert [THEN subsetD])
  have cnt: "count_list ?t (Some f) = 1" if "f = HeapF 20 \<or> f = HeapF 21 \<or> f = SysF 0" for f
    using count_list_update [of 3 "(replicate OPEN_MAX None)[0 := Some (HeapF 20), 1 := Some (HeapF 21)]" "Some (SysF 0)" "Some f"]
      count_list_update [of 1 "(replicate OPEN_MAX None)[0 := Some (HeapF 20)]" "Some (HeapF 21)" "Some f"]
      count_list_update [of 0 "replicate OPEN_MAX None" "Some (HeapF 20)" "Some f"] that
    by (auto simp: count_list_replicate_other)
  have ok: "file_ok demo_user f 1" if "f = HeapF 20 \<or> f = HeapF 21 \<or> f = SysF 0" for f
    using that by (auto simp: file_ok_def demo_user_def get_file_def demo_of_def idle_lock_def lock_idle_def
        demo_kernel_def demo_raw_def)
  have pr: "k_procs demo_user p = Some r \<Longrightarrow> p = 11 \<and> fileTable r = ?t \<or> p \<noteq> 11 \<and> fileTable r = replicate OPEN_MAX None" for p r
    by (auto simp: demo_user_def demo_two_def demo_kproc_def split: if_splits)
  have none: "Some f \<notin> set (replicate OPEN_MAX None)" for f :: fref by simp
  show ?thesis
    unfolding files_inv_def
  proof (intro conjI allI impI; (elim conjE)?)
    fix p r assume p: "k_procs demo_user p = Some r"
    then show "length (fileTable r) = OPEN_MAX" using pr [OF p] by auto
    fix f assume "Some f \<in> set (fileTable r)"
    then have "fileTable r = ?t" "Some f \<in> set ?t" using pr [OF p] none by metis+
    then show "file_ok demo_user f (count_list (fileTable r) (Some f))" using mem cnt ok by metis
  next
    fix p q r s f
    assume "k_procs demo_user p = Some r" "k_procs demo_user q = Some s" "Some f \<in> set (fileTable r)" "Some f \<in> set (fileTable s)"
    then show "p = q" using pr none by metis
  qed
qed

theorem sys_close_releases_witness:
  "\<exists>k'. sys_close demo_tables 8 3 demo_user = Done (k', Inr ()) \<and> files_inv k' \<and> sys_close demo_tables 8 3 k' = Done (k', Inl EBADF)"
proof -
  obtain r where r: "k_procs demo_user 11 = Some r" "fileTable r ! 3 = Some (SysF 0)" using demo_user_procs(2) by auto
  have x: "get_file demo_user (SysF 0) = Done (demo_of 2 O_RDWR)" using demo_user_fields(3) by (simp add: ready_def)
  have "1 < vrefs (k_vfs demo_user) 2"
    by (simp add: vrefs_def demo_user_def v_nodes_add_ref demo_vfs2_def demo_vfs_def vnode_init_def)
  then have "closed_if_last demo_tables 8 demo_user (demo_of 2 O_RDWR) (add_ref 2 (-1) (k_vfs demo_user))"
    by (simp add: closed_if_last_def demo_of_def vfs_close_def vnode_decref_ok)
  then show ?thesis
    using sys_close_releases [OF demo_user_files demo_user_procs(1) r(1) _ _ _ x, of 3 demo_tables] r(2) by auto
qed

theorem sys_dup2_shares_witness:
  "\<exists>k' x'. sys_dup2 demo_tables 8 1 5 demo_user = Done (k', Inr 5) \<and> files_inv k' \<and> get_file k' (HeapF 21) = Done x'"
proof -
  obtain r where r: "k_procs demo_user 11 = Some r" "fileTable r ! 1 = Some (HeapF 21)" "fileTable r ! 5 = None"
    using demo_user_procs(2) by auto
  show ?thesis
    using sys_dup2_shares [OF demo_user_files demo_user_procs(1) r(1), of 1 5 "HeapF 21" "k_vfs demo_user" demo_tables] r(2,3)
    by auto
qed

end
