(* ===== verification/Files_Open.thy ===== *)
theory Files_Open
  imports Files_Refs
begin

text \<open>
  Opening through a descriptor and seeking: the composition of user memory, the file layer, the table
  of open files of the system and the file table of the process.
\<close>

section \<open>Opening\<close>

lemma find_uptD:
  assumes "find P [a..<b] = Some i"
  shows "a \<le> i" "i < b" "P i" "\<And>j. a \<le> j \<Longrightarrow> j < i \<Longrightarrow> \<not> P j"
proof -
  obtain n where n: "n < b - a" "P (a + n)" "i = a + n" "\<forall>j<n. \<not> P ([a..<b] ! j)"
    using assms by (auto simp: find_Some_iff)
  then show "a \<le> i" "i < b" "P i" by simp_all
  show "\<not> P j" if "a \<le> j" "j < i" for j
    using n(4) [rule_format, of "j - a"] n(1,3) that by simp
qed

lemma free_sysD:
  assumes "free_sys k = Some i"
  shows "i < SYSTEM_OPEN_MAX" "of_vn (k_sysfiles k ! i) = None" "\<And>j. j < i \<Longrightarrow> of_vn (k_sysfiles k ! j) \<noteq> None"
  using find_uptD [OF assms [unfolded free_sys_def]] by simp_all

lemma free_fdD:
  assumes "free_fd r < OPEN_MAX"
  shows "3 \<le> free_fd r" "fileTable r ! free_fd r = None" "\<And>j. 3 \<le> j \<Longrightarrow> j < free_fd r \<Longrightarrow> fileTable r ! j \<noteq> None"
proof -
  obtain i where i: "find (\<lambda>i. fileTable r ! i = None) [3..<OPEN_MAX] = Some i" "free_fd r = i"
    using assms unfolding free_fd_def by (cases "find (\<lambda>i. fileTable r ! i = None) [3..<OPEN_MAX]") simp_all
  show "3 \<le> free_fd r" "fileTable r ! free_fd r = None" "\<And>j. 3 \<le> j \<Longrightarrow> j < free_fd r \<Longrightarrow> fileTable r ! j \<noteq> None"
    using find_uptD [OF i(1)] i(2) by simp_all
qed

text \<open>The state when the slot and the descriptor have been chosen.\<close>

definition placed :: "nat \<Rightarrow> nat \<Rightarrow> nat \<Rightarrow> nat \<Rightarrow> 'd vfs \<Rightarrow> 'd kernel \<Rightarrow> 'd kernel" where
  "placed p fd i vn v k = set_fd p fd (Some (SysF i)) (upd_file (SysF i) (\<lambda>x. x\<lparr>of_vn := Some vn\<rparr>) (k\<lparr>k_vfs := v\<rparr>))"

lemma sys_open_run:
  assumes "pathname \<noteq> 0" "v_al (k_vfs k) = []" "k_tproc k me = Some p" "k_procs k p = Some r"
    and "copyinstr (vm_memops (c_as (ctx_of k me))) pathname PATH_MAX (v_vm (k_vfs k)) = Done (vm, Inr bs)"
    and "vfs_open T (ctx_of k me) (cstr bs) openflags mode ((k_vfs k)\<lparr>v_vm := vm\<rparr>) = Done (v, Inr vn)"
    and "free_sys k = Some i" "free_fd r = fd" "fd < OPEN_MAX"
  shows "sys_open T me pathname openflags mode k =
    (if fd = OPEN_MAX - 1 then Done (placed p fd i vn v k, Inl EMFILE)
     else open_finish T me i fd vn openflags (placed p fd i vn v k))"
proof -
  have cp: "user_copyinstr me pathname PATH_MAX k = Done (k\<lparr>k_vfs := (k_vfs k)\<lparr>v_vm := vm\<rparr>\<rparr>, Inr bs)"
    using assms(5) by (simp add: user_copyinstr_def)
  have fs: "free_sys (k\<lparr>k_vfs := w\<rparr>) = free_sys k" for w by (simp add: free_sys_def)
  show ?thesis
    using assms(1-4,6-9) cp
    by (simp add: sys_open_def alloc_with_full on_vfs_def fs curproc_def get_proc_def placed_def Let_def)
qed

text \<open>The open file that a successful call leaves in its slot.\<close>

definition new_file :: "nat \<Rightarrow> u32 \<Rightarrow> openfile" where
  "new_file vn how = \<lparr>of_vn = Some vn, of_offset = 0, of_mode_open = how, of_count_refs = 1,
     of_lock = fst (lock_create ''FILE_LOCK'' [])\<rparr>"

definition opened :: "nat \<Rightarrow> nat \<Rightarrow> nat \<Rightarrow> openfile \<Rightarrow> 'd vfs \<Rightarrow> 'd kernel \<Rightarrow> 'd kernel" where
  "opened p fd i y v k = set_fd p fd (Some (SysF i)) (upd_file (SysF i) (\<lambda>_. y) (k\<lparr>k_vfs := v\<rparr>))"

lemma openfile_overwrite:
  "x\<lparr>of_vn := a, of_offset := b, of_count_refs := c, of_mode_open := d, of_lock := e\<rparr> =
   \<lparr>of_vn = a, of_offset = b, of_mode_open = d, of_count_refs = c, of_lock = e\<rparr>"
  by (cases x) simp

lemma open_finish_run:
  assumes "i < length (k_sysfiles k)" "v_al v = []" "openflags AND O_APPEND = 0"
    and "openflags AND O_ACCMODE = how" "how = O_RDONLY \<or> how = O_WRONLY \<or> how = O_RDWR"
  shows "open_finish T me i fd vn openflags (placed p fd i vn v k) = Done (opened p fd i (new_file vn how) v k, Inr (of_nat fd))"
  using assms
  by (cases k) (auto simp: open_finish_def alloc_with_full lock_create_full upd_file_def Let_def placed_def opened_def
      new_file_def set_fd_def upd_proc_def openfile_overwrite)

lemma opened_simps [simp]: "k_vfs (opened p fd i y v k) = v" "k_tproc (opened p fd i y v k) = k_tproc k"
  "ctx_of (opened p fd i y v k) me = ctx_of k me"
  by (simp_all add: opened_def)

lemma k_procs_opened:
  assumes "k_procs k p = Some r"
  shows "k_procs (opened p fd i y v k) = (k_procs k)(p \<mapsto> r\<lparr>fileTable := (fileTable r)[fd := Some (SysF i)]\<rparr>)"
  using k_procs_set_fd [of "upd_file (SysF i) (\<lambda>_. y) (k\<lparr>k_vfs := v\<rparr>)" p r] assms by (simp add: opened_def)

lemma get_file_opened:
  assumes "i < length (k_sysfiles k)"
  shows "get_file (opened p fd i y v k) g = (if g = SysF i then Done y else get_file k g)"
  using assms by (cases g) (auto simp: opened_def get_file_def upd_file_def set_fd_def upd_proc_def)

lemma files_inv_opened:
  assumes "files_inv k" "k_procs k p = Some r" "fd < OPEN_MAX" "fileTable r ! fd = None"
    and "i < length (k_sysfiles k)" "of_vn (k_sysfiles k ! i) = None"
    and "of_vn y \<noteq> None" "of_lock y = Some l" "lock_idle l" "of_count_refs y = 1"
  shows "files_inv (opened p fd i y v k)"
proof -
  note inv = files_invD [OF assms(1)]
  let ?t = "fileTable r" and ?s = "r\<lparr>fileTable := (fileTable r)[fd := Some (SysF i)]\<rparr>"
  have len: "length ?t = OPEN_MAX" using inv(1) [OF assms(2)] .
  have new: "Some (SysF i) \<notin> set (fileTable u)" if "k_procs k q = Some u" for q u
    using inv(2) [OF that, of "SysF i"] assms(5,6) by (auto simp: file_ok_def get_file_def)
  have cnt: "count_list (?t[fd := Some (SysF i)]) (Some g) = (if g = SysF i then 1 else count_list ?t (Some g))" for g
    using count_list_update [of fd ?t "Some (SysF i)" "Some g"] assms(3,4) len new [OF assms(2)] by (auto split: if_splits)
  have sub: "Some g \<in> set ?t" if "Some g \<in> set (?t[fd := Some (SysF i)])" "g \<noteq> SysF i" for g
    using that set_update_subset_insert [of ?t fd "Some (SysF i)"] by auto
  show ?thesis
  proof (rule files_inv_step [OF assms(1), where s = ?s and p = p])
    show "k_procs (opened p fd i y v k) = (k_procs k)(p \<mapsto> ?s)" by (rule k_procs_opened [OF assms(2)])
    show "length (fileTable ?s) = OPEN_MAX" using len by simp
  next
    fix g assume g: "Some g \<in> set (fileTable ?s)"
    show "file_ok (opened p fd i y v k) g (count_list (fileTable ?s) (Some g))"
      using inv(2) [OF assms(2), of g] sub [of g] g cnt [of g] assms(7-10)
      by (auto simp: file_ok_def get_file_opened [OF assms(5)])
    fix q u assume "q \<noteq> p" "k_procs k q = Some u"
    then show "Some g \<notin> set (fileTable u)" using inv(3) [OF assms(2), of q u g] sub [of g] g new by auto
  next
    fix g q u assume "q \<noteq> p" "k_procs k q = Some u" "Some g \<in> set (fileTable u)"
    then have "g \<noteq> SysF i" using new by auto
    then show "get_file (opened p fd i y v k) g = get_file k g" by (simp add: get_file_opened [OF assms(5)])
  qed
qed

text \<open>The path of the caller, as bytes of its memory.\<close>

lemma unat_byte_of_char [simp]: "unat (of_char a :: u8) = of_char a"
proof -
  have "(of_char a :: u8) = of_nat (of_char a)" by (cases a) (simp add: of_char_def)
  then show ?thesis using nat_of_char_less_256 [of a] by (simp add: unat_of_nat)
qed

lemma cstr_str_bytes: "CHR 0x00 \<notin> set s \<Longrightarrow> cstr (str_bytes s @ [0]) = s"
proof (induction s)
  case (Cons a s)
  have "(of_char a :: u8) \<noteq> 0"
  proof
    assume "(of_char a :: u8) = 0"
    then have "of_char a = (0 :: nat)" by (metis unat_byte_of_char unat_0)
    then have "a = char_of (0 :: nat)" by (metis char_of_char)
    then have "a = CHR 0x00" by (simp add: char_of_def)
    then show False using Cons.prems by simp
  qed
  then show ?case using Cons by (simp add: cstr_def str_bytes_def)
qed (simp add: cstr_def str_bytes_def)

section \<open>Claims\<close>

lemma sys_open_device_run:
  assumes "files_inv k" "length (k_sysfiles k) = SYSTEM_OPEN_MAX" "k_tproc k me = Some p" "k_procs k p = Some r"
    and "v_al (k_vfs k) = []" "p_addrspace r = Some as" "vm_user_inv as (v_vm (k_vfs k))"
    and "is_str (vm_user_view as (v_vm (k_vfs k))) a (str_bytes (name @ '':''))" "CHR 0x00 \<notin> set name"
    and "0 < a" "a + PATH_MAX \<le> USERSPACETOP" "length name < PATH_MAX - 1"
    and "volname_private T" "biglock_idle (k_vfs k)" "plain_device T (k_vfs k) name vn d dk" "dk = NullDev \<or> dk = ConDev"
    and "how = O_RDONLY \<or> how = O_WRONLY \<or> how = O_RDWR" "free_sys k = Some i" "free_fd r = fd" "fd < OPEN_MAX"
  shows "\<exists>vm. vm_user_inv as vm \<and> vm_user_view as vm = vm_user_view as (v_vm (k_vfs k)) \<and>
    vfs_close T (ctx_of k me) vn (add_ref vn 1 ((k_vfs k)\<lparr>v_vm := vm\<rparr>)) = Done ((k_vfs k)\<lparr>v_vm := vm\<rparr>) \<and>
    sys_open T me a how mode k =
      (if fd = OPEN_MAX - 1 then Done (placed p fd i vn (add_ref vn 1 ((k_vfs k)\<lparr>v_vm := vm\<rparr>)) k, Inl EMFILE)
       else Done (opened p fd i (new_file vn how) (add_ref vn 1 ((k_vfs k)\<lparr>v_vm := vm\<rparr>)) k, Inr (of_nat fd)))"
proof -
  let ?cs = "str_bytes (name @ '':'')"
  have "length ?cs < PATH_MAX" "a + length ?cs < USERSPACETOP" "a + PATH_MAX \<le> 2 ^ 32"
    using assms(11,12) by (simp_all add: str_bytes_def)
  then obtain vm where vm: "copyinstr (vm_memops (Some as)) a PATH_MAX (v_vm (k_vfs k)) = Done (vm, Inr (?cs @ [0]))"
    "vm_user_inv as vm" "vm_user_view as vm = vm_user_view as (v_vm (k_vfs k))"
    using vm.copyinstr_ok [OF assms(7,8)] by blast
  let ?v = "(k_vfs k)\<lparr>v_vm := vm\<rparr>"
  have cs: "cstr (?cs @ [0]) = name @ '':''" using assms(9) by (intro cstr_str_bytes) auto
  have dev: "biglock_idle ?v" "plain_device T ?v name vn d dk"
    using assms(14) plain_device_cong [OF assms(13,15), of ?v] by (simp_all add: biglock_idle_def)
  have op: "vfs_open T (ctx_of k me) (name @ '':'') how mode ?v = Done (add_ref vn 1 ?v, Inr vn)"
    by (rule vfs_open_device [OF assms(13) dev assms(16,17)])
  have cl: "vfs_close T (ctx_of k me) vn (add_ref vn 1 ?v) = Done ?v"
  proof -
    have "1 < vrefs (add_ref vn 1 ?v) vn"
      using dev(2) by (auto simp: plain_device_def vrefs_def v_nodes_add_ref)
    then show ?thesis by (simp add: vfs_close_def vnode_decref_ok)
  qed
  have as: "c_as (ctx_of k me) = Some as" using assms(3,4,6) by (simp add: ctx_of_def)
  have "how AND O_APPEND = 0" "how AND O_ACCMODE = how" using assms(17) by auto
  moreover have "v_al (add_ref vn 1 ?v) = []" using assms(5) by simp
  moreover have "i < length (k_sysfiles k)" using free_sysD(1) [OF assms(18)] assms(2) by simp
  ultimately have fin: "open_finish T me i fd vn how (placed p fd i vn (add_ref vn 1 ?v) k) =
      Done (opened p fd i (new_file vn how) (add_ref vn 1 ?v) k, Inr (of_nat fd))"
    using assms(17) by (intro open_finish_run)
  have a0: "a \<noteq> 0" using assms(10) by simp
  have cp: "copyinstr (vm_memops (c_as (ctx_of k me))) a PATH_MAX (v_vm (k_vfs k)) = Done (vm, Inr (?cs @ [0]))"
    unfolding as by (rule vm(1))
  have op': "vfs_open T (ctx_of k me) (cstr (?cs @ [0])) how mode ?v = Done (add_ref vn 1 ?v, Inr vn)"
    unfolding cs by (rule op)
  have "sys_open T me a how mode k =
    (if fd = OPEN_MAX - 1 then Done (placed p fd i vn (add_ref vn 1 ?v) k, Inl EMFILE)
     else open_finish T me i fd vn how (placed p fd i vn (add_ref vn 1 ?v) k))"
    by (rule sys_open_run [OF a0 assms(5,3,4) cp op' assms(18-20)])
  then show ?thesis using vm(2,3) cl fin by auto
qed


text \<open>
  C4. Opening a device by its name, given as a string in the memory of the caller, takes the lowest free
  descriptor from 3 on and the lowest free slot of the table of the system, and stores there a file at
  position 0 with the access asked for and one reference. The counts of all open files stay right, the
  memory of the process is as before, and closing the new descriptor gives back the descriptor, the slot
  and the reference to the device.
\<close>

theorem sys_open_close_device:
  assumes "files_inv k" "length (k_sysfiles k) = SYSTEM_OPEN_MAX" "k_tproc k me = Some p" "k_procs k p = Some r"
    and "v_al (k_vfs k) = []" "p_addrspace r = Some as" "vm_user_inv as (v_vm (k_vfs k))"
    and "is_str (vm_user_view as (v_vm (k_vfs k))) a (str_bytes (name @ '':''))" "CHR 0x00 \<notin> set name"
    and "0 < a" "a + PATH_MAX \<le> USERSPACETOP" "length name < PATH_MAX - 1"
    and "volname_private T" "biglock_idle (k_vfs k)" "plain_device T (k_vfs k) name vn d dk" "dk = NullDev \<or> dk = ConDev"
    and "how = O_RDONLY \<or> how = O_WRONLY \<or> how = O_RDWR" "free_sys k = Some i" "free_fd r = fd" "fd < OPEN_MAX - 1"
  shows "\<exists>k' x k''. sys_open T me a how mode k = Done (k', Inr (of_nat fd)) \<and> files_inv k' \<and>
    k_procs k' = (k_procs k)(p \<mapsto> r\<lparr>fileTable := (fileTable r)[fd := Some (SysF i)]\<rparr>) \<and>
    get_file k' (SysF i) = Done x \<and> of_vn x = Some vn \<and> of_offset x = 0 \<and> of_mode_open x = how \<and> of_count_refs x = 1 \<and>
    (\<forall>j. 3 \<le> j \<and> j < fd \<longrightarrow> fileTable r ! j \<noteq> None) \<and> (\<forall>j<i. of_vn (k_sysfiles k ! j) \<noteq> None) \<and>
    vrefs (k_vfs k') vn = vrefs (k_vfs k) vn + 1 \<and> vm_user_view as (v_vm (k_vfs k')) = vm_user_view as (v_vm (k_vfs k)) \<and>
    sys_close T me (int fd) k' = Done (k'', Inr ()) \<and> files_inv k'' \<and> k_procs k'' = k_procs k \<and> free_sys k'' = Some i \<and>
    k_vfs k'' = (k_vfs k)\<lparr>v_vm := v_vm (k_vfs k')\<rparr>"
proof -
  have fd: "fd < OPEN_MAX" using assms(20) by simp
  obtain vm where vm: "vm_user_view as vm = vm_user_view as (v_vm (k_vfs k))"
    "vfs_close T (ctx_of k me) vn (add_ref vn 1 ((k_vfs k)\<lparr>v_vm := vm\<rparr>)) = Done ((k_vfs k)\<lparr>v_vm := vm\<rparr>)"
    "sys_open T me a how mode k =
       Done (opened p fd i (new_file vn how) (add_ref vn 1 ((k_vfs k)\<lparr>v_vm := vm\<rparr>)) k, Inr (of_nat fd))"
    using sys_open_device_run [OF assms(1-19) fd] assms(20) by auto
  let ?v = "(k_vfs k)\<lparr>v_vm := vm\<rparr>"
  let ?x = "new_file vn how" and ?k = "opened p fd i (new_file vn how) (add_ref vn 1 ?v) k"
  have fr: "fileTable r ! fd = None" "\<forall>j. 3 \<le> j \<and> j < fd \<longrightarrow> fileTable r ! j \<noteq> None"
    using free_fdD [of r] assms(19) fd by auto
  have i: "i < length (k_sysfiles k)" "of_vn (k_sysfiles k ! i) = None" "\<forall>j<i. of_vn (k_sysfiles k ! j) \<noteq> None"
    using free_sysD [OF assms(18)] assms(2) by auto
  have x: "of_vn ?x = Some vn" "of_lock ?x = fst (lock_create ''FILE_LOCK'' [])" "of_count_refs ?x = 1"
    by (simp_all add: new_file_def)
  obtain l where l: "of_lock ?x = Some l" "lock_idle l" by (auto simp: new_file_def lock_create_full lock_idle_def)
  have inv: "files_inv ?k" using files_inv_opened [OF assms(1,4) fd fr(1) i(1,2) _ l x(3)] x(1) by simp
  have pr: "k_procs ?k = (k_procs k)(p \<mapsto> r\<lparr>fileTable := (fileTable r)[fd := Some (SysF i)]\<rparr>)" by (rule k_procs_opened [OF assms(4)])
  let ?r = "r\<lparr>fileTable := (fileTable r)[fd := Some (SysF i)]\<rparr>"
  have k: "k_tproc ?k me = Some p" "k_procs ?k p = Some ?r" "fileTable ?r ! fd = Some (SysF i)" "get_file ?k (SysF i) = Done ?x"
    "ctx_of ?k me = ctx_of k me" "k_vfs ?k = add_ref vn 1 ?v"
    using assms(3,4) pr fd files_invD(1) [OF assms(1,4)] get_file_opened [OF i(1)] by simp_all
  then have cl: "closed_if_last T me ?k ?x ?v" using vm(2) x by (simp add: closed_if_last_def)
  let ?k2 = "dropped p fd (SysF i) ?v ?k"
  have close: "sys_close T me (int fd) ?k = Done (?k2, Inr ())"
    using fd_file_run [OF k(1,2)] fd k(3) drop_file_run [OF k(4) x(1) l _ cl] x(3) by (simp add: sys_close_def)
  have "files_inv ?k2" by (rule files_inv_dropped [OF inv k(2) fd k(3)])
  moreover have "k_procs ?k2 = k_procs k"
  proof -
    have "(fileTable r)[fd := None] = fileTable r" using fr(1) by (metis list_update_id)
    then show ?thesis using k_procs_dropped [OF k(2)] pr assms(4) by (simp add: fun_upd_idem)
  qed
  moreover have "free_sys ?k2 = Some i"
  proof -
    have "of_vn (k_sysfiles ?k2 ! j) = of_vn (k_sysfiles k ! j)" for j
      using i(1,2) x by (cases "j = i") (simp_all add: dropped_def opened_def upd_file_def set_fd_def upd_proc_def)
    then show ?thesis using assms(18) by (simp add: free_sys_def)
  qed
  moreover have "vrefs (add_ref vn 1 ?v) vn = vrefs (k_vfs k) vn + 1"
    using assms(15) by (auto simp: plain_device_def vrefs_def v_nodes_add_ref)
  ultimately show ?thesis
    using vm(1,3) inv pr k(4,6) x fr(2) i(3) close
    by (intro exI [of _ ?k] exI [of _ ?x] exI [of _ ?k2]) (simp add: new_file_def)
qed



section \<open>Seeking\<close>

lemma sys_lseek_run:
  assumes "ready k me fd f x vn" "VOP T vn (\<lambda>t. vop_isseekable t vn) (k_vfs k) = Done True"
    and "if whence = SEEK_END then VOP T vn (\<lambda>t. vop_stat t (ctx_of k me) vn) (k_vfs k) = Done (v, Inr info)
         else v = k_vfs k"
  shows "sys_lseek T me fd pos whence k =
    (case seek_to whence pos (of_offset x) (st_size info) of
       Inl e \<Rightarrow> Done (k\<lparr>k_vfs := v\<rparr>, Inl e)
     | Inr n \<Rightarrow> Done (upd_file f (\<lambda>x. x\<lparr>of_offset := n\<rparr>) (k\<lparr>k_vfs := v\<rparr>), Inr (ucast (drop_bit 32 n), ucast n)))"
proof -
  obtain p l where r: "fd_file me fd k = Done (Some (p, f))" "get_file k f = Done x" "of_vn x = Some vn"
    "of_lock x = Some l" "lock_idle l" using assms(1) by (auto simp: ready_def)
  let ?l = "l\<lparr>lk_owner := Some me\<rparr>"
  let ?k1 = "upd_file f (\<lambda>x. x\<lparr>of_lock := Some ?l\<rparr>) k"
  let ?k2 = "?k1\<lparr>k_vfs := v\<rparr>"
  have k1: "file_lock me f k = Done ?k1" by (rule file_lock_idle [OF r(2,4,5)])
  have g2: "get_file ?k2 f = Done (x\<lparr>of_lock := Some ?l\<rparr>)" by (simp add: get_file_upd [OF r(2)])
  have k2: "(if whence = SEEK_END then bindo (on_vfs (VOP T vn (\<lambda>t. vop_stat t (ctx_of ?k1 me) vn)) ?k1)
      (\<lambda>(k2, r). Done (k2, map_sum id st_size r)) else Done (?k1, Inr 0)) =
      Done (?k2, Inr (if whence = SEEK_END then st_size info else 0))"
    using assms(3) by (cases "whence = SEEK_END") (simp_all add: on_vfs_def kernel_vfs_same)
  have st: "seek_to whence pos (of_offset x) (if whence = SEEK_END then st_size info else 0) =
      seek_to whence pos (of_offset x) (st_size info)" by (simp add: seek_to_def)
  note run = sys_lseek_def r(1-3) assms(2) k1 bindo.simps option.case prod.case k2 sum.case st
  show ?thesis
  proof (cases "seek_to whence pos (of_offset x) (st_size info)")
    case (Inl e)
    have "file_unlock me f ?k2 = Done (upd_file f (\<lambda>x. x\<lparr>of_lock := Some l\<rparr>) ?k2)"
      by (rule file_unlock_mine [OF g2 _ r(5)]) simp
    also have "upd_file f (\<lambda>x. x\<lparr>of_lock := Some l\<rparr>) ?k2 = k\<lparr>k_vfs := v\<rparr>"
    proof -
      have "upd_file f (\<lambda>x. x\<lparr>of_lock := Some l\<rparr>) ?k1 = k"
        unfolding upd_file_upd_file [OF r(2)] by (rule upd_file_id [OF r(2)]) (use r(4) in \<open>cases x; simp\<close>)
      then show ?thesis by (simp add: upd_file_vfs)
    qed
    finally show ?thesis unfolding run Inl by simp
  next
    case (Inr n)
    let ?k3 = "upd_file f (\<lambda>x. x\<lparr>of_offset := n\<rparr>) ?k2"
    have g3: "get_file ?k3 f = Done (x\<lparr>of_lock := Some ?l, of_offset := n\<rparr>)" by (simp add: get_file_upd [OF g2])
    have "file_unlock me f ?k3 = Done (upd_file f (\<lambda>x. x\<lparr>of_lock := Some l\<rparr>) ?k3)"
      by (rule file_unlock_mine [OF g3 _ r(5)]) simp
    then show ?thesis unfolding run Inr relock [OF r(2,4)] by simp
  qed
qed

text \<open>The two words of the result are the upper and the lower half of the position.\<close>

lemma halves_join: "word_cat (ucast (drop_bit 32 (n :: u64)) :: u32) (ucast n :: u32) = n"
  by (rule bit_word_eqI) (auto simp: bit_word_cat_iff bit_ucast_iff bit_drop_bit_eq not_less)

lemma sint_minus: "- (2 ^ 63) < sint (a :: u64) \<Longrightarrow> sint (- a) = - sint a"
  using sint_lt [of a] by (simp add: sint_word_ariths signed_take_bit_int_eq_self)

lemma seek_to_eq:
  assumes "- (2 ^ 63) < sint pos" "0 \<le> sint offset" "0 \<le> sint eof"
  shows "seek_to whence pos offset eof =
    (if whence = SEEK_SET \<and> 0 \<le> sint pos then Inr pos
     else if whence = SEEK_CUR \<and> 0 \<le> sint offset + sint pos then Inr (offset + pos)
     else if whence = SEEK_END \<and> 0 \<le> sint eof + sint pos then Inr (eof - pos)
     else Inl EINVAL)"
  using assms sint_minus [OF assms(1)] by (auto simp: seek_to_def word_sless_alt)



section \<open>Witnesses\<close>

lemma find_uptI: "a \<le> i \<Longrightarrow> i < b \<Longrightarrow> P i \<Longrightarrow> \<forall>j. a \<le> j \<and> j < i \<longrightarrow> \<not> P j \<Longrightarrow> find P [a..<b] = Some i"
  by (auto simp: find_Some_iff intro!: exI [of _ "i - a"])

text \<open>The process of the examples with the string \<^verbatim>\<open>con:\<close> in its memory.\<close>

definition con_string :: "u8 list" where
  "con_string = [99, 111, 110, 58, 0]"

lemma con_string: "str_bytes (''con'' @ '':'') @ [0] = con_string" "0 \<notin> set (str_bytes (''con'' @ '':''))"
  by (simp_all add: con_string_def str_bytes_def of_char_def)

definition with_vm :: "vmstate \<Rightarrow> 'd kernel \<Rightarrow> 'd kernel" where
  "with_vm vm k = k\<lparr>k_vfs := (k_vfs k)\<lparr>v_vm := vm\<rparr>\<rparr>"

lemma with_vm_simps [simp]: "k_procs (with_vm vm k) = k_procs k" "k_tproc (with_vm vm k) = k_tproc k"
  "k_sysfiles (with_vm vm k) = k_sysfiles k" "v_vm (k_vfs (with_vm vm k)) = vm" "v_al (k_vfs (with_vm vm k)) = v_al (k_vfs k)"
  "free_sys (with_vm vm k) = free_sys k" "get_file (with_vm vm k) f = get_file k f"
  by (simp_all add: with_vm_def free_sys_def)

lemma files_inv_with_vm: "files_inv (with_vm vm k) = files_inv k"
  by (simp add: files_inv_def file_ok_def)

lemma demo_con_string:
  "\<exists>vm. copyout (vm_memops (Some demo_as)) con_string 0x7ffffb00 (v_vm (k_vfs demo_user)) = Done (vm, Inr ()) \<and>
     vm_user_inv demo_as vm \<and> is_str (vm_user_view demo_as vm) 0x7ffffb00 (str_bytes (''con'' @ '':''))"
proof -
  have inv: "vm_user_inv demo_as (v_vm (k_vfs demo_user))" using demo_user_fields(6) demo_user_inv by simp
  have m: "mapped (vm_user_view demo_as (v_vm (k_vfs demo_user))) 0x7ffffb00 (length con_string)"
    using demo_stack_mapped [of "0x7ffffb00" "length con_string"] demo_user_fields(6) by (simp add: con_string_def)
  have "con_string \<noteq> []" "0x7ffffb00 + length con_string \<le> USERSPACETOP" by (simp_all add: con_string_def)
  then obtain vm where vm: "copyout (vm_memops (Some demo_as)) con_string 0x7ffffb00 (v_vm (k_vfs demo_user)) = Done (vm, Inr ())"
    "vm_user_inv demo_as vm"
    "vm_user_view demo_as vm = put_bytes (vm_user_view demo_as (v_vm (k_vfs demo_user))) 0x7ffffb00 con_string"
    using vm.copyout_ok [OF inv _ _ m] by blast
  have "is_str (vm_user_view demo_as vm) 0x7ffffb00 (str_bytes (''con'' @ '':''))"
    unfolding vm(3) con_string(1) [symmetric] by (rule is_str_put [OF con_string(2)])
  then show ?thesis using vm(1,2) by blast
qed

lemma demo_user_layer:
  "biglock_idle (k_vfs (with_vm vm demo_user))" "plain_device demo_tables (k_vfs (with_vm vm demo_user)) ''con'' 4 3 ConDev"
  by (simp add: biglock_idle_def with_vm_def demo_user_def demo_vfs2_def demo_vfs_def)
    (simp add: plain_device_def with_vm_def demo_user_def v_nodes_add_ref demo_vfs2_def names_distinct_def no_volume_def
      volname_of_def kd_names_def new_kd_def is_sep_def vnode_init_def)

lemma demo_user_slots: "free_sys demo_user = Some 1" "length (k_sysfiles demo_user) = SYSTEM_OPEN_MAX"
  unfolding free_sys_def
  by (rule find_uptI) (simp_all add: demo_user_def demo_kernel_def demo_raw_def demo_of_def)

theorem sys_open_close_device_witness:
  "\<exists>vm k' k''. copyout (vm_memops (Some demo_as)) con_string 0x7ffffb00 (v_vm (k_vfs demo_user)) = Done (vm, Inr ()) \<and>
     sys_open demo_tables 8 0x7ffffb00 O_RDWR 0 (with_vm vm demo_user) = Done (k', Inr 4) \<and>
     sys_close demo_tables 8 4 k' = Done (k'', Inr ()) \<and> files_inv k''"
proof -
  obtain vm where vm: "copyout (vm_memops (Some demo_as)) con_string 0x7ffffb00 (v_vm (k_vfs demo_user)) = Done (vm, Inr ())"
    "vm_user_inv demo_as vm" "is_str (vm_user_view demo_as vm) 0x7ffffb00 (str_bytes (''con'' @ '':''))"
    using demo_con_string by blast
  let ?k = "with_vm vm demo_user"
  obtain r where r: "k_procs demo_user 11 = Some r" "p_addrspace r = Some demo_as"
    "fileTable r = (replicate OPEN_MAX None)[0 := Some (HeapF 20), 1 := Some (HeapF 21), 3 := Some (SysF 0)]"
    by (simp add: demo_user_def)
  have "free_fd r = 4"
  proof -
    have "find (\<lambda>i. fileTable r ! i = None) [3..<OPEN_MAX] = Some 4"
      unfolding r(3) by (rule find_uptI) (auto simp: nth_list_update)
    then show ?thesis by (simp add: free_fd_def)
  qed
  then show ?thesis
    using sys_open_close_device [where k = ?k and me = 8 and p = 11 and r = r and as = demo_as and a = "0x7ffffb00" and
        name = "''con''" and T = demo_tables and vn = 4 and d = 3 and dk = ConDev and how = O_RDWR and i = 1 and fd = 4 and mode = 0]
      demo_user_files demo_user_procs(1) r demo_user_fields(4) demo_user_layer [of vm] demo_user_slots vm demo_private
    by (auto simp: files_inv_with_vm)
qed


text \<open>A process that has used up all descriptors but the last one.\<close>

definition crowded_table :: "fref option list" where
  "crowded_table = replicate 127 (Some (HeapF 21)) @ [None]"

definition demo_crowded :: "u8 list kernel" where
  "demo_crowded = demo_user\<lparr>
     k_procs := (k_procs demo_user)(11 \<mapsto> (the (k_procs demo_user 11))\<lparr>fileTable := crowded_table\<rparr>),
     k_heapfiles := [21 \<mapsto> (demo_of 4 O_WRONLY)\<lparr>of_count_refs := 127\<rparr>]\<rparr>"

lemma count_list_replicate_same: "count_list (replicate n x) x = n"
  by (induction n) auto

lemma demo_crowded_files: "files_inv demo_crowded"
proof -
  have other: "k_procs demo_crowded p = Some r \<Longrightarrow> p \<noteq> 11 \<Longrightarrow> fileTable r = replicate OPEN_MAX None" for p r
    by (auto simp: demo_crowded_def demo_user_def demo_two_def demo_kproc_def split: if_splits)
  have mine: "k_procs demo_crowded 11 = Some r \<Longrightarrow> fileTable r = crowded_table" for r by (auto simp: demo_crowded_def)
  have cnt: "count_list crowded_table (Some (HeapF 21)) = 127" "length crowded_table = OPEN_MAX"
    "Some f \<in> set crowded_table \<Longrightarrow> f = HeapF 21" for f
    by (auto simp: crowded_table_def count_list_replicate_same)
  have ok: "file_ok demo_crowded (HeapF 21) 127"
    by (simp add: file_ok_def demo_crowded_def get_file_def demo_of_def idle_lock_def lock_idle_def)
  have none: "Some f \<notin> set (replicate OPEN_MAX None)" for f :: fref by simp
  show ?thesis
    unfolding files_inv_def
  proof (intro conjI allI impI; (elim conjE)?)
    fix p r assume p: "k_procs demo_crowded p = Some r"
    show "length (fileTable r) = OPEN_MAX" using other [OF p] mine p cnt(2) by (cases "p = 11") simp_all
    fix f assume "Some f \<in> set (fileTable r)"
    then have "fileTable r = crowded_table" "f = HeapF 21" using other [OF p] mine p cnt(3) none by metis+
    then show "file_ok demo_crowded f (count_list (fileTable r) (Some f))" using ok cnt(1) by simp
  next
    fix p q r s f
    assume "k_procs demo_crowded p = Some r" "k_procs demo_crowded q = Some s" "Some f \<in> set (fileTable r)" "Some f \<in> set (fileTable s)"
    then show "p = q" using other none by metis
  qed
qed



end
