(* ===== verification/Exec.thy ===== *)
theory Exec
  imports Files_Open ArgBuf
begin

text \<open>
  Loading and starting programs: the ELF loader (\<^verbatim>\<open>kern/syscall/loadelf.c\<close>), \<^verbatim>\<open>loadexec\<close>
  (\<^verbatim>\<open>kern/syscall/exec.c\<close>), \<^verbatim>\<open>runprogram\<close> and the system call \<^verbatim>\<open>execv\<close>. The address space
  structure that \<^verbatim>\<open>proc_getas\<close> points to is the one in the current process, so a change of it is a
  change of the process.
\<close>

section \<open>The executable format\<close>

record Elf_Ehdr =
  e_ident :: "u8 list"
  e_type :: nat
  e_machine :: nat
  e_version :: nat
  e_entry :: nat
  e_phoff :: nat
  e_shoff :: nat
  e_flags :: nat
  e_ehsize :: nat
  e_phentsize :: nat
  e_phnum :: nat
  e_shentsize :: nat
  e_shnum :: nat
  e_shstrndx :: nat

record Elf_Phdr =
  p_type :: nat
  p_offset :: nat
  p_vaddr :: nat
  p_paddr :: nat
  p_filesz :: nat
  p_memsz :: nat
  p_flags :: nat
  p_align :: nat

abbreviation "EHDR_SIZE \<equiv> 52 :: nat"
abbreviation "PHDR_SIZE \<equiv> 32 :: nat"
abbreviation "PT_NULL \<equiv> 0 :: nat"
abbreviation "PT_LOAD \<equiv> 1 :: nat"
abbreviation "PT_PHDR \<equiv> 6 :: nat"
abbreviation "PT_MIPS_REGINFO \<equiv> 0x70000000 :: nat"

text \<open>The structures as the processor, which is big-endian, finds them in the bytes read.\<close>

definition half_at :: "u8 list \<Rightarrow> nat \<Rightarrow> nat" where
  "half_at bs i = unat (bs ! i) * 256 + unat (bs ! (i + 1))"

definition long_at :: "u8 list \<Rightarrow> nat \<Rightarrow> nat" where
  "long_at bs i = be32 (take 4 (drop i bs))"

definition ehdr_of :: "u8 list \<Rightarrow> Elf_Ehdr" where
  "ehdr_of bs = \<lparr>e_ident = take 16 bs, e_type = half_at bs 16, e_machine = half_at bs 18, e_version = long_at bs 20,
     e_entry = long_at bs 24, e_phoff = long_at bs 28, e_shoff = long_at bs 32, e_flags = long_at bs 36,
     e_ehsize = half_at bs 40, e_phentsize = half_at bs 42, e_phnum = half_at bs 44, e_shentsize = half_at bs 46,
     e_shnum = half_at bs 48, e_shstrndx = half_at bs 50\<rparr>"

definition phdr_of :: "u8 list \<Rightarrow> Elf_Phdr" where
  "phdr_of bs = \<lparr>p_type = long_at bs 0, p_offset = long_at bs 4, p_vaddr = long_at bs 8, p_paddr = long_at bs 12,
     p_filesz = long_at bs 16, p_memsz = long_at bs 20, p_flags = long_at bs 24, p_align = long_at bs 28\<rparr>"

text \<open>The test of the header: a 32-bit big-endian executable of version 1 for MIPS.\<close>

definition ehdr_ok :: "Elf_Ehdr \<Rightarrow> bool" where
  "ehdr_ok eh \<longleftrightarrow> take 4 (e_ident eh) = [0x7f, 0x45, 0x4c, 0x46] \<and> e_ident eh ! 4 = 1 \<and> e_ident eh ! 5 = 2 \<and>
     e_ident eh ! 6 = 1 \<and> e_version eh = 1 \<and> e_type eh = 2 \<and> e_machine eh = 8"

section \<open>Loading\<close>

text \<open>
  One structure of \<open>n\<close> bytes read into a local variable, whose old contents are \<open>junk\<close>; a short
  read is \<^verbatim>\<open>ENOEXEC\<close>.
\<close>

definition elf_read :: "'d vtables \<Rightarrow> thread_id \<Rightarrow> u8 list \<Rightarrow> nat \<Rightarrow> nat \<Rightarrow> nat \<Rightarrow> ('d, u8 list) kop" where
  "elf_read T me junk vn n offset k =
     bindo (on_vfs (VOP T vn (\<lambda>t. vop_read t (ctx_of k me) vn (uio_kinit (fresh_block n junk) n (of_nat offset) UIO_READ))) k)
       (\<lambda>(k1, ku, r). Done (k1, case r of
          Inl e \<Rightarrow> Inl e
        | Inr _ \<Rightarrow> if uio_resid ku \<noteq> 0 then Inl ENOEXEC else Inr (iov_block (hd (uio_done ku @ uio_iov ku)))))"

definition elf_phdr :: "'d vtables \<Rightarrow> thread_id \<Rightarrow> u8 list \<Rightarrow> nat \<Rightarrow> Elf_Ehdr \<Rightarrow> nat \<Rightarrow> ('d, Elf_Phdr) kop" where
  "elf_phdr T me junk vn eh i k =
     bindo (elf_read T me junk vn PHDR_SIZE ((e_phoff eh + i * e_phentsize eh) mod 2 ^ 32) k)
       (\<lambda>(k1, r). Done (k1, map_sum id phdr_of r))"

datatype segment = SkipSegment | LoadSegment | UnknownSegment

definition segment_kind :: "Elf_Phdr \<Rightarrow> segment" where
  "segment_kind ph =
     (if p_type ph = PT_NULL \<or> p_type ph = PT_PHDR \<or> p_type ph = PT_MIPS_REGINFO then SkipSegment
      else if p_type ph = PT_LOAD then LoadSegment else UnknownSegment)"

definition load_segment ::
  "'d vtables \<Rightarrow> thread_id \<Rightarrow> addrspace \<Rightarrow> nat \<Rightarrow> nat \<Rightarrow> nat \<Rightarrow> nat \<Rightarrow> nat \<Rightarrow> bool \<Rightarrow> ('d, unit) kop" where
  "load_segment T me as vn offset vaddr memsize filesize is_executable k =
     (let filesize = min filesize memsize;
          u = \<lparr>uio_iov = [\<lparr>iov_block = [], iov_kbase = 0, iov_ubase = vaddr, iov_len = memsize\<rparr>], uio_done = [],
               uio_offset = of_nat offset, uio_resid = filesize,
               uio_segflg = (if is_executable then UIO_USERISPACE else UIO_USERSPACE), uio_rw = UIO_READ,
               uio_space = Some as\<rparr> in
      bindo (on_vfs (VOP T vn (\<lambda>t. vop_read t (ctx_of k me) vn u)) k)
        (\<lambda>(k1, u1, r). Done (k1, case r of
           Inl e \<Rightarrow> Inl e
         | Inr _ \<Rightarrow> if uio_resid u1 \<noteq> 0 then Inl ENOEXEC else Inr ())))"

definition set_as :: "nat \<Rightarrow> addrspace option \<Rightarrow> 'd kernel \<Rightarrow> 'd kernel" where
  "set_as p as = upd_proc p (\<lambda>r. r\<lparr>p_addrspace := as\<rparr>)"

text \<open>The two loops over the program headers with the numbers in the list.\<close>

fun define_segments :: "'d vtables \<Rightarrow> thread_id \<Rightarrow> u8 list \<Rightarrow> nat \<Rightarrow> nat \<Rightarrow> Elf_Ehdr \<Rightarrow> nat list \<Rightarrow> addrspace \<Rightarrow>
    ('d, addrspace) kop" where
  "define_segments T me junk p vn eh [] as k = Done (k, Inr as)"
| "define_segments T me junk p vn eh (i # is) as k =
     bindo (elf_phdr T me junk vn eh i k)
       (\<lambda>(k1, r). case r of
          Inl e \<Rightarrow> Done (k1, Inl e)
        | Inr ph \<Rightarrow>
            (case segment_kind ph of
               SkipSegment \<Rightarrow> define_segments T me junk p vn eh is as k1
             | UnknownSegment \<Rightarrow> Done (k1, Inl ENOEXEC)
             | LoadSegment \<Rightarrow>
                 (case as_define_region as (p_vaddr ph) (p_memsz ph) of
                    Inl e \<Rightarrow> Done (k1, Inl e)
                  | Inr as1 \<Rightarrow> define_segments T me junk p vn eh is as1 (set_as p (Some as1) k1))))"

fun load_segments :: "'d vtables \<Rightarrow> thread_id \<Rightarrow> u8 list \<Rightarrow> nat \<Rightarrow> Elf_Ehdr \<Rightarrow> nat list \<Rightarrow> addrspace \<Rightarrow> ('d, unit) kop" where
  "load_segments T me junk vn eh [] as k = Done (k, Inr ())"
| "load_segments T me junk vn eh (i # is) as k =
     bindo (elf_phdr T me junk vn eh i k)
       (\<lambda>(k1, r). case r of
          Inl e \<Rightarrow> Done (k1, Inl e)
        | Inr ph \<Rightarrow>
            (case segment_kind ph of
               SkipSegment \<Rightarrow> load_segments T me junk vn eh is as k1
             | UnknownSegment \<Rightarrow> Done (k1, Inl ENOEXEC)
             | LoadSegment \<Rightarrow>
                 bindo (load_segment T me as vn (p_offset ph) (p_vaddr ph) (p_memsz ph) (p_filesz ph)
                          (odd (p_flags ph)) k1)
                   (\<lambda>(k2, r). case r of
                      Inl e \<Rightarrow> Done (k2, Inl e)
                    | Inr _ \<Rightarrow> load_segments T me junk vn eh is as k2)))"

text \<open>The callers have just given the process an address space.\<close>

definition load_elf :: "'d vtables \<Rightarrow> thread_id \<Rightarrow> u8 list \<Rightarrow> nat \<Rightarrow> ('d, nat) kop" where
  "load_elf T me junk vn k =
     bindo (curproc k me) (\<lambda>p. bindo (proc_getas me k)
       (\<lambda>a. bindo (elf_read T me junk vn EHDR_SIZE 0 k)
         (\<lambda>(k1, r). case r of
            Inl e \<Rightarrow> Done (k1, Inl e)
          | Inr bs \<Rightarrow>
              let eh = ehdr_of bs in
              if \<not> ehdr_ok eh then Done (k1, Inl ENOEXEC)
              else case a of
                None \<Rightarrow> Panic
              | Some as \<Rightarrow>
                  bindo (define_segments T me junk p vn eh [0..<e_phnum eh] as k1)
                    (\<lambda>(k2, r). case r of
                       Inl e \<Rightarrow> Done (k2, Inl e)
                     | Inr as1 \<Rightarrow>
                         bindo (as_prepare_load as1 (v_vm (k_vfs k2)))
                           (\<lambda>(vm, r). let k3 = k2\<lparr>k_vfs := (k_vfs k2)\<lparr>v_vm := vm\<rparr>\<rparr> in
                              case r of
                                Inl e \<Rightarrow> Done (k3, Inl e)
                              | Inr as2 \<Rightarrow>
                                  bindo (load_segments T me junk vn eh [0..<e_phnum eh] as2 (set_as p (Some as2) k3))
                                    (\<lambda>(k4, r). case r of
                                       Inl e \<Rightarrow> Done (k4, Inl e)
                                     | Inr _ \<Rightarrow>
                                         (case as_complete_load as2 of
                                            Inl e \<Rightarrow> Done (k4, Inl e)
                                          | Inr _ \<Rightarrow> Done (k4, Inr (e_entry eh)))))))))"

section \<open>Replacing the program of a process\<close>

text \<open>\<^verbatim>\<open>as_activate\<close> for the current process, and \<^verbatim>\<open>proc_setas\<close> with the old value dropped.\<close>

definition activate :: "thread_id \<Rightarrow> 'd kernel \<Rightarrow> 'd kernel" where
  "activate me k = k\<lparr>k_vfs := (k_vfs k)\<lparr>v_vm := as_activate (c_as (ctx_of k me)) (v_vm (k_vfs k))\<rparr>\<rparr>"

definition drop_as :: "addrspace option \<Rightarrow> 'd kernel \<Rightarrow> 'd kernel" where
  "drop_as a k = (case a of None \<Rightarrow> k | Some as \<Rightarrow> k\<lparr>k_vfs := (k_vfs k)\<lparr>v_vm := as_destroy as (v_vm (k_vfs k))\<rparr>\<rparr>)"

text \<open>The way back to the old address space when the load fails.\<close>

definition restore_as :: "thread_id \<Rightarrow> addrspace option \<Rightarrow> 'd kernel \<Rightarrow> 'd kernel outcome" where
  "restore_as me oldas k =
     bindo (proc_setas me oldas k) (\<lambda>(k1, newas). Done (drop_as newas (activate me k1)))"

text \<open>
  \<^verbatim>\<open>loadexec\<close> from the point where the new address space exists; the result is the entry point and
  the stack pointer. \<^verbatim>\<open>vfs_close\<close> gets the vnode before the old address space is put back.
\<close>

definition load_image :: "'d vtables \<Rightarrow> thread_id \<Rightarrow> u8 list \<Rightarrow> string \<Rightarrow> nat \<Rightarrow> addrspace \<Rightarrow> ('d, nat \<times> nat) kop" where
  "load_image T me junk newname vn newas k =
     bindo (proc_setas me (Some newas) k)
       (\<lambda>(k1, oldas). bindo (load_elf T me junk vn (activate me k1))
         (\<lambda>(k2, r). bindo (on_vfs_only (vfs_close T (ctx_of k2 me) vn) k2)
           (\<lambda>k3. case r of
              Inl e \<Rightarrow> bindo (restore_as me oldas k3) (\<lambda>k4. Done (k4, Inl e))
            | Inr entrypoint \<Rightarrow>
                bindo (case c_as (ctx_of k3 me) of None \<Rightarrow> Panic | Some as \<Rightarrow> as_define_stack as)
                  (\<lambda>stackptr. Done ((drop_as oldas k3)\<lparr>k_tname := (k_tname k3)(me \<mapsto> newname)\<rparr>,
                     Inr (entrypoint, stackptr))))))"

definition loadexec :: "'d vtables \<Rightarrow> thread_id \<Rightarrow> u8 list \<Rightarrow> string \<Rightarrow> ('d, nat \<times> nat) kop" where
  "loadexec T me junk path k =
     (let (k1, ok) = alloc_with kmalloc k in
      if \<not> ok then Done (k1, Inl ENOMEM)
      else bindo (on_vfs (vfs_open T (ctx_of k1 me) path O_RDONLY 0) k1)
        (\<lambda>(k2, r). case r of
           Inl e \<Rightarrow> Done (k2, Inl e)
         | Inr vn \<Rightarrow>
             let (k3, newas) = alloc_with as_create k2 in
             (case newas of
                None \<Rightarrow> bindo (on_vfs_only (vfs_close T (ctx_of k3 me) vn) k3) (\<lambda>k4. Done (k4, Inl ENOMEM))
              | Some as \<Rightarrow> load_image T me junk path vn as k3)))"

text \<open>The registers of a new program: user mode with interrupts on, everything else zero.\<close>

definition zero_frame :: trapframe where
  "zero_frame = \<lparr>tf_vaddr = 0, tf_status = 0, tf_cause = 0, tf_lo = 0, tf_hi = 0, tf_ra = 0, tf_at = 0, tf_v0 = 0, tf_v1 = 0,
     tf_a0 = 0, tf_a1 = 0, tf_a2 = 0, tf_a3 = 0, tf_t0 = 0, tf_t1 = 0, tf_t2 = 0, tf_t3 = 0, tf_t4 = 0, tf_t5 = 0,
     tf_t6 = 0, tf_t7 = 0, tf_s0 = 0, tf_s1 = 0, tf_s2 = 0, tf_s3 = 0, tf_s4 = 0, tf_s5 = 0, tf_s6 = 0, tf_s7 = 0,
     tf_t8 = 0, tf_t9 = 0, tf_gp = 0, tf_sp = 0, tf_s8 = 0, tf_epc = 0\<rparr>"

abbreviation "CST_IRQMASK \<equiv> 0xff00 :: u32"
abbreviation "CST_IEp \<equiv> 4 :: u32"
abbreviation "CST_KUp \<equiv> 8 :: u32"

definition enter_new_process :: "nat \<Rightarrow> nat \<Rightarrow> nat \<Rightarrow> nat \<Rightarrow> nat \<Rightarrow> trapframe" where
  "enter_new_process argc argv env stack entry =
     zero_frame\<lparr>tf_status := CST_IRQMASK OR CST_IEp OR CST_KUp, tf_epc := of_nat entry, tf_a0 := of_nat argc,
       tf_a1 := of_nat argv, tf_a2 := of_nat env, tf_sp := of_nat stack\<rparr>"

definition on_execthrottle :: "argbuf \<Rightarrow> 'd kernel \<Rightarrow> 'd kernel outcome" where
  "on_execthrottle buf k = bindo (argbuf_cleanup buf (k_execthrottle k)) (\<lambda>(_, sem). Done (k\<lparr>k_execthrottle := sem\<rparr>))"

text \<open>
  A successful \<^verbatim>\<open>execv\<close> does not return: its result is the frame that enters user mode. The first
  part is what follows the copy of the arguments into the kernel.
\<close>

definition exec_with_args :: "'d vtables \<Rightarrow> thread_id \<Rightarrow> u8 list \<Rightarrow> string \<Rightarrow> argbuf \<Rightarrow> ('d, trapframe) kop" where
  "exec_with_args T me junk kpath kargv k =
     bindo (loadexec T me junk kpath k)
       (\<lambda>(k1, r). case r of
          Inl e \<Rightarrow> bindo (on_execthrottle kargv k1) (\<lambda>k2. Done (k2, Inl e))
        | Inr (entrypoint, stackptr) \<Rightarrow>
            bindo (argbuf_copyout (vm_memops (c_as (ctx_of k1 me))) kargv stackptr (v_vm (k_vfs k1)))
              (\<lambda>(vm, r). case r of
                 Inl e \<Rightarrow> Panic
               | Inr (stackptr1, argc, uargv) \<Rightarrow>
                   bindo (on_execthrottle kargv (k1\<lparr>k_vfs := (k_vfs k1)\<lparr>v_vm := vm\<rparr>\<rparr>))
                     (\<lambda>k2. Done (k2, Inr (enter_new_process argc uargv 0 stackptr1 entrypoint)))))"

definition sys_execv :: "'d vtables \<Rightarrow> thread_id \<Rightarrow> u8 list \<Rightarrow> nat \<Rightarrow> nat \<Rightarrow> ('d, trapframe) kop" where
  "sys_execv T me junk progname argv k =
     (let (k1, ok) = alloc_with kmalloc k in
      if \<not> ok then Done (k1, Inl ENOMEM)
      else bindo (user_copyinstr me progname PATH_MAX k1)
        (\<lambda>(k2, r). case r of
           Inl e \<Rightarrow> Done (k2, Inl e)
         | Inr kpath \<Rightarrow>
             bindo (argbuf_fromuser (vm_memops (c_as (ctx_of k2 me))) argbuf_init argv me (k_execthrottle k2)
                      (v_al (k_vfs k2)) (v_vm (k_vfs k2)))
               (\<lambda>(vm, kargv, sem, al, r).
                  let k3 = k2\<lparr>k_vfs := (k_vfs k2)\<lparr>v_vm := vm, v_al := al\<rparr>, k_execthrottle := sem\<rparr> in
                  case r of
                    Inl e \<Rightarrow> bindo (on_execthrottle kargv k3) (\<lambda>k4. Done (k4, Inl e))
                  | Inr _ \<Rightarrow> exec_with_args T me junk (cstr kpath) kargv k3)))"

text \<open>\<^verbatim>\<open>runprogram\<close>, for the first program of a process made by the kernel menu.\<close>

definition runprogram :: "'d vtables \<Rightarrow> thread_id \<Rightarrow> u8 list \<Rightarrow> string \<Rightarrow> ('d, trapframe) kop" where
  "runprogram T me junk progname k =
     bindo (on_vfs (vfs_open T (ctx_of k me) progname O_RDONLY 0) k)
       (\<lambda>(k1, r). case r of
          Inl e \<Rightarrow> Done (k1, Inl e)
        | Inr vn \<Rightarrow>
            bindo (proc_getas me k1)
              (\<lambda>a. if a \<noteq> None then Panic
               else let (k2, as) = alloc_with as_create k1 in
               if as = None
               then bindo (on_vfs_only (vfs_close T (ctx_of k2 me) vn) k2) (\<lambda>k3. Done (k3, Inl ENOMEM))
               else bindo (proc_setas me as k2)
                 (\<lambda>(k3, _). bindo (load_elf T me junk vn (activate me k3))
                   (\<lambda>(k4, r). bindo (on_vfs_only (vfs_close T (ctx_of k4 me) vn) k4)
                     (\<lambda>k5. case r of
                        Inl e \<Rightarrow> Done (k5, Inl e)
                      | Inr entrypoint \<Rightarrow>
                          bindo (case c_as (ctx_of k5 me) of None \<Rightarrow> Panic | Some as \<Rightarrow> as_define_stack as)
                            (\<lambda>stackptr. Done (k5, Inr (enter_new_process 0 0 0 stackptr entrypoint))))))))"

end
