(* ===== verification/Exec_Laws.thy ===== *)
theory Exec_Laws
  imports Exec
begin

text \<open>
  What \<^verbatim>\<open>execv\<close> leaves alone: a call that fails, at whatever point, gives the process back as it was,
  and a call that succeeds changes nothing of it but its address space.
\<close>

section \<open>Frames\<close>

text \<open>Nothing but the file layer and the address space of \<open>p\<close> may differ; nothing but the file layer.\<close>

definition as_frame :: "nat \<Rightarrow> 'd kernel \<Rightarrow> 'd kernel \<Rightarrow> bool" where
  "as_frame p k k' \<longleftrightarrow> (\<exists>v a. k' = set_as p a (k\<lparr>k_vfs := v\<rparr>))"

definition layer_frame :: "'d kernel \<Rightarrow> 'd kernel \<Rightarrow> bool" where
  "layer_frame k k' \<longleftrightarrow> (\<exists>v. k' = k\<lparr>k_vfs := v\<rparr>)"

lemma set_as_twice: "set_as p a (set_as p b k) = set_as p a k"
  by (auto simp: set_as_def upd_proc_def option.map_comp comp_def)

lemma set_as_same: "(case k_procs k p of None \<Rightarrow> True | Some r \<Rightarrow> p_addrspace r = a) \<Longrightarrow> set_as p a k = k"
  by (cases k; cases "k_procs k p") (auto simp: set_as_def upd_proc_def fun_upd_idem)

lemma set_as_fields [simp]:
  "(set_as p a k)\<lparr>k_vfs := v\<rparr> = set_as p a (k\<lparr>k_vfs := v\<rparr>)"
  "(set_as p a k)\<lparr>k_execthrottle := s\<rparr> = set_as p a (k\<lparr>k_execthrottle := s\<rparr>)"
  "k_vfs (set_as p a k) = k_vfs k" "k_execthrottle (set_as p a k) = k_execthrottle k" "k_tproc (set_as p a k) = k_tproc k"
  by (simp_all add: set_as_def upd_proc_def)

text \<open>The address space field of a process that may not exist.\<close>

definition as_field :: "'d kernel \<Rightarrow> nat \<Rightarrow> addrspace option" where
  "as_field k p = (case k_procs k p of None \<Rightarrow> None | Some r \<Rightarrow> p_addrspace r)"

lemma set_as_field [simp]: "set_as p (as_field k p) k = k"
  by (rule set_as_same) (simp add: as_field_def split: option.splits)

lemma as_frameI: "k' = set_as p a (k\<lparr>k_vfs := v\<rparr>) \<Longrightarrow> as_frame p k k'"
  unfolding as_frame_def by blast

lemma as_field_vfs [simp]: "as_field (k\<lparr>k_vfs := v\<rparr>) p = as_field k p"
  by (simp add: as_field_def)

lemma as_frame_vfs: "as_frame p k (k\<lparr>k_vfs := v\<rparr>)"
  using set_as_field [of p "k\<lparr>k_vfs := v\<rparr>"] by (intro as_frameI [where a = "as_field k p" and v = v]) simp

lemma as_frame_set: "as_frame p k (set_as p a k)"
  by (rule as_frameI [where a = a and v = "k_vfs k"]) simp

lemma as_frame_refl [simp]: "as_frame p k k"
  using as_frame_vfs [of p k "k_vfs k"] by simp

lemma as_frame_trans [trans]: "as_frame p k k1 \<Longrightarrow> as_frame p k1 k2 \<Longrightarrow> as_frame p k k2"
  unfolding as_frame_def by (auto simp: set_as_twice) blast


section \<open>The loader\<close>

lemma alloc_with_layer: "alloc_with f k = (k1, r) \<Longrightarrow> layer_frame k k1"
  by (auto simp: alloc_with_def layer_frame_def split: prod.splits)

lemma on_vfs_layer: "on_vfs f k = Done (k1, r) \<Longrightarrow> layer_frame k k1"
  by (auto simp: on_vfs_def layer_frame_def split: prod.splits)

lemma on_vfs_only_layer: "on_vfs_only f k = Done k1 \<Longrightarrow> layer_frame k k1"
  by (auto simp: on_vfs_only_def layer_frame_def)

lemma user_copyinstr_layer: "user_copyinstr me a n k = Done (k1, r) \<Longrightarrow> layer_frame k k1"
  by (auto simp: user_copyinstr_def layer_frame_def split: prod.splits)

lemma elf_read_layer: "elf_read T me junk vn n off k = Done (k1, r) \<Longrightarrow> layer_frame k k1"
  by (auto simp: elf_read_def split: prod.splits dest!: on_vfs_layer)

lemma elf_phdr_layer: "elf_phdr T me junk vn eh i k = Done (k1, r) \<Longrightarrow> layer_frame k k1"
  by (auto simp: elf_phdr_def split: prod.splits dest!: elf_read_layer)

lemma load_segment_layer: "load_segment T me as vn off va ms fs x k = Done (k1, r) \<Longrightarrow> layer_frame k k1"
  by (auto simp: load_segment_def Let_def split: prod.splits dest!: on_vfs_layer)

lemma layer_as_frame: "layer_frame k k1 \<Longrightarrow> as_frame p k k1"
  by (auto simp: layer_frame_def as_frame_vfs)

lemma layer_frame_trans [trans]: "layer_frame k k1 \<Longrightarrow> layer_frame k1 k2 \<Longrightarrow> layer_frame k k2"
  by (auto simp: layer_frame_def)

lemma define_segments_frame: "define_segments T me junk p vn eh is as k = Done (k1, r) \<Longrightarrow> as_frame p k k1"
proof (induction T me junk p vn eh "is" as k rule: define_segments.induct)
  case (2 T me junk p vn eh i "is" as k)
  obtain k2 q where q: "elf_phdr T me junk vn eh i k = Done (k2, q)" using 2(3) by (auto split: prod.splits)
  have f: "as_frame p k k2" using elf_phdr_layer [OF q] by (rule layer_as_frame)
  show ?case
  proof (cases q)
    case (Inl e)
    then show ?thesis using 2(3) q f by simp
  next
    case (Inr ph)
    show ?thesis
    proof (cases "segment_kind ph")
      case SkipSegment
      then have "as_frame p k2 k1" using 2(1) [OF q refl Inr SkipSegment] 2(3) q Inr by simp
      then show ?thesis using f as_frame_trans by blast
    next
      case UnknownSegment
      then show ?thesis using 2(3) q Inr f by simp
    next
      case LoadSegment
      show ?thesis
      proof (cases "as_define_region as (p_vaddr ph) (p_memsz ph)")
        case (Inl e)
        then show ?thesis using 2(3) q Inr LoadSegment f by simp
      next
        case (Inr as1)
        then have "as_frame p (set_as p (Some as1) k2) k1"
          using 2(2) [OF q refl \<open>q = Inr ph\<close> LoadSegment Inr] 2(3) q \<open>q = Inr ph\<close> LoadSegment by simp
        then show ?thesis using f as_frame_set as_frame_trans by blast
      qed
    qed
  qed
qed simp


lemma load_segments_frame: "load_segments T me junk vn eh is as k = Done (k1, r) \<Longrightarrow> layer_frame k k1"
proof (induction T me junk vn eh "is" as k rule: load_segments.induct)
  case (1 T me junk vn eh as k)
  then show ?case by (auto simp: layer_frame_def intro: exI [of _ "k_vfs k"])
next
  case (2 T me junk vn eh i "is" as k)
  obtain k2 q where q: "elf_phdr T me junk vn eh i k = Done (k2, q)" using 2(3) by (auto split: prod.splits)
  have f: "layer_frame k k2" using elf_phdr_layer [OF q] .
  show ?case
  proof (cases q)
    case (Inl e)
    then show ?thesis using 2(3) q f by simp
  next
    case (Inr ph)
    show ?thesis
    proof (cases "segment_kind ph")
      case SkipSegment
      then have "layer_frame k2 k1" using 2(1) [OF q refl Inr SkipSegment] 2(3) q Inr by simp
      then show ?thesis using f layer_frame_trans by blast
    next
      case UnknownSegment
      then show ?thesis using 2(3) q Inr f by simp
    next
      case LoadSegment
      obtain k3 z where z: "load_segment T me as vn (p_offset ph) (p_vaddr ph) (p_memsz ph) (p_filesz ph) (odd (p_flags ph)) k2 = Done (k3, z)"
        using 2(3) q Inr LoadSegment by (auto split: prod.splits)
      have g: "layer_frame k2 k3" by (rule load_segment_layer [OF z])
      show ?thesis
      proof (cases z)
        case (Inl e)
        then show ?thesis using 2(3) q \<open>q = Inr ph\<close> LoadSegment z f g layer_frame_trans by (simp, blast)
      next
        case (Inr u)
        then have "layer_frame k3 k1" using 2(2) [OF q refl \<open>q = Inr ph\<close> LoadSegment z refl Inr] 2(3) q \<open>q = Inr ph\<close> LoadSegment z by simp
        then show ?thesis using f g layer_frame_trans by blast
      qed
    qed
  qed
qed

lemma as_frame_tproc: "as_frame p k k1 \<Longrightarrow> k_tproc k1 = k_tproc k"
  by (auto simp: as_frame_def)

lemma load_elf_frame:
  assumes "load_elf T me junk vn k = Done (k1, r)" "k_tproc k me = Some p"
  shows "as_frame p k k1"
proof -
  obtain a k2 q where q: "proc_getas me k = Done a" "elf_read T me junk vn EHDR_SIZE 0 k = Done (k2, q)"
    using assms by (auto simp: load_elf_def curproc_def split: prod.splits)
  have f2: "as_frame p k k2" using elf_read_layer [OF q(2)] by (rule layer_as_frame)
  show ?thesis
  proof (cases "\<exists>bs as. q = Inr bs \<and> ehdr_ok (ehdr_of bs) \<and> a = Some as")
    case False
    then have "k1 = k2" using assms q by (auto simp: load_elf_def curproc_def Let_def split: sum.splits if_splits option.splits)
    then show ?thesis using f2 by simp
  next
    case True
    then obtain bs as where bs: "q = Inr bs" "ehdr_ok (ehdr_of bs)" "a = Some as" by blast
    let ?eh = "ehdr_of bs"
    obtain k3 z where z: "define_segments T me junk p vn ?eh [0..<e_phnum ?eh] as k2 = Done (k3, z)"
      using assms q bs by (auto simp: load_elf_def curproc_def Let_def split: prod.splits)
    have f3: "as_frame p k k3" using f2 define_segments_frame [OF z] as_frame_trans by blast
    show ?thesis
    proof (cases z)
      case (Inl e)
      then have "k1 = k3" using assms q bs z by (auto simp: load_elf_def curproc_def Let_def)
      then show ?thesis using f3 by simp
    next
      case (Inr as1)
      obtain vm y where y: "as_prepare_load as1 (v_vm (k_vfs k3)) = Done (vm, y)"
        using assms q bs z Inr by (auto simp: load_elf_def curproc_def Let_def split: prod.splits)
      let ?k3 = "k3\<lparr>k_vfs := (k_vfs k3)\<lparr>v_vm := vm\<rparr>\<rparr>"
      have f4: "as_frame p k ?k3" using f3 as_frame_vfs as_frame_trans by blast
      show ?thesis
      proof (cases y)
        case (Inl e)
        then have "k1 = ?k3" using assms q bs z \<open>z = Inr as1\<close> y by (auto simp: load_elf_def curproc_def Let_def)
        then show ?thesis using f4 by simp
      next
        case (Inr as2)
        obtain k4 w where w: "load_segments T me junk vn ?eh [0..<e_phnum ?eh] as2 (set_as p (Some as2) ?k3) = Done (k4, w)"
          using assms q bs z \<open>z = Inr as1\<close> y Inr by (auto simp: load_elf_def curproc_def Let_def)
        then have "k1 = k4"
          using assms q bs z \<open>z = Inr as1\<close> y Inr by (cases w) (auto simp: load_elf_def curproc_def Let_def as_complete_load_def)
        then have "as_frame p (set_as p (Some as2) ?k3) k1" using load_segments_frame [OF w] layer_as_frame by blast
        then show ?thesis using f4 as_frame_set as_frame_trans by blast
      qed
    qed
  qed
qed


section \<open>The whole call\<close>

lemma ctx_of_as_field: "k_tproc k me = Some p \<Longrightarrow> c_as (ctx_of k me) = as_field k p"
  by (auto simp: ctx_of_def as_field_def split: option.splits)

lemma activate_layer: "layer_frame k (activate me k)"
  by (auto simp: layer_frame_def activate_def)

lemma drop_as_layer: "layer_frame k (drop_as a k)"
  by (cases a) (auto simp: layer_frame_def drop_as_def intro: exI [of _ "k_vfs k"])

lemma proc_setas_run:
  assumes "k_tproc k me = Some p" "proc_setas me a k = Done (k1, old)"
  shows "k1 = set_as p a k" "old = as_field k p"
  using assms by (auto simp: proc_setas_def curproc_def get_proc_def set_as_def as_field_def split: option.splits)

lemma layer_frame_refl [simp]: "layer_frame k k"
  by (auto simp: layer_frame_def intro: exI [of _ "k_vfs k"])

lemma set_as_frame_back:
  assumes "as_frame p (set_as p a k) k1"
  shows "layer_frame k (set_as p (as_field k p) k1)"
proof -
  obtain v b where "k1 = set_as p b (set_as p a k\<lparr>k_vfs := v\<rparr>)" using assms by (auto simp: as_frame_def)
  then have "set_as p (as_field k p) k1 = set_as p (as_field (k\<lparr>k_vfs := v\<rparr>) p) (k\<lparr>k_vfs := v\<rparr>)"
    by (simp add: set_as_twice del: set_as_field)
  then show ?thesis unfolding layer_frame_def set_as_field by blast
qed

lemma restore_as_back:
  assumes "as_frame p (set_as p a k) k1" "k_tproc k me = Some p" "restore_as me (as_field k p) k1 = Done k2"
  shows "layer_frame k k2"
proof -
  obtain k3 b where k3: "proc_setas me (as_field k p) k1 = Done (k3, b)" "k2 = drop_as b (activate me k3)"
    using assms(3) by (auto simp: restore_as_def split: prod.splits)
  have "k_tproc k1 me = Some p" using as_frame_tproc [OF assms(1)] assms(2) by simp
  then have "k3 = set_as p (as_field k p) k1" using proc_setas_run k3(1) by blast
  then have "layer_frame k k3" using set_as_frame_back [OF assms(1)] by simp
  also have "layer_frame k3 k2" using activate_layer drop_as_layer layer_frame_trans k3(2) by metis
  finally show ?thesis .
qed

text \<open>
  How a call of \<^verbatim>\<open>loadexec\<close> ends: with an error and the old process, or with the address space
  replaced and the thread renamed.
\<close>

definition exec_end :: "thread_id \<Rightarrow> nat \<Rightarrow> string \<Rightarrow> 'd kernel \<Rightarrow> 'd kernel \<times> 'r cres \<Rightarrow> bool" where
  "exec_end me p path k z \<longleftrightarrow>
     (case snd z of
        Inl e \<Rightarrow> layer_frame k (fst z)
      | Inr _ \<Rightarrow> \<exists>k1. as_frame p k k1 \<and> fst z = k1\<lparr>k_tname := (k_tname k)(me \<mapsto> path)\<rparr>)"

lemma load_image_ends:
  assumes "load_image T me junk path vn as k = Done z" "k_tproc k me = Some p"
  shows "exec_end me p path k z"
proof -
  obtain k1 old where k1: "proc_setas me (Some as) k = Done (k1, old)"
    using assms(1) by (auto simp: load_image_def)
  note s = proc_setas_run [OF assms(2) k1]
  obtain k2 r where k2: "load_elf T me junk vn (activate me k1) = Done (k2, r)" using assms(1) k1 by (auto simp: load_image_def)
  obtain k3 where k3: "on_vfs_only (vfs_close T (ctx_of k2 me) vn) k2 = Done k3" using assms(1) k1 k2 by (auto simp: load_image_def)
  have "k_tproc (activate me k1) me = Some p" using assms(2) s(1) by (simp add: activate_def)
  then have f: "as_frame p (set_as p (Some as) k) k3"
    using load_elf_frame [OF k2] activate_layer [of k1 me] on_vfs_only_layer [OF k3] layer_as_frame as_frame_trans s(1) by metis
  show ?thesis
  proof (cases r)
    case (Inl e)
    then show ?thesis
      using assms k1 k2 k3 restore_as_back [OF f assms(2)] s(2) by (auto simp: load_image_def exec_end_def)
  next
    case (Inr entry)
    then have "fst z = (drop_as old k3)\<lparr>k_tname := (k_tname k3)(me \<mapsto> path)\<rparr>" "\<exists>y. snd z = Inr y"
      using assms k1 k2 k3 by (auto simp: load_image_def)
    moreover have "as_frame p k (drop_as old k3)"
      using f as_frame_set drop_as_layer layer_as_frame as_frame_trans by metis
    moreover have "k_tname k3 = k_tname k" using f by (auto simp: as_frame_def set_as_def upd_proc_def)
    ultimately show ?thesis by (auto simp: exec_end_def)
  qed
qed

lemma layer_exec_end:
  assumes "layer_frame k k1" "exec_end me p path k1 z"
  shows "exec_end me p path k z"
proof (cases "snd z")
  case (Inl e)
  then show ?thesis using assms layer_frame_trans by (fastforce simp: exec_end_def)
next
  case (Inr y)
  moreover have "k_tname k1 = k_tname k" using assms(1) by (auto simp: layer_frame_def)
  ultimately show ?thesis using assms layer_as_frame as_frame_trans by (fastforce simp: exec_end_def)
qed

lemma layer_exec_error: "layer_frame k k1 \<Longrightarrow> exec_end me p path k (k1, Inl e)"
  by (simp add: exec_end_def)

lemma loadexec_ends:
  assumes "loadexec T me junk path k = Done z" "k_tproc k me = Some p"
  shows "exec_end me p path k z"
proof -
  obtain k1 ok where k1: "alloc_with kmalloc k = (k1, ok)" by fastforce
  note f1 = alloc_with_layer [OF k1]
  show ?thesis
  proof (cases ok)
    case False
    then show ?thesis using assms k1 layer_exec_error [OF f1] by (auto simp: loadexec_def)
  next
    case True
    obtain k2 q where q: "on_vfs (vfs_open T (ctx_of k1 me) path O_RDONLY 0) k1 = Done (k2, q)"
      using assms k1 True by (auto simp: loadexec_def split: prod.splits)
    have f2: "layer_frame k k2" using f1 on_vfs_layer [OF q] layer_frame_trans by blast
    obtain k3 newas where n: "alloc_with as_create k2 = (k3, newas)" by fastforce
    have f3: "layer_frame k k3" using f2 alloc_with_layer [OF n] layer_frame_trans by blast
    have tp: "k_tproc k3 me = Some p" using f3 assms(2) by (auto simp: layer_frame_def)
    show ?thesis
    proof (cases q)
      case (Inl e)
      then show ?thesis using assms k1 True q layer_exec_error [OF f2] by (auto simp: loadexec_def)
    next
      case (Inr vn)
      show ?thesis
      proof (cases newas)
        case None
        then obtain k4 where "on_vfs_only (vfs_close T (ctx_of k3 me) vn) k3 = Done k4" "z = (k4, Inl ENOMEM)"
          using assms k1 True q Inr n by (auto simp: loadexec_def)
        then show ?thesis using f3 on_vfs_only_layer layer_frame_trans layer_exec_error by metis
      next
        case (Some as)
        then have "load_image T me junk path vn as k3 = Done z" using assms k1 True q Inr n by (auto simp: loadexec_def)
        then show ?thesis using load_image_ends tp layer_exec_end [OF f3] by blast
      qed
    qed
  qed
qed


section \<open>The throttle\<close>

text \<open>The buffer for the arguments holds a unit of the semaphore exactly when it says so.\<close>

lemma argbuf_copyin_tooksem:
  "argbuf_copyin M buf u s = Done (s', buf', r) \<Longrightarrow> ab_tooksem buf' = ab_tooksem buf"
proof (induction M buf u s rule: argbuf_copyin.induct)
  case (1 M buf u s)
  note run = 1(2) [unfolded argbuf_copyin.simps [of M buf u s]]
  obtain s1 q where q: "copyin M u 4 s = Done (s1, q)" using run by (auto split: prod.splits)
  show ?case
  proof (cases "\<exists>w d. q = Inr w \<and> be32 w \<noteq> 0 \<and> ab_data buf = Some d")
    case False
    then show ?thesis using run q by (auto split: sum.splits option.splits if_splits)
  next
    case True
    then obtain w d where w: "q = Inr w" "be32 w \<noteq> 0" "ab_data buf = Some d" by blast
    obtain s2 z where z: "copyinstr M (be32 w) (ab_max buf - ab_len buf) s1 = Done (s2, z)"
      using run q w by (auto split: prod.splits)
    show ?thesis using run q w z 1(1) [OF q refl w z refl] by (cases z) auto
  qed
qed

definition held :: "argbuf \<Rightarrow> u32" where
  "held buf = (if ab_tooksem buf then 1 else 0)"

lemma argbuf_fromuser_held:
  assumes "argbuf_fromuser M argbuf_init u t sem al s = Done (s', buf, sem', al', r)"
  shows "sem_count sem' + held buf = sem_count sem"
proof -
  obtain b1 al1 q1 where a1: "argbuf_allocate argbuf_init PAGE_SIZE al = (b1, al1, q1)" by (cases "argbuf_allocate argbuf_init PAGE_SIZE al")
  have t1: "\<not> ab_tooksem b1" using a1 by (auto simp: argbuf_allocate_def argbuf_init_def split: prod.splits if_splits)
  show ?thesis
  proof (cases q1)
    case (Inl e)
    then show ?thesis using assms a1 t1 by (auto simp: argbuf_fromuser_def held_def)
  next
    case (Inr u1)
    obtain s1 b2 q2 where c2: "argbuf_copyin M b1 u s = Done (s1, b2, q2)"
      using assms a1 Inr by (auto simp: argbuf_fromuser_def)
    have t2: "\<not> ab_tooksem b2" using argbuf_copyin_tooksem [OF c2] t1 by simp
    show ?thesis
    proof (cases "q2 = Inl E2BIG")
      case False
      then show ?thesis using assms a1 Inr c2 t2 by (auto simp: argbuf_fromuser_def held_def)
    next
      case True
      have P: "P_section t sem = (True, sem\<lparr>sem_count := sem_count sem - 1\<rparr>)"
        using assms a1 Inr c2 t2 True by (auto simp: argbuf_fromuser_def argbuf_cleanup_def P_section_def Let_def split: if_splits)
      obtain b3 al3 q3 where a3: "argbuf_allocate (argbuf_init\<lparr>ab_tooksem := True\<rparr>) ARGMAX al1 = (b3, al3, q3)"
        by (cases "argbuf_allocate (argbuf_init\<lparr>ab_tooksem := True\<rparr>) ARGMAX al1")
      have t3: "ab_tooksem b3" using a3 by (auto simp: argbuf_allocate_def split: prod.splits if_splits)
      show ?thesis
        using assms a1 Inr c2 t2 t3 True P a3 argbuf_copyin_tooksem [of M b3 u s1]
        by (cases q3) (auto simp: argbuf_fromuser_def argbuf_cleanup_def held_def Let_def)
    qed
  qed
qed

lemma argbuf_cleanup_held:
  assumes "argbuf_cleanup buf sem = Done (buf', sem')"
  shows "sem_count sem' = sem_count sem + held buf"
  using assms by (auto simp: argbuf_cleanup_def held_def V_section_def Let_def split: prod.splits if_splits)


lemma on_execthrottle_ends:
  assumes "on_execthrottle buf k = Done k1"
  shows "k1 = k\<lparr>k_execthrottle := k_execthrottle k1\<rparr>" "sem_count (k_execthrottle k1) = sem_count (k_execthrottle k) + held buf"
  using assms argbuf_cleanup_held by (auto simp: on_execthrottle_def split: prod.splits)

text \<open>How \<^verbatim>\<open>execv\<close> ends for a caller that owns \<open>c\<close> units of the throttle.\<close>

definition execv_end :: "thread_id \<Rightarrow> nat \<Rightarrow> u32 \<Rightarrow> 'd kernel \<Rightarrow> 'd kernel \<times> trapframe cres \<Rightarrow> bool" where
  "execv_end me p c k z \<longleftrightarrow>
     sem_count (k_execthrottle (fst z)) = c \<and>
     (case snd z of
        Inl e \<Rightarrow> \<exists>v s. fst z = k\<lparr>k_vfs := v, k_execthrottle := s\<rparr>
      | Inr tf \<Rightarrow> (\<exists>v s a path. fst z = (set_as p a k)\<lparr>k_vfs := v, k_execthrottle := s, k_tname := (k_tname k)(me \<mapsto> path)\<rparr>) \<and>
          tf_status tf AND CST_KUp \<noteq> 0 \<and> tf_a1 tf = tf_sp tf)"

lemma execv_end_error:
  "layer_frame k k1 \<Longrightarrow> sem_count s = c \<Longrightarrow> execv_end me p c k (k1\<lparr>k_execthrottle := s\<rparr>, Inl e)"
  unfolding execv_end_def layer_frame_def by (elim exE, simp, blast)

lemma execv_end_start:
  assumes "execv_end me p c (k\<lparr>k_vfs := v, k_execthrottle := s\<rparr>) z"
  shows "execv_end me p c k z"
proof -
  have "(set_as p a (k\<lparr>k_vfs := v, k_execthrottle := s\<rparr>))\<lparr>k_vfs := v', k_execthrottle := s', k_tname := n\<rparr> =
      (set_as p a k)\<lparr>k_vfs := v', k_execthrottle := s', k_tname := n\<rparr>" for a v' s' n
    by (simp add: set_as_def upd_proc_def)
  then show ?thesis using assms unfolding execv_end_def by (cases "snd z") simp_all
qed

lemma enter_new_process_user: "tf_status (enter_new_process argc a env a entry) AND CST_KUp \<noteq> 0"
  "tf_a1 (enter_new_process argc a env a entry) = tf_sp (enter_new_process argc a env a entry)"
  by (simp_all add: enter_new_process_def)

lemma argbuf_copyout_stack: "argbuf_copyout M buf sp s = Done (s', Inr (a, n, b)) \<Longrightarrow> a = b"
  apply (auto simp: argbuf_copyout_def Let_def split: option.splits if_splits sum.splits prod.splits)
  subgoal for d s1 q by (cases q) auto
  done

lemma exec_with_args_ends:
  assumes "exec_with_args T me junk path buf k = Done z" "k_tproc k me = Some p"
  shows "execv_end me p (sem_count (k_execthrottle k) + held buf) k z"
proof -
  obtain k1 r where k1: "loadexec T me junk path k = Done (k1, r)" using assms(1) unfolding exec_with_args_def by (cases "loadexec T me junk path k") auto
  note e = loadexec_ends [OF k1 assms(2), unfolded exec_end_def, simplified]
  show ?thesis
  proof (cases r)
    case (Inl e)
    then obtain k2 where k2: "on_execthrottle buf k1 = Done k2" "z = (k2, Inl e)"
      using assms(1) k1 by (simp add: exec_with_args_def) blast
    have "layer_frame k k1" using e Inl by simp
    then show ?thesis using k2 on_execthrottle_ends [OF k2(1)] execv_end_error [of k k1 "k_execthrottle k2"]
      by (auto simp: layer_frame_def)
  next
    case (Inr y)
    then obtain kk where kk: "as_frame p k kk" "k1 = kk\<lparr>k_tname := (k_tname k)(me \<mapsto> path)\<rparr>" using e by auto
    obtain entry sp where y: "y = (entry, sp)" by (cases y)
    obtain vm x where x: "argbuf_copyout (vm_memops (c_as (ctx_of k1 me))) buf sp (v_vm (k_vfs k1)) = Done (vm, x)"
      using assms(1) k1 Inr y unfolding exec_with_args_def
      by (cases "argbuf_copyout (vm_memops (c_as (ctx_of k1 me))) buf sp (v_vm (k_vfs k1))") auto
    then obtain sp1 argc uargv where x': "x = Inr (sp1, argc, uargv)"
      using assms(1) k1 Inr y unfolding exec_with_args_def by (cases x) auto
    let ?k1 = "k1\<lparr>k_vfs := (k_vfs k1)\<lparr>v_vm := vm\<rparr>\<rparr>"
    obtain k2 where k2: "on_execthrottle buf ?k1 = Done k2" "z = (k2, Inr (enter_new_process argc uargv 0 sp1 entry))"
      using assms(1) k1 Inr y x x' by (simp add: exec_with_args_def) blast
    note h = on_execthrottle_ends [OF k2(1)]
    obtain v a where v: "kk = set_as p a (k\<lparr>k_vfs := v\<rparr>)" using kk(1) by (auto simp: as_frame_def)
    have "k2 = (set_as p a k)\<lparr>k_vfs := (k_vfs k1)\<lparr>v_vm := vm\<rparr>, k_execthrottle := k_execthrottle k2, k_tname := (k_tname k)(me \<mapsto> path)\<rparr>"
    proof -
      obtain s where "k2 = ?k1\<lparr>k_execthrottle := s\<rparr>" using h(1) by blast
      then show ?thesis using kk(2) v by (intro kernel.equality) (simp_all add: set_as_def upd_proc_def)
    qed
    moreover have "sem_count (k_execthrottle k2) = sem_count (k_execthrottle k) + held buf" using h(2) kk(2) v by simp
    moreover have "sp1 = uargv" using x unfolding x' by (rule argbuf_copyout_stack)
    ultimately show ?thesis
      using enter_new_process_user [of argc uargv 0 entry] unfolding execv_end_def k2(2) fst_conv snd_conv sum.case by blast
  qed
qed

section \<open>Claims\<close>

text \<open>
  C3. \<^verbatim>\<open>execv\<close> does all or nothing. When it fails, at whatever point of reading the arguments, opening,
  checking or loading the program, the process is what it was, with its old address space: only the
  file layer (and with it the memory of the machine) may have changed. When it succeeds, the only change of the
  process is its address space and the name of its thread, and it continues in user mode with the
  argument vector at the top of its stack. Either way the throttle on large argument lists is given back.
\<close>

theorem execv_all_or_nothing:
  assumes "sys_execv T me junk prog argv k = Done (k', r)" "k_tproc k me = Some p"
  shows "sem_count (k_execthrottle k') = sem_count (k_execthrottle k) \<and>
    (case r of
       Inl e \<Rightarrow> \<exists>v s. k' = k\<lparr>k_vfs := v, k_execthrottle := s\<rparr>
     | Inr tf \<Rightarrow> (\<exists>v s a path. k' = (set_as p a k)\<lparr>k_vfs := v, k_execthrottle := s, k_tname := (k_tname k)(me \<mapsto> path)\<rparr>) \<and>
         tf_status tf AND CST_KUp \<noteq> 0 \<and> tf_a1 tf = tf_sp tf)"
proof -
  let ?c = "sem_count (k_execthrottle k)"
  obtain k1 ok where k1: "alloc_with kmalloc k = (k1, ok)" by fastforce
  note f1 = alloc_with_layer [OF k1]
  have err: "execv_end me p ?c k (k2, Inl e)" if "layer_frame k k2" for k2 e
    using execv_end_error [OF that, of "k_execthrottle k" ?c me p e] that by (auto simp: layer_frame_def)
  have "execv_end me p ?c k (k', r)"
  proof (cases ok)
    case False
    then show ?thesis using assms(1) k1 err [OF f1] by (auto simp: sys_execv_def)
  next
    case True
    obtain k2 q where q: "user_copyinstr me prog PATH_MAX k1 = Done (k2, q)"
      using assms(1) k1 True by (cases "user_copyinstr me prog PATH_MAX k1") (auto simp: sys_execv_def)
    have f2: "layer_frame k k2" using f1 user_copyinstr_layer [OF q] layer_frame_trans by blast
    show ?thesis
    proof (cases q)
      case (Inl e)
      then show ?thesis using assms(1) k1 True q err [OF f2] by (auto simp: sys_execv_def)
    next
      case (Inr kpath)
      let ?b = "argbuf_fromuser (vm_memops (c_as (ctx_of k2 me))) argbuf_init argv me (k_execthrottle k2) (v_al (k_vfs k2)) (v_vm (k_vfs k2))"
      obtain vm buf sem al z where b: "?b = Done (vm, buf, sem, al, z)"
        using assms(1) k1 True q Inr by (cases ?b) (auto simp: sys_execv_def)
      let ?k3 = "k2\<lparr>k_vfs := (k_vfs k2)\<lparr>v_vm := vm, v_al := al\<rparr>, k_execthrottle := sem\<rparr>"
      have h: "sem_count (k_execthrottle ?k3) + held buf = ?c"
        using argbuf_fromuser_held [OF b] f2 by (auto simp: layer_frame_def)
      obtain v where v: "?k3 = k\<lparr>k_vfs := v, k_execthrottle := sem\<rparr>" using f2 by (auto simp: layer_frame_def)
      have start: "execv_end me p ?c ?k3 x \<Longrightarrow> execv_end me p ?c k x" for x
        unfolding v by (rule execv_end_start)
      show ?thesis
      proof (cases z)
        case (Inl e)
        then obtain k4 where k4: "on_execthrottle buf ?k3 = Done k4" "(k', r) = (k4, Inl e)"
          using assms(1) k1 True q Inr b by (auto simp: sys_execv_def Let_def)
        note e = on_execthrottle_ends [OF k4(1)]
        have "execv_end me p ?c ?k3 (?k3\<lparr>k_execthrottle := k_execthrottle k4\<rparr>, Inl e)"
          using e(2) h by (intro execv_end_error) simp_all
        then show ?thesis using start k4(2) e(1) by simp
      next
        case (Inr u)
        then have "exec_with_args T me junk (cstr kpath) buf ?k3 = Done (k', r)"
          using assms(1) k1 True q \<open>q = Inr kpath\<close> b by (simp add: sys_execv_def Let_def)
        moreover have "k_tproc ?k3 me = Some p" using assms(2) f2 by (auto simp: layer_frame_def)
        ultimately show ?thesis using exec_with_args_ends [of T me junk "cstr kpath" buf ?k3 "(k', r)" p] start h by simp
      qed
    qed
  qed
  then show ?thesis unfolding execv_end_def fst_conv snd_conv .
qed

lemma argbuf_fromuser_kernel_address:
  "argbuf_fromuser M argbuf_init 0x80000000 t sem [] s = Done (s, argbuf_init\<lparr>ab_data := Some [], ab_max := PAGE_SIZE\<rparr>, sem, [], Inl EFAULT)"
  by (simp add: argbuf_fromuser_def argbuf_allocate_def argbuf_init_def argbuf_copyin.simps copyin_def copycheck_def)

theorem execv_all_or_nothing_witness:
  "\<exists>vm k'. copyout (vm_memops (Some demo_as)) con_string 0x7ffffb00 (v_vm (k_vfs demo_user)) = Done (vm, Inr ()) \<and>
     sys_execv demo_tables 8 [] 0x7ffffb00 0x80000000 (with_vm vm demo_user) = Done (k', Inl EFAULT) \<and>
     (\<exists>v s. k' = (with_vm vm demo_user)\<lparr>k_vfs := v, k_execthrottle := s\<rparr>)"
proof -
  obtain vm where vm: "copyout (vm_memops (Some demo_as)) con_string 0x7ffffb00 (v_vm (k_vfs demo_user)) = Done (vm, Inr ())"
    "vm_user_inv demo_as vm" "is_str (vm_user_view demo_as vm) 0x7ffffb00 (str_bytes (''con'' @ '':''))"
    using demo_con_string by blast
  let ?k = "with_vm vm demo_user"
  have c: "c_as (ctx_of (with_vm vm' demo_user) 8) = Some demo_as" for vm'
    using demo_user_fields(5) by (simp add: ctx_of_def cong: option.case_cong)
  have al: "alloc_with kmalloc ?k = (?k, True)" using demo_user_fields(4) by (simp add: alloc_with_def with_vm_def)
  obtain vm2 where "copyinstr (vm_memops (Some demo_as)) 0x7ffffb00 PATH_MAX vm = Done (vm2, Inr con_string)"
    using vm.copyinstr_ok [OF vm(2,3), of PATH_MAX] con_string by (auto simp: con_string_def)
  then have cp: "user_copyinstr 8 0x7ffffb00 PATH_MAX ?k = Done (with_vm vm2 demo_user, Inr con_string)"
    using c by (simp add: user_copyinstr_def) (simp add: with_vm_def)
  have "\<exists>b. argbuf_cleanup (argbuf_init\<lparr>ab_data := Some [], ab_max := PAGE_SIZE\<rparr>) sem = Done (b, sem)" for sem
    by (simp add: argbuf_cleanup_def argbuf_init_def)
  then have "\<exists>k'. on_execthrottle (argbuf_init\<lparr>ab_data := Some [], ab_max := PAGE_SIZE\<rparr>) k = Done k'" for k :: "u8 list kernel"
    unfolding on_execthrottle_def by fastforce
  then obtain k' where k': "sys_execv demo_tables 8 [] 0x7ffffb00 0x80000000 ?k = Done (k', Inl EFAULT)"
    using al cp demo_user_fields(4) by (simp add: sys_execv_def argbuf_fromuser_kernel_address) blast
  moreover have "k_tproc ?k 8 = Some 11" using demo_user_procs(1) by simp
  ultimately show ?thesis using execv_all_or_nothing [of demo_tables 8 "[]" "0x7ffffb00" "0x80000000" ?k k' "Inl EFAULT" 11] vm(1) by auto
qed

end
