(* ===== verification/ProcCalls.thy ===== *)
theory ProcCalls
  imports Exec
begin

text \<open>
  The system calls on processes, \<^verbatim>\<open>kern/syscall/syscall_PROC.c\<close>, with the creation of threads and
  the commands of the kernel menu that start programs. \<^verbatim>\<open>waitpid\<close> and \<^verbatim>\<open>_exit\<close> are given in the
  parts between which other threads may run: every part is atomic, the parts are the steps of the
  protocol between a parent and its child.
\<close>

section \<open>New threads\<close>

text \<open>
  \<^verbatim>\<open>thread_fork\<close>: the thread structure, its name and its stack are allocated, the thread joins the
  process (that of the caller when none is given) and waits for its first run. The processor fields
  of the thread are those of the scheduler.
\<close>

definition thread_create :: "string \<Rightarrow> 'd kernel \<Rightarrow> 'd kernel \<times> thread_id option" where
  "thread_create name k =
     (let (k1, ok1) = alloc_with kmalloc k in
      if \<not> ok1 then (k1, None)
      else let (k2, ok2) = alloc_with kmalloc k1; t = k_next k2 in
      if \<not> ok2 then (k2, None)
      else (k2\<lparr>k_next := Suc t, k_tname := (k_tname k2)(t \<mapsto> name), k_tproc := (k_tproc k2)(t := None)\<rparr>, Some t))"

definition thread_destroy :: "thread_id \<Rightarrow> 'd kernel \<Rightarrow> 'd kernel outcome" where
  "thread_destroy t k = (if k_tproc k t \<noteq> None then Panic else Done (k\<lparr>k_tname := (k_tname k)(t := None)\<rparr>))"

definition thread_fork :: "thread_id \<Rightarrow> string \<Rightarrow> nat option \<Rightarrow> thread_entry \<Rightarrow> ('d, unit) kop" where
  "thread_fork me name proc entry k =
     (let (k1, t) = thread_create name k in
      case t of
        None \<Rightarrow> Done (k1, Inl ENOMEM)
      | Some newthread \<Rightarrow>
          let (k2, ok) = alloc_with kmalloc k1 in
          if \<not> ok then bindo (thread_destroy newthread k2) (\<lambda>k3. Done (k3, Inl ENOMEM))
          else bindo (case proc of Some p \<Rightarrow> Done p | None \<Rightarrow> curproc k2 me)
            (\<lambda>p. bindo (proc_addthread p newthread k2)
              (\<lambda>k3. Done (k3\<lparr>k_ready := k_ready k3 @ [(newthread, entry)]\<rparr>, Inr ()))))"

text \<open>\<^verbatim>\<open>thread_exit\<close> up to the switch to another thread; it does not return.\<close>

definition thread_exit :: "thread_id \<Rightarrow> 'd kernel \<Rightarrow> 'd kernel outcome" where
  "thread_exit me k = (if k_tproc k me \<noteq> None then proc_remthread me k else Done k)"

section \<open>Identity\<close>

definition sys_getpid :: "thread_id \<Rightarrow> ('d, int) kop" where
  "sys_getpid me k = bindo (curproc k me) (\<lambda>p. bindo (get_proc k p) (\<lambda>r. Done (k, Inr (p_pid r))))"

section \<open>Waiting\<close>

abbreviation "WNOHANG \<equiv> 1 :: int"

definition MKWAIT_EXIT :: "u32 \<Rightarrow> u32" where
  "MKWAIT_EXIT x = push_bit 2 x OR 0"

text \<open>
  Where the status goes: a user address, or a variable of the kernel when the menu waits. The
  kernel stores through a user address directly, without \<^verbatim>\<open>copyout\<close>: a fault is fatal, and an
  address of the kernel is overwritten, which the model does not follow further and counts as a
  failure.
\<close>

datatype status_ptr = UserPtr nat | KernelVar

definition store_status :: "thread_id \<Rightarrow> status_ptr \<Rightarrow> u32 \<Rightarrow> 'd kernel \<Rightarrow> 'd kernel outcome" where
  "store_status me status w k =
     (case status of
        KernelVar \<Rightarrow> Done k
      | UserPtr a \<Rightarrow>
          if a \<ge> USERSPACETOP then Panic
          else bindo (write_bytes (vm_memops (c_as (ctx_of k me))) a (to_be32 (unat w)) (v_vm (k_vfs k)))
            (\<lambda>(vm, ok). if ok then Done (k\<lparr>k_vfs := (k_vfs k)\<lparr>v_vm := vm\<rparr>\<rparr>) else Panic))"

definition bad_status :: "status_ptr \<Rightarrow> bool" where
  "bad_status status =
     (case status of
        KernelVar \<Rightarrow> False
      | UserPtr a \<Rightarrow> a = 0x40000000 \<or> a = 0x80000000 \<or> a mod 4 \<noteq> 0)"

datatype wait_result = Returned "int cres" | MustWait nat

text \<open>The child has exited: its status is stored and it is destroyed.\<close>

definition wait_reap :: "'d vtables \<Rightarrow> thread_id \<Rightarrow> nat \<Rightarrow> status_ptr \<Rightarrow> ('d, int) kop" where
  "wait_reap T me p status k =
     bindo (get_proc k p)
       (\<lambda>r. bindo (store_status me status (p_status r) k)
         (\<lambda>k1. bindo (proc_destroy T me p k1) (\<lambda>k2. Done (k2, Inr (p_pid r)))))"

definition waitpid_check :: "'d vtables \<Rightarrow> thread_id \<Rightarrow> int \<Rightarrow> status_ptr \<Rightarrow> int \<Rightarrow> 'd kernel \<Rightarrow>
    ('d kernel \<times> wait_result) outcome" where
  "waitpid_check T me pid status options k =
     bindo (curproc k me) (\<lambda>cur. bindo (get_proc k cur)
       (\<lambda>r. if pid = p_pid r then Done (k, Returned (Inl ECHILD))
        else if status = UserPtr 0 then Done (k, Returned (Inr pid))
        else if bad_status status then Done (k, Returned (Inl EFAULT))
        else if \<not> is_child (children_list r) pid then Done (k, Returned (Inl ECHILD))
        else if options = WNOHANG then bindo (store_status me status 0 k) (\<lambda>k1. Done (k1, Returned (Inr pid)))
        else if options \<noteq> 0 then Done (k, Returned (Inl EINVAL))
        else bindo (proc_search pid k)
          (\<lambda>q. case q of
             None \<Rightarrow> Done (k, Returned (Inl ESRCH))
           | Some p \<Rightarrow>
               bindo (get_proc k p)
                 (\<lambda>s. if p_numthreads s = 0
                      then bindo (wait_reap T me p status k) (\<lambda>(k1, res). Done (k1, Returned res))
                      else Done (k, MustWait p)))))"

text \<open>The lock and the condition variable of a process, which must still exist.\<close>

definition proc_lock :: "'d kernel \<Rightarrow> nat \<Rightarrow> lock outcome" where
  "proc_lock k p = bindo (get_proc k p) (\<lambda>r. case p_locklock r of None \<Rightarrow> Panic | Some l \<Rightarrow> Done l)"

definition proc_cv :: "'d kernel \<Rightarrow> nat \<Rightarrow> cv outcome" where
  "proc_cv k p = bindo (get_proc k p) (\<lambda>r. case p_cv r of None \<Rightarrow> Panic | Some c \<Rightarrow> Done c)"

definition set_lock :: "nat \<Rightarrow> lock \<Rightarrow> 'd kernel \<Rightarrow> 'd kernel" where
  "set_lock p l = upd_proc p (\<lambda>r. r\<lparr>p_locklock := Some l\<rparr>)"

definition set_cv :: "nat \<Rightarrow> cv \<Rightarrow> 'd kernel \<Rightarrow> 'd kernel" where
  "set_cv p c = upd_proc p (\<lambda>r. r\<lparr>p_cv := Some c\<rparr>)"

definition proc_lock_acquire :: "thread_id \<Rightarrow> nat \<Rightarrow> 'd kernel \<Rightarrow> 'd kernel outcome" where
  "proc_lock_acquire me p k = bindo (proc_lock k p) (\<lambda>l. bindo (lock_acquire me l) (\<lambda>l'. Done (set_lock p l' k)))"

definition proc_lock_release :: "thread_id \<Rightarrow> nat \<Rightarrow> 'd kernel \<Rightarrow> 'd kernel outcome" where
  "proc_lock_release me p k = bindo (proc_lock k p) (\<lambda>l. bindo (lock_release_only me l) (\<lambda>l'. Done (set_lock p l' k)))"

text \<open>\<^verbatim>\<open>cv_wait\<close> until the thread sleeps; when it is woken it acquires the lock again.\<close>

definition waitpid_sleep :: "thread_id \<Rightarrow> nat \<Rightarrow> 'd kernel \<Rightarrow> 'd kernel outcome" where
  "waitpid_sleep me p k =
     bindo (proc_lock k p) (\<lambda>l. bindo (proc_cv k p)
       (\<lambda>c. bindo (cv_wait_section me c l) (\<lambda>(_, c', l'). Done (set_cv p c' (set_lock p l' k)))))"

definition waitpid_finish :: "'d vtables \<Rightarrow> thread_id \<Rightarrow> nat \<Rightarrow> status_ptr \<Rightarrow> ('d, int) kop" where
  "waitpid_finish T me p status k = bindo (proc_lock_release me p k) (wait_reap T me p status)"

text \<open>The whole call for a thread that has not to wait; otherwise other threads must run first.\<close>

definition sys_waitpid :: "'d vtables \<Rightarrow> thread_id \<Rightarrow> int \<Rightarrow> status_ptr \<Rightarrow> int \<Rightarrow> ('d, int) kop" where
  "sys_waitpid T me pid status options k =
     bindo (waitpid_check T me pid status options k)
       (\<lambda>(k1, w). case w of Returned res \<Rightarrow> Done (k1, res) | MustWait p \<Rightarrow> Block)"

section \<open>Exiting\<close>

definition exit_leave :: "thread_id \<Rightarrow> u32 \<Rightarrow> 'd kernel \<Rightarrow> ('d kernel \<times> nat) outcome" where
  "exit_leave me exitcode k =
     bindo (curproc k me)
       (\<lambda>p. bindo (get_proc k p)
         (\<lambda>_. bindo (proc_remthread me (upd_proc p (\<lambda>r. r\<lparr>p_status := MKWAIT_EXIT exitcode\<rparr>) k))
           (\<lambda>k1. Done (k1, p))))"

text \<open>The signal, with the thread it wakes.\<close>

definition exit_signal :: "thread_id \<Rightarrow> nat \<Rightarrow> 'd kernel \<Rightarrow> ('d kernel \<times> thread_id option) outcome" where
  "exit_signal me p k =
     bindo (proc_lock k p) (\<lambda>l. bindo (proc_cv k p)
       (\<lambda>c. bindo (cv_signal me c l) (\<lambda>(w, c'). Done (set_cv p c' k, w))))"

definition sys_exit :: "thread_id \<Rightarrow> u32 \<Rightarrow> 'd kernel \<Rightarrow> 'd kernel outcome" where
  "sys_exit me exitcode k =
     bindo (exit_leave me exitcode k)
       (\<lambda>(k1, p). bindo (proc_lock_acquire me p k1)
         (\<lambda>k2. bindo (exit_signal me p k2)
           (\<lambda>(k3, _). bindo (proc_lock_release me p k3) (thread_exit me))))"

section \<open>Forking\<close>

definition sys_fork :: "'d vtables \<Rightarrow> thread_id \<Rightarrow> proc \<Rightarrow> trapframe \<Rightarrow> ('d, int) kop" where
  "sys_fork T me junk ctf k =
     bindo (curproc k me) (\<lambda>father. bindo (returns (find_valid_pid k))
       (\<lambda>index. if index \<le> 0 then Done (k, Inl ENPROC)
        else bindo (get_proc k father) (\<lambda>r. bindo (proc_create_runprogram T me (p_name r) junk k)
          (\<lambda>(k1, q). case q of
             None \<Rightarrow> Done (k1, Inl ENOMEM)
           | Some newproc \<Rightarrow>
               bindo (get_proc k1 father) (\<lambda>r. case p_addrspace r of
                  None \<Rightarrow> Panic
                | Some as \<Rightarrow>
                    bindo (as_copy as (v_al (k_vfs k1)) (v_vm (k_vfs k1)))
                      (\<lambda>(vm, al, res). let k2 = k1\<lparr>k_vfs := (k_vfs k1)\<lparr>v_vm := vm, v_al := al\<rparr>\<rparr> in
                         case res of
                           Inl e \<Rightarrow> bindo (proc_destroy T me newproc k2) (\<lambda>k3. Done (k3, Inl e))
                         | Inr newas \<Rightarrow>
                             let (k3, ok) = alloc_with kmalloc (set_as newproc (Some newas) k2) in
                             if \<not> ok then bindo (proc_destroy T me newproc k3) (\<lambda>k4. Done (k4, Inl ENOMEM))
                             else bindo (get_proc k3 newproc)
                               (\<lambda>c. let (k4, ok) = add_new_child father (p_pid c) k3 in
                                if \<not> ok then bindo (proc_destroy T me newproc k4) (\<lambda>k5. Done (k5, Inl ENOMEM))
                                else bindo (proc_add index newproc (upd_proc newproc (\<lambda>s. s\<lparr>parent_pid := p_pid r\<rparr>) k4))
                                  (\<lambda>(k5, ok). if \<not> ok then Done (k5, Inl ENOMEM)
                                   else case k_tname k5 me of
                                     None \<Rightarrow> Panic
                                   | Some name \<Rightarrow>
                                       bindo (thread_fork me name (Some newproc) (EnterForked ctf) k5)
                                         (\<lambda>(k6, res). case res of
                                            Inl e \<Rightarrow> bindo (proc_destroy T me newproc k6) (\<lambda>k7. Done (k7, Inl e))
                                          | Inr _ \<Rightarrow> Done (k6, Inr (p_pid c)))))))))))"

text \<open>What the new thread does first: it enters user mode with these registers.\<close>

definition enter_forked_process :: "trapframe \<Rightarrow> trapframe" where
  "enter_forked_process tf = tf\<lparr>tf_v0 := 0, tf_a3 := 0, tf_epc := tf_epc tf + 4\<rparr>"

section \<open>Programs started from the kernel menu\<close>

definition cmd_progthread :: "'d vtables \<Rightarrow> thread_id \<Rightarrow> u8 list \<Rightarrow> string \<Rightarrow> ('d, trapframe) kop" where
  "cmd_progthread T me junk progname k =
     (if length progname \<ge> 128 then Panic else runprogram T me junk progname k)"

text \<open>A new thread starts with its entry point; \<^verbatim>\<open>enter_forked_process\<close> also activates the address space.\<close>

definition thread_start :: "'d vtables \<Rightarrow> thread_id \<Rightarrow> u8 list \<Rightarrow> thread_entry \<Rightarrow> ('d, trapframe) kop" where
  "thread_start T me junk entry k =
     (case entry of
        EnterForked tf \<Rightarrow> Done (activate me k, Inr (enter_forked_process tf))
      | ProgThread progname \<Rightarrow> cmd_progthread T me junk progname (activate me k))"

definition common_prog :: "'d vtables \<Rightarrow> thread_id \<Rightarrow> proc \<Rightarrow> string \<Rightarrow> ('d, unit) kop" where
  "common_prog T me junk name k =
     bindo (proc_create_runprogram T me name junk k)
       (\<lambda>(k1, q). case q of
          None \<Rightarrow> Done (k1, Inl ENOMEM)
        | Some p \<Rightarrow>
            bindo (curproc k1 me) (\<lambda>cur. bindo (get_proc k1 p)
              (\<lambda>c. let (k2, ok) = add_new_child cur (p_pid c) k1 in
               if \<not> ok then bindo (proc_destroy T me p k2) (\<lambda>k3. Done (k3, Inl ENOMEM))
               else bindo (get_proc k2 cur)
                 (\<lambda>r. bindo (thread_fork me name (Some p) (ProgThread name) (upd_proc p (\<lambda>s. s\<lparr>parent_pid := p_pid r\<rparr>) k2))
                   (\<lambda>(k3, res). case res of
                      Inl e \<Rightarrow> bindo (proc_destroy T me p k3) (\<lambda>k4. Done (k4, Inl e))
                    | Inr _ \<Rightarrow> bindo (sys_waitpid T me (p_pid c) KernelVar 0 k3)
                        (\<lambda>(k4, res). Done (k4, map_sum id (\<lambda>_. ()) res)))))))"

text \<open>The words of the command line, the name of the command first.\<close>

definition cmd_prog :: "'d vtables \<Rightarrow> thread_id \<Rightarrow> proc \<Rightarrow> string list \<Rightarrow> ('d, unit) kop" where
  "cmd_prog T me junk args k = (if length args < 2 then Done (k, Inl EINVAL) else common_prog T me junk (args ! 1) k)"

definition cmd_shell :: "'d vtables \<Rightarrow> thread_id \<Rightarrow> proc \<Rightarrow> string list \<Rightarrow> ('d, unit) kop" where
  "cmd_shell T me junk args k = (if length args \<noteq> 1 then Done (k, Inl EINVAL) else common_prog T me junk ''/bin/sh'' k)"

end
