(* ===== verification/WaitExit.thy ===== *)
theory WaitExit
  imports ProcCalls
begin

text \<open>
  A parent in \<^verbatim>\<open>waitpid\<close> and its child in \<^verbatim>\<open>_exit\<close> (\<^verbatim>\<open>kern/syscall/syscall_PROC.c\<close>), running at the
  same time: the calls as sequences of atomic steps, in any order that the lock and the condition variable
  of the child allow.
\<close>

section \<open>The two calls side by side\<close>

text \<open>Where the two threads stand; the argument is the process structure of the child.\<close>

datatype wait_pc = WCall | WLock nat | WHeld nat | WAsleep nat | WWoken nat | WFinish nat | WDone "int cres"

datatype exit_pc = XCall | XLeft nat | XHeld nat | XSignalled nat | XReleased nat | XGone

type_synonym 'd wx = "'d kernel \<times> wait_pc \<times> exit_pc"

definition woken :: "thread_id \<Rightarrow> thread_id option \<Rightarrow> wait_pc \<Rightarrow> wait_pc" where
  "woken w t wp = (if t = Some w then case wp of WAsleep p \<Rightarrow> WWoken p | _ \<Rightarrow> wp else wp)"

text \<open>
  Thread \<open>w\<close> waits for \<open>pid\<close> while thread \<open>x\<close> exits with \<open>code\<close>. A call of \<^verbatim>\<open>lock_acquire\<close> that finds the
  lock taken is tried again later.
\<close>

inductive wx_step :: "'d vtables \<Rightarrow> thread_id \<Rightarrow> int \<Rightarrow> status_ptr \<Rightarrow> thread_id \<Rightarrow> u32 \<Rightarrow> 'd wx \<Rightarrow> 'd wx \<Rightarrow> bool"
  for T w pid status x code where
  wx_return: "waitpid_check T w pid status 0 k = Done (k', Returned r) \<Longrightarrow>
    wx_step T w pid status x code (k, WCall, xp) (k', WDone r, xp)"
| wx_must_wait: "waitpid_check T w pid status 0 k = Done (k', MustWait p) \<Longrightarrow>
    wx_step T w pid status x code (k, WCall, xp) (k', WLock p, xp)"
| wx_lock: "proc_lock_acquire w p k = Done k' \<Longrightarrow> wx_step T w pid status x code (k, WLock p, xp) (k', WHeld p, xp)"
| wx_sleep: "waitpid_sleep w p k = Done k' \<Longrightarrow> wx_step T w pid status x code (k, WHeld p, xp) (k', WAsleep p, xp)"
| wx_again: "proc_lock_acquire w p k = Done k' \<Longrightarrow> wx_step T w pid status x code (k, WWoken p, xp) (k', WFinish p, xp)"
| wx_finish: "waitpid_finish T w p status k = Done (k', r) \<Longrightarrow>
    wx_step T w pid status x code (k, WFinish p, xp) (k', WDone r, xp)"
| wx_leave: "exit_leave x code k = Done (k', p) \<Longrightarrow> wx_step T w pid status x code (k, wp, XCall) (k', wp, XLeft p)"
| wx_hold: "proc_lock_acquire x p k = Done k' \<Longrightarrow> wx_step T w pid status x code (k, wp, XLeft p) (k', wp, XHeld p)"
| wx_signal: "exit_signal x p k = Done (k', t) \<Longrightarrow>
    wx_step T w pid status x code (k, wp, XHeld p) (k', woken w t wp, XSignalled p)"
| wx_release: "proc_lock_release x p k = Done k' \<Longrightarrow>
    wx_step T w pid status x code (k, wp, XSignalled p) (k', wp, XReleased p)"
| wx_exit: "thread_exit x k = Done k' \<Longrightarrow> wx_step T w pid status x code (k, wp, XReleased p) (k', wp, XGone)"

text \<open>The next step of one of the threads fails.\<close>

fun wait_panics :: "'d vtables \<Rightarrow> thread_id \<Rightarrow> int \<Rightarrow> status_ptr \<Rightarrow> 'd kernel \<Rightarrow> wait_pc \<Rightarrow> bool" where
  "wait_panics T w pid status k WCall = (waitpid_check T w pid status 0 k = Panic)"
| "wait_panics T w pid status k (WLock p) = (proc_lock_acquire w p k = Panic)"
| "wait_panics T w pid status k (WHeld p) = (waitpid_sleep w p k = Panic)"
| "wait_panics T w pid status k (WAsleep p) = False"
| "wait_panics T w pid status k (WWoken p) = (proc_lock_acquire w p k = Panic)"
| "wait_panics T w pid status k (WFinish p) = (waitpid_finish T w p status k = Panic)"
| "wait_panics T w pid status k (WDone r) = False"

fun exit_panics :: "thread_id \<Rightarrow> u32 \<Rightarrow> 'd kernel \<Rightarrow> exit_pc \<Rightarrow> bool" where
  "exit_panics x code k XCall = (exit_leave x code k = Panic)"
| "exit_panics x code k (XLeft p) = (proc_lock_acquire x p k = Panic)"
| "exit_panics x code k (XHeld p) = (exit_signal x p k = Panic)"
| "exit_panics x code k (XSignalled p) = (proc_lock_release x p k = Panic)"
| "exit_panics x code k (XReleased p) = (thread_exit x k = Panic)"
| "exit_panics x code k XGone = False"

fun wx_panics :: "'d vtables \<Rightarrow> thread_id \<Rightarrow> int \<Rightarrow> status_ptr \<Rightarrow> thread_id \<Rightarrow> u32 \<Rightarrow> 'd wx \<Rightarrow> bool" where
  "wx_panics T w pid status x code (k, wp, xp) \<longleftrightarrow> wait_panics T w pid status k wp \<or> exit_panics x code k xp"

text \<open>What is left of the two calls, and their end.\<close>

fun wait_left :: "wait_pc \<Rightarrow> nat" where
  "wait_left WCall = 6"
| "wait_left (WLock p) = 5"
| "wait_left (WHeld p) = 4"
| "wait_left (WAsleep p) = 3"
| "wait_left (WWoken p) = 2"
| "wait_left (WFinish p) = 1"
| "wait_left (WDone r) = 0"

fun exit_left :: "exit_pc \<Rightarrow> nat" where
  "exit_left XCall = 5"
| "exit_left (XLeft p) = 4"
| "exit_left (XHeld p) = 3"
| "exit_left (XSignalled p) = 2"
| "exit_left (XReleased p) = 1"
| "exit_left XGone = 0"

fun wx_left :: "'d wx \<Rightarrow> nat" where
  "wx_left (k, wp, xp) = wait_left wp + exit_left xp"

lemma wx_step_left: "wx_step T w pid status x code s s' \<Longrightarrow> wx_left s' < wx_left s"
  by (induction rule: wx_step.induct) (auto simp: woken_def split: wait_pc.split)

inductive_cases wx_stepE: "wx_step T w pid status x code (k, wp, xp) s'"

section \<open>A parent and its running child\<close>

definition idle_sync :: "lock \<Rightarrow> cv \<Rightarrow> bool" where
  "idle_sync l c \<longleftrightarrow> wc_threads (lk_wchan l) = [] \<and> spinlock_cleanup (lk_lock l) = Done () \<and> spinlock_cleanup (cv_lock c) = Done ()"

text \<open>A place for the status: a variable of the kernel, or a word of the memory of the caller.\<close>

definition status_ok :: "'d kernel \<Rightarrow> proc \<Rightarrow> status_ptr \<Rightarrow> bool" where
  "status_ok k r status =
     (case status of
        KernelVar \<Rightarrow> True
      | UserPtr a \<Rightarrow> a \<noteq> 0 \<and> \<not> bad_status status \<and> a + 4 \<le> USERSPACETOP \<and>
          (\<exists>as. p_addrspace r = Some as \<and> vm_user_inv as (v_vm (k_vfs k)) \<and> mapped (vm_user_view as (v_vm (k_vfs k))) a 4))"

text \<open>
  Thread \<open>w\<close> of process \<open>q\<close> is about to wait for its child \<open>p\<close>, whose only thread is \<open>x\<close>; the lock of the
  child is free and nobody waits on its condition variable.
\<close>

definition wx_start :: "'d kernel \<Rightarrow> thread_id \<Rightarrow> nat \<Rightarrow> proc \<Rightarrow> thread_id \<Rightarrow> nat \<Rightarrow> proc \<Rightarrow> status_ptr \<Rightarrow> bool" where
  "wx_start k w q rq x p rp status \<longleftrightarrow>
     fam_inv k \<and> w \<noteq> x \<and> k_tproc k w = Some q \<and> k_procs k q = Some rq \<and> p_pid rp \<in> set (children_list rq) \<and>
     k_tproc k x = Some p \<and> k_procs k p = Some rp \<and> p \<noteq> k_kproc k \<and> p_numthreads rp = 1 \<and>
     (\<exists>l c. p_locklock rp = Some l \<and> lk_owner l = None \<and> p_cv rp = Some c \<and> wc_threads (cv_wchan c) = [] \<and> idle_sync l c) \<and>
     (\<forall>d. p_cwd rp = Some d \<longrightarrow> 1 < vrefs (k_vfs k) d) \<and> status_ok k rq status"

text \<open>
  The kernel while both calls run: only the lock, the condition variable, and once \<open>x\<close> has left
  also the status and the number of threads of the child have changed.
\<close>

definition child_at :: "'d kernel \<Rightarrow> nat \<Rightarrow> thread_id \<Rightarrow> u32 option \<Rightarrow> cv \<Rightarrow> lock \<Rightarrow> 'd kernel" where
  "child_at k p x e c l =
     (upd_proc p (\<lambda>r. r\<lparr>p_cv := Some c, p_locklock := Some l,
         p_status := (case e of None \<Rightarrow> p_status r | Some s \<Rightarrow> s),
         p_numthreads := (case e of None \<Rightarrow> p_numthreads r | Some s \<Rightarrow> 0)\<rparr>) k)
       \<lparr>k_tproc := (case e of None \<Rightarrow> k_tproc k | Some s \<Rightarrow> (k_tproc k)(x := None))\<rparr>"

lemma child_at_fields [simp]:
  "k_vfs (child_at k p x e c l) = k_vfs k" "k_kproc (child_at k p x e c l) = k_kproc k"
  "k_table (child_at k p x e c l) = k_table k"
  "k_tproc (child_at k p x e c l) = (case e of None \<Rightarrow> k_tproc k | Some s \<Rightarrow> (k_tproc k)(x := None))"
  "q \<noteq> p \<Longrightarrow> k_procs (child_at k p x e c l) q = k_procs k q"
  by (simp_all add: child_at_def)

lemma child_at_self:
  "k_procs k p = Some r \<Longrightarrow> k_procs (child_at k p x e c l) p = Some (r\<lparr>p_cv := Some c, p_locklock := Some l,
      p_status := (case e of None \<Rightarrow> p_status r | Some s \<Rightarrow> s), p_numthreads := (case e of None \<Rightarrow> p_numthreads r | Some s \<Rightarrow> 0)\<rparr>)"
  by (simp add: child_at_def)

lemma same_family_child_at: "same_family k (child_at k p x e c l)"
  by (auto simp: same_family_def child_at_def fview_def fun_eq_iff option.map_comp comp_def)

lemma set_lock_child_at [simp]: "set_lock p l' (child_at k p x e c l) = child_at k p x e c l'"
  by (cases "k_procs k p") (auto simp: set_lock_def child_at_def upd_proc_def fun_eq_iff)

lemma set_cv_child_at [simp]: "set_cv p c' (child_at k p x e c l) = child_at k p x e c' l"
  by (cases "k_procs k p") (auto simp: set_cv_def child_at_def upd_proc_def fun_eq_iff)

lemma proc_sync_child_at:
  assumes "k_procs k p = Some r"
  shows "proc_lock (child_at k p x e c l) p = Done l" "proc_cv (child_at k p x e c l) p = Done c"
  using child_at_self [OF assms] by (simp_all add: proc_lock_def proc_cv_def get_proc_def)

lemma proc_lock_acquire_child:
  assumes "k_procs k p = Some r"
  shows "proc_lock_acquire t p (child_at k p x e c l) =
    (case lk_owner l of None \<Rightarrow> Done (child_at k p x e c (l\<lparr>lk_owner := Some t\<rparr>)) | Some u \<Rightarrow> if u = t then Panic else Block)"
  using proc_sync_child_at [OF assms]
  by (simp add: proc_lock_acquire_def lock_acquire_def lock_do_i_hold_def lock_acquire_section_def split: option.split)

lemma proc_lock_release_child:
  assumes "k_procs k p = Some r" "lk_owner l = Some t" "wc_threads (lk_wchan l) = []"
  shows "proc_lock_release t p (child_at k p x e c l) = Done (child_at k p x e c (l\<lparr>lk_owner := None\<rparr>))"
  using proc_sync_child_at [OF assms(1)] assms(2,3)
  by (simp add: proc_lock_release_def lock_release_only_def lock_release_def lock_do_i_hold_def wchan_wakeone_def)

lemma waitpid_sleep_child:
  assumes "k_procs k p = Some r" "lk_owner l = Some t" "wc_threads (lk_wchan l) = []"
  shows "waitpid_sleep t p (child_at k p x e c l) =
    Done (child_at k p x e (c\<lparr>cv_wchan := wchan_sleep t (cv_wchan c)\<rparr>) (l\<lparr>lk_owner := None\<rparr>))"
  using proc_sync_child_at [OF assms(1)] assms(2,3)
  by (simp add: waitpid_sleep_def cv_wait_section_def lock_release_def lock_do_i_hold_def wchan_wakeone_def)

lemma exit_signal_child:
  assumes "k_procs k p = Some r" "lk_owner l = Some t"
  shows "exit_signal t p (child_at k p x e c l) = Done (child_at k p x e (c\<lparr>cv_wchan := snd (wchan_wakeone (cv_wchan c))\<rparr>) l,
    fst (wchan_wakeone (cv_wchan c)))"
  using proc_sync_child_at [OF assms(1)] assms(2)
  by (simp add: exit_signal_def cv_signal_def lock_do_i_hold_def split_beta)

lemma exit_leave_child:
  assumes "k_procs k p = Some r" "k_tproc k x = Some p" "p_numthreads r = 1"
  shows "exit_leave x code (child_at k p x None c l) = Done (child_at k p x (Some (MKWAIT_EXIT code)) c l, p)"
  using assms child_at_self [OF assms(1), of x None c l]
  by (simp add: exit_leave_def curproc_def get_proc_def proc_remthread_def child_at_def upd_proc_def)

lemma wx_startD:
  assumes "wx_start k w q rq x p rp status"
  shows "fam_inv k" "w \<noteq> x" "k_tproc k w = Some q" "k_procs k q = Some rq" "p_pid rp \<in> set (children_list rq)"
    "k_tproc k x = Some p" "k_procs k p = Some rp" "p \<noteq> k_kproc k" "p_numthreads rp = 1"
    "\<And>d. p_cwd rp = Some d \<Longrightarrow> 1 < vrefs (k_vfs k) d" "status_ok k rq status"
    "q \<noteq> p" "p_pid rq \<noteq> p_pid rp" "slot (p_pid rp)" "k_table k ! nat (p_pid rp) = Some p"
proof -
  show b: "fam_inv k" "w \<noteq> x" "k_tproc k w = Some q" "k_procs k q = Some rq" "p_pid rp \<in> set (children_list rq)"
    "k_tproc k x = Some p" "k_procs k p = Some rp" "p \<noteq> k_kproc k" "p_numthreads rp = 1"
    "\<And>d. p_cwd rp = Some d \<Longrightarrow> 1 < vrefs (k_vfs k) d" "status_ok k rq status"
    using assms by (simp_all add: wx_start_def)
  show "q \<noteq> p" using fam_invD(3) [OF b(1,4,5)] b(4,7) pid_unique [OF b(1)] by metis
  then show "p_pid rq \<noteq> p_pid rp" using pid_unique [OF b(1,4,7)] by blast
  show "slot (p_pid rp)" "k_table k ! nat (p_pid rp) = Some p" using proc_invD(4) [OF fam_invD(1) [OF b(1)] b(7,8)] by auto
qed

text \<open>What a successful wait has done.\<close>

definition wx_result :: "'d kernel \<Rightarrow> nat \<Rightarrow> proc \<Rightarrow> thread_id \<Rightarrow> nat \<Rightarrow> proc \<Rightarrow> status_ptr \<Rightarrow> u32 \<Rightarrow> 'd kernel \<Rightarrow> bool" where
  "wx_result k q rq x p rp status s k' \<longleftrightarrow>
     fam_inv k' \<and> k_procs k' p = None \<and> k_tproc k' x = None \<and> k_table k' = (k_table k)[nat (p_pid rp) := None] \<and>
     (\<exists>r. k_procs k' q = Some r \<and> p_pid rp \<notin> set (children_list r)) \<and>
     (case status of
        KernelVar \<Rightarrow> True
      | UserPtr a \<Rightarrow> \<exists>as. p_addrspace rq = Some as \<and> bytes_at (vm_user_view as (v_vm (k_vfs k'))) a 4 = to_be32 (unat s))"

lemma store_status_child:
  assumes "wx_start k w q rq x p rp status"
  shows "\<exists>vm. store_status w status s (child_at k p x e c l) = Done ((child_at k p x e c l)\<lparr>k_vfs := (k_vfs k)\<lparr>v_vm := vm\<rparr>\<rparr>) \<and>
    (case status of
        KernelVar \<Rightarrow> True
      | UserPtr a \<Rightarrow> \<exists>as. p_addrspace rq = Some as \<and> bytes_at (vm_user_view as vm) a 4 = to_be32 (unat s))"
proof (cases status)
  case KernelVar
  have "(child_at k p x e c l)\<lparr>k_vfs := (k_vfs k)\<lparr>v_vm := v_vm (k_vfs k)\<rparr>\<rparr> = child_at k p x e c l"
    using kernel_vfs_same [of "child_at k p x e c l"] by simp
  then show ?thesis using KernelVar by (intro exI [of _ "v_vm (k_vfs k)"]) (simp add: store_status_def)
next
  case (UserPtr a)
  note d = wx_startD [OF assms]
  let ?k = "child_at k p x e c l" and ?bs = "to_be32 (unat s)"
  obtain as where as: "a + 4 \<le> USERSPACETOP" "p_addrspace rq = Some as" "vm_user_inv as (v_vm (k_vfs k))"
    "mapped (vm_user_view as (v_vm (k_vfs k))) a 4"
    using d(11) UserPtr by (auto simp: status_ok_def)
  have c: "c_as (ctx_of ?k w) = Some as"
    using d(2-4,12) as(2) by (cases e) (simp_all add: ctx_of_def)
  have len: "length ?bs = 4" by (simp add: to_be32_def)
  obtain vm where vm: "write_bytes (vm_memops (Some as)) a ?bs (v_vm (k_vfs k)) = Done (vm, True)"
    "vm_user_view as vm = put_bytes (vm_user_view as (v_vm (k_vfs k))) a ?bs"
    using vm.write_bytes_ok [OF as(3), of a ?bs] as(4) len by auto
  have "bytes_at (vm_user_view as vm) a 4 = ?bs" using bytes_at_put_same [of _ a ?bs] unfolding vm(2) len .
  then show ?thesis using UserPtr as c vm(1) by (intro exI [of _ vm]) (simp add: store_status_def)
qed

lemma wait_reap_child:
  assumes "wx_start k w q rq x p rp status" "idle_sync l c" "wc_threads (cv_wchan c) = []"
  shows "\<exists>k'. wait_reap T w p status (child_at k p x (Some s) c l) = Done (k', Inr (p_pid rp)) \<and>
    wx_result k q rq x p rp status s k'"
proof -
  note d = wx_startD [OF assms(1)]
  let ?k = "child_at k p x (Some s) c l"
  let ?r = "rp\<lparr>p_cv := Some c, p_locklock := Some l, p_status := s, p_numthreads := 0\<rparr>"
  have r: "k_procs ?k p = Some ?r" using child_at_self [OF d(7), of x "Some s" c l] by simp
  obtain vm where vm: "store_status w status s ?k = Done (?k\<lparr>k_vfs := (k_vfs k)\<lparr>v_vm := vm\<rparr>\<rparr>)"
    "case status of
        KernelVar \<Rightarrow> True
      | UserPtr a \<Rightarrow> \<exists>as. p_addrspace rq = Some as \<and> bytes_at (vm_user_view as vm) a 4 = to_be32 (unat s)"
    using store_status_child [OF assms(1)] by blast
  let ?k1 = "?k\<lparr>k_vfs := (k_vfs k)\<lparr>v_vm := vm\<rparr>\<rparr>"
  let ?v = "case p_cwd rp of None \<Rightarrow> (k_vfs k)\<lparr>v_vm := vm\<rparr> | Some d \<Rightarrow> add_ref d (-1) ((k_vfs k)\<lparr>v_vm := vm\<rparr>)"
  have fam: "fam_inv ?k1" by (rule fam_inv_cong [OF d(1) same_family_trans [OF same_family_child_at same_family_vfs]])
  have cwd: "cwd_released T w ?k1 ?r ?v"
    using d(10) by (cases "p_cwd rp") (simp_all add: cwd_released_def vnode_decref_ok vrefs_def)
  have sync: "destroy_sync ?r = Done ()"
    using assms(2,3) by (simp add: destroy_sync_def cv_destroy_def lock_destroy_def wchan_destroy_def idle_sync_def)
  have r1: "k_procs ?k1 p = Some ?r" "p \<noteq> k_kproc ?k1" "p_numthreads ?r = 0" using r d(8) by simp_all
  let ?k2 = "(reap p ?k1)\<lparr>k_vfs := ?v\<rparr>"
  have "proc_destroy T w p ?k1 = Done ?k2" by (rule proc_destroy_run [OF fam r1(1,2) sync r1(3) cwd])
  then have "wait_reap T w p status ?k = Done (?k2, Inr (p_pid rp))" using r vm(1) by (simp add: wait_reap_def get_proc_def)
  moreover have "wx_result k q rq x p rp status s ?k2"
  proof -
    have "fam_inv ?k2" by (rule fam_inv_cong [OF fam_inv_reap [OF fam r1(1,2)] same_family_vfs])
    moreover have "v_vm (k_vfs ?k2) = vm" by (simp add: add_ref_def split: option.split)
    moreover have "k_tproc ?k2 x = None" using r1(1) by (simp add: reap_def)
    moreover have "k_procs ?k2 q = Some (forget ?k1 (p_pid rp) q rq)" using reap_simps(3) [OF r1(1), of q] d(4,12) by simp
    ultimately show ?thesis using reap_simps(1,3) [OF r1(1)] vm(2) unfolding wx_result_def by (cases status) simp_all
  qed
  ultimately show ?thesis by blast
qed

lemma is_child_iff: "is_child cs c \<longleftrightarrow> c \<in> set cs"
  by (induction cs) auto

lemma waitpid_check_child:
  assumes "wx_start k w q rq x p rp status"
  shows "waitpid_check T w (p_pid rp) status 0 (child_at k p x e c l) =
    (if e = None then Done (child_at k p x e c l, MustWait p)
     else bindo (wait_reap T w p status (child_at k p x e c l)) (\<lambda>(k1, res). Done (k1, Returned res)))"
proof -
  note d = wx_startD [OF assms]
  let ?k = "child_at k p x e c l"
  have "proc_inv ?k" by (rule proc_inv_cong [OF fam_invD(1) [OF d(1)] same_family_child_at])
  then have "proc_search (p_pid rp) ?k = Done (Some p)" using proc_search_ok [of ?k, OF _ d(14)] d(15) by simp
  moreover have "curproc ?k w = Done q" "get_proc ?k q = Done rq" using d(2-4,12) by (cases e; simp add: curproc_def)+
  moreover have "status \<noteq> UserPtr 0" "\<not> bad_status status" using d(11)
    by (auto simp: status_ok_def bad_status_def split: status_ptr.splits)
  ultimately show ?thesis
    using d(5,9,13) child_at_self [OF d(7), of x e c l]
    by (cases e) (simp_all add: waitpid_check_def is_child_iff get_proc_def)
qed

section \<open>The invariant\<close>

definition running_inv :: "'d kernel \<Rightarrow> thread_id \<Rightarrow> thread_id \<Rightarrow> nat \<Rightarrow> u32 \<Rightarrow> 'd wx \<Rightarrow> bool" where
  "running_inv k w x p s z = (case z of (k', wp, xp) \<Rightarrow>
     \<exists>c l. k' = child_at k p x (if xp = XCall then None else Some s) c l \<and> idle_sync l c \<and>
       wc_threads (cv_wchan c) = (if wp = WAsleep p then [w] else []) \<and>
       lk_owner l = (if wp = WHeld p \<or> wp = WFinish p then Some w else if xp = XHeld p \<or> xp = XSignalled p then Some x else None) \<and>
       wp \<in> {WCall, WLock p, WHeld p, WAsleep p, WWoken p, WFinish p} \<and>
       xp \<in> {XCall, XLeft p, XHeld p, XSignalled p, XReleased p, XGone} \<and>
       (wp = WHeld p \<or> wp = WFinish p \<longrightarrow> xp \<noteq> XHeld p \<and> xp \<noteq> XSignalled p) \<and>
       (wp = WWoken p \<or> wp = WFinish p \<longrightarrow> xp \<in> {XSignalled p, XReleased p, XGone}))"

lemma running_invI:
  assumes "z = (child_at k p x (if xp = XCall then None else Some s) c l, wp, xp)" "idle_sync l c"
    and "wc_threads (cv_wchan c) = (if wp = WAsleep p then [w] else [])"
    and "lk_owner l = (if wp = WHeld p \<or> wp = WFinish p then Some w else if xp = XHeld p \<or> xp = XSignalled p then Some x else None)"
    and "wp \<in> {WCall, WLock p, WHeld p, WAsleep p, WWoken p, WFinish p}"
    and "xp \<in> {XCall, XLeft p, XHeld p, XSignalled p, XReleased p, XGone}"
    and "wp = WHeld p \<or> wp = WFinish p \<longrightarrow> xp \<noteq> XHeld p \<and> xp \<noteq> XSignalled p"
    and "wp = WWoken p \<or> wp = WFinish p \<longrightarrow> xp \<in> {XSignalled p, XReleased p, XGone}"
  shows "running_inv k w x p s z"
  unfolding running_inv_def assms(1) prod.case by (intro exI conjI, rule refl) (use assms in auto)

definition finished_inv :: "'d kernel \<Rightarrow> nat \<Rightarrow> proc \<Rightarrow> thread_id \<Rightarrow> nat \<Rightarrow> proc \<Rightarrow> status_ptr \<Rightarrow> u32 \<Rightarrow> 'd wx \<Rightarrow> bool" where
  "finished_inv k q rq x p rp status s z = (case z of (k', wp, xp) \<Rightarrow>
     wp = WDone (Inr (p_pid rp)) \<and> xp \<in> {XLeft p, XHeld p, XSignalled p, XReleased p, XGone} \<and>
     wx_result k q rq x p rp status s k')"

text \<open>Every step from a state with the invariant, for the steps that are possible there.\<close>

lemma running_step:
  assumes "wx_start k w q rq x p rp status" "running_inv k w x p (MKWAIT_EXIT code) z"
    and "wx_step T w (p_pid rp) status x code z z'"
  shows "running_inv k w x p (MKWAIT_EXIT code) z' \<or> finished_inv k q rq x p rp status (MKWAIT_EXIT code) z'"
proof -
  let ?s = "MKWAIT_EXIT code"
  note d = wx_startD [OF assms(1)]
  obtain k1 wp xp where z: "z = (k1, wp, xp)" by (cases z)
  obtain c l where i: "k1 = child_at k p x (if xp = XCall then None else Some ?s) c l" "idle_sync l c"
    "wc_threads (cv_wchan c) = (if wp = WAsleep p then [w] else [])"
    "lk_owner l = (if wp = WHeld p \<or> wp = WFinish p then Some w else if xp = XHeld p \<or> xp = XSignalled p then Some x else None)"
    "wp \<in> {WCall, WLock p, WHeld p, WAsleep p, WWoken p, WFinish p}"
    "xp \<in> {XCall, XLeft p, XHeld p, XSignalled p, XReleased p, XGone}"
    "wp = WHeld p \<or> wp = WFinish p \<longrightarrow> xp \<noteq> XHeld p \<and> xp \<noteq> XSignalled p"
    "wp = WWoken p \<or> wp = WFinish p \<longrightarrow> xp \<in> {XSignalled p, XReleased p, XGone}"
    using assms(2) z unfolding running_inv_def by auto
  have lw: "wc_threads (lk_wchan l) = []" using i(2) by (simp add: idle_sync_def)
  have sync: "idle_sync (l\<lparr>lk_owner := o'\<rparr>) (c\<lparr>cv_wchan := wc\<rparr>)" "idle_sync (l\<lparr>lk_owner := o'\<rparr>) c" "idle_sync l (c\<lparr>cv_wchan := wc\<rparr>)"
    for o' wc using i(2) by (simp_all add: idle_sync_def)
  note acq = proc_lock_acquire_child [OF d(7)]
  let ?e = "if xp = XCall then None else Some ?s"
  have chk: "waitpid_check T w (p_pid rp) status 0 k1 = (if xp = XCall then Done (k1, MustWait p)
      else bindo (wait_reap T w p status k1) (\<lambda>(k1, res). Done (k1, Returned res)))"
    unfolding i(1) using waitpid_check_child [OF assms(1)] by auto
  from assms(3) [unfolded z] show ?thesis
  proof (cases rule: wx_step.cases)
    case (wx_return k' r)
    then have "xp \<noteq> XCall \<and> wait_reap T w p status k1 = Done (k', r)"
      unfolding chk by (auto split: if_splits)
    then show ?thesis
      using wait_reap_child [OF assms(1) i(2), of T ?s] i(1,3,6) wx_return by (auto simp: finished_inv_def)
  next
    case (wx_must_wait k' p')
    then have "xp = XCall \<and> k' = k1 \<and> p' = p"
      unfolding chk by (auto split: if_splits)
    then show ?thesis using i wx_must_wait unfolding running_inv_def by auto
  next
    case (wx_lock p' k')
    then have "k' = child_at k p x ?e c (l\<lparr>lk_owner := Some w\<rparr>)" "wp = WLock p" "z' = (k', WHeld p, xp)" "lk_owner l = None"
      using acq [of w x ?e c l] i(1,5) by (auto split: option.splits if_splits)
    then show ?thesis using i(3,4,6) sync(2) by (intro disjI1 running_invI [where c = c and l = "l\<lparr>lk_owner := Some w\<rparr>" and wp = "WHeld p" and xp = xp]) (auto split: if_splits)
  next
    case (wx_sleep p' k')
    then have "k' = child_at k p x ?e (c\<lparr>cv_wchan := wchan_sleep w (cv_wchan c)\<rparr>) (l\<lparr>lk_owner := None\<rparr>)"
      "wp = WHeld p" "z' = (k', WAsleep p, xp)"
      using waitpid_sleep_child [OF d(7), of l w x ?e c] lw i(1,4,5) by auto
    then show ?thesis using i(3,4,6-8) sync(1) by (intro disjI1 running_invI [where c = "c\<lparr>cv_wchan := wchan_sleep w (cv_wchan c)\<rparr>" and l = "l\<lparr>lk_owner := None\<rparr>" and wp = "WAsleep p" and xp = xp]) (auto simp: wchan_sleep_def split: if_splits)
  next
    case (wx_again p' k')
    then have "k' = child_at k p x ?e c (l\<lparr>lk_owner := Some w\<rparr>)" "wp = WWoken p" "z' = (k', WFinish p, xp)" "lk_owner l = None"
      using acq [of w x ?e c l] i(1,5) by (auto split: option.splits if_splits)
    then show ?thesis using i(3,4,6,8) sync(2) by (intro disjI1 running_invI [where c = c and l = "l\<lparr>lk_owner := Some w\<rparr>" and wp = "WFinish p" and xp = xp]) (auto split: if_splits)
  next
    case (wx_finish p' k' r)
    then have "wait_reap T w p status (child_at k p x (Some ?s) c (l\<lparr>lk_owner := None\<rparr>)) = Done (k', r)" "wp = WFinish p" "xp \<noteq> XCall"
      using proc_lock_release_child [OF d(7), of l w x "Some ?s" c] lw i by (auto simp: waitpid_finish_def)
    then show ?thesis
      using wait_reap_child [OF assms(1) sync(2) [of None], of T ?s] i wx_finish by (auto simp: finished_inv_def)
  next
    case (wx_leave k' p')
    then have "k' = child_at k p x (Some ?s) c l" "p' = p" "xp = XCall" "z' = (k', wp, XLeft p)"
      using exit_leave_child [OF d(7,6,9), of code c l] i(1) by auto
    then show ?thesis using i(2-5,8) by (intro disjI1 running_invI [where c = c and l = l and wp = wp and xp = "XLeft p"]) (auto split: if_splits)
  next
    case (wx_hold p' k')
    then have "k' = child_at k p x (Some ?s) c (l\<lparr>lk_owner := Some x\<rparr>)" "xp = XLeft p" "z' = (k', wp, XHeld p)" "lk_owner l = None"
      using acq [of x x "Some ?s" c l] i(1,6) by (auto split: option.splits if_splits)
    then show ?thesis using i(3-5,8) sync(2) by (intro disjI1 running_invI [where c = c and l = "l\<lparr>lk_owner := Some x\<rparr>" and wp = wp and xp = "XHeld p"]) (auto split: if_splits)
  next
    case (wx_signal p' k' t)
    then have "k' = child_at k p x (Some ?s) (c\<lparr>cv_wchan := snd (wchan_wakeone (cv_wchan c))\<rparr>) l" "xp = XHeld p"
      "z' = (k', (if wp = WAsleep p then WWoken p else wp), XSignalled p)"
      using exit_signal_child [OF d(7), of l x x "Some ?s" c] i(1,3-7)
      by (auto simp: woken_def wchan_wakeone_def split: if_splits wait_pc.splits)
    then show ?thesis using i(3-5,7,8) sync(3) by (intro disjI1 running_invI [where c = "c\<lparr>cv_wchan := snd (wchan_wakeone (cv_wchan c))\<rparr>" and l = l and wp = "if wp = WAsleep p then WWoken p else wp" and xp = "XSignalled p"]) (auto simp: wchan_wakeone_def split: if_splits)
  next
    case (wx_release p' k')
    then have "k' = child_at k p x (Some ?s) c (l\<lparr>lk_owner := None\<rparr>)" "xp = XSignalled p" "z' = (k', wp, XReleased p)"
      using proc_lock_release_child [OF d(7), of l x x "Some ?s" c] lw i(1,4-7) by auto
    then show ?thesis using i(3-5,7,8) sync(2) by (intro disjI1 running_invI [where c = c and l = "l\<lparr>lk_owner := None\<rparr>" and wp = wp and xp = "XReleased p"]) auto
  next
    case (wx_exit k' p')
    then have "k' = child_at k p x (Some ?s) c l" "xp = XReleased p" "z' = (k', wp, XGone)"
      using i(1,6) by (auto simp: thread_exit_def)
    then show ?thesis using i(2-5,8) by (intro disjI1 running_invI [where c = c and l = l and wp = wp and xp = XGone]) (auto split: if_splits)
  qed
qed

lemma gone_child:
  assumes "wx_result k q rq x p rp status s k'"
  shows "proc_lock_acquire t p k' = Panic" "exit_signal t p k' = Panic" "proc_lock_release t p k' = Panic" "thread_exit x k' = Done k'"
  using assms by (simp_all add: wx_result_def proc_lock_acquire_def exit_signal_def proc_lock_release_def proc_lock_def
      get_proc_def thread_exit_def)

lemma finished_step:
  assumes "finished_inv k q rq x p rp status s z" "wx_step T w pid status x code z z'"
  shows "finished_inv k q rq x p rp status s z'"
proof -
  obtain k1 xp where z: "z = (k1, WDone (Inr (p_pid rp)), xp)" "xp \<in> {XLeft p, XHeld p, XSignalled p, XReleased p, XGone}"
    "wx_result k q rq x p rp status s k1"
    using assms(1) by (cases z) (auto simp: finished_inv_def)
  note g = gone_child [OF z(3)]
  from assms(2) [unfolded z(1)] show ?thesis
    by (cases rule: wx_step.cases) (use z(2,3) g in \<open>auto simp: finished_inv_def\<close>)
qed

lemma child_at_start:
  assumes "wx_start k w q rq x p rp status"
  obtains c l where "k = child_at k p x None c l" "idle_sync l c" "wc_threads (cv_wchan c) = []" "lk_owner l = None"
proof -
  obtain c l where "p_locklock rp = Some l" "lk_owner l = None" "p_cv rp = Some c" "wc_threads (cv_wchan c) = []" "idle_sync l c"
    using assms unfolding wx_start_def by blast
  moreover from this have "rp\<lparr>p_cv := Some c, p_locklock := Some l\<rparr> = rp" by (cases rp) simp
  then have "k = child_at k p x None c l"
    using wx_startD(7) [OF assms] by (intro kernel.equality) (auto simp: child_at_def upd_proc_def fun_eq_iff)
  ultimately show thesis using that by blast
qed

lemma running_start:
  assumes "wx_start k w q rq x p rp status"
  shows "running_inv k w x p s (k, WCall, XCall)"
proof -
  obtain c l where "k = child_at k p x None c l" "idle_sync l c" "wc_threads (cv_wchan c) = []" "lk_owner l = None"
    using child_at_start [OF assms] by blast
  then show ?thesis by (intro running_invI [where c = c and l = l and wp = WCall and xp = XCall]) auto
qed

lemma wx_reach_inv:
  assumes "(wx_step T w (p_pid rp) status x code)\<^sup>*\<^sup>* (k, WCall, XCall) z" "wx_start k w q rq x p rp status"
  shows "running_inv k w x p (MKWAIT_EXIT code) z \<or> finished_inv k q rq x p rp status (MKWAIT_EXIT code) z"
  using assms(1)
proof (induction rule: rtranclp_induct)
  case base
  then show ?case using running_start [OF assms(2)] by blast
next
  case (step y z)
  then show ?case using running_step [OF assms(2)] finished_step by blast
qed

section \<open>A parent that waits in time\<close>

text \<open>The positions of the threads once the parent is asleep before the child has signalled.\<close>

definition in_time :: "nat \<Rightarrow> wait_pc \<Rightarrow> exit_pc \<Rightarrow> bool" where
  "in_time p wp xp \<longleftrightarrow>
     (case wp of
        WAsleep p' \<Rightarrow> p' = p \<and> xp \<in> {XCall, XLeft p, XHeld p}
      | WWoken p' \<Rightarrow> p' = p \<and> xp \<in> {XSignalled p, XReleased p, XGone}
      | WFinish p' \<Rightarrow> p' = p \<and> xp \<in> {XReleased p, XGone}
      | WDone r \<Rightarrow> xp \<in> {XReleased p, XGone}
      | _ \<Rightarrow> False)"

lemma in_time_step:
  assumes "wx_start k w q rq x p rp status"
    and "running_inv k w x p (MKWAIT_EXIT code) (k1, wp, xp) \<or> finished_inv k q rq x p rp status (MKWAIT_EXIT code) (k1, wp, xp)"
    and "in_time p wp xp" "wx_step T w (p_pid rp) status x code (k1, wp, xp) (k2, wp', xp')"
  shows "in_time p wp' xp'"
proof -
  have inv: "running_inv k w x p (MKWAIT_EXIT code) (k2, wp', xp') \<or> finished_inv k q rq x p rp status (MKWAIT_EXIT code) (k2, wp', xp')"
    using assms(2,4) running_step [OF assms(1)] finished_step by blast
  have wake: "t = Some w" if e: "exit_signal x p k1 = Done (k2, t)" "wp = WAsleep p" "xp = XHeld p" for t
  proof -
    obtain c l where "k1 = child_at k p x (Some (MKWAIT_EXIT code)) c l" "wc_threads (cv_wchan c) = [w]" "lk_owner l = Some x"
      using assms(2) e(2,3) by (auto simp: running_inv_def finished_inv_def)
    then show ?thesis using e(1) exit_signal_child [OF wx_startD(7) [OF assms(1)]] by (auto simp: wchan_wakeone_def)
  qed
  from assms(4) show ?thesis
    by (cases rule: wx_step.cases; use assms(3) inv wake in
      \<open>auto simp: in_time_def running_inv_def finished_inv_def woken_def split: wait_pc.splits if_splits\<close>)
qed

lemma in_time_progress:
  assumes "wx_start k w q rq x p rp status"
    and "running_inv k w x p (MKWAIT_EXIT code) (k1, wp, xp) \<or> finished_inv k q rq x p rp status (MKWAIT_EXIT code) (k1, wp, xp)"
    and "in_time p wp xp"
  shows "\<not> wx_panics T w (p_pid rp) status x code (k1, wp, xp) \<and>
    ((\<exists>r. wp = WDone r \<and> xp = XGone) \<or> (\<exists>z. wx_step T w (p_pid rp) status x code (k1, wp, xp) z))"
  using assms(2)
proof
  assume f: "finished_inv k q rq x p rp status (MKWAIT_EXIT code) (k1, wp, xp)"
  then have "wx_result k q rq x p rp status (MKWAIT_EXIT code) k1" "wp = WDone (Inr (p_pid rp))" "xp = XReleased p \<or> xp = XGone"
    using assms(3) by (auto simp: finished_inv_def in_time_def)
  then show ?thesis using gone_child(4) wx_exit by fastforce
next
  let ?s = "MKWAIT_EXIT code"
  note d = wx_startD [OF assms(1)]
  assume "running_inv k w x p ?s (k1, wp, xp)"
  then obtain c l where i: "k1 = child_at k p x (if xp = XCall then None else Some ?s) c l" "idle_sync l c"
    "wc_threads (cv_wchan c) = (if wp = WAsleep p then [w] else [])"
    "lk_owner l = (if wp = WHeld p \<or> wp = WFinish p then Some w else if xp = XHeld p \<or> xp = XSignalled p then Some x else None)"
    "wp \<in> {WCall, WLock p, WHeld p, WAsleep p, WWoken p, WFinish p}"
    unfolding running_inv_def by auto
  have lw: "wc_threads (lk_wchan l) = []" using i(2) by (simp add: idle_sync_def)
  note acq = proc_lock_acquire_child [OF d(7)]
  consider "wp = WAsleep p" "xp = XCall" | "wp = WAsleep p" "xp = XLeft p" | "wp = WAsleep p" "xp = XHeld p"
    | "wp = WWoken p" "xp = XSignalled p" | "wp = WWoken p" "xp = XReleased p \<or> xp = XGone"
    | "wp = WFinish p" "xp = XReleased p \<or> xp = XGone"
    using assms(3) i(5) by (auto simp: in_time_def)
  then show ?thesis
  proof cases
    case 1
    then show ?thesis using exit_leave_child [OF d(7,6,9), of code c l] i(1) wx_leave by fastforce
  next
    case 2
    then show ?thesis using acq [of x x "Some ?s" c l] i(1,4) wx_hold by fastforce
  next
    case 3
    then show ?thesis using exit_signal_child [OF d(7), of l x x "Some ?s" c] i(1,4) wx_signal by fastforce
  next
    case 4
    then show ?thesis
      using proc_lock_release_child [OF d(7), of l x x "Some ?s" c] acq [of w x "Some ?s" c l] lw i(1,4) d(2) wx_release by fastforce
  next
    case 5
    then have a: "proc_lock_acquire w p k1 = Done (child_at k p x (Some ?s) c (l\<lparr>lk_owner := Some w\<rparr>))"
      using acq [of w x "Some ?s" c l] i(1,4) by auto
    then have "\<exists>z. wx_step T w (p_pid rp) status x code (k1, wp, xp) z" unfolding 5(1) using wx_again by blast
    moreover have "\<not> wx_panics T w (p_pid rp) status x code (k1, wp, xp)" using 5 a i(1) by (auto simp: thread_exit_def)
    ultimately show ?thesis by blast
  next
    case 6
    then obtain k2 r where f: "waitpid_finish T w p status k1 = Done (k2, r)"
      using proc_lock_release_child [OF d(7), of l w x "Some ?s" c] lw i(1,3,4)
        wait_reap_child [OF assms(1), of "l\<lparr>lk_owner := None\<rparr>" c T ?s] i(2)
      by (auto simp: waitpid_finish_def idle_sync_def)
    then have "\<exists>z. wx_step T w (p_pid rp) status x code (k1, wp, xp) z" unfolding 6(1) using wx_finish by blast
    moreover have "\<not> wx_panics T w (p_pid rp) status x code (k1, wp, xp)" using 6 f i(1) by (auto simp: thread_exit_def)
    ultimately show ?thesis by blast
  qed
qed

end
