(* ===== verification/Fork_Laws.thy ===== *)
theory Fork_Laws
  imports WaitExit
begin

text \<open>
  \<^verbatim>\<open>fork\<close> as a whole: the new process, its copy of the memory, its console files, its place in the
  family and its thread; and what \<^verbatim>\<open>fork\<close>, \<^verbatim>\<open>_exit\<close> and \<^verbatim>\<open>waitpid\<close> promise together.
\<close>

section \<open>The files of a new process\<close>

definition console_file :: "string \<Rightarrow> nat \<Rightarrow> u32 \<Rightarrow> openfile" where
  "console_file lname vn flag = \<lparr>of_vn = Some vn, of_offset = 0, of_mode_open = flag, of_count_refs = 1,
     of_lock = fst (lock_create lname [])\<rparr>"

definition add_console :: "string \<Rightarrow> nat \<Rightarrow> nat \<Rightarrow> u32 \<Rightarrow> nat \<Rightarrow> 'd kernel \<Rightarrow> 'd kernel" where
  "add_console lname p fd flag vn k =
     set_heapfile (k_next k) (Some (console_file lname vn flag))
       ((set_fd p fd (Some (HeapF (k_next k))) k)\<lparr>k_next := Suc (k_next k), k_vfs := add_ref vn 1 (k_vfs k)\<rparr>)"

lemma add_ref_layer [simp]: "v_al (add_ref vn n v) = v_al v" "v_vm (add_ref vn n v) = v_vm v" "biglock_idle (add_ref vn n v) = biglock_idle v"
  by (simp_all add: add_ref_def biglock_idle_def)

lemma add_ref_twice: "add_ref vn a (add_ref vn b v) = add_ref vn (b + a) v"
  by (cases "v_nodes v vn") (auto simp: add_ref_def algebra_simps)

lemma plain_device_add_ref:
  assumes "volname_private T" "plain_device T v name vn d dk" "0 \<le> n"
  shows "plain_device T (add_ref x n v) name vn d dk"
proof -
  have "volname_of T f (add_ref x n v) = volname_of T f v" for f by (rule volname_of_private [OF assms(1)]) (simp add: add_ref_def)
  then have "no_volume T (add_ref x n v) name" using assms(2) by (simp add: plain_device_def no_volume_def add_ref_def)
  moreover have "\<exists>m. v_nodes (add_ref x n v) vn = Some m \<and> vn_ops m = Some DevVnode \<and> 0 < vn_refcount m \<and> vn_data m = d"
    using assms(2,3) by (auto simp: plain_device_def add_ref_def)
  ultimately show ?thesis using assms(2) by (simp add: plain_device_def names_distinct_def)
qed

text \<open>A file layer in which \<^verbatim>\<open>con:\<close> can be opened and memory is available.\<close>

definition con_ready :: "'d vtables \<Rightarrow> 'd vfs \<Rightarrow> nat \<Rightarrow> bool" where
  "con_ready T v vn \<longleftrightarrow> volname_private T \<and> biglock_idle v \<and> v_al v = [] \<and> (\<exists>d. plain_device T v ''con'' vn d ConDev)"

lemma con_ready_add_ref: "con_ready T v vn \<Longrightarrow> 0 \<le> n \<Longrightarrow> con_ready T (add_ref x n v) vn"
  unfolding con_ready_def using plain_device_add_ref [of T v "''con''" vn _ ConDev n x] by auto

lemma console_init_run:
  assumes "con_ready T (k_vfs k) vn" "flag = O_RDONLY \<or> flag = O_WRONLY"
  shows "console_init T me lname p fd flag k = Done (add_console lname p fd flag vn k, True)"
proof -
  obtain d where d: "volname_private T" "biglock_idle (k_vfs k)" "v_al (k_vfs k) = []" "plain_device T (k_vfs k) ''con'' vn d ConDev"
    using assms(1) by (auto simp: con_ready_def)
  have "flag = O_RDONLY \<or> flag = O_WRONLY \<or> flag = O_RDWR" using assms(2) by blast
  then have "vfs_open T c ''con:'' flag mode (k_vfs k) = Done (add_ref vn 1 (k_vfs k), Inr vn)" for c mode
    using vfs_open_device [OF d(1,2,4), of flag] by simp
  then show ?thesis
    using d(3) by (simp add: console_init_def alloc_with_full on_vfs_def lock_create_full add_console_def console_file_def
        set_fd_def upd_proc_def set_heapfile_def Let_def)
qed

lemma consoles_init_run:
  assumes "con_ready T (k_vfs k) vn"
  shows "consoles_init T me p k = Done (add_console ''STDERR'' p 2 O_WRONLY vn (add_console ''STDOUT'' p 1 O_WRONLY vn
    (add_console ''STDIN'' p 0 O_RDONLY vn k)), True)"
proof -
  have vfs: "k_vfs (add_console n q fd fl vn k') = add_ref vn 1 (k_vfs k')" for n q fd fl and k' :: "'a kernel"
    by (simp add: add_console_def set_heapfile_def)
  note r = con_ready_add_ref [OF assms, of 1 vn]
  note r2 = con_ready_add_ref [OF r, of 1 vn]
  show ?thesis
    using assms r r2 by (simp add: consoles_init_def console_init_run vfs)
qed

text \<open>The descriptors of a new process, whose files are the three objects after \<open>f\<close>.\<close>

definition console_fds :: "nat \<Rightarrow> fref option list" where
  "console_fds f = (replicate OPEN_MAX None)[0 := Some (HeapF (f + 1)), 1 := Some (HeapF (f + 2)), 2 := Some (HeapF (f + 3))]"

definition console_files :: "nat \<Rightarrow> nat \<Rightarrow> (nat \<Rightarrow> openfile option) \<Rightarrow> nat \<Rightarrow> openfile option" where
  "console_files vn f m = m(f + 1 \<mapsto> console_file ''STDIN'' vn O_RDONLY, f + 2 \<mapsto> console_file ''STDOUT'' vn O_WRONLY,
     f + 3 \<mapsto> console_file ''STDERR'' vn O_WRONLY)"

text \<open>The file layer with the console opened three times and the working directory referenced once more.\<close>

definition fork_vfs :: "nat \<Rightarrow> nat option \<Rightarrow> 'd vfs \<Rightarrow> 'd vfs" where
  "fork_vfs vn cwd v = (case cwd of None \<Rightarrow> add_ref vn 3 v | Some d \<Rightarrow> add_ref d 1 (add_ref vn 3 v))"

definition runnable :: "string \<Rightarrow> int \<Rightarrow> proc \<Rightarrow> nat \<Rightarrow> nat option \<Rightarrow> 'd kernel \<Rightarrow> 'd kernel" where
  "runnable name i junk vn cwd k =
     k\<lparr>k_vfs := fork_vfs vn cwd (k_vfs k),
       k_procs := (k_procs k)(k_next k \<mapsto> (new_proc name i junk)\<lparr>p_cwd := cwd, fileTable := console_fds (k_next k)\<rparr>),
       k_table := (k_table k)[nat i := Some (k_next k)], k_last_pid := i,
       k_heapfiles := console_files vn (k_next k) (k_heapfiles k), k_next := k_next k + 4\<rparr>"

lemma proc_create_runprogram_run:
  assumes "fam_inv k" "con_ready T (k_vfs k) vn" "name \<noteq> ''[kernel]''" "find_valid_pid k = Some i" "i \<noteq> -1"
    and "k_tproc k me = Some q" "k_procs k q = Some r" "\<And>d. p_cwd r = Some d \<Longrightarrow> v_nodes (k_vfs k) d \<noteq> None"
  shows "proc_create_runprogram T me name junk k = Done (runnable name i junk vn (p_cwd r) k, Some (k_next k))"
proof -
  let ?p = "k_next k" and ?k1 = "add_proc (k_next k) i (new_proc name i junk) k"
  have al: "v_al (k_vfs k) = []" using assms(2) by (simp add: con_ready_def)
  have c: "proc_create name junk k = Some (?k1, Some ?p)" using proc_create_cases [OF assms(1) al assms(3,4), of junk] assms(5) by simp
  have fresh: "k_procs k ?p = None" using proc_invD(5) [OF fam_invD(1) [OF assms(1)]] by simp
  then have q: "q \<noteq> ?p" using assms(7) by auto
  let ?k2 = "upd_proc ?p (\<lambda>r. r\<lparr>p_addrspace := None\<rparr>) ?k1"
  let ?k3 = "add_console ''STDERR'' ?p 2 O_WRONLY vn (add_console ''STDOUT'' ?p 1 O_WRONLY vn (add_console ''STDIN'' ?p 0 O_RDONLY vn ?k2))"
  have "k_vfs ?k2 = k_vfs k" by (simp add: add_proc_def)
  then have c2: "consoles_init T me ?p ?k2 = Done (?k3, True)" using consoles_init_run [of T ?k2 vn me ?p] assms(2) by simp
  have same: "(new_proc name i junk)\<lparr>p_addrspace := None\<rparr> = new_proc name i junk" "(new_proc name i junk)\<lparr>p_cwd := None\<rparr> = new_proc name i junk"
    by (simp_all add: new_proc_def new_sync_def)
  have k3: "?k3 = runnable name i junk vn None k"
    by (intro kernel.equality)
      (simp_all add: add_console_def set_heapfile_def set_fd_def upd_proc_def add_proc_def runnable_def fork_vfs_def console_fds_def
        console_files_def add_ref_twice same numeral_3_eq_3 numeral_2_eq_2 fun_eq_iff)
  note c3 = c2 [unfolded k3]
  have swap: "x\<lparr>p_cwd := a, fileTable := b\<rparr> = x\<lparr>fileTable := b, p_cwd := a\<rparr>" for x :: proc and a b by (cases x) simp
  let ?k4 = "runnable name i junk vn None k"
  have q3: "curproc ?k4 me = Done q" "get_proc ?k4 q = Done r" using assms(6,7) q by (simp_all add: runnable_def curproc_def)
  have run: "proc_create_runprogram T me name junk k =
      (case p_cwd r of None \<Rightarrow> Done (?k4, Some ?p)
       | Some d \<Rightarrow> bindo (on_vfs_only (vnode_incref d) ?k4) (\<lambda>k3. Done (upd_proc ?p (\<lambda>r. r\<lparr>p_cwd := Some d\<rparr>) k3, Some ?p)))"
    using c c3 q3 by (simp add: proc_create_runprogram_def returns_def get_proc_def)
  show ?thesis
  proof (cases "p_cwd r")
    case None
    then show ?thesis using run by simp
  next
    case (Some d)
    have "v_nodes (k_vfs ?k4) d \<noteq> None" using assms(8) [OF Some] by (auto simp: runnable_def fork_vfs_def add_ref_def)
    then have "on_vfs_only (vnode_incref d) ?k4 = Done (?k4\<lparr>k_vfs := add_ref d 1 (k_vfs ?k4)\<rparr>)" by (simp add: on_vfs_only_def vnode_incref_ok)
    moreover have "upd_proc ?p (\<lambda>r. r\<lparr>p_cwd := Some d\<rparr>) (?k4\<lparr>k_vfs := add_ref d 1 (k_vfs ?k4)\<rparr>) = runnable name i junk vn (Some d) k"
      by (intro kernel.equality) (simp_all add: runnable_def fork_vfs_def upd_proc_def swap)
    ultimately show ?thesis using run Some by simp
  qed
qed

section \<open>The whole call\<close>

definition forked_proc :: "proc \<Rightarrow> int \<Rightarrow> proc \<Rightarrow> addrspace \<Rightarrow> nat \<Rightarrow> proc" where
  "forked_proc rf i junk new f =
     (new_proc (p_name rf) i junk)\<lparr>p_cwd := p_cwd rf, fileTable := console_fds f, p_addrspace := Some new,
        parent_pid := p_pid rf, p_numthreads := 1\<rparr>"

definition forked :: "nat \<Rightarrow> proc \<Rightarrow> int \<Rightarrow> proc \<Rightarrow> nat \<Rightarrow> addrspace \<Rightarrow> vmstate \<Rightarrow> trapframe \<Rightarrow> string \<Rightarrow> 'd kernel \<Rightarrow> 'd kernel" where
  "forked q rf i junk vn new vm ctf tname k =
     k\<lparr>k_vfs := (fork_vfs vn (p_cwd rf) (k_vfs k))\<lparr>v_vm := vm\<rparr>,
       k_procs := (k_procs k)(q \<mapsto> rf\<lparr>children_list := children_list rf @ [i]\<rparr>, k_next k \<mapsto> forked_proc rf i junk new (k_next k)),
       k_table := (k_table k)[nat i := Some (k_next k)], k_last_pid := i,
       k_heapfiles := console_files vn (k_next k) (k_heapfiles k), k_next := k_next k + 5,
       k_tproc := (k_tproc k)(k_next k + 4 \<mapsto> k_next k), k_tname := (k_tname k)(k_next k + 4 \<mapsto> tname),
       k_ready := k_ready k @ [(k_next k + 4, EnterForked ctf)]\<rparr>"

text \<open>A thread that can fork: its process has an address space that can be copied, and a slot is free.\<close>

definition can_fork :: "'d vtables \<Rightarrow> thread_id \<Rightarrow> nat \<Rightarrow> proc \<Rightarrow> int \<Rightarrow> nat \<Rightarrow> string \<Rightarrow> 'd kernel \<Rightarrow> bool" where
  "can_fork T me q rf i vn tname k \<longleftrightarrow>
     fam_inv k \<and> con_ready T (k_vfs k) vn \<and> find_valid_pid k = Some i \<and> i \<noteq> -1 \<and>
     k_tproc k me = Some q \<and> k_procs k q = Some rf \<and> p_name rf \<noteq> ''[kernel]'' \<and> k_tname k me = Some tname \<and>
     (\<forall>t \<ge> k_next k. k_tproc k t = None) \<and> (\<forall>d. p_cwd rf = Some d \<longrightarrow> 0 < vrefs (k_vfs k) d)"

lemma can_forkD:
  assumes "can_fork T me q rf i vn tname k"
  shows "fam_inv k" "con_ready T (k_vfs k) vn" "find_valid_pid k = Some i" "i \<noteq> -1" "k_tproc k me = Some q" "k_procs k q = Some rf"
    "p_name rf \<noteq> ''[kernel]''" "k_tname k me = Some tname" "\<And>t. k_next k \<le> t \<Longrightarrow> k_tproc k t = None"
    "\<And>d. p_cwd rf = Some d \<Longrightarrow> 0 < vrefs (k_vfs k) d" "q \<noteq> k_next k" "slot i" "k_table k ! nat i = None" "me \<noteq> k_next k + 4"
    "length (k_table k) = 101" "v_al (k_vfs k) = []"
proof -
  show b: "fam_inv k" "con_ready T (k_vfs k) vn" "find_valid_pid k = Some i" "i \<noteq> -1" "k_tproc k me = Some q" "k_procs k q = Some rf"
    "p_name rf \<noteq> ''[kernel]''" "k_tname k me = Some tname" "\<And>t. k_next k \<le> t \<Longrightarrow> k_tproc k t = None"
    "\<And>d. p_cwd rf = Some d \<Longrightarrow> 0 < vrefs (k_vfs k) d"
    using assms by (simp_all add: can_fork_def)
  show "q \<noteq> k_next k" using proc_invD(5) [OF fam_invD(1) [OF b(1)], of "k_next k"] b(6) by auto
  show "v_al (k_vfs k) = []" using b(2) by (simp add: con_ready_def)
  then show "slot i" "k_table k ! nat i = None" using proc_create_cases [OF b(1) _ b(7,3)] b(4) by auto
  show "me \<noteq> k_next k + 4" using b(5) b(9) [of "k_next k + 4"] by auto
  show "length (k_table k) = 101" by (rule table_len [OF fam_invD(1) [OF b(1)]])
qed

lemma sys_fork_run:
  assumes "can_fork T me q rf i vn tname k" "p_addrspace rf = Some as" "as_copy as [] (v_vm (k_vfs k)) = Done (vm, [], Inr new)"
  shows "sys_fork T me junk ctf k = Done (forked q rf i junk vn new vm ctf tname k, Inr i)"
proof -
  note d = can_forkD [OF assms(1)]
  let ?k1 = "runnable (p_name rf) i junk vn (p_cwd rf) k"
  have c: "proc_create_runprogram T me (p_name rf) junk k = Done (?k1, Some (k_next k))"
    using d(10) by (intro proc_create_runprogram_run [OF d(1,2,7,3,4,5,6)]) (fastforce simp: vrefs_def split: option.splits)
  have v: "v_al (fork_vfs vn cwd (k_vfs k)) = []" "v_vm (fork_vfs vn cwd (k_vfs k)) = v_vm (k_vfs k)" for cwd
    using d(16) by (simp_all add: fork_vfs_def split: option.split)
  have al: "w\<lparr>v_vm := vm, v_al := []\<rparr> = w\<lparr>v_vm := vm\<rparr>" if "v_al w = []" for w :: "'a vfs" using that by (cases w) simp
  have i: "0 < i" "i \<le> 100" "\<not> 101 \<le> nat i" using d(12) by (auto simp: slot_def)
  show ?thesis
    using c d(3,5,6,8,11,14,15) assms(2,3) i v
    by (simp add: sys_fork_def curproc_def get_proc_def returns_def runnable_def set_as_def alloc_with_full add_new_child_def
        proc_add_def thread_fork_def thread_create_def proc_addthread_def upd_proc_def al Let_def)
      (intro kernel.equality; simp add: forked_def forked_proc_def)
qed

section \<open>The family\<close>

text \<open>An orphan that is listed nowhere becomes the child of \<open>q\<close>.\<close>

lemma fam_inv_adopt:
  assumes "fam_inv k" "k_procs k q = Some rq" "k_procs k p = Some rp" "p \<noteq> k_kproc k" "p \<noteq> q" "parent_pid rp = -1"
    and pr: "\<And>x. fview k' x = (if x = p then Some (p_pid rp, p_pid rq, children_list rp)
        else if x = q then Some (p_pid rq, parent_pid rq, children_list rq @ [p_pid rp]) else fview k x)"
    and tab: "k_table k' = k_table k" "k_last_pid k' = k_last_pid k" "k_kproc k' = k_kproc k" "k_next k \<le> k_next k'"
  shows "fam_inv k'"
proof -
  note fam = fam_invD [OF assms(1)]
  note inv = proc_invD [OF fam(1)]
  have to: "\<exists>s. k_procs k' x = Some s \<and> p_pid s = p_pid u \<and> (x \<noteq> p \<longrightarrow> parent_pid s = parent_pid u) \<and>
      set (children_list u) \<subseteq> set (children_list s)" if "k_procs k x = Some u" for x u
    using pr [of x] that assms(2,3) by (auto simp: fview_def split: if_splits)
  have from': "\<exists>u. k_procs k x = Some u \<and> p_pid s = p_pid u \<and> (x \<noteq> p \<longrightarrow> parent_pid s = parent_pid u) \<and>
      (x \<noteq> q \<longrightarrow> children_list s = children_list u)" if "k_procs k' x = Some s" for x s
    using pr [of x] that assms(2,3) by (cases "k_procs k x") (auto simp: fview_def split: if_splits)
  have p': "\<exists>s. k_procs k' p = Some s \<and> p_pid s = p_pid rp \<and> parent_pid s = p_pid rq \<and> children_list s = children_list rp"
    using pr [of p] by (auto simp: fview_def)
  have q': "\<exists>s. k_procs k' q = Some s \<and> p_pid s = p_pid rq \<and> parent_pid s = parent_pid rq \<and> children_list s = children_list rq @ [p_pid rp]"
    using pr [of q] assms(5) by (auto simp: fview_def)
  have pid: "p_pid u \<noteq> -1" if "k_procs k x = Some u" for x u
    using fam(2) inv(4) [OF that] that by (cases "x = k_kproc k") (auto simp: slot_def)
  have unlisted: "p_pid rp \<notin> set (children_list u)" if "k_procs k x = Some u" for x u
    using fam(3) [OF that] pid_unique [OF assms(1,3)] assms(3,6) pid [OF that] by (metis option.inject)
  have "proc_inv k'"
    unfolding proc_inv_def tab(1-3)
  proof (intro conjI allI impI; (elim conjE)?)
    show "table_ok (k_table k) (k_last_pid k)" by (rule inv(1))
    show "k_procs k' (k_kproc k) \<noteq> None" using inv(2) to by fastforce
  next
    fix i x assume "slot i" "k_table k ! nat i = Some x"
    then show "x \<noteq> k_kproc k" "\<exists>r. k_procs k' x = Some r \<and> p_pid r = i" using inv(3) to by metis+
  next
    fix x r assume "k_procs k' x = Some r" "x \<noteq> k_kproc k"
    then show "slot (p_pid r)" "k_table k ! nat (p_pid r) = Some x" using inv(4) from' by metis+
  next
    fix x assume "k_next k' \<le> x"
    then show "k_procs k' x = None" using inv(5) [of x] tab(4) from' by (cases "k_procs k' x") fastforce+
  qed
  then show ?thesis
    unfolding fam_inv_def tab(1-3)
  proof (intro conjI allI impI; (elim conjE)?)
    fix r assume "k_procs k' (k_kproc k) = Some r"
    then show "\<not> slot (p_pid r)" "p_pid r \<noteq> -1" using fam(2) from' by metis+
  next
    fix x r c assume x: "k_procs k' x = Some r" "c \<in> set (children_list r)"
    obtain u where u: "k_procs k x = Some u" "p_pid r = p_pid u" using from' [OF x(1)] by blast
    show "\<exists>y s. k_procs k' y = Some s \<and> y \<noteq> k_kproc k \<and> y \<noteq> x \<and> p_pid s = c \<and> parent_pid s = p_pid r"
    proof (cases "x = q \<and> c = p_pid rp")
      case True
      then have "x \<noteq> p" "u = rq" using assms(2,5) u(1) by auto
      then show ?thesis using p' assms(4) True u(2) by (intro exI [of _ p]) auto
    next
      case False
      then have "c \<in> set (children_list u)" using x u(1) q' from' [OF x(1)] assms(2) by (cases "x = q") auto
      then obtain y s where y: "k_procs k y = Some s" "y \<noteq> k_kproc k" "y \<noteq> x" "p_pid s = c" "parent_pid s = p_pid u"
        using fam(3) [OF u(1)] by blast
      then have "y \<noteq> p" using unlisted [OF u(1)] \<open>c \<in> set (children_list u)\<close> assms(3) by auto
      then show ?thesis using to [OF y(1)] y u(2) by (intro exI [of _ y]) auto
    qed
  next
    fix x r assume x: "k_procs k' x = Some r" "x \<noteq> k_kproc k" "parent_pid r \<noteq> -1"
    show "\<exists>y s. k_procs k' y = Some s \<and> p_pid s = parent_pid r \<and> p_pid r \<in> set (children_list s)"
    proof (cases "x = p")
      case True
      then show ?thesis using q' p' x(1) by (intro exI [of _ q]) auto
    next
      case False
      then obtain u where u: "k_procs k x = Some u" "p_pid r = p_pid u" "parent_pid r = parent_pid u" using from' [OF x(1)] by blast
      then show ?thesis using fam(4) [OF u(1) x(2)] x(3) to by (metis subsetD)
    qed
  next
    fix x r assume x: "k_procs k' x = Some r"
    then show "distinct (children_list r)"
      using from' [OF x] fam(5) q' fam(5) [OF assms(2)] unlisted [OF assms(2)] by (cases "x = q") auto
  qed
qed

lemma fam_inv_forked:
  assumes "can_fork T me q rf i vn tname k"
  shows "fam_inv (forked q rf i junk vn new vm ctf tname k)"
proof -
  note d = can_forkD [OF assms]
  let ?p = "k_next k" and ?r = "new_proc (p_name rf) i junk"
  let ?k = "add_proc ?p i ?r k"
  have ne: "?p \<noteq> k_kproc k" using proc_invD(2,5) [OF fam_invD(1) [OF d(1)]] by fastforce
  have "fam_inv ?k" by (rule fam_inv_add [OF d(1,12,13)]) simp_all
  moreover have "k_procs ?k q = Some rf" "k_procs ?k ?p = Some ?r" "?p \<noteq> k_kproc ?k" "?p \<noteq> q" "parent_pid ?r = -1"
    using d(6,11) ne by (simp_all add: add_proc_def)
  ultimately show ?thesis
    by (rule fam_inv_adopt) (use d(11) in \<open>auto simp: fview_def forked_def forked_proc_def add_proc_def\<close>)
qed

section \<open>Memory\<close>

lemma getppages_tlb:
  assumes "getppages n s = (s', a)"
  shows "tlb s' = tlb s"
proof -
  have f: "tlb (fst (getfreeppages n s)) = tlb s" by (simp only: getfreeppages_def Let_def) simp
  have r: "tlb (fst (ram_stealmem n x)) = tlb x" for x by (simp only: ram_stealmem_def Let_def) simp
  obtain s1 a1 s2 a2 where "getfreeppages n s = (s1, a1)" "ram_stealmem n s1 = (s2, a2)" by fastforce
  then show ?thesis using assms f r [of s1] by (auto simp: getppages_def split: if_splits)
qed

lemma as_prepare_load_tlb: "as_prepare_load as s = Done (s', r) \<Longrightarrow> tlb s' = tlb s"
  by (auto simp: as_prepare_load_def as_zero_region_def Let_def split: prod.splits if_splits dest!: getppages_tlb)

lemma as_copy_tlb: "as_copy old al s = Done (s', al', Inr new) \<Longrightarrow> tlb s' = tlb s"
  by (erule as_copy_Inr) (auto dest: as_prepare_load_tlb)

lemma as_copy_views:
  assumes inv: "alloc_inv live s" and wf: "as_wf old" and own: "as_blocks old \<subseteq> live"
    and cp: "as_copy old al s = Done (s', al', Inr new)"
  shows "vm_user_view new s' = vm_user_view old s" "vm_user_view old s' = vm_user_view old s"
proof -
  note ok = as_copy_ok [OF assms]
  note tr = as_translate_region [OF wf] as_translate_region [OF ok(1)]
  have kept: "phys s' (as_base old r + n) = phys s (as_base old r + n)" if "as_region old va = Some (r, n)" for va r n
  proof -
    have "(as_base old r + n) div PAGE_SIZE \<in> blk (as_base old r div PAGE_SIZE, as_len old r)"
      "(as_base old r div PAGE_SIZE, as_len old r) \<in> as_blocks old"
      using as_region_bound [OF that] in_as_blockI [of n old r] as_wf_base [OF wf, of r] as_blocksI [of r old] by simp_all
    then show ?thesis using own ok(3) by (intro ok(6)) blast
  qed
  have "vm_user_view new s' va = vm_user_view old s va" for va
    using ok(5) [of va] unfolding vm_user_view_def tr ok(4) by (cases "as_region old va") auto
  then show "vm_user_view new s' = vm_user_view old s" ..
  have "vm_user_view old s' va = vm_user_view old s va" for va
    using kept [of va] unfolding vm_user_view_def tr(1) by (cases "as_region old va") auto
  then show "vm_user_view old s' = vm_user_view old s" ..
qed

section \<open>Open files\<close>

lemma console_fds_lookup: "length (console_fds f) = OPEN_MAX"
  "Some g \<in> set (console_fds f) \<Longrightarrow> g = HeapF (f + 1) \<or> g = HeapF (f + 2) \<or> g = HeapF (f + 3)"
  "fd < OPEN_MAX \<Longrightarrow> 3 \<le> fd \<Longrightarrow> console_fds f ! fd = None"
  by (auto simp: console_fds_def in_set_conv_nth nth_list_update split: if_splits)

lemma console_fds_count:
  assumes "Some g \<in> set (console_fds f)"
  shows "count_list (console_fds f) (Some g) = 1"
proof -
  have z: "count_list (replicate n None) (Some h) = 0" for n and h :: fref by (induction n) auto
  have "OPEN_MAX = Suc (Suc (Suc 125))" by simp
  then have "console_fds f = [Some (HeapF (f + 1)), Some (HeapF (f + 2)), Some (HeapF (f + 3))] @ replicate 125 None"
    unfolding console_fds_def by (simp only: replicate_Suc) (simp add: numeral_2_eq_2)
  then show ?thesis using console_fds_lookup(2) [OF assms] z [of 125 g] by auto
qed

lemma files_inv_forked:
  assumes "can_fork T me q rf i vn tname k" "files_inv k" "\<And>f. k_next k \<le> f \<Longrightarrow> k_heapfiles k f = None"
  shows "files_inv (forked q rf i junk vn new vm ctf tname k)"
proof -
  note d = can_forkD [OF assms(1)] and inv = files_invD [OF assms(2)]
  let ?p = "k_next k" and ?r = "forked_proc rf i junk new (k_next k)" and ?k = "forked q rf i junk vn new vm ctf tname k"
  have old: "g \<noteq> HeapF (?p + n)" if "k_procs k x = Some u" "Some g \<in> set (fileTable u)" for x u g n
    using inv(2) [OF that] assms(3) [of "?p + n"] by (auto simp: file_ok_def get_file_def)
  have gf: "get_file ?k g = get_file k g" if "\<And>n. g \<noteq> HeapF (?p + n)" for g
    using that [of 1] that [of 2] that [of 3] by (cases g) (auto simp: get_file_def forked_def console_files_def)
  let ?m = "k\<lparr>k_procs := (k_procs k)(q \<mapsto> rf\<lparr>children_list := children_list rf @ [i]\<rparr>)\<rparr>"
  have oldm: "g \<noteq> HeapF (?p + n)" if "k_procs ?m x = Some u" "Some g \<in> set (fileTable u)" for x u g n
    using that old [of x u g n] old [OF d(6), of g n] by (auto split: if_splits)
  have gf0: "get_file ?m g = get_file k g" for g by (cases g) (simp_all add: get_file_def)
  have "files_inv ?m"
  proof (rule files_inv_step [OF assms(2), where p = q and s = "rf\<lparr>children_list := children_list rf @ [i]\<rparr>"])
    fix g assume "Some g \<in> set (fileTable (rf\<lparr>children_list := children_list rf @ [i]\<rparr>))"
    then show "file_ok ?m g (count_list (fileTable (rf\<lparr>children_list := children_list rf @ [i]\<rparr>)) (Some g))"
      using inv(2) [OF d(6), of g] by (simp add: file_ok_def gf0)
    fix x u assume "x \<noteq> q" "k_procs k x = Some u"
    then show "Some g \<notin> set (fileTable u)" using inv(3) [OF d(6)] \<open>Some g \<in> _\<close> by fastforce
  qed (use inv(1) [OF d(6)] gf0 in simp_all)
  then show ?thesis
  proof (rule files_inv_step [where p = ?p and s = ?r])
    show "k_procs ?k = (k_procs ?m)(?p \<mapsto> ?r)" by (simp add: forked_def)
    show "length (fileTable ?r) = OPEN_MAX" by (simp add: forked_proc_def console_fds_lookup)
  next
    fix g assume "Some g \<in> set (fileTable ?r)"
    then have g: "Some g \<in> set (console_fds ?p)" by (simp add: forked_proc_def)
    then show "file_ok ?k g (count_list (fileTable ?r) (Some g))"
      using console_fds_lookup(2) [OF g] console_fds_count [OF g]
      by (auto simp: forked_proc_def file_ok_def get_file_def forked_def console_files_def console_file_def lock_create_full lock_idle_def)
    fix x u assume "x \<noteq> ?p" "k_procs ?m x = Some u"
    then show "Some g \<notin> set (fileTable u)"
      using oldm console_fds_lookup(2) [OF g] by blast
  next
    fix g x u assume "k_procs ?m x = Some u" "Some g \<in> set (fileTable u)"
    then have "g \<noteq> HeapF (?p + n)" for n by (rule oldm)
    then have "get_file ?k g = get_file k g" by (rule gf)
    then show "get_file ?k g = get_file ?m g" using gf0 by simp
  qed
qed

section \<open>Waiting for a forked child\<close>

lemma forked_fields:
  "k_procs (forked q rf i junk vn new vm ctf tname k) (k_next k) = Some (forked_proc rf i junk new (k_next k))"
  "q \<noteq> k_next k \<Longrightarrow> k_procs (forked q rf i junk vn new vm ctf tname k) q = Some (rf\<lparr>children_list := children_list rf @ [i]\<rparr>)"
  "x \<noteq> q \<Longrightarrow> x \<noteq> k_next k \<Longrightarrow> k_procs (forked q rf i junk vn new vm ctf tname k) x = k_procs k x"
  "k_tproc (forked q rf i junk vn new vm ctf tname k) = (k_tproc k)(k_next k + 4 \<mapsto> k_next k)"
  "v_vm (k_vfs (forked q rf i junk vn new vm ctf tname k)) = vm" "k_kproc (forked q rf i junk vn new vm ctf tname k) = k_kproc k"
  by (simp_all add: forked_def)

lemma forked_can_wait:
  assumes "can_fork T me q rf i vn tname k" "status_ok (forked q rf i junk vn new vm ctf tname k) rf status"
  shows "wx_start (forked q rf i junk vn new vm ctf tname k) me q (rf\<lparr>children_list := children_list rf @ [i]\<rparr>) (k_next k + 4) (k_next k)
    (forked_proc rf i junk new (k_next k)) status"
proof -
  note d = can_forkD [OF assms(1)]
  let ?k = "forked q rf i junk vn new vm ctf tname k"
  have ne: "k_next k \<noteq> k_kproc k" using proc_invD(2,5) [OF fam_invD(1) [OF d(1)]] by fastforce
  have "1 < vrefs (k_vfs ?k) c" if "p_cwd rf = Some c" for c
    using d(10) [OF that] that
    by (cases "v_nodes (k_vfs k) c") (auto simp: vrefs_def forked_def fork_vfs_def add_ref_def split: if_splits)
  moreover have "status_ok ?k (rf\<lparr>children_list := children_list rf @ [i]\<rparr>) status"
    using assms(2) by (simp add: status_ok_def cong: status_ptr.case_cong)
  ultimately show ?thesis
    unfolding wx_start_def
    using fam_inv_forked [OF assms(1)] d(5,11,14) ne
    by (simp add: forked_fields)
      (simp add: forked_proc_def new_proc_def new_sync_def idle_sync_def spinlock_cleanup_def spinlock_init_def)
qed

declare rtranclp.rtrancl_into_rtrancl [trans]

section \<open>Claims\<close>


text \<open>
  C2. Whatever the order in which a parent in \<^verbatim>\<open>waitpid\<close> and its child in \<^verbatim>\<open>_exit\<close> run: when the wait
  returns, it returns the pid of the child, the child has left, the word at the given address is the
  exit code shifted by two (\<^verbatim>\<open>_MKWAIT_EXIT\<close>), the structure of the child is gone, its slot is free again and the
  parent has forgotten it.
\<close>

theorem waitpid_reports_exit:
  assumes "wx_start k w q rq x p rp status"
    and "(wx_step T w (p_pid rp) status x code)\<^sup>*\<^sup>* (k, WCall, XCall) (k', WDone res, xp)"
  shows "res = Inr (p_pid rp) \<and> xp \<noteq> XCall \<and> fam_inv k' \<and> k_procs k' p = None \<and>
    k_table k' = (k_table k)[nat (p_pid rp) := None] \<and>
    (\<exists>r. k_procs k' q = Some r \<and> p_pid rp \<notin> set (children_list r)) \<and>
    (\<forall>a. status = UserPtr a \<longrightarrow>
       (\<exists>as. p_addrspace rq = Some as \<and>
          bytes_at (vm_user_view as (v_vm (k_vfs k'))) a 4 = to_be32 (unat (push_bit 2 code))))"
proof -
  have "finished_inv k q rq x p rp status (MKWAIT_EXIT code) (k', WDone res, xp)"
    using wx_reach_inv [OF assms(2,1)] by (auto simp: running_inv_def)
  then show ?thesis by (auto simp: finished_inv_def wx_result_def MKWAIT_EXIT_def split: status_ptr.splits)
qed

text \<open>
  C14. A parent that sleeps in \<^verbatim>\<open>waitpid\<close> before its child calls \<^verbatim>\<open>_exit\<close> always gets its answer: from
  then on no step of either call fails, some step is possible until the child has gone and the wait has
  returned, and every step brings the calls closer to their end.
\<close>

theorem waitpid_in_time_returns:
  assumes "wx_start k w q rq x p rp status"
    and "(wx_step T w (p_pid rp) status x code)\<^sup>*\<^sup>* (k, WCall, XCall) (k1, WAsleep p, XCall)"
    and "(wx_step T w (p_pid rp) status x code)\<^sup>*\<^sup>* (k1, WAsleep p, XCall) (k2, wp, xp)"
  shows "\<not> wx_panics T w (p_pid rp) status x code (k2, wp, xp) \<and>
    (wp = WDone (Inr (p_pid rp)) \<and> xp = XGone \<or> (\<exists>z. wx_step T w (p_pid rp) status x code (k2, wp, xp) z)) \<and>
    (\<forall>z. wx_step T w (p_pid rp) status x code (k2, wp, xp) z \<longrightarrow> wx_left z < wx_left (k2, wp, xp))"
proof -
  let ?inv = "\<lambda>z. running_inv k w x p (MKWAIT_EXIT code) z \<or> finished_inv k q rq x p rp status (MKWAIT_EXIT code) z"
  have reach: "?inv z" if "(wx_step T w (p_pid rp) status x code)\<^sup>*\<^sup>* (k1, WAsleep p, XCall) z" for z
    using wx_reach_inv [OF rtranclp_trans [OF assms(2) that] assms(1)] .
  have time: "in_time p wp xp"
    using assms(3)
  proof (induction "(k2, wp, xp)" arbitrary: k2 wp xp rule: rtranclp_induct)
    case base
    then show ?case by (simp add: in_time_def)
  next
    case (step y)
    then show ?case using in_time_step [OF assms(1)] reach by (cases y) blast
  qed
  note pr = in_time_progress [OF assms(1) reach [OF assms(3)] time, of T]
  have "r = Inr (p_pid rp)" if "wp = WDone r" for r
    using reach [OF assms(3)] that by (auto simp: running_inv_def finished_inv_def)
  then show ?thesis using pr wx_step_left by blast
qed

text \<open>The parent is asleep before the child starts to exit.\<close>

lemma sleep_run:
  assumes "wx_start k w q rq x p rp status"
  shows "\<exists>k'. (wx_step T w (p_pid rp) status x code)\<^sup>*\<^sup>* (k, WCall, XCall) (k', WAsleep p, XCall)"
proof -
  let ?step = "wx_step T w (p_pid rp) status x code"
  note d = wx_startD [OF assms]
  obtain c l where c: "k = child_at k p x None c l" "idle_sync l c" "wc_threads (cv_wchan c) = []" "lk_owner l = None"
    using child_at_start [OF assms] by blast
  have lw: "wc_threads (lk_wchan l) = []" using c(2) by (simp add: idle_sync_def)
  let ?lw = "l\<lparr>lk_owner := Some w\<rparr>"
  have "?step\<^sup>*\<^sup>* (k, WCall, XCall) (k, WLock p, XCall)"
    using waitpid_check_child [OF assms, of T None c l] c(1) by (intro r_into_rtranclp wx_must_wait) simp
  also have "?step (k, WLock p, XCall) (child_at k p x None c ?lw, WHeld p, XCall)"
    using proc_lock_acquire_child [OF d(7), of w x None c l] c(1,4) by (intro wx_lock) simp
  also have "?step (child_at k p x None c ?lw, WHeld p, XCall)
      (child_at k p x None (c\<lparr>cv_wchan := wchan_sleep w (cv_wchan c)\<rparr>) (?lw\<lparr>lk_owner := None\<rparr>), WAsleep p, XCall)"
    using waitpid_sleep_child [OF d(7), of ?lw w x None c] lw by (intro wx_sleep) simp
  finally show ?thesis by blast
qed

text \<open>The parent looks between the departure of the child from its process and its signal.\<close>

lemma early_reap:
  assumes "wx_start k w q rq x p rp status"
  shows "\<exists>k'. (wx_step T w (p_pid rp) status x code)\<^sup>*\<^sup>* (k, WCall, XCall) (k', WDone (Inr (p_pid rp)), XLeft p) \<and>
    wx_result k q rq x p rp status (MKWAIT_EXIT code) k'"
proof -
  let ?step = "wx_step T w (p_pid rp) status x code" and ?s = "MKWAIT_EXIT code"
  note d = wx_startD [OF assms]
  obtain c l where c: "k = child_at k p x None c l" "idle_sync l c" "wc_threads (cv_wchan c) = []"
    using child_at_start [OF assms] by blast
  let ?k = "child_at k p x (Some ?s) c l"
  obtain k' where k': "wait_reap T w p status ?k = Done (k', Inr (p_pid rp))" "wx_result k q rq x p rp status ?s k'"
    using wait_reap_child [OF assms c(2,3)] by blast
  have "?step\<^sup>*\<^sup>* (k, WCall, XCall) (?k, WCall, XLeft p)"
    using exit_leave_child [OF d(7,6,9), of code c l] c(1) by (intro r_into_rtranclp wx_leave) simp
  also have "?step (?k, WCall, XLeft p) (k', WDone (Inr (p_pid rp)), XLeft p)"
    using waitpid_check_child [OF assms, of T "Some ?s" c l] k'(1) by (intro wx_return) simp
  finally show ?thesis using k'(2) by blast
qed

text \<open>
  C36. The test whether the child still runs is made before its lock is taken, so the signal can be lost: when
  the child exits completely between the test and \<^verbatim>\<open>cv_wait\<close>, the parent sleeps forever. No step is
  possible any more, although the child has exited and nothing has failed.
\<close>

theorem waitpid_loses_wakeup:
  assumes "wx_start k w q rq x p rp status"
  shows "\<exists>k'. (wx_step T w (p_pid rp) status x code)\<^sup>*\<^sup>* (k, WCall, XCall) (k', WAsleep p, XGone) \<and>
    \<not> wx_panics T w (p_pid rp) status x code (k', WAsleep p, XGone) \<and>
    \<not> (\<exists>z. wx_step T w (p_pid rp) status x code (k', WAsleep p, XGone) z)"
proof -
  let ?step = "wx_step T w (p_pid rp) status x code" and ?s = "MKWAIT_EXIT code"
  note d = wx_startD [OF assms]
  obtain c l where c: "k = child_at k p x None c l" "idle_sync l c" "wc_threads (cv_wchan c) = []" "lk_owner l = None"
    using child_at_start [OF assms] by blast
  have lw: "wc_threads (lk_wchan l) = []" using c(2) by (simp add: idle_sync_def)
  let ?k = "child_at k p x (Some ?s)" and ?lx = "l\<lparr>lk_owner := Some x\<rparr>" and ?lw = "l\<lparr>lk_owner := Some w\<rparr>"
  have same: "l\<lparr>lk_owner := None\<rparr> = l" "c\<lparr>cv_wchan := cv_wchan c\<rparr> = c" using c(4) by (cases l, simp) (cases c, simp)
  have "?step\<^sup>*\<^sup>* (k, WCall, XCall) (k, WLock p, XCall)"
    using waitpid_check_child [OF assms, of T None c l] c(1) by (intro r_into_rtranclp wx_must_wait) simp
  also have "?step (k, WLock p, XCall) (?k c l, WLock p, XLeft p)"
    using exit_leave_child [OF d(7,6,9), of code c l] c(1) by (intro wx_leave) simp
  also have "?step (?k c l, WLock p, XLeft p) (?k c ?lx, WLock p, XHeld p)"
    using proc_lock_acquire_child [OF d(7), of x x "Some ?s" c l] c(4) by (intro wx_hold) simp
  also have "?step (?k c ?lx, WLock p, XHeld p) (?k c ?lx, woken w None (WLock p), XSignalled p)"
    using exit_signal_child [OF d(7), of ?lx x x "Some ?s" c] c(3) same(2) by (intro wx_signal) (simp add: wchan_wakeone_def)
  also have "(?k c ?lx, woken w None (WLock p), XSignalled p) = (?k c ?lx, WLock p, XSignalled p)" by (simp add: woken_def)
  also have "?step (?k c ?lx, WLock p, XSignalled p) (?k c l, WLock p, XReleased p)"
    using proc_lock_release_child [OF d(7), of ?lx x x "Some ?s" c] lw same(1) by (intro wx_release) simp
  also have "?step (?k c l, WLock p, XReleased p) (?k c l, WLock p, XGone)" by (intro wx_exit) (simp add: thread_exit_def)
  also have "?step (?k c l, WLock p, XGone) (?k c ?lw, WHeld p, XGone)"
    using proc_lock_acquire_child [OF d(7), of w x "Some ?s" c l] c(4) by (intro wx_lock) simp
  also have "?step (?k c ?lw, WHeld p, XGone) (?k (c\<lparr>cv_wchan := wchan_sleep w (cv_wchan c)\<rparr>) l, WAsleep p, XGone)"
    using waitpid_sleep_child [OF d(7), of ?lw w x "Some ?s" c] lw same(1) by (intro wx_sleep) simp
  finally have "?step\<^sup>*\<^sup>* (k, WCall, XCall) (?k (c\<lparr>cv_wchan := wchan_sleep w (cv_wchan c)\<rparr>) l, WAsleep p, XGone)" .
  moreover have "\<not> ?step (k', WAsleep p, XGone) z" for k' z by (auto elim: wx_step.cases)
  ultimately show ?thesis by (meson exit_panics.simps(6) wait_panics.simps(4) wx_panics.simps)
qed

text \<open>
  C37. \<^verbatim>\<open>_exit\<close> leaves its process before it takes the lock of the process, so the structure can be freed under
  it: when the parent looks in between, it finds no thread, reaps the child, and the exiting thread
  goes on with the lock of a process that does not exist any more.
\<close>

theorem exit_uses_freed_process:
  assumes "wx_start k w q rq x p rp status"
  shows "\<exists>k'. (wx_step T w (p_pid rp) status x code)\<^sup>*\<^sup>* (k, WCall, XCall) (k', WDone (Inr (p_pid rp)), XLeft p) \<and>
    k_procs k' p = None \<and> wx_panics T w (p_pid rp) status x code (k', WDone (Inr (p_pid rp)), XLeft p)"
proof -
  obtain k' where k': "(wx_step T w (p_pid rp) status x code)\<^sup>*\<^sup>* (k, WCall, XCall) (k', WDone (Inr (p_pid rp)), XLeft p)"
    "wx_result k q rq x p rp status (MKWAIT_EXIT code) k'"
    using early_reap [OF assms] by blast
  then show ?thesis using gone_child(1) [OF k'(2), of x] by (intro exI [of _ k']) (simp add: wx_result_def)
qed

section \<open>A concrete family\<close>

text \<open>The first user process forks: the child is process 30 with pid 2 and thread 34.\<close>

definition demo_shell :: "u8 list kernel" where
  "demo_shell = demo_user\<lparr>k_tname := [8 \<mapsto> ''sh'']\<rparr>"

definition demo_shell_proc :: proc where
  "demo_shell_proc = the (k_procs demo_user 11)"

lemma fam_inv_next_le:
  assumes "fam_inv k" "k_next k \<le> n"
  shows "fam_inv (k\<lparr>k_next := n\<rparr>)"
proof -
  have "proc_inv (k\<lparr>k_next := n\<rparr>)" using fam_invD(1) [OF assms(1)] assms(2) unfolding proc_inv_def by auto
  then show ?thesis using assms(1) unfolding fam_inv_def by simp blast
qed

lemma demo_shell_fields:
  "k_procs demo_shell 11 = Some demo_shell_proc" "k_tproc demo_shell = [7 \<mapsto> 10, 8 \<mapsto> 11]" "k_next demo_shell = 30"
  "k_tname demo_shell 8 = Some ''sh''" "v_vm (k_vfs demo_shell) = as_activate (Some demo_as) demo_vm"
  "p_cwd demo_shell_proc = None" "p_name demo_shell_proc = ''sh''" "p_addrspace demo_shell_proc = Some demo_as"
  "k_heapfiles demo_shell = k_heapfiles demo_user" "p_pid demo_shell_proc = 1"
  by (simp_all add: demo_shell_def demo_shell_proc_def demo_user_def demo_child_def new_proc_def new_sync_def)

lemma demo_shell_family: "fam_inv demo_shell"
proof -
  have "fam_inv (demo_shell\<lparr>k_next := 12\<rparr>)"
    by (rule fam_inv_cong [OF demo_two_inv])
      (simp add: same_family_def demo_shell_def demo_user_def demo_two_def demo_kernel_def fview_def fun_eq_iff demo_child_def new_proc_def
        new_sync_def)
  moreover have "k\<lparr>k_next := k_next k\<rparr> = k" for k :: "u8 list kernel" by (cases k) simp
  then have "demo_shell\<lparr>k_next := 30\<rparr> = demo_shell" using demo_shell_fields(3) by metis
  ultimately show ?thesis using fam_inv_next_le [of "demo_shell\<lparr>k_next := 12\<rparr>" 30] by simp
qed

lemma demo_shell_pid: "find_valid_pid demo_shell = Some 2"
proof -
  have "k_table demo_shell ! 2 = None" "k_last_pid demo_shell = 1"
    using demo_table [of 2] by (simp_all add: demo_shell_def demo_user_def demo_two_def slot_def)
  moreover from this have "pid_scan (k_table demo_shell) 1 2 = Some 2" by (subst pid_scan.simps) simp
  ultimately show ?thesis by (simp add: find_valid_pid_def next_index_def)
qed

lemma demo_can_fork: "can_fork demo_tables 8 11 demo_shell_proc 2 4 ''sh'' demo_shell"
proof -
  have "k_vfs demo_shell = k_vfs (with_vm (v_vm (k_vfs demo_user)) demo_user)" by (simp add: demo_shell_def with_vm_def)
  then have "con_ready demo_tables (k_vfs demo_shell) 4"
    unfolding con_ready_def using demo_user_layer [of "v_vm (k_vfs demo_user)"] demo_private demo_user_fields(4)
    by (auto simp: with_vm_def)
  then show ?thesis
    using demo_shell_family demo_shell_pid demo_shell_fields by (auto simp: can_fork_def)
qed

lemma demo_shell_copy:
  "\<exists>vm new. as_copy demo_as [] (v_vm (k_vfs demo_shell)) = Done (vm, [], Inr new)"
proof -
  let ?s = "as_activate (Some demo_as) demo_vm"
  let ?s1 = "?s\<lparr>firstpaddr := 25 * PAGE_SIZE, bitmap_sizePages := (bitmap_sizePages ?s)[24 := 1]\<rparr>"
  let ?s2 = "?s1\<lparr>firstpaddr := 26 * PAGE_SIZE, bitmap_sizePages := (bitmap_sizePages ?s1)[25 := 1]\<rparr>"
  let ?s3 = "?s2\<lparr>firstpaddr := 44 * PAGE_SIZE, bitmap_sizePages := (bitmap_sizePages ?s2)[26 := 18]\<rparr>"
  have g: "getppages 1 ?s = (?s1, 24 * PAGE_SIZE)" "getppages 1 ?s1 = (?s2, 25 * PAGE_SIZE)"
    "getppages DUMBVM_STACKPAGES ?s2 = (?s3, 26 * PAGE_SIZE)"
    by (subst getppages_steal; simp add: demo_vm_def as_activate_def)+
  have "\<exists>s3 new. as_prepare_load (demo_as\<lparr>as_pbase1 := 0, as_pbase2 := 0, as_stackpbase := 0\<rparr>) ?s = Done (s3, Inr new)"
    using g by (simp add: as_prepare_load_def demo_as_def)
  then show ?thesis by (auto simp: as_copy_def as_create_def demo_as_def demo_shell_fields)
qed

lemma demo_shell_memory: "alloc_inv {(1, 1), (2, 1), (3, 18)} (v_vm (k_vfs demo_shell))" "as_blocks demo_as \<subseteq> {(1, 1), (2, 1), (3, 18)}"
  using demo_vm_inv by (simp_all add: demo_shell_fields alloc_inv_def as_activate_def)
    (auto simp: as_blocks_def as_base_def as_len_def demo_as_def)

text \<open>The status word of the parent.\<close>

lemma demo_status:
  assumes "as_copy demo_as [] (v_vm (k_vfs demo_shell)) = Done (vm, [], Inr new)"
  shows "status_ok (forked 11 demo_shell_proc 2 zero_proc 4 new vm zero_frame ''sh'' demo_shell) demo_shell_proc (UserPtr 0x7fffff00)"
proof -
  have "tlb vm = tlb (as_activate (Some demo_as) demo_vm)" using as_copy_tlb [OF assms] by (simp add: demo_shell_fields)
  then have "vm_user_inv demo_as vm" using demo_user_inv by (simp add: vm_user_inv_def tlb_inv_def)
  then show ?thesis
    using demo_stack_mapped [of "0x7fffff00" 4 vm] by (simp add: status_ok_def bad_status_def forked_fields demo_shell_fields)
qed

lemma demo_family_start:
  "\<exists>k rq rp. sys_fork demo_tables 8 zero_proc zero_frame demo_shell = Done (k, Inr 2) \<and>
     wx_start k 8 11 rq 34 30 rp (UserPtr 0x7fffff00) \<and> p_pid rp = 2 \<and> p_addrspace rq = Some demo_as"
proof -
  obtain vm new where cp: "as_copy demo_as [] (v_vm (k_vfs demo_shell)) = Done (vm, [], Inr new)" using demo_shell_copy by blast
  show ?thesis
    using sys_fork_run [OF demo_can_fork demo_shell_fields(8) cp, of zero_proc zero_frame]
      forked_can_wait [OF demo_can_fork demo_status [OF cp]] demo_shell_fields(3)
    by (intro exI conjI) (auto simp: forked_proc_def demo_shell_fields)
qed


theorem waitpid_reports_exit_witness:
  "\<exists>k k'. sys_fork demo_tables 8 zero_proc zero_frame demo_shell = Done (k, Inr 2) \<and>
     (wx_step demo_tables 8 2 (UserPtr 0x7fffff00) 34 5)\<^sup>*\<^sup>* (k, WCall, XCall) (k', WDone (Inr 2), XLeft 30) \<and>
     bytes_at (vm_user_view demo_as (v_vm (k_vfs k'))) 0x7fffff00 4 = to_be32 20"
proof -
  obtain k rq rp where f: "sys_fork demo_tables 8 zero_proc zero_frame demo_shell = Done (k, Inr 2)"
    "wx_start k 8 11 rq 34 30 rp (UserPtr 0x7fffff00)" "p_pid rp = 2" "p_addrspace rq = Some demo_as"
    using demo_family_start by blast
  obtain k' where k': "(wx_step demo_tables 8 2 (UserPtr 0x7fffff00) 34 5)\<^sup>*\<^sup>* (k, WCall, XCall) (k', WDone (Inr 2), XLeft 30)"
    using early_reap [OF f(2)] f(3) by metis
  have "unat (push_bit 2 (5 :: u32)) = 20" by (simp add: push_bit_eq_mult)
  then have "bytes_at (vm_user_view demo_as (v_vm (k_vfs k'))) 0x7fffff00 4 = to_be32 20"
    using waitpid_reports_exit [OF f(2), unfolded f(3), OF k'] f(4) by simp
  then show ?thesis using k' f(1) by blast
qed

theorem waitpid_in_time_returns_witness:
  "\<exists>k k1. sys_fork demo_tables 8 zero_proc zero_frame demo_shell = Done (k, Inr 2) \<and>
     (wx_step demo_tables 8 2 (UserPtr 0x7fffff00) 34 5)\<^sup>*\<^sup>* (k, WCall, XCall) (k1, WAsleep 30, XCall) \<and>
     (\<exists>z. wx_step demo_tables 8 2 (UserPtr 0x7fffff00) 34 5 (k1, WAsleep 30, XCall) z)"
proof -
  obtain k rq rp where f: "sys_fork demo_tables 8 zero_proc zero_frame demo_shell = Done (k, Inr 2)"
    "wx_start k 8 11 rq 34 30 rp (UserPtr 0x7fffff00)" "p_pid rp = 2"
    using demo_family_start by blast
  obtain k1 where k1: "(wx_step demo_tables 8 2 (UserPtr 0x7fffff00) 34 5)\<^sup>*\<^sup>* (k, WCall, XCall) (k1, WAsleep 30, XCall)"
    using sleep_run [OF f(2)] f(3) by metis
  then show ?thesis using waitpid_in_time_returns [OF f(2), unfolded f(3), OF k1 rtranclp.rtrancl_refl] f(1) by blast
qed

theorem waitpid_loses_wakeup_witness:
  "\<exists>k k'. sys_fork demo_tables 8 zero_proc zero_frame demo_shell = Done (k, Inr 2) \<and>
     (wx_step demo_tables 8 2 (UserPtr 0x7fffff00) 34 5)\<^sup>*\<^sup>* (k, WCall, XCall) (k', WAsleep 30, XGone) \<and>
     \<not> (\<exists>z. wx_step demo_tables 8 2 (UserPtr 0x7fffff00) 34 5 (k', WAsleep 30, XGone) z)"
proof -
  obtain k rq rp where f: "sys_fork demo_tables 8 zero_proc zero_frame demo_shell = Done (k, Inr 2)"
    "wx_start k 8 11 rq 34 30 rp (UserPtr 0x7fffff00)" "p_pid rp = 2"
    using demo_family_start by blast
  show ?thesis using waitpid_loses_wakeup [OF f(2), unfolded f(3), of demo_tables 5] f(1) by blast
qed

theorem exit_uses_freed_process_witness:
  "\<exists>k k'. sys_fork demo_tables 8 zero_proc zero_frame demo_shell = Done (k, Inr 2) \<and>
     (wx_step demo_tables 8 2 (UserPtr 0x7fffff00) 34 5)\<^sup>*\<^sup>* (k, WCall, XCall) (k', WDone (Inr 2), XLeft 30) \<and>
     proc_lock_acquire 34 30 k' = Panic"
proof -
  obtain k rq rp where f: "sys_fork demo_tables 8 zero_proc zero_frame demo_shell = Done (k, Inr 2)"
    "wx_start k 8 11 rq 34 30 rp (UserPtr 0x7fffff00)" "p_pid rp = 2"
    using demo_family_start by blast
  show ?thesis using exit_uses_freed_process [OF f(2), unfolded f(3), of demo_tables 5] f(1) by auto
qed

end
