(* ===== verification/Dispatch.thy ===== *)
theory Dispatch
  imports ProcCalls
begin

text \<open>
  The entry of the kernel from user mode: the switch over the call numbers and the convention for
  results, \<^verbatim>\<open>kern/arch/mips/syscall/syscall.c\<close>, with the trap handler that calls it
  (\<^verbatim>\<open>kern/arch/mips/locore/trap.c\<close>), \<^verbatim>\<open>reboot\<close> and \<^verbatim>\<open>__time\<close>. The user side of the convention is the
  stub of the C library (\<^verbatim>\<open>userland/lib/libc/arch/mips/syscalls-mips.S\<close>).
\<close>

section \<open>Calls that are not on files or processes\<close>

text \<open>What a call may depend on besides the kernel: uninitialised memory and the clock.\<close>

record inputs =
  in_bytes :: "u8 list"
  in_proc :: proc
  in_sec :: u64
  in_nsec :: u32

definition be_bytes :: "nat \<Rightarrow> nat \<Rightarrow> u8 list" where
  "be_bytes n x = map (\<lambda>i. of_nat (x div 256 ^ i)) (rev [0..<n])"

definition sys___time :: "thread_id \<Rightarrow> inputs \<Rightarrow> nat \<Rightarrow> nat \<Rightarrow> ('d, unit) kop" where
  "sys___time me inp seconds nanoseconds k =
     bindo (user_copyout me (be_bytes 8 (unat (in_sec inp))) seconds k)
       (\<lambda>(k1, r). case r of
          Inl e \<Rightarrow> Done (k1, Inl e)
        | Inr _ \<Rightarrow> user_copyout me (be_bytes 4 (unat (in_nsec inp))) nanoseconds k1)"

abbreviation "RB_REBOOT \<equiv> 0 :: int"
abbreviation "RB_HALT \<equiv> 1 :: int"
abbreviation "RB_POWEROFF \<equiv> 2 :: int"

definition shutdown :: "'d vtables \<Rightarrow> thread_id \<Rightarrow> 'd kernel \<Rightarrow> 'd kernel outcome" where
  "shutdown T me k =
     bindo (on_vfs_only (vfs_clearbootfs T (ctx_of k me)) k)
       (\<lambda>k1. bindo (on_vfs (vfs_clearcurdir T (ctx_of k1 me)) k1)
         (\<lambda>(k2, cwd, _). bindo (curproc k2 me)
           (\<lambda>p. bindo (on_vfs (vfs_unmountall T (ctx_of k2 me)) (upd_proc p (\<lambda>r. r\<lparr>p_cwd := cwd\<rparr>) k2))
             (\<lambda>(k3, _). Done k3))))"

text \<open>A known code shuts the machine down; the call does not return.\<close>

definition sys_reboot :: "'d vtables \<Rightarrow> thread_id \<Rightarrow> int \<Rightarrow> ('d, unit) kop" where
  "sys_reboot T me rcode k =
     (if rcode \<noteq> RB_REBOOT \<and> rcode \<noteq> RB_HALT \<and> rcode \<noteq> RB_POWEROFF then Done (k, Inl EINVAL)
      else bindo (shutdown T me k) (\<lambda>k1. Done (k1, Inr ())))"

section \<open>The switch\<close>

text \<open>
  A call returns an error or the two result words, replaces the program, ends the thread or stops the
  machine.
\<close>

datatype call_result = Returns "(u32 \<times> u32) cres" | NewImage trapframe | Exited | Halted

definition no_value :: "('d kernel \<times> unit cres) outcome \<Rightarrow> ('d kernel \<times> call_result) outcome" where
  "no_value x = bindo x (\<lambda>(k, r). Done (k, Returns (map_sum id (\<lambda>_. (0, 0)) r)))"

definition one_value :: "('d kernel \<times> u32 cres) outcome \<Rightarrow> ('d kernel \<times> call_result) outcome" where
  "one_value x = bindo x (\<lambda>(k, r). Done (k, Returns (map_sum id (\<lambda>v. (v, 0)) r)))"

definition pid_value :: "('d kernel \<times> int cres) outcome \<Rightarrow> ('d kernel \<times> call_result) outcome" where
  "pid_value x = bindo x (\<lambda>(k, r). Done (k, Returns (map_sum id (\<lambda>p. (of_int p, 0)) r)))"

text \<open>
  The kernel reads the fifth argument of \<^verbatim>\<open>lseek\<close> through the stack pointer of the user directly,
  without \<^verbatim>\<open>copyin\<close>: a fault is fatal. What it finds at an address of the kernel is not followed.
\<close>

definition load_word :: "thread_id \<Rightarrow> nat \<Rightarrow> 'd kernel \<Rightarrow> ('d kernel \<times> u32) outcome" where
  "load_word me a k =
     (if a mod 4 \<noteq> 0 \<or> a \<ge> USERSPACETOP then Panic
      else bindo (read_bytes (vm_memops (c_as (ctx_of k me))) a 4 (v_vm (k_vfs k)))
        (\<lambda>(vm, r). case r of
           None \<Rightarrow> Panic
         | Some bs \<Rightarrow> Done (k\<lparr>k_vfs := (k_vfs k)\<lparr>v_vm := vm\<rparr>\<rparr>, of_nat (be32 bs))))"

datatype callno =
    SYS_fork | SYS_execv | SYS__exit | SYS_waitpid | SYS_getpid | SYS_open | SYS_dup2 | SYS_close | SYS_read
  | SYS_write | SYS_lseek | SYS_remove | SYS_chdir | SYS___getcwd | SYS___time | SYS_reboot

definition callno_of :: "u32 \<Rightarrow> callno option" where
  "callno_of n = map_of [(0, SYS_fork), (2, SYS_execv), (3, SYS__exit), (4, SYS_waitpid), (5, SYS_getpid), (45, SYS_open),
     (48, SYS_dup2), (49, SYS_close), (50, SYS_read), (55, SYS_write), (59, SYS_lseek), (68, SYS_remove), (74, SYS_chdir),
     (76, SYS___getcwd), (113, SYS___time), (119, SYS_reboot)] n"

definition do_call :: "'d vtables \<Rightarrow> thread_id \<Rightarrow> inputs \<Rightarrow> trapframe \<Rightarrow> 'd kernel \<Rightarrow> ('d kernel \<times> call_result) outcome" where
  "do_call T me inp tf k =
     (let a0 = unat (tf_a0 tf); a1 = unat (tf_a1 tf); a2 = unat (tf_a2 tf) in
      case callno_of (tf_v0 tf) of
        Some SYS_reboot \<Rightarrow> bindo (sys_reboot T me (sint (tf_a0 tf)) k)
          (\<lambda>(k1, r). Done (k1, case r of Inl e \<Rightarrow> Returns (Inl e) | Inr _ \<Rightarrow> Halted))
      | Some SYS___time \<Rightarrow> no_value (sys___time me inp a0 a1 k)
      | Some SYS_write \<Rightarrow> one_value (sys_write T me (sint (tf_a0 tf)) a1 a2 k)
      | Some SYS_read \<Rightarrow> one_value (sys_read T me (in_bytes inp) (sint (tf_a0 tf)) a1 a2 k)
      | Some SYS_open \<Rightarrow> one_value (sys_open T me a0 (tf_a1 tf) (tf_a2 tf) k)
      | Some SYS_close \<Rightarrow> no_value (sys_close T me (sint (tf_a0 tf)) k)
      | Some SYS_remove \<Rightarrow> no_value (sys_remove a0 k)
      | Some SYS_chdir \<Rightarrow> no_value (sys_chdir T me a0 k)
      | Some SYS_lseek \<Rightarrow> bindo (load_word me (unat (tf_sp tf + 16)) k)
          (\<lambda>(k1, whence). bindo (sys_lseek T me (sint (tf_a0 tf)) (word_cat (tf_a2 tf) (tf_a3 tf)) (sint whence) k1)
            (\<lambda>(k2, r). Done (k2, Returns r)))
      | Some SYS_dup2 \<Rightarrow> one_value (sys_dup2 T me (sint (tf_a0 tf)) (sint (tf_a1 tf)) k)
      | Some SYS___getcwd \<Rightarrow> one_value (sys_getcwd T me a0 a1 k)
      | Some SYS_getpid \<Rightarrow> pid_value (sys_getpid me k)
      | Some SYS_waitpid \<Rightarrow> pid_value (sys_waitpid T me (sint (tf_a0 tf)) (UserPtr a1) (sint (tf_a2 tf)) k)
      | Some SYS__exit \<Rightarrow> bindo (sys_exit me (tf_a0 tf) k) (\<lambda>k1. Done (k1, Exited))
      | Some SYS_fork \<Rightarrow> pid_value (sys_fork T me (in_proc inp) tf k)
      | Some SYS_execv \<Rightarrow> bindo (sys_execv T me (in_bytes inp) a0 a1 k)
          (\<lambda>(k1, r). Done (k1, case r of Inl e \<Rightarrow> Returns (Inl e) | Inr img \<Rightarrow> NewImage img))
      | None \<Rightarrow> Done (k, Returns (Inl ENOSYS)))"

section \<open>Results\<close>

definition finish_call :: "(u32 \<times> u32) cres \<Rightarrow> trapframe \<Rightarrow> trapframe" where
  "finish_call res tf =
     (case res of
        Inl e \<Rightarrow> tf\<lparr>tf_v0 := of_nat (errno_code e), tf_a3 := 1\<rparr>
      | Inr (low, upp) \<Rightarrow> tf\<lparr>tf_v0 := low, tf_v1 := upp, tf_a3 := 0\<rparr>)\<lparr>tf_epc := tf_epc tf + 4\<rparr>"

datatype after_call = Resume trapframe | ThreadGone | MachineOff

definition syscall :: "'d vtables \<Rightarrow> thread_id \<Rightarrow> inputs \<Rightarrow> trapframe \<Rightarrow> 'd kernel \<Rightarrow> ('d kernel \<times> after_call) outcome" where
  "syscall T me inp tf k =
     bindo (do_call T me inp tf k)
       (\<lambda>(k1, res). Done (k1, case res of
          Returns r \<Rightarrow> Resume (finish_call r tf)
        | NewImage img \<Rightarrow> Resume img
        | Exited \<Rightarrow> ThreadGone
        | Halted \<Rightarrow> MachineOff))"

text \<open>
  The stub of the C library behind the \<^verbatim>\<open>syscall\<close> instruction, with \<^verbatim>\<open>errno\<close> as its second argument
  and result.
\<close>

definition syscall_stub :: "trapframe \<Rightarrow> u32 \<Rightarrow> trapframe \<times> u32" where
  "syscall_stub tf errno =
     (if tf_a3 tf = 0 then (tf, errno) else (tf\<lparr>tf_v1 := - 1, tf_v0 := - 1\<rparr>, tf_v0 tf))"

section \<open>Traps\<close>

datatype trapcode = EX_IRQ | EX_MOD | EX_TLBL | EX_TLBS | EX_ADEL | EX_ADES | EX_IBE | EX_DBE | EX_SYS | EX_BP | EX_RI
  | EX_CPU | EX_OVF

definition trapcode_of :: "u32 \<Rightarrow> trapcode option" where
  "trapcode_of cause = map_of (zip [0..<13] [EX_IRQ, EX_MOD, EX_TLBL, EX_TLBS, EX_ADEL, EX_ADES, EX_IBE, EX_DBE, EX_SYS, EX_BP,
     EX_RI, EX_CPU, EX_OVF]) (unat (drop_bit 2 (cause AND 0x3c)))"

definition fault_of :: "trapcode \<Rightarrow> faulttype option" where
  "fault_of code =
     (case code of EX_MOD \<Rightarrow> Some VM_FAULT_READONLY | EX_TLBL \<Rightarrow> Some VM_FAULT_READ | EX_TLBS \<Rightarrow> Some VM_FAULT_WRITE
        | _ \<Rightarrow> None)"

text \<open>
  \<^verbatim>\<open>mips_trap\<close> for everything but interrupts, which are those of the devices. \<open>badfault\<close> is
  \<^verbatim>\<open>tm_badfaultfunc\<close>, set while the kernel copies from or to user memory. A fatal fault of a user
  program stops the kernel: \<^verbatim>\<open>kill_curthread\<close> panics.
\<close>

definition mips_trap :: "'d vtables \<Rightarrow> thread_id \<Rightarrow> inputs \<Rightarrow> nat option \<Rightarrow> trapframe \<Rightarrow> 'd kernel \<Rightarrow>
    ('d kernel \<times> after_call) outcome" where
  "mips_trap T me inp badfault tf k =
     (let iskern = (tf_status tf AND CST_KUp = 0);
          fatal = (\<lambda>k. if \<not> iskern then Panic
                       else case badfault of None \<Rightarrow> Panic | Some f \<Rightarrow> Done (k, Resume (tf\<lparr>tf_epc := of_nat f\<rparr>)))
      in case trapcode_of (tf_cause tf) of
           None \<Rightarrow> Panic
         | Some EX_IRQ \<Rightarrow> Done (k, Resume tf)
         | Some EX_SYS \<Rightarrow> syscall T me inp tf k
         | Some code \<Rightarrow>
             if code = EX_IBE \<or> code = EX_DBE then Panic
             else case fault_of code of
               None \<Rightarrow> fatal k
             | Some ft \<Rightarrow>
                 bindo (vm_fault ft (unat (tf_vaddr tf)) (c_as (ctx_of k me)) (v_vm (k_vfs k)))
                   (\<lambda>r. case r of
                      Inr vm \<Rightarrow> Done (k\<lparr>k_vfs := (k_vfs k)\<lparr>v_vm := vm\<rparr>\<rparr>, Resume tf)
                    | Inl _ \<Rightarrow> fatal k))"

end
