(* ===== verification/Dispatch_Laws.thy ===== *)
theory Dispatch_Laws
  imports Dispatch Fork_Laws Exec_Laws
begin

text \<open>
  The boundary between user programs and the kernel: the convention for the results of system calls, seen from
  both sides, \<^verbatim>\<open>fork\<close> from trap to trap, and what a fault of a user program does.
\<close>

lemma errno_code_nonzero: "errno_code e \<noteq> 0" "errno_code e < 2 ^ 32"
  by (cases e; simp)+

lemma errno_word: "(of_nat (errno_code e) :: u32) \<noteq> 0" "unat (of_nat (errno_code e) :: u32) = errno_code e"
proof -
  show "unat (of_nat (errno_code e) :: u32) = errno_code e"
    using errno_code_nonzero(2) [of e] by (simp add: unat_of_nat)
  then show "(of_nat (errno_code e) :: u32) \<noteq> 0" using errno_code_nonzero(1) [of e] by (metis unat_0)
qed

text \<open>
  C5. The calling convention holds from end to end. Whenever a system call other than \<^verbatim>\<open>execv\<close> resumes the
  program, it does so behind the \<^verbatim>\<open>syscall\<close> instruction with every register but \<^verbatim>\<open>v0\<close>, \<^verbatim>\<open>v1\<close> and \<^verbatim>\<open>a3\<close>
  as it was; the stub of the C library then returns the value of the call and leaves \<^verbatim>\<open>errno\<close> alone, or returns -1 with the
  code of the error, never 0, in \<^verbatim>\<open>errno\<close>. An unknown number changes nothing and gives \<^verbatim>\<open>ENOSYS\<close>.
\<close>

theorem syscall_convention:
  assumes "syscall T me inp tf k = Done (k', Resume tf')" "callno_of (tf_v0 tf) \<noteq> Some SYS_execv"
  shows "\<exists>res. do_call T me inp tf k = Done (k', Returns res) \<and>
    tf' = tf\<lparr>tf_v0 := tf_v0 tf', tf_v1 := tf_v1 tf', tf_a3 := tf_a3 tf', tf_epc := tf_epc tf + 4\<rparr> \<and>
    (case res of
       Inr (low, upp) \<Rightarrow> tf_v0 (fst (syscall_stub tf' err)) = low \<and> tf_v1 (fst (syscall_stub tf' err)) = upp \<and>
         snd (syscall_stub tf' err) = err
     | Inl e \<Rightarrow> tf_v0 (fst (syscall_stub tf' err)) = -1 \<and> unat (snd (syscall_stub tf' err)) = errno_code e \<and>
         snd (syscall_stub tf' err) \<noteq> 0) \<and>
    (callno_of (tf_v0 tf) = None \<longrightarrow> k' = k \<and> res = Inl ENOSYS)"
proof -
  obtain c where c: "do_call T me inp tf k = Done (k', c)"
    "Resume tf' = (case c of Returns r \<Rightarrow> Resume (finish_call r tf) | NewImage img \<Rightarrow> Resume img | Exited \<Rightarrow> ThreadGone | Halted \<Rightarrow> MachineOff)"
    using assms(1) by (auto simp: syscall_def)
  have "c \<noteq> NewImage img" for img
    using c(1) assms(2) unfolding do_call_def no_value_def one_value_def pid_value_def Let_def
    by (auto split: option.splits callno.splits sum.splits prod.splits)
  then obtain res where res: "c = Returns res" "tf' = finish_call res tf" using c(2) by (cases c) auto
  have "k' = k \<and> res = Inl ENOSYS" if "callno_of (tf_v0 tf) = None" using c(1) res(1) that by (simp add: do_call_def)
  moreover have "tf' = tf\<lparr>tf_v0 := tf_v0 tf', tf_v1 := tf_v1 tf', tf_a3 := tf_a3 tf', tf_epc := tf_epc tf + 4\<rparr>"
    unfolding res(2) by (cases res; cases tf) (auto simp: finish_call_def)
  ultimately show ?thesis
    using c(1) res errno_word by (cases res) (auto simp: finish_call_def syscall_stub_def)
qed

text \<open>
  C15. \<^verbatim>\<open>fork\<close> returns twice. From the trap of the parent on, the parent resumes with the pid of the child
  as its result, and the thread made for the child, when it runs, enters user mode at the same place with
  the result 0; both see success, and all other registers but \<^verbatim>\<open>v1\<close> are the same in both.
\<close>

theorem fork_returns_twice:
  assumes "trapcode_of (tf_cause tf) = Some EX_SYS" "callno_of (tf_v0 tf) = Some SYS_fork"
    and "can_fork T me q rf i vn tname k" "p_addrspace rf = Some as" "as_copy as [] (v_vm (k_vfs k)) = Done (vm, [], Inr new)"
  shows "\<exists>k' t tfp tfc k''. mips_trap T me inp badfault tf k = Done (k', Resume tfp) \<and>
    k_ready k' = k_ready k @ [(t, EnterForked tf)] \<and> thread_start T t junk (EnterForked tf) k' = Done (k'', Inr tfc) \<and>
    sint (tf_v0 tfp) = i \<and> tf_v0 tfc = 0 \<and> tf_a3 tfp = 0 \<and> tf_a3 tfc = 0 \<and> tf_epc tfp = tf_epc tf + 4 \<and>
    tfc\<lparr>tf_v0 := tf_v0 tfp, tf_v1 := tf_v1 tfp\<rparr> = tfp"
proof -
  note d = can_forkD [OF assms(3)]
  let ?k = "forked q rf i (in_proc inp) vn new vm tf tname k"
  have i: "0 < i" "i \<le> 100" using d(12) by (auto simp: slot_def)
  have "sint (of_int i :: u32) = i" using i by (simp add: signed_of_int signed_take_bit_int_eq_self)
  then show ?thesis
    using sys_fork_run [OF assms(3-5), of "in_proc inp" tf] assms(1,2)
    by (intro exI [of _ ?k] exI [of _ "k_next k + 4"])
      (simp add: mips_trap_def syscall_def do_call_def pid_value_def finish_call_def thread_start_def
        enter_forked_process_def, simp add: forked_def)
qed

text \<open>
  C40. A fault of a user program stops the whole system: when a program reads or writes an address that its
  address space does not map, the kernel panics instead of ending the program.
\<close>

theorem user_fault_stops_kernel:
  assumes "trapcode_of (tf_cause tf) = Some code" "code = EX_TLBL \<or> code = EX_TLBS" "tf_status tf AND CST_KUp \<noteq> 0"
    and "k_tproc k me = Some p" "k_procs k p = Some r" "p_addrspace r = Some as" "as_wf as" "as_translate as (unat (tf_vaddr tf)) = None"
  shows "mips_trap T me inp badfault tf k = Panic"
proof -
  have "as_set_up as" "vm_fault_paddr as (page_frame (unat (tf_vaddr tf))) = None"
    using assms(7,8) by (simp_all add: as_wf_def as_translate_def)
  then have "vm_fault ft (unat (tf_vaddr tf)) (Some as) s = Done (Inl EFAULT)" if "ft = VM_FAULT_READ \<or> ft = VM_FAULT_WRITE" for ft s
    using that by (auto simp: vm_fault_def)
  moreover have "c_as (ctx_of k me) = Some as" using assms(4-6) by (simp add: ctx_of_def)
  ultimately show ?thesis using assms(1-3) by (auto simp: mips_trap_def fault_of_def)
qed

section \<open>Witnesses\<close>

definition demo_inputs :: inputs where
  "demo_inputs = \<lparr>in_bytes = [], in_proc = zero_proc, in_sec = 0, in_nsec = 0\<rparr>"

theorem syscall_convention_witness:
  "\<exists>tf'. syscall demo_tables 8 demo_inputs (zero_frame\<lparr>tf_v0 := 5\<rparr>) demo_shell = Done (demo_shell, Resume tf') \<and> tf_epc tf' = 4 \<and>
     tf_v0 (fst (syscall_stub tf' 7)) = 1 \<and> snd (syscall_stub tf' 7) = 7"
proof -
  let ?tf = "zero_frame\<lparr>tf_v0 := 5\<rparr>"
  have n: "callno_of (tf_v0 ?tf) = Some SYS_getpid" by (simp add: callno_of_def)
  have c: "do_call demo_tables 8 demo_inputs ?tf demo_shell = Done (demo_shell, Returns (Inr (1, 0)))"
    using n demo_shell_fields(1,2,10)
    by (simp add: do_call_def pid_value_def sys_getpid_def curproc_def get_proc_def)
  then obtain tf' where r: "syscall demo_tables 8 demo_inputs ?tf demo_shell = Done (demo_shell, Resume tf')"
    by (simp add: syscall_def)
  have e: "tf' = ?tf\<lparr>tf_v0 := tf_v0 tf', tf_v1 := tf_v1 tf', tf_a3 := tf_a3 tf', tf_epc := tf_epc ?tf + 4\<rparr>"
    "tf_v0 (fst (syscall_stub tf' 7)) = 1" "snd (syscall_stub tf' 7) = 7"
    using syscall_convention [OF r, of 7] n c by auto
  have "tf_epc tf' = 4" using arg_cong [OF e(1), of tf_epc] by (simp add: zero_frame_def)
  then show ?thesis using r e(2,3) by blast
qed

theorem fork_returns_twice_witness:
  "\<exists>k' tfp. mips_trap demo_tables 8 demo_inputs None (zero_frame\<lparr>tf_cause := 32\<rparr>) demo_shell = Done (k', Resume tfp) \<and> sint (tf_v0 tfp) = 2"
proof -
  obtain vm new where cp: "as_copy demo_as [] (v_vm (k_vfs demo_shell)) = Done (vm, [], Inr new)" using demo_shell_copy by blast
  let ?tf = "zero_frame\<lparr>tf_cause := 32\<rparr>"
  have "trapcode_of (tf_cause ?tf) = Some EX_SYS" "callno_of (tf_v0 ?tf) = Some SYS_fork"
    by (simp_all add: trapcode_of_def callno_of_def zero_frame_def drop_bit_eq_div upt_rec)
  then show ?thesis using fork_returns_twice [OF _ _ demo_can_fork demo_shell_fields(8) cp] by blast
qed

theorem user_fault_stops_kernel_witness:
  "mips_trap demo_tables 8 demo_inputs None (zero_frame\<lparr>tf_cause := 8, tf_status := CST_KUp\<rparr>) demo_shell = Panic"
proof -
  let ?tf = "zero_frame\<lparr>tf_cause := 8, tf_status := CST_KUp\<rparr>"
  have c: "trapcode_of (tf_cause ?tf) = Some EX_TLBL" "tf_status ?tf AND CST_KUp \<noteq> 0"
    by (simp_all add: trapcode_of_def drop_bit_eq_div upt_rec)
  have "as_translate demo_as (unat (tf_vaddr ?tf)) = None"
    unfolding as_translate_region [OF demo_as_wf(1)] by (simp add: as_region_def demo_as_def zero_frame_def)
  then show ?thesis
    using user_fault_stops_kernel [OF c(1) _ c(2), of demo_shell 8 11 demo_shell_proc demo_as] demo_shell_fields demo_as_wf(1) by simp
qed

end
