(* ===== verification/Spec2Isabelle.thy ===== *)
theory Spec2Isabelle
  imports OS_Prelude LibString LibPrintf ThreadList Sched Sched_Laws Sched_Run Synch Bitmap Vm Addrspace UserMem ArgBuf Uio Console Vnode Vfs Vfs_Laws
    Kmalloc Kmalloc_Laws Kmalloc_Free Kmalloc_Sections Kmalloc_Run
    Proc Proc_Laws Files Files_Laws Files_Refs Files_Open
    Exec Exec_Laws ProcCalls WaitExit Fork_Laws Dispatch Dispatch_Laws
begin

text \<open>
  A verification library for OS/161 with the shell project (\<^verbatim>\<open>src/os161-base-2.0.3\<close>): the kernel that
  is built with the options \<^verbatim>\<open>dumbvm\<close> and \<^verbatim>\<open>shell\<close>, and the parts of the C library that kernel and user
  programs share.

  \<^bold>\<open>The program.\<close>  A user program enters the kernel through a trap (\<^verbatim>\<open>locore/trap.c\<close>), which the dispatcher
  (\<^verbatim>\<open>arch/mips/syscall/syscall.c\<close>) turns into a call of one of the handlers in \<^verbatim>\<open>kern/syscall\<close>.  The handlers
  on files work on the file table of the process and the table of open files of the system, and
  reach devices and file systems through vnodes and the virtual file system (\<^verbatim>\<open>kern/vfs\<close>), moving
  data with \<^verbatim>\<open>uio\<close> and \<^verbatim>\<open>copyin\<close>/\<^verbatim>\<open>copyout\<close>.  The handlers on processes work on the process table (\<^verbatim>\<open>kern/proc\<close>),
  on address spaces (\<^verbatim>\<open>dumbvm.c\<close>) and on threads.  Threads are run by the scheduler (\<^verbatim>\<open>kern/thread\<close>) and
  synchronize with spinlocks, semaphores, locks and condition variables.

  \<^bold>\<open>Conventions.\<close>  A kernel routine has type \<open>state \<Rightarrow> (state \<times> result) outcome\<close>: \<open>Done\<close> when it returns,
  \<open>Panic\<close> for a panic, a failed assertion or a bad pointer, \<open>Block\<close> when it waits for another thread.
  An error number is \<open>Inl\<close>, a value \<open>Inr\<close>.  Code under a lock, or with interrupts off, is one atomic
  section; where code gives up its lock, the routine is split there, and the interleavings
  are step relations over the sections.  \<open>memsupply\<close> decides which calls of \<^verbatim>\<open>kmalloc\<close> fail.  File systems
  and devices that are not modelled are the parameter \<open>T\<close> of the file layer, a table of operations
  for each kind of vnode.  Integers are words, or numbers with the wrap-around written out where
  the code can reach it.

  \<^bold>\<open>Theories, with the code they model and what they show.\<close>

    \<^item> \<open>OS_Prelude\<close>: error numbers (\<^verbatim>\<open>kern/errno.h\<close>), outcomes, \<^verbatim>\<open>kmalloc\<close> as its users see it.

    \<^item> \<open>LibString\<close> (\<^verbatim>\<open>common/libc/string\<close>, \<^verbatim>\<open>atoi.c\<close>): \<^verbatim>\<open>memmove\<close> moves bytes whatever the overlap and alignment,
      \<^verbatim>\<open>strtok_r\<close> finds the words of a string, the other functions meet their specification on strings.

    \<^item> \<open>LibPrintf\<close> (\<^verbatim>\<open>common/libc/printf\<close>): formatting is safe for arguments of the right types, \<^verbatim>\<open>snprintf\<close> stays in
      its buffer, and \<^verbatim>\<open>atoi\<close> reads back what \<^verbatim>\<open>%d\<close> prints.

    \<^item> \<open>Synch\<close> (\<^verbatim>\<open>spinlock.c\<close>, \<^verbatim>\<open>synch.c\<close>, the wait channels of \<^verbatim>\<open>thread.c\<close>): locks exclude, semaphores
      conserve their count and strand no waiter, in every interleaving; no legal call of a monitor fails.

    \<^item> \<open>ThreadList\<close> (\<^verbatim>\<open>threadlist.c\<close>): the linked lists with sentinels behave as plain lists.

    \<^item> \<open>Sched\<close>, \<open>Sched_Laws\<close>, \<open>Sched_Run\<close> (\<^verbatim>\<open>thread.c\<close>, \<^verbatim>\<open>clock.c\<close>): switching, sleeping, waking, migration and
      interprocessor interrupts on any number of processors.  Every thread is in one place, no
      assertion fails, no wake-up of an idle processor is lost, the run queue is served in turn.

    \<^item> \<open>Bitmap\<close> (\<^verbatim>\<open>kern/lib/bitmap.c\<close>): the bit arrays implement finite sets.

    \<^item> \<open>Vm\<close>, \<open>Addrspace\<close> (\<^verbatim>\<open>ram.c\<close>, \<^verbatim>\<open>dumbvm.c\<close>): the frame allocator hands out disjoint blocks, faults install the
      translation of the address space, \<^verbatim>\<open>as_copy\<close> duplicates memory.

    \<^item> \<open>UserMem\<close>, \<open>ArgBuf\<close>, \<open>Uio\<close> (\<^verbatim>\<open>copyinout.c\<close>, the argument buffers of \<^verbatim>\<open>exec.c\<close>, \<^verbatim>\<open>uio.c\<close>): data between
      kernel and user memory; the arguments of \<^verbatim>\<open>execv\<close> arrive unchanged.

    \<^item> \<open>Console\<close> (\<^verbatim>\<open>console.c\<close>), \<open>Vnode\<close> (\<^verbatim>\<open>vnode.c\<close>, \<^verbatim>\<open>device.c\<close>, \<^verbatim>\<open>devnull.c\<close>, \<^verbatim>\<open>vfsfail.c\<close>), \<open>Vfs\<close>, \<open>Vfs_Laws\<close>
      (\<^verbatim>\<open>vfslist.c\<close>, \<^verbatim>\<open>vfslookup.c\<close>, \<^verbatim>\<open>vfspath.c\<close>, \<^verbatim>\<open>vfscwd.c\<close>): the input ring is a queue, vnode reference
      counts, the list of devices, how a path selects its device and file system.

    \<^item> \<open>Proc\<close>, \<open>Proc_Laws\<close> (\<^verbatim>\<open>proc.c\<close>): the process table, pids and the family relation.

    \<^item> \<open>Files\<close>, \<open>Files_Laws\<close>, \<open>Files_Refs\<close>, \<open>Files_Open\<close> (\<^verbatim>\<open>syscall_FILE.c\<close>): the calls on files, with the
      reference counts of open files.

    \<^item> \<open>Exec\<close>, \<open>Exec_Laws\<close> (\<^verbatim>\<open>loadelf.c\<close>, \<^verbatim>\<open>exec.c\<close>, \<^verbatim>\<open>runprogram.c\<close>): a failed \<^verbatim>\<open>execv\<close> leaves the process as it was.

    \<^item> \<open>ProcCalls\<close>, \<open>WaitExit\<close>, \<open>Fork_Laws\<close> (\<^verbatim>\<open>syscall_PROC.c\<close>, parts of \<^verbatim>\<open>menu.c\<close>): \<^verbatim>\<open>fork\<close>, \<^verbatim>\<open>_exit\<close> and
      \<^verbatim>\<open>waitpid\<close> together, with the schedules in which they go wrong.

    \<^item> \<open>Dispatch\<close>, \<open>Dispatch_Laws\<close> (\<^verbatim>\<open>syscall.c\<close>, \<^verbatim>\<open>trap.c\<close>, the stubs of the C library): the calling convention end to
      end, \<^verbatim>\<open>fork\<close> returns twice, what a fault of a user program does.

  \<^bold>\<open>Bounds and loops.\<close>  Loops are recursive functions with termination proofs; loops over
  null-terminated strings or linked structures are partial functions with lemmas that they
  return; nothing is cut off by fuel.  Table sizes are those of the source.

  \<^bold>\<open>Not modelled.\<close>  Assembly (\<^verbatim>\<open>start.S\<close>, \<^verbatim>\<open>exception-mips1.S\<close>, \<^verbatim>\<open>switch.S\<close>, \<^verbatim>\<open>tlb-mips161.S\<close>) and the
  processor set-up in \<^verbatim>\<open>cpu.c\<close>: below the level of C.  The bus and its devices (\<^verbatim>\<open>kern/dev/lamebus\<close>): register
  accesses whose meaning is that of the hardware.  The file systems \<^verbatim>\<open>sfs\<close>, \<^verbatim>\<open>semfs\<close> and the emulator file
  system: they enter through the parameter \<open>T\<close>.  The kernel's tests, the menu apart from the commands
  that start programs, deadlock detection (off in this configuration), the user programs and the host tools.
\<close>

end
